(* ===== verification/Prelude.thy ===== *)
theory Prelude
  imports Main "HOL-Library.Word"
begin

unbundle bit_operations_syntax

text \<open>
  The shared layer of the development. It names the machine types of the kernel
  (\<open>uint8_t\<close> to \<open>uint64_t\<close>, \<open>size_t\<close>), writes out the 64-bit wrap-around of
  \<open>size_t\<close> arithmetic on natural numbers, gives the two loop shapes the C code uses
  everywhere (a scan of a fixed table for the first slot with a property, and a counted loop
  over indices) and collects the lemmas on them that the component theories rest on.
\<close>

section \<open>Machine types\<close>

type_synonym u8 = "8 word"
type_synonym u16 = "16 word"
type_synonym u32 = "32 word"
type_synonym u64 = "64 word"

named_theorems slot_simps \<open>facts about table scans\<close>
named_theorems links_simps \<open>facts about chains of list nodes\<close>

text \<open>The value a \<open>size_t\<close> or \<open>uint64_t\<close> expression holds after wrapping.\<close>

definition wrap64 :: "nat \<Rightarrow> nat" where
  "wrap64 n = n mod 2 ^ 64"

lemma wrap64_small [simp]: "n < 2 ^ 64 \<Longrightarrow> wrap64 n = n"
  by (simp add: wrap64_def)

lemma wrap64_bound [simp]: "wrap64 n < 2 ^ 64"
  by (simp add: wrap64_def)

lemma wrap64_bound_numeral [simp]: "wrap64 n < 18446744073709551616"
  using wrap64_bound[of n] by simp

text \<open>Subtraction of \<open>uint64_t\<close> values.\<close>

definition sub64 :: "nat \<Rightarrow> nat \<Rightarrow> nat" where
  "sub64 a b = wrap64 (a + (2 ^ 64 - b))"

lemma sub64_small [simp]:
  assumes "b \<le> a" "a < 2 ^ 64"
  shows "sub64 a b = a - b"
proof -
  have "a + (2 ^ 64 - b) = (a - b) + 2 ^ 64" using assms by simp
  then have "sub64 a b = (a - b) mod 2 ^ 64" by (simp only: sub64_def wrap64_def mod_add_self2)
  then show ?thesis using assms by simp
qed

lemma wrap64_le: "wrap64 n \<le> n"
  by (simp add: wrap64_def)

text \<open>The value of a conversion to \<open>int\<close> or \<open>int32_t\<close>.\<close>

definition int32 :: "int \<Rightarrow> int" where
  "int32 x = (x + 2 ^ 31) mod 2 ^ 32 - 2 ^ 31"

lemma int32_small [simp]: "- (2 ^ 31) \<le> x \<Longrightarrow> x < 2 ^ 31 \<Longrightarrow> int32 x = x"
  by (simp add: int32_def)

abbreviation INT32_MAX :: int where
  "INT32_MAX \<equiv> 2147483647"

section \<open>Rounding up to a power of two\<close>

text \<open>
  \<open>while (p < v) p <<= 1\<close> of \<open>lib/kfifo.c\<close> and \<open>lib/hashtable.c\<close>: the shift drops the top bit, so
  the loop ends only when a power of two below \<open>2 ^ 64\<close> reaches \<open>v\<close>.
\<close>

partial_function (option) pow2_loop :: "nat \<Rightarrow> nat \<Rightarrow> nat option" where
  "pow2_loop v p = (if p < v then pow2_loop v (wrap64 (p * 2)) else Some p)"

lemma pow2_loop_from:
  assumes "v \<le> 2 ^ 63" "j \<le> 63" "\<forall>i < j. 2 ^ i < v"
  shows "\<exists>k \<le> 63. pow2_loop v (2 ^ j) = Some (2 ^ k) \<and> v \<le> 2 ^ k \<and> (\<forall>i < k. 2 ^ i < v)"
  using assms
proof (induction "63 - j" arbitrary: j)
  case 0
  then show ?case by (intro exI[of _ 63]) (subst pow2_loop.simps, simp)
next
  case (Suc d)
  show ?case
  proof (cases "2 ^ j < v")
    case True
    have "wrap64 (2 ^ j * 2) = 2 ^ Suc j"
      using Suc.hyps(2) power_strict_increasing[of "Suc j" 64 "2 :: nat"] by (subst wrap64_small) auto
    then have "pow2_loop v (2 ^ j) = pow2_loop v (2 ^ Suc j)" using True by (subst pow2_loop.simps) simp
    moreover have "\<forall>i < Suc j. 2 ^ i < v" using True Suc.prems(3) less_Suc_eq by auto
    ultimately show ?thesis using Suc.hyps(1)[of "Suc j"] Suc.hyps(2) Suc.prems(1) by auto
  next
    case False
    then show ?thesis using Suc.prems by (intro exI[of _ j]) (subst pow2_loop.simps, simp)
  qed
qed

lemma pow2_loop_total:
  assumes "v \<le> 2 ^ 63"
  shows "\<exists>k \<le> 63. pow2_loop v 1 = Some (2 ^ k) \<and> v \<le> 2 ^ k \<and> (\<forall>i < k. 2 ^ i < v)"
  using pow2_loop_from[OF assms, of 0] by simp

text \<open>Above \<open>2 ^ 63\<close> the shifted value becomes 0 and the loop never ends.\<close>

lemma pow2_loop_result:
  assumes "pow2_loop v p = Some r" "p = 0 \<or> (\<exists>k < 64. p = 2 ^ k)"
  shows "v \<le> r \<and> (r = 0 \<or> (\<exists>k < 64. r = 2 ^ k))"
  using assms(2)
proof (induction rule: pow2_loop.raw_induct[OF _ assms(1), consumes 0, case_names step])
  case (step f v p r)
  have "wrap64 (p * 2) = 0 \<or> (\<exists>k < 64. wrap64 (p * 2) = 2 ^ k)"
  proof (cases "p = 0")
    case False
    then obtain k where k: "k < 64" "p = 2 ^ k" using step.prems by auto
    show ?thesis
    proof (cases "k = 63")
      case False
      then have "wrap64 (p * 2) = 2 ^ Suc k"
        using k power_strict_increasing[of "Suc k" 64 "2 :: nat"] by (subst wrap64_small) auto
      then show ?thesis using k False by (intro disjI2 exI[of _ "Suc k"]) simp
    qed (simp add: k wrap64_def)
  qed (simp add: wrap64_def)
  then show ?case using step by (auto split: if_splits)
qed

lemma pow2_loop_diverges:
  assumes "2 ^ 63 < v"
  shows "pow2_loop v 1 = None"
proof (rule ccontr)
  assume "pow2_loop v 1 \<noteq> None"
  then obtain r where "pow2_loop v 1 = Some r" by auto
  then have "v \<le> r \<and> (r = 0 \<or> (\<exists>k < 64. r = 2 ^ k))"
    by (rule pow2_loop_result) (auto intro: exI[of _ 0])
  then obtain k where k: "k < 64" "v \<le> 2 ^ k" using assms by auto
  then have "(2 :: nat) ^ k \<le> 2 ^ 63" by (intro power_increasing) auto
  then show False using assms k by simp
qed

section \<open>Scanning a table\<close>

text \<open>
  \<open>for (i = 0; i < N; i++) if (P(table[i])) ...\<close>: the index of the first slot that
  satisfies \<open>P\<close>.
\<close>

fun find_slot :: "('a \<Rightarrow> bool) \<Rightarrow> 'a list \<Rightarrow> nat option" where
  "find_slot P [] = None"
| "find_slot P (x # xs) = (if P x then Some 0 else map_option Suc (find_slot P xs))"

lemma find_slot_None [slot_simps]:
  "find_slot P xs = None \<longleftrightarrow> (\<forall>i < length xs. \<not> P (xs ! i))"
proof (induction xs)
  case (Cons x xs)
  show ?case
  proof
    assume "find_slot P (x # xs) = None"
    with Cons.IH have "\<not> P x" "\<forall>i < length xs. \<not> P (xs ! i)"
      by (auto split: if_splits)
    then show "\<forall>i < length (x # xs). \<not> P ((x # xs) ! i)"
      by (auto simp: nth_Cons split: nat.split)
  next
    assume *: "\<forall>i < length (x # xs). \<not> P ((x # xs) ! i)"
    from *[rule_format, of 0] have "\<not> P x" by simp
    moreover have "\<forall>i < length xs. \<not> P (xs ! i)"
      using * by (metis Suc_less_eq length_Cons nth_Cons_Suc)
    ultimately show "find_slot P (x # xs) = None" using Cons.IH by simp
  qed
qed simp

lemma find_slot_Some [slot_simps]:
  "find_slot P xs = Some i \<longleftrightarrow> i < length xs \<and> P (xs ! i) \<and> (\<forall>j < i. \<not> P (xs ! j))"
proof (induction xs arbitrary: i)
  case (Cons x xs)
  show ?case
    by (cases i) (auto simp: Cons.IH All_less_Suc2 split: if_splits)
qed simp

lemma find_slot_SomeD:
  assumes "find_slot P xs = Some i"
  shows "i < length xs" "P (xs ! i)" "\<And>j. j < i \<Longrightarrow> \<not> P (xs ! j)"
  using assms by (auto simp: find_slot_Some)

lemma find_slot_ex: "i < length xs \<Longrightarrow> P (xs ! i) \<Longrightarrow> \<exists>j. find_slot P xs = Some j"
  by (metis find_slot_None not_None_eq)

lemma find_slot_cong:
  assumes "length xs = length ys" "\<And>i. i < length xs \<Longrightarrow> P (xs ! i) = Q (ys ! i)"
  shows "find_slot P xs = find_slot Q ys"
proof (cases "find_slot Q ys")
  case None
  then have "find_slot P xs = None" using assms by (simp add: find_slot_None)
  with None show ?thesis by simp
next
  case (Some i)
  then have "find_slot P xs = Some i" using assms by (auto simp: find_slot_Some)
  with Some show ?thesis by simp
qed

section \<open>Updating one slot\<close>

text \<open>\<open>table[i].field = v\<close>: apply an update to slot \<open>i\<close>.\<close>

definition upd_slot :: "nat \<Rightarrow> ('a \<Rightarrow> 'a) \<Rightarrow> 'a list \<Rightarrow> 'a list" where
  "upd_slot i f xs = xs[i := f (xs ! i)]"

lemma length_upd_slot [simp]: "length (upd_slot i f xs) = length xs"
  by (simp add: upd_slot_def)

lemma nth_upd_slot: "j < length xs \<Longrightarrow> upd_slot i f xs ! j = (if j = i then f (xs ! j) else xs ! j)"
  by (auto simp: upd_slot_def nth_list_update)

lemma nth_upd_slot_eq [simp]: "i < length xs \<Longrightarrow> upd_slot i f xs ! i = f (xs ! i)"
  by (simp add: nth_upd_slot)

lemma nth_upd_slot_neq [simp]: "j \<noteq> i \<Longrightarrow> upd_slot i f xs ! j = xs ! j"
  by (simp add: upd_slot_def)

text \<open>How many slots satisfy \<open>P\<close>: what the kernel's occupancy counters count.\<close>

definition count_slots :: "('a \<Rightarrow> bool) \<Rightarrow> 'a list \<Rightarrow> nat" where
  "count_slots P xs = length (filter P xs)"

lemma count_slots_le: "count_slots P xs \<le> length xs"
  by (simp add: count_slots_def)

lemma count_slots_update:
  assumes "i < length xs"
  shows "count_slots P (xs[i := y]) + (if P (xs ! i) then 1 else 0)
       = count_slots P xs + (if P y then 1 else 0)"
proof -
  define a z b where "a = take i xs" and "z = xs ! i" and "b = drop (Suc i) xs"
  have "xs = a @ z # b"
    using assms unfolding a_def z_def b_def by (rule id_take_nth_drop)
  moreover have "xs[i := y] = a @ y # b"
    using assms unfolding a_def b_def by (rule upd_conv_take_nth_drop)
  ultimately show ?thesis unfolding count_slots_def z_def[symmetric] by simp
qed

lemma count_slots_pos: "i < length xs \<Longrightarrow> P (xs ! i) \<Longrightarrow> 0 < count_slots P xs"
  by (auto simp: count_slots_def length_filter_conv_card card_gt_0_iff)

lemma count_slots_full: "(\<forall>i < length xs. P (xs ! i)) \<Longrightarrow> count_slots P xs = length xs"
  by (simp add: count_slots_def filter_id_conv all_set_conv_all_nth)

lemma count_slots_replicate [simp]: "count_slots P (replicate n x) = (if P x then n else 0)"
  by (simp add: count_slots_def)

section \<open>C strings\<close>

text \<open>
  A NUL-terminated buffer is modelled by the characters before its terminator.
  \<open>strncpy(dst, src, N - 1)\<close> into a zeroed \<open>char dst[N]\<close> keeps at most \<open>N - 1\<close> of them.
\<close>

definition cstr_ncopy :: "nat \<Rightarrow> string \<Rightarrow> string" where
  "cstr_ncopy n s = take (n - 1) s"

lemma length_cstr_ncopy [simp]: "0 < n \<Longrightarrow> length (cstr_ncopy n s) < n"
  by (auto simp: cstr_ncopy_def)

lemma cstr_ncopy_id: "length s < n \<Longrightarrow> cstr_ncopy n s = s"
  by (simp add: cstr_ncopy_def)

lemma cstr_ncopy_idem [simp]: "cstr_ncopy n (cstr_ncopy n s) = cstr_ncopy n s"
  by (simp add: cstr_ncopy_def)

end
