(* ===== verification/Links.thy ===== *)
theory Links
  imports Prelude
begin

text \<open>
  Doubly linked chains. The kernel links objects through \<open>next\<close> and \<open>prev\<close> pointers in two
  places: the intrusive circular lists of \<open>include/lib/list.h\<close> and the NULL-terminated block
  list of \<open>mm/kmalloc.c\<close>. Both are a store of nodes; a chain is described by the list of the
  nodes it visits. Pointers are options, \<open>None\<close> being NULL.
\<close>

section \<open>Chains\<close>

abbreviation hd_or :: "'a list \<Rightarrow> 'a option \<Rightarrow> 'a option" where
  "hd_or xs n \<equiv> (if xs = [] then n else Some (hd xs))"

abbreviation last_or :: "'a option \<Rightarrow> 'a list \<Rightarrow> 'a option" where
  "last_or p xs \<equiv> (if xs = [] then p else Some (last xs))"

primrec links :: "('a \<Rightarrow> 'a option) \<Rightarrow> ('a \<Rightarrow> 'a option) \<Rightarrow> 'a option \<Rightarrow> 'a list \<Rightarrow> 'a option \<Rightarrow> bool" where
  "links nx pv p [] n = True"
| "links nx pv p (x # xs) n = (pv x = p \<and> nx x = hd_or xs n \<and> links nx pv (Some x) xs n)"

lemma links_append [links_simps]:
  "links nx pv p (xs @ ys) n \<longleftrightarrow>
     links nx pv p xs (hd_or ys n) \<and> links nx pv (last_or p xs) ys n"
  by (induction xs arbitrary: p) auto

lemma links_cong:
  assumes "\<And>x. x \<in> set xs \<Longrightarrow> nx x = nx' x" "\<And>x. x \<in> set xs \<Longrightarrow> pv x = pv' x"
  shows "links nx pv p xs n = links nx' pv' p xs n"
  using assms by (induction xs arbitrary: p) auto

lemma links_next:
  "links nx pv p (xs @ x # ys) n \<Longrightarrow> nx x = hd_or ys n"
  by (simp add: links_simps)

lemma links_prev:
  "links nx pv p (xs @ x # ys) n \<Longrightarrow> pv x = last_or p xs"
  by (simp add: links_simps)

text \<open>Only the first node looks at the chain's left end, only the last one at its right end.\<close>

lemma links_new_left:
  assumes "xs \<noteq> []" "distinct xs" "links nx pv p xs n"
  shows "links nx (pv(hd xs := q)) q xs n"
proof -
  obtain y ys where xs: "xs = y # ys" using assms(1) by (cases xs) auto
  have "links nx (pv(y := q)) (Some y) ys n = links nx pv (Some y) ys n"
    using assms(2) xs by (intro links_cong) auto
  then show ?thesis using assms(3) xs by simp
qed

lemma links_new_right:
  assumes "xs \<noteq> []" "distinct xs" "links nx pv p xs n"
  shows "links (nx(last xs := m)) pv p xs m"
proof -
  obtain ys y where xs: "xs = ys @ [y]" using assms(1) by (cases xs rule: rev_cases) auto
  have "links (nx(y := m)) pv p ys (Some y) = links nx pv p ys (Some y)"
    using assms(2) xs by (intro links_cong) auto
  then show ?thesis using assms(3) xs by (simp add: links_simps)
qed

text \<open>Inserting a node after \<open>c\<close>, dropping the node after \<open>c\<close>, and appending a node.\<close>

lemma links_insert:
  assumes "links nx pv p (xs @ c # ys) n" "distinct (xs @ c # ys)"
    and "nx' c = Some d" "nx' d = hd_or ys n" "pv' c = pv c" "pv' d = Some c"
    and "\<And>x. x \<in> set xs \<union> set ys \<Longrightarrow> nx' x = nx x"
    and "\<And>x. x \<in> set xs \<union> set (tl ys) \<Longrightarrow> pv' x = pv x"
    and "ys \<noteq> [] \<Longrightarrow> pv' (hd ys) = Some d"
  shows "links nx' pv' p (xs @ c # d # ys) n"
proof -
  have "links nx' pv' p xs (Some c) = links nx pv p xs (Some c)"
    using assms(7,8) by (intro links_cong) auto
  moreover have "links nx' pv' (Some d) ys n"
  proof (cases ys)
    case (Cons y zs)
    then have "links nx' pv' (Some y) zs n = links nx pv (Some y) zs n"
      using assms(7,8) by (intro links_cong) auto
    then show ?thesis using assms(1,7,9) Cons by (auto simp: links_simps)
  qed simp
  ultimately show ?thesis using assms(1,3-6) by (auto simp: links_simps)
qed

lemma links_remove:
  assumes "links nx pv p (xs @ c # d # ys) n"
    and "nx' c = nx d" "pv' c = pv c"
    and "\<And>x. x \<in> set xs \<union> set ys \<Longrightarrow> nx' x = nx x"
    and "\<And>x. x \<in> set xs \<union> set (tl ys) \<Longrightarrow> pv' x = pv x"
    and "ys \<noteq> [] \<Longrightarrow> pv' (hd ys) = Some c"
  shows "links nx' pv' p (xs @ c # ys) n"
proof -
  have "links nx' pv' p xs (Some c) = links nx pv p xs (Some c)"
    using assms(4,5) by (intro links_cong) auto
  moreover have "links nx' pv' (Some c) ys n"
  proof (cases ys)
    case (Cons y zs)
    then have "links nx' pv' (Some y) zs n = links nx pv (Some y) zs n"
      using assms(4,5) by (intro links_cong) auto
    then show ?thesis using assms(1,4,6) Cons by (auto simp: links_simps)
  qed simp
  ultimately show ?thesis using assms(1-3) by (auto simp: links_simps)
qed

lemma links_snoc:
  assumes "links nx pv p xs n"
    and "nx' d = n'" "pv' d = last_or p xs"
    and "\<And>x. x \<in> set (butlast xs) \<Longrightarrow> nx' x = nx x"
    and "\<And>x. x \<in> set xs \<Longrightarrow> pv' x = pv x"
    and "xs \<noteq> [] \<Longrightarrow> nx' (last xs) = Some d"
  shows "links nx' pv' p (xs @ [d]) n'"
proof (cases xs rule: rev_cases)
  case Nil
  then show ?thesis using assms(2,3) by simp
next
  case (snoc zs z)
  have "links nx' pv' p zs (Some z) = links nx pv p zs (Some z)"
    using assms(4,5) snoc by (intro links_cong) auto
  then show ?thesis using assms snoc by (auto simp: links_simps)
qed

end
