(* ===== verification/ListHead.thy ===== *)
theory ListHead
  imports Links "HOL-Library.Monad_Syntax"
begin

text \<open>
  \<open>include/lib/list.h\<close>: the intrusive circular lists that carry the scheduler's lanes, the
  wait queues and the global task list. A store maps each node to its two pointers. Following
  a NULL pointer is a fault, the result \<open>None\<close>. \<open>dlist h l xs\<close> says that the list headed by
  \<open>l\<close> holds the nodes \<open>xs\<close> in order; the lemmas say what each operation does to it and that
  it neither faults nor touches the nodes of other lists.
\<close>

section \<open>The operations of list.h\<close>

record 'n list_head =
  lh_next :: "'n option"
  lh_prev :: "'n option"

type_synonym 'n lstore = "'n \<Rightarrow> 'n list_head"

definition set_next :: "'n \<Rightarrow> 'n option \<Rightarrow> 'n lstore \<Rightarrow> 'n lstore" where
  "set_next a p h = h(a := (h a)\<lparr>lh_next := p\<rparr>)"

definition set_prev :: "'n \<Rightarrow> 'n option \<Rightarrow> 'n lstore \<Rightarrow> 'n lstore" where
  "set_prev a p h = h(a := (h a)\<lparr>lh_prev := p\<rparr>)"

definition INIT_LIST_HEAD :: "'n \<Rightarrow> 'n lstore \<Rightarrow> 'n lstore" where
  "INIT_LIST_HEAD l h = set_prev l (Some l) (set_next l (Some l) h)"

text \<open>\<open>__list_add\<close>: four stores, in the source's order.\<close>

definition list_add_between :: "'n \<Rightarrow> 'n \<Rightarrow> 'n \<Rightarrow> 'n lstore \<Rightarrow> 'n lstore" where
  "list_add_between new_node prv nxt h =
     (let h = set_prev nxt (Some new_node) h;
          h = set_next new_node (Some nxt) h;
          h = set_prev new_node (Some prv) h
      in set_next prv (Some new_node) h)"

definition list_add :: "'n \<Rightarrow> 'n \<Rightarrow> 'n lstore \<Rightarrow> 'n lstore option" where
  "list_add new_node head h =
     do { nxt \<leftarrow> lh_next (h head); Some (list_add_between new_node head nxt h) }"

definition list_add_tail :: "'n \<Rightarrow> 'n \<Rightarrow> 'n lstore \<Rightarrow> 'n lstore option" where
  "list_add_tail new_node head h =
     do { prv \<leftarrow> lh_prev (h head); Some (list_add_between new_node prv head h) }"

definition list_del :: "'n \<Rightarrow> 'n lstore \<Rightarrow> 'n lstore option" where
  "list_del entry h =
     do {
       nxt \<leftarrow> lh_next (h entry);
       let h = set_prev nxt (lh_prev (h entry)) h;
       prv \<leftarrow> lh_prev (h entry);
       let h = set_next prv (lh_next (h entry)) h;
       let h = set_next entry None h;
       Some (set_prev entry None h)
     }"

definition list_empty :: "'n lstore \<Rightarrow> 'n \<Rightarrow> bool" where
  "list_empty h head \<longleftrightarrow> lh_next (h head) = Some head"

text \<open>
  \<open>list_for_each (pos, head)\<close>: the nodes it visits. The loop ends only if the chain comes
  back to the head, so the walk is partial: \<open>None\<close> is a NULL pointer or a loop that never ends.
\<close>

partial_function (option) list_walk :: "'n lstore \<Rightarrow> 'n \<Rightarrow> 'n option \<Rightarrow> 'n list option" where
  "list_walk h head pos =
     (case pos of
        None \<Rightarrow> None
      | Some n \<Rightarrow>
          if n = head then Some []
          else do { rest \<leftarrow> list_walk h head (lh_next (h n)); Some (n # rest) })"

definition list_for_each :: "'n lstore \<Rightarrow> 'n \<Rightarrow> 'n list option" where
  "list_for_each h head = list_walk h head (lh_next (h head))"

section \<open>What a well-formed list is\<close>

definition dlist :: "'n lstore \<Rightarrow> 'n \<Rightarrow> 'n list \<Rightarrow> bool" where
  "dlist h l xs \<longleftrightarrow>
     distinct (l # xs) \<and> links (lh_next \<circ> h) (lh_prev \<circ> h) (Some l) xs (Some l) \<and>
     lh_next (h l) = hd_or xs (Some l) \<and> lh_prev (h l) = last_or (Some l) xs"

lemma dlistD:
  assumes "dlist h l xs"
  shows "distinct xs" "l \<notin> set xs"
    "lh_next (h l) = hd_or xs (Some l)" "lh_prev (h l) = last_or (Some l) xs"
  using assms by (auto simp: dlist_def)

lemma dlist_cong:
  assumes "\<And>n. n \<in> set (l # xs) \<Longrightarrow> h' n = h n"
  shows "dlist h' l xs = dlist h l xs"
proof -
  have "links (lh_next \<circ> h') (lh_prev \<circ> h') (Some l) xs (Some l)
      = links (lh_next \<circ> h) (lh_prev \<circ> h) (Some l) xs (Some l)"
    by (rule links_cong) (simp_all add: assms)
  then show ?thesis by (simp add: dlist_def assms)
qed

lemma dlist_frame:
  assumes "dlist h l xs" "\<And>n. n \<notin> S \<Longrightarrow> h' n = h n" "S \<inter> set (l # xs) = {}"
  shows "dlist h' l xs"
  using dlist_cong[of l xs h' h] assms by auto

lemma dlist_init [simp]: "dlist (INIT_LIST_HEAD l h) l []"
  by (simp add: dlist_def INIT_LIST_HEAD_def set_next_def set_prev_def)

lemma INIT_LIST_HEAD_other [simp]: "m \<noteq> l \<Longrightarrow> INIT_LIST_HEAD l h m = h m"
  by (simp add: INIT_LIST_HEAD_def set_next_def set_prev_def)

lemma dlist_empty_iff: "dlist h l xs \<Longrightarrow> list_empty h l \<longleftrightarrow> xs = []"
  by (cases xs) (auto simp: dlist_def list_empty_def)

lemma dlist_first: "dlist h l (x # xs) \<Longrightarrow> lh_next (h l) = Some x"
  by (simp add: dlist_def)

lemma dlist_node_next:
  "dlist h l (xs @ n # ys) \<Longrightarrow> lh_next (h n) = hd_or ys (Some l) \<and> lh_prev (h n) = last_or (Some l) xs"
  unfolding dlist_def by (auto dest: links_next links_prev)

lemma dlist_node_linked:
  assumes "dlist h l xs" "n \<in> set xs"
  shows "lh_next (h n) \<noteq> None" "lh_next (h n) \<noteq> Some n"
proof -
  from assms(2) obtain as bs where xs: "xs = as @ n # bs" by (meson split_list)
  with assms(1) have "lh_next (h n) = hd_or bs (Some l)" by (simp add: dlist_node_next)
  moreover have "n \<noteq> l" "n \<notin> set bs" using assms xs by (auto simp: dlist_def)
  ultimately show "lh_next (h n) \<noteq> None" "lh_next (h n) \<noteq> Some n"
    by (auto split: if_splits)
qed

section \<open>Insertion\<close>

lemma list_add_between_other:
  "m \<notin> {n, p, q} \<Longrightarrow> list_add_between n p q h m = h m"
  by (simp add: list_add_between_def set_next_def set_prev_def Let_def)

lemma dlist_add_between:
  assumes "dlist h l (xs @ ys)" "n \<notin> set (l # xs @ ys)"
  shows "dlist (list_add_between n (last (l # xs)) (hd (ys @ [l])) h) l (xs @ n # ys)"
proof -
  let ?p = "last (l # xs)" and ?q = "hd (ys @ [l])"
  let ?h = "list_add_between n ?p ?q h"
  have nx: "lh_next \<circ> ?h = (lh_next \<circ> h)(n := Some ?q, ?p := Some n)"
    using assms(2) by (auto simp: list_add_between_def set_next_def set_prev_def Let_def fun_eq_iff)
  have pv: "lh_prev \<circ> ?h = (lh_prev \<circ> h)(?q := Some n, n := Some ?p)"
    using assms(2) by (auto simp: list_add_between_def set_next_def set_prev_def Let_def fun_eq_iff)
  have d: "distinct (l # xs @ ys)" using assms(1) by (simp add: dlist_def)
  have left: "links (lh_next \<circ> h) (lh_prev \<circ> h) (Some l) xs (hd_or ys (Some l))"
    and right: "links (lh_next \<circ> h) (lh_prev \<circ> h) (last_or (Some l) xs) ys (Some l)"
    using assms(1) by (simp_all add: dlist_def links_simps)
  have left': "links (lh_next \<circ> ?h) (lh_prev \<circ> ?h) (Some l) xs (Some n)"
  proof (cases "xs = []")
    case False
    have "links (lh_next \<circ> ?h) (lh_prev \<circ> ?h) (Some l) xs (Some n)
        = links ((lh_next \<circ> h)(last xs := Some n)) (lh_prev \<circ> h) (Some l) xs (Some n)"
      unfolding nx pv using assms(2) d False
      by (intro links_cong) (auto simp: hd_append split: if_splits dest: hd_in_set)
    then show ?thesis using links_new_right[OF False _ left, of "Some n"] d by simp
  qed simp
  have right': "links (lh_next \<circ> ?h) (lh_prev \<circ> ?h) (Some n) ys (Some l)"
  proof (cases "ys = []")
    case False
    have "last (l # xs) \<notin> set ys"
      using d last_in_set[of xs] by (cases "xs = []") (auto simp: disjoint_iff)
    then have "links (lh_next \<circ> ?h) (lh_prev \<circ> ?h) (Some n) ys (Some l)
        = links (lh_next \<circ> h) ((lh_prev \<circ> h)(hd ys := Some n)) (Some n) ys (Some l)"
      unfolding nx pv using assms(2) d False
      by (intro links_cong) (auto split: if_splits)
    then show ?thesis using links_new_left[OF False _ right, of "Some n"] d by simp
  qed simp
  have ends: "lh_next (h l) = hd_or (xs @ ys) (Some l)" "lh_prev (h l) = last_or (Some l) (xs @ ys)"
    using assms(1) by (simp_all add: dlist_def)
  have "lh_next (?h l) = hd_or (xs @ n # ys) (Some l)"
    using fun_cong[OF nx, of l] ends(1) d assms(2) by (auto split: if_splits)
  moreover have "lh_prev (?h l) = last_or (Some l) (xs @ n # ys)"
    using fun_cong[OF pv, of l] ends(2) d assms(2)
    by (auto simp: hd_append split: if_splits dest: hd_in_set)
  moreover have "lh_next (?h n) = hd_or ys (Some l)" "lh_prev (?h n) = last_or (Some l) xs"
    using fun_cong[OF nx, of n] fun_cong[OF pv, of n] assms(2) by (auto simp: hd_append)
  ultimately show ?thesis
    using left' right' d assms(2) by (auto simp: dlist_def links_simps)
qed

lemma dlist_add_tail:
  assumes "dlist h l xs" "n \<notin> set (l # xs)"
  obtains h' where "list_add_tail n l h = Some h'" "dlist h' l (xs @ [n])"
    "\<And>m. m \<notin> set (n # l # xs) \<Longrightarrow> h' m = h m"
proof
  let ?h = "list_add_between n (last (l # xs)) l h"
  show "list_add_tail n l h = Some ?h"
    using dlistD(4)[OF assms(1)] by (auto simp: list_add_tail_def)
  show "dlist ?h l (xs @ [n])"
    using dlist_add_between[of h l xs "[]" n] assms by simp
  show "?h m = h m" if "m \<notin> set (n # l # xs)" for m
    using that by (intro list_add_between_other) auto
qed

lemma dlist_add:
  assumes "dlist h l xs" "n \<notin> set (l # xs)"
  obtains h' where "list_add n l h = Some h'" "dlist h' l (n # xs)"
    "\<And>m. m \<notin> set (n # l # xs) \<Longrightarrow> h' m = h m"
proof
  let ?h = "list_add_between n l (hd (xs @ [l])) h"
  show "list_add n l h = Some ?h"
    using dlistD(3)[OF assms(1)] by (auto simp: list_add_def hd_append)
  show "dlist ?h l (n # xs)"
    using dlist_add_between[of h l "[]" xs n] assms by simp
  show "?h m = h m" if "m \<notin> set (n # l # xs)" for m
    using that by (intro list_add_between_other) (auto simp: hd_append dest: hd_in_set)
qed

section \<open>Removal\<close>

lemma dlist_del:
  assumes "dlist h l (xs @ n # ys)"
  obtains h' where "list_del n h = Some h'" "dlist h' l (xs @ ys)"
    "lh_next (h' n) = None" "lh_prev (h' n) = None"
    "\<And>m. m \<notin> set (n # l # xs @ ys) \<Longrightarrow> h' m = h m"
proof -
  define p where "p = last (l # xs)"
  define q where "q = hd (ys @ [l])"
  define h' where
    "h' = set_prev n None (set_next n None (set_next p (Some q) (set_prev q (Some p) h)))"
  have d: "distinct (l # xs @ n # ys)" using assms by (simp add: dlist_def)
  have pxs: "p \<in> set (l # xs)" unfolding p_def by (rule last_in_set) simp
  have qys: "q \<in> set (ys @ [l])" unfolding q_def by (rule hd_in_set) simp
  have ptrs: "lh_next (h n) = Some q" "lh_prev (h n) = Some p"
    using dlist_node_next[OF assms] by (auto simp: p_def q_def hd_append)
  have pq: "p \<noteq> n" "q \<noteq> n" "p \<notin> set ys" "q \<notin> set xs"
    using d pxs qys by auto
  have pl: "p = l \<longleftrightarrow> xs = []"
    using d last_in_set[of xs] by (cases "xs = []") (auto simp: p_def)
  have ql: "q = l \<longleftrightarrow> ys = []"
    using d hd_in_set[of ys] by (cases "ys = []") (auto simp: q_def)
  have nx: "lh_next (h' m) = (if m = p then Some q else lh_next (h m))" if "m \<noteq> n" for m
    using that by (simp add: h'_def set_prev_def set_next_def)
  have pv: "lh_prev (h' m) = (if m = q then Some p else lh_prev (h m))" if "m \<noteq> n" for m
    using that by (simp add: h'_def set_prev_def set_next_def)
  have neq: "m \<noteq> n" if "m \<in> set xs \<or> m \<in> set ys" for m using that d by auto
  have left: "links (lh_next \<circ> h) (lh_prev \<circ> h) (Some l) xs (Some n)"
    and right: "links (lh_next \<circ> h) (lh_prev \<circ> h) (Some n) ys (Some l)"
    using assms by (simp_all add: dlist_def links_simps)
  have left': "links (lh_next \<circ> h') (lh_prev \<circ> h') (Some l) xs (Some q)"
  proof (cases "xs = []")
    case False
    then have "p = last xs" by (simp add: p_def)
    then have "links (lh_next \<circ> h') (lh_prev \<circ> h') (Some l) xs (Some q)
        = links ((lh_next \<circ> h)(last xs := Some q)) (lh_prev \<circ> h) (Some l) xs (Some q)"
      using pq(4) neq by (intro links_cong) (auto simp: nx pv)
    then show ?thesis using links_new_right[OF False _ left, of "Some q"] d by simp
  qed simp
  have right': "links (lh_next \<circ> h') (lh_prev \<circ> h') (Some p) ys (Some l)"
  proof (cases "ys = []")
    case False
    then have "q = hd ys" by (simp add: q_def)
    then have "links (lh_next \<circ> h') (lh_prev \<circ> h') (Some p) ys (Some l)
        = links (lh_next \<circ> h) ((lh_prev \<circ> h)(hd ys := Some p)) (Some p) ys (Some l)"
      using pq(3) neq by (intro links_cong) (auto simp: nx pv)
    then show ?thesis using links_new_left[OF False _ right, of "Some p"] d by simp
  qed simp
  have ends: "lh_next (h l) = hd_or (xs @ n # ys) (Some l)"
    "lh_prev (h l) = last_or (Some l) (xs @ n # ys)"
    using assms by (simp_all add: dlist_def)
  have ln: "l \<noteq> n" using d by simp
  have "lh_next (h' l) = hd_or (xs @ ys) (Some l)"
    using ends(1) pl by (cases "xs = []") (auto simp: nx[OF ln] q_def)
  moreover have "lh_prev (h' l) = last_or (Some l) (xs @ ys)"
    using ends(2) ql by (cases "ys = []") (auto simp: pv[OF ln] p_def)
  moreover have "links (lh_next \<circ> h') (lh_prev \<circ> h') (Some l) (xs @ ys) (Some l)"
    using left' right' by (cases "xs = []"; cases "ys = []") (simp_all add: links_simps p_def q_def)
  ultimately have dl: "dlist h' l (xs @ ys)"
    using d by (simp add: dlist_def)
  have del: "list_del n h = Some h'"
    using ptrs pq(1,2) by (simp add: list_del_def h'_def set_prev_def set_next_def Let_def)
  have nulls: "lh_next (h' n) = None" "lh_prev (h' n) = None"
    by (simp_all add: h'_def set_prev_def set_next_def)
  have other: "h' m = h m" if "m \<notin> set (n # l # xs @ ys)" for m
  proof -
    from that pxs qys have "m \<noteq> n" "m \<noteq> p" "m \<noteq> q" by auto
    then show ?thesis by (simp add: h'_def set_prev_def set_next_def)
  qed
  from del dl nulls other show thesis by (rule that)
qed

section \<open>Traversal\<close>

lemma list_walk_links:
  assumes "links (lh_next \<circ> h) (lh_prev \<circ> h) p xs (Some l)" "l \<notin> set xs"
  shows "list_walk h l (hd_or xs (Some l)) = Some xs"
  using assms
proof (induction xs arbitrary: p)
  case Nil
  then show ?case by (simp add: list_walk.simps)
next
  case (Cons x xs)
  have "list_walk h l (hd_or xs (Some l)) = Some xs" by (rule Cons.IH) (use Cons.prems in auto)
  then show ?case using Cons.prems by (subst list_walk.simps) auto
qed

lemma dlist_for_each:
  assumes "dlist h l xs"
  shows "list_for_each h l = Some xs"
  using assms list_walk_links[of h "Some l" xs l] by (simp add: dlist_def list_for_each_def)

lemma dlist_unique: "dlist h l xs \<Longrightarrow> dlist h l ys \<Longrightarrow> xs = ys"
  by (metis dlist_for_each option.inject)

section \<open>The contract of a node list\<close>

text \<open>
  What the scheduler and the wait queues rely on: a store of lists in which a node can be
  appended to a list it is not on and unlinked from the list it is on, without touching the
  other nodes.
\<close>

locale node_list =
  fixes repr :: "'s \<Rightarrow> 'n \<Rightarrow> 'n list \<Rightarrow> bool"
    and push :: "'n \<Rightarrow> 'n \<Rightarrow> 's \<Rightarrow> 's option"
    and unlink :: "'n \<Rightarrow> 's \<Rightarrow> 's option"
    and agree :: "'s \<Rightarrow> 's \<Rightarrow> 'n \<Rightarrow> bool"
  assumes push_law: "repr s l xs \<Longrightarrow> n \<notin> set (l # xs) \<Longrightarrow>
      \<exists>s'. push n l s = Some s' \<and> repr s' l (xs @ [n]) \<and>
           (\<forall>m. m \<notin> set (n # l # xs) \<longrightarrow> agree s s' m)"
    and unlink_law: "repr s l (xs @ n # ys) \<Longrightarrow>
      \<exists>s'. unlink n s = Some s' \<and> repr s' l (xs @ ys) \<and>
           (\<forall>m. m \<notin> set (n # l # xs @ ys) \<longrightarrow> agree s s' m)"
    and frame_law: "repr s l xs \<Longrightarrow> (\<And>m. m \<in> set (l # xs) \<Longrightarrow> agree s s' m) \<Longrightarrow> repr s' l xs"
    and repr_distinct: "repr s l xs \<Longrightarrow> distinct (l # xs)"
begin

text \<open>Taking the first node and appending it again rotates the list.\<close>

lemma rotate_once:
  assumes "repr s l (x # xs)"
  shows "\<exists>s' s''. unlink x s = Some s' \<and> push x l s' = Some s'' \<and> repr s'' l (xs @ [x])"
proof -
  from unlink_law[of s l "[]" x xs] assms obtain s'
    where s': "unlink x s = Some s'" "repr s' l xs" by auto
  have "x \<notin> set (l # xs)" using repr_distinct[OF assms] by auto
  from push_law[OF s'(2) this] s'(1) show ?thesis by blast
qed

text \<open>Work on one list leaves every list with other nodes as it was.\<close>

lemma unlink_other:
  assumes "repr s l (xs @ n # ys)" "repr s k zs" "set (k # zs) \<inter> set (l # xs @ n # ys) = {}"
    "unlink n s = Some s'"
  shows "repr s' k zs"
proof (rule frame_law[OF assms(2)])
  fix m assume "m \<in> set (k # zs)"
  with assms(3) have "m \<notin> set (n # l # xs @ ys)" by auto
  with unlink_law[OF assms(1)] assms(4) show "agree s s' m" by auto
qed

lemma push_other:
  assumes "repr s l xs" "n \<notin> set (l # xs)" "repr s k zs"
    "set (k # zs) \<inter> set (n # l # xs) = {}" "push n l s = Some s'"
  shows "repr s' k zs"
proof (rule frame_law[OF assms(3)])
  fix m assume "m \<in> set (k # zs)"
  with assms(4) have "m \<notin> set (n # l # xs)" by auto
  with push_law[OF assms(1,2)] assms(5) show "agree s s' m" by auto
qed

end

interpretation lh: node_list dlist list_add_tail list_del "\<lambda>s s' m. s' m = s m"
proof
  fix s :: "'a lstore" and l xs n
  assume "dlist s l xs" "n \<notin> set (l # xs)"
  then obtain s' where "list_add_tail n l s = Some s'" "dlist s' l (xs @ [n])"
    "\<And>m. m \<notin> set (n # l # xs) \<Longrightarrow> s' m = s m" by (rule dlist_add_tail) blast
  then show "\<exists>s'. list_add_tail n l s = Some s' \<and> dlist s' l (xs @ [n]) \<and>
      (\<forall>m. m \<notin> set (n # l # xs) \<longrightarrow> s' m = s m)" by blast
next
  fix s :: "'a lstore" and l xs n ys
  assume "dlist s l (xs @ n # ys)"
  then obtain s' where "list_del n s = Some s'" "dlist s' l (xs @ ys)"
    "\<And>m. m \<notin> set (n # l # xs @ ys) \<Longrightarrow> s' m = s m" by (rule dlist_del) blast
  then show "\<exists>s'. list_del n s = Some s' \<and> dlist s' l (xs @ ys) \<and>
      (\<forall>m. m \<notin> set (n # l # xs @ ys) \<longrightarrow> s' m = s m)"
    by blast
next
  fix s s' :: "'a lstore" and l xs
  assume "dlist s l xs" "\<And>m. m \<in> set (l # xs) \<Longrightarrow> s' m = s m"
  then show "dlist s' l xs" using dlist_cong[of l xs s' s] by simp
next
  fix s :: "'a lstore" and l xs
  assume "dlist s l xs"
  then show "distinct (l # xs)" by (simp add: dlist_def)
qed

end
