(* ===== verification/Bitmap.thy ===== *)
theory Bitmap
  imports Prelude
begin

text \<open>
  \<open>lib/bitmap.c\<close> and \<open>include/lib/bitmap.h\<close>: bit arrays of 64-bit words, and the two searches
  over them. The locale \<open>bit_array\<close> is what a client of the bitmap relies on (which bits a
  store changes); the physical memory manager's counting and allocation lemmas are proved from
  it. \<open>run_scan\<close> is the loop that looks for a run of free positions; the bitmap search and
  the page allocator both run it.
\<close>

section \<open>Single bits\<close>

type_synonym bitmap = "u64 list"

abbreviation BITS_PER_WORD :: nat where
  "BITS_PER_WORD \<equiv> 64"

definition bitmap_set :: "bitmap \<Rightarrow> nat \<Rightarrow> bitmap" where
  "bitmap_set bmp b =
     bmp[b div BITS_PER_WORD := (bmp ! (b div BITS_PER_WORD)) OR push_bit (b mod BITS_PER_WORD) 1]"

definition bitmap_clear :: "bitmap \<Rightarrow> nat \<Rightarrow> bitmap" where
  "bitmap_clear bmp b =
     bmp[b div BITS_PER_WORD :=
            (bmp ! (b div BITS_PER_WORD)) AND NOT (push_bit (b mod BITS_PER_WORD) 1)]"

definition bitmap_test :: "bitmap \<Rightarrow> nat \<Rightarrow> bool" where
  "bitmap_test bmp b \<longleftrightarrow>
     (bmp ! (b div BITS_PER_WORD)) AND push_bit (b mod BITS_PER_WORD) 1 \<noteq> 0"

lemma bitmap_test_bit: "bitmap_test m b \<longleftrightarrow> bit (m ! (b div 64)) (b mod 64)"
  by (simp add: bitmap_test_def bit_iff_and_push_bit_not_eq_0)

lemma length_bitmap [simp]:
  "length (bitmap_set m b) = length m" "length (bitmap_clear m b) = length m"
  by (simp_all add: bitmap_set_def bitmap_clear_def)

lemma bit_push_one_64: "bit (2 ^ k :: u64) n \<longleftrightarrow> n = k \<and> k < 64"
  by (auto simp: bit_exp_iff)

lemma div_mod_64_eq: "(b div 64 = c div 64 \<and> b mod 64 = c mod 64) = (b = (c::nat))"
  by (metis div_mod_decomp)

lemma bitmap_test_set:
  assumes "b < 64 * length m"
  shows "bitmap_test (bitmap_set m b) c \<longleftrightarrow> c = b \<or> bitmap_test m c"
proof (cases "c div 64 = b div 64")
  case True
  have "b div 64 < length m" using assms by auto
  then have "bitmap_test (bitmap_set m b) c \<longleftrightarrow> bit (m ! (c div 64)) (c mod 64) \<or> c mod 64 = b mod 64"
    using True by (simp add: bitmap_test_bit bitmap_set_def bit_or_iff bit_push_one_64)
  then show ?thesis using True div_mod_64_eq[of c b] by (auto simp: bitmap_test_bit)
next
  case False
  then show ?thesis by (auto simp: bitmap_test_bit bitmap_set_def)
qed

lemma bitmap_test_clear:
  assumes "b < 64 * length m"
  shows "bitmap_test (bitmap_clear m b) c \<longleftrightarrow> c \<noteq> b \<and> bitmap_test m c"
proof (cases "c div 64 = b div 64")
  case True
  have "b div 64 < length m" using assms by auto
  then have "bitmap_test (bitmap_clear m b) c \<longleftrightarrow> bit (m ! (c div 64)) (c mod 64) \<and> c mod 64 \<noteq> b mod 64"
    using True by (simp add: bitmap_test_bit bitmap_clear_def bit_and_iff bit_not_iff bit_push_one_64)
  then show ?thesis using True div_mod_64_eq[of c b] by (auto simp: bitmap_test_bit)
next
  case False
  then show ?thesis by (auto simp: bitmap_test_bit bitmap_clear_def)
qed

section \<open>The contract of a bit array\<close>

locale bit_array =
  fixes test :: "'b \<Rightarrow> nat \<Rightarrow> bool"
    and setb :: "'b \<Rightarrow> nat \<Rightarrow> 'b"
    and clearb :: "'b \<Rightarrow> nat \<Rightarrow> 'b"
    and cap :: "'b \<Rightarrow> nat"
  assumes test_set: "i < cap m \<Longrightarrow> test (setb m i) j \<longleftrightarrow> j = i \<or> test m j"
    and test_clear: "i < cap m \<Longrightarrow> test (clearb m i) j \<longleftrightarrow> j \<noteq> i \<and> test m j"
    and cap_set: "cap (setb m i) = cap m"
    and cap_clear: "cap (clearb m i) = cap m"
begin

text \<open>The bits set below \<open>n\<close>, as a set: counters count it.\<close>

definition ones :: "'b \<Rightarrow> nat \<Rightarrow> nat set" where
  "ones m n = {i. i < n \<and> test m i}"

lemma finite_ones: "finite (ones m n)"
  by (simp add: ones_def)

lemma card_ones_le: "card (ones m n) \<le> n"
  using card_mono[of "{..<n}" "ones m n"] by (auto simp: ones_def)

lemma ones_Suc: "ones m (Suc n) = (if test m n then insert n (ones m n) else ones m n)"
  by (auto simp: ones_def less_Suc_eq)

lemma card_ones_Suc: "card (ones m (Suc n)) = card (ones m n) + (if test m n then 1 else 0)"
  using finite_ones[of m n] by (simp add: ones_Suc) (simp add: ones_def)

lemma card_ones_set:
  assumes "i < cap m" "i < n" "\<not> test m i"
  shows "card (ones (setb m i) n) = Suc (card (ones m n))"
proof -
  have "ones (setb m i) n = insert i (ones m n)"
    using assms by (auto simp: ones_def test_set)
  moreover have "i \<notin> ones m n" using assms(3) by (simp add: ones_def)
  ultimately show ?thesis by (simp add: finite_ones)
qed

lemma card_ones_clear:
  assumes "i < cap m" "i < n" "test m i"
  shows "Suc (card (ones (clearb m i) n)) = card (ones m n)"
proof -
  have "ones m n = insert i (ones (clearb m i) n)"
    using assms by (auto simp: ones_def test_clear)
  moreover have "i \<notin> ones (clearb m i) n" using assms(1) by (simp add: ones_def test_clear)
  ultimately show ?thesis by (simp add: finite_ones)
qed

lemma card_ones_pos: "i < n \<Longrightarrow> test m i \<Longrightarrow> 0 < card (ones m n)"
  using finite_ones[of m n] by (auto simp: card_gt_0_iff ones_def)

end

interpretation bm: bit_array bitmap_test bitmap_set bitmap_clear "\<lambda>m. 64 * length m"
  by unfold_locales (simp_all add: bitmap_test_set bitmap_test_clear)

section \<open>Searching for a run\<close>

text \<open>
  The loop \<open>for (i = 0; i < tot; i++)\<close> with its \<open>run\<close> and \<open>start\<close> variables: it returns at the
  first position that completes a run of \<open>count\<close> positions satisfying \<open>free\<close>.
\<close>

function run_scan :: "(nat \<Rightarrow> bool) \<Rightarrow> nat \<Rightarrow> nat \<Rightarrow> nat \<Rightarrow> nat \<Rightarrow> nat \<Rightarrow> nat option" where
  "run_scan free tot count i run start =
     (if i < tot then
        (if free i then
           (let start' = (if run = 0 then i else start); run' = run + 1
            in if run' = count then Some start' else run_scan free tot count (Suc i) run' start')
         else run_scan free tot count (Suc i) 0 start)
      else None)"
  by pat_completeness auto
termination
  by (relation "measure (\<lambda>(f, tot, c, i, r, s). tot - i)") auto

declare run_scan.simps [simp del]

definition free_run :: "(nat \<Rightarrow> bool) \<Rightarrow> nat \<Rightarrow> nat \<Rightarrow> nat \<Rightarrow> bool" where
  "free_run free tot count s \<longleftrightarrow> s + count \<le> tot \<and> (\<forall>j. s \<le> j \<and> j < s + count \<longrightarrow> free j)"

text \<open>What holds each time the loop tests its condition.\<close>

definition scan_inv :: "(nat \<Rightarrow> bool) \<Rightarrow> nat \<Rightarrow> nat \<Rightarrow> nat \<Rightarrow> nat \<Rightarrow> nat \<Rightarrow> bool" where
  "scan_inv free tot count i run start \<longleftrightarrow>
     run < count \<and> run \<le> i \<and> (0 < run \<longrightarrow> start = i - run) \<and>
     (\<forall>j. i - run \<le> j \<and> j < i \<longrightarrow> free j) \<and>
     (\<forall>s. s < i - run \<longrightarrow> \<not> free_run free tot count s)"

lemma scan_inv_free:
  assumes "scan_inv free tot count i run start" "free i" "i < tot"
  defines "start' \<equiv> if run = 0 then i else start"
  shows "start' = i - run" "\<forall>j. start' \<le> j \<and> j < Suc i \<longrightarrow> free j"
    "Suc run \<noteq> count \<Longrightarrow> scan_inv free tot count (Suc i) (Suc run) start'"
proof -
  show s: "start' = i - run" using assms(1) by (auto simp: scan_inv_def start'_def)
  show f: "\<forall>j. start' \<le> j \<and> j < Suc i \<longrightarrow> free j"
    using assms(1,2) unfolding s by (auto simp: scan_inv_def less_Suc_eq)
  show "scan_inv free tot count (Suc i) (Suc run) start'" if "Suc run \<noteq> count"
    using assms(1) that s f by (auto simp: scan_inv_def)
qed

lemma scan_inv_used:
  assumes "scan_inv free tot count i run start" "\<not> free i" "i < tot"
  shows "scan_inv free tot count (Suc i) 0 start"
proof -
  have "\<not> free_run free tot count s" if "s < Suc i" for s
  proof (cases "s < i - run")
    case True
    then show ?thesis using assms(1) by (simp add: scan_inv_def)
  next
    case False
    then have "s \<le> i" "i < s + count" using that assms(1) by (auto simp: scan_inv_def)
    then show ?thesis using assms(2) by (auto simp: free_run_def)
  qed
  then show ?thesis using assms(1) by (auto simp: scan_inv_def)
qed

lemma run_scan_from:
  assumes "scan_inv free tot count i run start" "i \<le> tot"
  shows "case run_scan free tot count i run start of
      Some s \<Rightarrow> free_run free tot count s \<and> (\<forall>s' < s. \<not> free_run free tot count s')
    | None \<Rightarrow> (\<forall>s. \<not> free_run free tot count s)"
  using assms
proof (induction free tot count i run start rule: run_scan.induct)
  case (1 free tot count i run start)
  note inv = "1.prems"(1)
  define start' where "start' = (if run = 0 then i else start)"
  consider (fin) "\<not> i < tot" | (used) "i < tot" "\<not> free i"
    | (hit) "i < tot" "free i" "Suc run = count" | (go) "i < tot" "free i" "Suc run \<noteq> count"
    by blast
  then show ?case
  proof cases
    case fin
    have "\<not> free_run free tot count s" for s
      using inv "1.prems"(2) fin by (cases "s < i - run") (auto simp: scan_inv_def free_run_def)
    with fin show ?thesis by (subst run_scan.simps) simp
  next
    case used
    then show ?thesis
      using "1.IH"(2)[OF used] scan_inv_used[OF inv used(2,1)]
      by (subst run_scan.simps) simp
  next
    case hit
    note f = scan_inv_free[OF inv hit(2,1), folded start'_def]
    have "free_run free tot count start'"
      using f(1,2) hit inv by (auto simp: free_run_def scan_inv_def)
    moreover have "\<forall>s' < start'. \<not> free_run free tot count s'"
      using f(1) inv by (simp add: scan_inv_def)
    ultimately show ?thesis using hit by (subst run_scan.simps) (simp add: start'_def)
  next
    case go
    note f = scan_inv_free[OF inv go(2,1), folded start'_def]
    show ?thesis
      using "1.IH"(1)[OF go(1,2) start'_def refl] f(3)[OF go(3)] go
      by (subst run_scan.simps) (simp add: start'_def)
  qed
qed

lemma run_scan_Some:
  assumes "0 < count" "run_scan free tot count 0 0 st = Some s"
  shows "free_run free tot count s" "s' < s \<Longrightarrow> \<not> free_run free tot count s'"
  using run_scan_from[of free tot count 0 0 st] assms by (auto simp: scan_inv_def)

lemma run_scan_None:
  assumes "0 < count"
  shows "run_scan free tot count 0 0 st = None \<longleftrightarrow> (\<forall>s. \<not> free_run free tot count s)"
  using run_scan_from[of free tot count 0 0 st] assms
  by (auto simp: scan_inv_def split: option.splits)

section \<open>The searches of bitmap.c\<close>

text \<open>
  The two nested loops of \<open>bitmap_find_first_free\<close>. The inner one either returns from the
  function (\<open>Some\<close>) or runs out of bits of its word (\<open>None\<close>).
\<close>

function find_in_word :: "bitmap \<Rightarrow> nat \<Rightarrow> nat \<Rightarrow> nat \<Rightarrow> int option" where
  "find_in_word bmp total_bits w b =
     (if b < BITS_PER_WORD then
        (let bit_idx = w * BITS_PER_WORD + b in
         if total_bits \<le> bit_idx then Some (- 1)
         else if \<not> bitmap_test bmp bit_idx then Some (int bit_idx)
         else find_in_word bmp total_bits w (Suc b))
      else None)"
  by pat_completeness auto
termination
  by (relation "measure (\<lambda>(m, t, w, b). BITS_PER_WORD - b)") auto

declare find_in_word.simps [simp del]

function find_over_words :: "bitmap \<Rightarrow> nat \<Rightarrow> nat \<Rightarrow> nat \<Rightarrow> int" where
  "find_over_words bmp total_bits words w =
     (if w < words then
        (if bmp ! w \<noteq> NOT 0 then
           (case find_in_word bmp total_bits w 0 of
              Some r \<Rightarrow> r
            | None \<Rightarrow> find_over_words bmp total_bits words (Suc w))
         else find_over_words bmp total_bits words (Suc w))
      else - 1)"
  by pat_completeness auto
termination
  by (relation "measure (\<lambda>(m, t, n, w). n - w)") auto

declare find_over_words.simps [simp del]

definition bitmap_find_first_free :: "bitmap \<Rightarrow> nat \<Rightarrow> int" where
  "bitmap_find_first_free bmp total_bits =
     (let words = wrap64 (total_bits + BITS_PER_WORD - 1) div BITS_PER_WORD
      in find_over_words bmp total_bits words 0)"

definition bitmap_find_contiguous_free :: "bitmap \<Rightarrow> nat \<Rightarrow> nat \<Rightarrow> int" where
  "bitmap_find_contiguous_free bmp total_bits count =
     (if count = 0 then - 1
      else if count = 1 then bitmap_find_first_free bmp total_bits
      else (case run_scan (\<lambda>i. \<not> bitmap_test bmp i) total_bits count 0 0 0 of
              Some start \<Rightarrow> int start
            | None \<Rightarrow> - 1))"

text \<open>The answer both searches owe: the least position that starts a free run, or \<open>-1\<close>.\<close>

definition first_run :: "bitmap \<Rightarrow> nat \<Rightarrow> nat \<Rightarrow> int \<Rightarrow> bool" where
  "first_run bmp total_bits count r \<longleftrightarrow>
     (if \<exists>s. free_run (\<lambda>i. \<not> bitmap_test bmp i) total_bits count s
      then r = int (LEAST s. free_run (\<lambda>i. \<not> bitmap_test bmp i) total_bits count s)
      else r = - 1)"

lemma first_run_found:
  assumes "free_run (\<lambda>i. \<not> bitmap_test m i) n c s"
    and "\<And>s'. s' < s \<Longrightarrow> \<not> free_run (\<lambda>i. \<not> bitmap_test m i) n c s'"
  shows "first_run m n c (int s)"
proof -
  have "(LEAST s. free_run (\<lambda>i. \<not> bitmap_test m i) n c s) = s"
    using assms by (intro Least_equality) (auto simp: not_less[symmetric])
  then show ?thesis using assms(1) unfolding first_run_def by auto
qed

lemma free_run_one: "free_run f n 1 s \<longleftrightarrow> s < n \<and> f s"
  by (auto simp: free_run_def dest: le_less_Suc_eq)

text \<open>A word of all ones holds no free bit, and bits are scanned in order.\<close>

lemma full_word_no_free:
  "m ! w = NOT 0 \<Longrightarrow> w * 64 \<le> i \<Longrightarrow> i < w * 64 + 64 \<Longrightarrow> bitmap_test m i"
proof -
  assume a: "m ! w = NOT 0" "w * 64 \<le> i" "i < w * 64 + 64"
  from a(2,3) have "i div 64 = w" by (simp add: div_nat_eqI mult.commute)
  with a(1) show ?thesis by (simp add: bitmap_test_bit)
qed

lemma find_in_word_spec:
  assumes "\<And>i. i < w * 64 + b \<Longrightarrow> bitmap_test m i" "b \<le> 64"
  shows "case find_in_word m n w b of
      Some r \<Rightarrow> first_run m n 1 r
    | None \<Rightarrow> (\<forall>i < w * 64 + 64. bitmap_test m i)"
  using assms
proof (induction m n w b rule: find_in_word.induct)
  case (1 m n w b)
  let ?i = "w * 64 + b"
  show ?case
  proof (cases "b < 64")
    case False
    with "1.prems" show ?thesis by (subst find_in_word.simps) auto
  next
    case True
    consider (past) "n \<le> ?i" | (hit) "?i < n" "\<not> bitmap_test m ?i" | (go) "?i < n" "bitmap_test m ?i"
      by force
    then show ?thesis
    proof cases
      case past
      then have "first_run m n 1 (- 1)"
        using "1.prems"(1) unfolding first_run_def free_run_one by auto
      then show ?thesis using True past by (subst find_in_word.simps) simp
    next
      case hit
      then have "first_run m n 1 (int ?i)"
        using "1.prems"(1) by (intro first_run_found; unfold free_run_one; blast)
      then show ?thesis using True hit by (subst find_in_word.simps) simp
    next
      case go
      have "bitmap_test m i" if "i < w * 64 + Suc b" for i
        using that "1.prems"(1) go(2) by (cases "i = ?i") auto
      then have "case find_in_word m n w (Suc b) of
          Some r \<Rightarrow> first_run m n 1 r | None \<Rightarrow> (\<forall>i < w * 64 + 64. bitmap_test m i)"
        using "1.IH"[OF True refl] go True by auto
      then show ?thesis using True go by (subst find_in_word.simps) simp
    qed
  qed
qed

lemma find_over_words_spec:
  assumes "\<And>i. i < w * 64 \<Longrightarrow> bitmap_test m i" "n \<le> words * 64" "w \<le> words"
  shows "first_run m n 1 (find_over_words m n words w)"
  using assms
proof (induction m n words w rule: find_over_words.induct)
  case (1 m n words w)
  show ?case
  proof (cases "w < words")
    case False
    then have "first_run m n 1 (- 1)"
      using "1.prems" unfolding first_run_def free_run_one by auto
    with False show ?thesis by (subst find_over_words.simps) simp
  next
    case True
    have adv: "first_run m n 1 (find_over_words m n words (Suc w))"
      if "\<forall>i < w * 64 + 64. bitmap_test m i"
        "m ! w \<noteq> NOT 0 \<Longrightarrow> find_in_word m n w 0 = None"
      using that "1.IH" "1.prems" True by (cases "m ! w = NOT 0") auto
    show ?thesis
    proof (cases "m ! w = NOT 0")
      case all_ones: True
      then have "\<forall>i < w * 64 + 64. bitmap_test m i"
        using "1.prems"(1) full_word_no_free[OF all_ones] by (metis not_le)
      from adv[OF this] all_ones True show ?thesis by (subst find_over_words.simps) simp
    next
      case False
      have spec: "case find_in_word m n w 0 of
          Some r \<Rightarrow> first_run m n 1 r | None \<Rightarrow> (\<forall>i < w * 64 + 64. bitmap_test m i)"
        using "1.prems"(1) by (intro find_in_word_spec) auto
      show ?thesis
        using spec adv True False by (subst find_over_words.simps) (simp split: option.splits)
    qed
  qed
qed

lemma bitmap_find_first_free_spec:
  assumes "n + 63 < 2 ^ 64"
  shows "first_run m n 1 (bitmap_find_first_free m n)"
proof -
  have "n \<le> wrap64 (n + 64 - 1) div 64 * 64" using assms by (simp add: wrap64_def)
  then show ?thesis
    unfolding bitmap_find_first_free_def Let_def by (intro find_over_words_spec) auto
qed

lemma bitmap_find_contiguous_free_spec:
  assumes "n + 63 < 2 ^ 64" "0 < c"
  shows "first_run m n c (bitmap_find_contiguous_free m n c)"
proof (cases "c = 1")
  case True
  then show ?thesis
    using bitmap_find_first_free_spec[OF assms(1)] by (simp add: bitmap_find_contiguous_free_def)
next
  case False
  show ?thesis
  proof (cases "run_scan (\<lambda>i. \<not> bitmap_test m i) n c 0 0 0")
    case None
    then have "first_run m n c (- 1)"
      using assms(2) by (auto simp: run_scan_None first_run_def)
    with None False assms(2) show ?thesis by (simp add: bitmap_find_contiguous_free_def)
  next
    case (Some s)
    note run = run_scan_Some[OF assms(2) Some]
    have "first_run m n c (int s)" using run by (rule first_run_found)
    with Some False assms(2) show ?thesis by (simp add: bitmap_find_contiguous_free_def)
  qed
qed

end
