(* ===== verification/Pmm.thy ===== *)
theory Pmm
  imports Bitmap
begin

text \<open>
  \<open>mm/pmm.c\<close>: the physical page allocator. Its state is the page bitmap (a set bit is a page
  in use or reserved) and the counters the kernel reports. Page numbers stay below
  \<open>MAX_PHYSICAL_PAGES\<close>, so they and the counters are natural numbers; the byte totals are
  \<open>uint64_t\<close> sums and wrap. Addresses are byte addresses with 0 for NULL. The \<open>#if\<close> on the
  architecture is the parameter \<open>arch\<close>.
\<close>

section \<open>State and initialisation\<close>

abbreviation PMM_PAGE_SIZE :: nat where
  "PMM_PAGE_SIZE \<equiv> 4096"

abbreviation MAX_PHYSICAL_PAGES :: nat where
  "MAX_PHYSICAL_PAGES \<equiv> 1048576"

abbreviation BITMAP_SIZE :: nat where
  "BITMAP_SIZE \<equiv> 16384"

abbreviation E820_TYPE_USABLE :: u32 where
  "E820_TYPE_USABLE \<equiv> 1"

datatype arch = X86_64 | ARM

record e820_entry =
  e820_base :: u64
  e820_length :: u64
  e820_type :: u32
  e820_acpi_attr :: u32

record pmm =
  page_bitmap :: bitmap
  total_pages :: nat
  used_pages :: nat
  total_memory_bytes :: u64
  usable_memory_bytes :: u64

text \<open>The inner loop over the pages of one usable region.\<close>

function release_region :: "nat \<Rightarrow> nat \<Rightarrow> nat \<Rightarrow> pmm \<Rightarrow> pmm" where
  "release_region start_page page_count p s =
     (if p < page_count then
        (let page = start_page + p;
             s' = (if page < MAX_PHYSICAL_PAGES then
                     s\<lparr>page_bitmap := bitmap_clear (page_bitmap s) page,
                       total_pages := (if total_pages s \<le> page then page + 1 else total_pages s)\<rparr>
                   else s)
         in release_region start_page page_count (Suc p) s')
      else s)"
  by pat_completeness auto
termination
  by (relation "measure (\<lambda>(a, n, p, s). n - p)") auto

declare release_region.simps [simp del]

fun add_e820 :: "e820_entry list \<Rightarrow> pmm \<Rightarrow> pmm" where
  "add_e820 [] s = s"
| "add_e820 (e # es) s =
     (let s = s\<lparr>total_memory_bytes := total_memory_bytes s + e820_length e\<rparr>;
          s = (if e820_type e = E820_TYPE_USABLE then
                 release_region (unat (e820_base e) div PMM_PAGE_SIZE)
                   (unat (e820_length e) div PMM_PAGE_SIZE) 0
                   (s\<lparr>usable_memory_bytes := usable_memory_bytes s + e820_length e\<rparr>)
               else s)
      in add_e820 es s)"

text \<open>The counted loops that clear or set the bits \<open>p, ..., n - 1\<close> shifted by \<open>a\<close>.\<close>

function bits_clear :: "nat \<Rightarrow> nat \<Rightarrow> nat \<Rightarrow> bitmap \<Rightarrow> bitmap" where
  "bits_clear a n p m = (if p < n then bits_clear a n (Suc p) (bitmap_clear m (a + p)) else m)"
  by pat_completeness auto
termination
  by (relation "measure (\<lambda>(a, n, p, m). n - p)") auto

function bits_set :: "nat \<Rightarrow> nat \<Rightarrow> bitmap \<Rightarrow> bitmap" where
  "bits_set p n m = (if p < n then bits_set (Suc p) n (bitmap_set m p) else m)"
  by pat_completeness auto
termination
  by (relation "measure (\<lambda>(p, n, m). n - p)") auto

declare bits_clear.simps [simp del] bits_set.simps [simp del]

fun count_used :: "bitmap \<Rightarrow> nat \<Rightarrow> nat" where
  "count_used m 0 = 0"
| "count_used m (Suc p) = count_used m p + (if bitmap_test m p then 1 else 0)"

definition fallback_map :: "arch \<Rightarrow> pmm \<Rightarrow> pmm" where
  "fallback_map a s =
     (let dram_start = 0x40000000 :: nat; dram_size = 128 * 1024 * 1024 :: nat in
      case a of
        ARM \<Rightarrow>
          (let start_page = dram_start div PMM_PAGE_SIZE; count_pages = dram_size div PMM_PAGE_SIZE in
           s\<lparr>total_pages := start_page + count_pages,
             total_memory_bytes := of_nat dram_size, usable_memory_bytes := of_nat dram_size,
             page_bitmap := bits_clear start_page count_pages 0 (page_bitmap s)\<rparr>)
      | X86_64 \<Rightarrow>
          s\<lparr>total_pages := 32768,
            total_memory_bytes := of_nat dram_size, usable_memory_bytes := of_nat dram_size,
            page_bitmap := bits_clear 0 32768 0 (page_bitmap s)\<rparr>)"

text \<open>The pages \<open>lo, ..., hi - 1\<close> the kernel keeps for itself.\<close>

definition kernel_reserved :: "arch \<Rightarrow> nat \<times> nat" where
  "kernel_reserved a =
     (case a of ARM \<Rightarrow> (0x40000000 div PMM_PAGE_SIZE, 0x40000000 div PMM_PAGE_SIZE + 2048)
              | X86_64 \<Rightarrow> (0, 8 * 1024 * 1024 div PMM_PAGE_SIZE))"

definition pmm_init :: "arch \<Rightarrow> e820_entry list \<Rightarrow> pmm" where
  "pmm_init a entries =
     (let s = \<lparr>page_bitmap = replicate BITMAP_SIZE (- 1), total_pages = 0, used_pages = 0,
               total_memory_bytes = 0, usable_memory_bytes = 0\<rparr>;
          s = add_e820 entries s;
          s = (if usable_memory_bytes s = 0 \<or> total_pages s = 0 then fallback_map a s else s);
          (lo, hi) = kernel_reserved a;
          s = s\<lparr>page_bitmap := bits_set lo hi (page_bitmap s)\<rparr>
      in s\<lparr>used_pages := count_used (page_bitmap s) (total_pages s)\<rparr>)"

section \<open>Allocation and release\<close>

function first_free_page :: "bitmap \<Rightarrow> nat \<Rightarrow> nat \<Rightarrow> nat option" where
  "first_free_page m n i =
     (if i < n then (if \<not> bitmap_test m i then Some i else first_free_page m n (Suc i)) else None)"
  by pat_completeness auto
termination
  by (relation "measure (\<lambda>(m, n, i). n - i)") auto

declare first_free_page.simps [simp del]

definition pmm_alloc_page :: "pmm \<Rightarrow> nat \<times> pmm" where
  "pmm_alloc_page s =
     (case first_free_page (page_bitmap s) (total_pages s) 0 of
        Some i \<Rightarrow>
          (i * PMM_PAGE_SIZE,
           s\<lparr>page_bitmap := bitmap_set (page_bitmap s) i, used_pages := used_pages s + 1\<rparr>)
      | None \<Rightarrow> (0, s))"

definition pmm_alloc_pages :: "nat \<Rightarrow> pmm \<Rightarrow> nat \<times> pmm" where
  "pmm_alloc_pages count s =
     (if count = 0 then (0, s)
      else (case run_scan (\<lambda>i. \<not> bitmap_test (page_bitmap s) i) (total_pages s) count 0 0 0 of
              Some start_page \<Rightarrow>
                (start_page * PMM_PAGE_SIZE,
                 s\<lparr>page_bitmap := bits_set start_page (start_page + count) (page_bitmap s),
                   used_pages := used_pages s + count\<rparr>)
            | None \<Rightarrow> (0, s)))"

definition release_page :: "nat \<Rightarrow> pmm \<Rightarrow> pmm" where
  "release_page page s =
     (if page < total_pages s \<and> bitmap_test (page_bitmap s) page then
        s\<lparr>page_bitmap := bitmap_clear (page_bitmap s) page,
          used_pages := (if 0 < used_pages s then used_pages s - 1 else used_pages s)\<rparr>
      else s)"

definition pmm_free_page :: "nat \<Rightarrow> pmm \<Rightarrow> pmm" where
  "pmm_free_page ptr s = (if ptr = 0 then s else release_page (ptr div PMM_PAGE_SIZE) s)"

function release_pages :: "nat \<Rightarrow> nat \<Rightarrow> nat \<Rightarrow> pmm \<Rightarrow> pmm" where
  "release_pages start_page count i s =
     (if i < count
      then release_pages start_page count (Suc i) (release_page (wrap64 (start_page + i)) s)
      else s)"
  by pat_completeness auto
termination
  by (relation "measure (\<lambda>(a, n, i, s). n - i)") auto

declare release_pages.simps [simp del]

definition pmm_free_pages :: "nat \<Rightarrow> nat \<Rightarrow> pmm \<Rightarrow> pmm" where
  "pmm_free_pages ptr count s =
     (if ptr = 0 \<or> count = 0 then s else release_pages (ptr div PMM_PAGE_SIZE) count 0 s)"

definition pmm_get_free_pages :: "pmm \<Rightarrow> nat" where
  "pmm_get_free_pages s = (if used_pages s < total_pages s then total_pages s - used_pages s else 0)"

section \<open>Bit loops\<close>

lemma length_bits_clear [simp]: "length (bits_clear a n p m) = length m"
  by (induction a n p m rule: bits_clear.induct) (subst bits_clear.simps, simp)

lemma length_bits_set [simp]: "length (bits_set p n m) = length m"
  by (induction p n m rule: bits_set.induct) (subst bits_set.simps, simp)

lemma test_bits_clear:
  assumes "a + n \<le> 64 * length m"
  shows "bitmap_test (bits_clear a n p m) j \<longleftrightarrow> bitmap_test m j \<and> \<not> (a + p \<le> j \<and> j < a + n)"
  using assms
proof (induction a n p m rule: bits_clear.induct)
  case (1 a n p m)
  show ?case
  proof (cases "p < n")
    case True
    then have "bitmap_test (bits_clear a n p m) j =
        bitmap_test (bits_clear a n (Suc p) (bitmap_clear m (a + p))) j"
      by (subst bits_clear.simps) simp
    also have "\<dots> \<longleftrightarrow> bitmap_test (bitmap_clear m (a + p)) j \<and> \<not> (a + Suc p \<le> j \<and> j < a + n)"
      using "1.IH"[OF True] "1.prems" by simp
    finally show ?thesis using True "1.prems" by (auto simp: bitmap_test_clear)
  next
    case False
    then show ?thesis by (subst bits_clear.simps) auto
  qed
qed

lemma test_bits_set:
  assumes "n \<le> 64 * length m"
  shows "bitmap_test (bits_set p n m) j \<longleftrightarrow> bitmap_test m j \<or> (p \<le> j \<and> j < n)"
  using assms
proof (induction p n m rule: bits_set.induct)
  case (1 p n m)
  show ?case
  proof (cases "p < n")
    case True
    then have "bitmap_test (bits_set p n m) j = bitmap_test (bits_set (Suc p) n (bitmap_set m p)) j"
      by (subst bits_set.simps) simp
    also have "\<dots> \<longleftrightarrow> bitmap_test (bitmap_set m p) j \<or> (Suc p \<le> j \<and> j < n)"
      using "1.IH"[OF True] "1.prems" by simp
    finally show ?thesis using True "1.prems" by (auto simp: bitmap_test_set)
  next
    case False
    then show ?thesis by (subst bits_set.simps) auto
  qed
qed

lemma count_used_ones: "count_used m n = card (bm.ones m n)"
proof (induction n)
  case 0
  then show ?case by (simp add: bm.ones_def)
next
  case (Suc n)
  then show ?case by (simp add: bm.card_ones_Suc)
qed

lemma first_free_page_spec:
  assumes "\<And>j. j < i \<Longrightarrow> bitmap_test m j"
  shows "case first_free_page m n i of
      Some k \<Rightarrow> k < n \<and> \<not> bitmap_test m k \<and> (\<forall>j < k. bitmap_test m j)
    | None \<Rightarrow> (\<forall>j < n. bitmap_test m j)"
  using assms
proof (induction m n i rule: first_free_page.induct)
  case (1 m n i)
  consider (fin) "\<not> i < n" | (hit) "i < n" "\<not> bitmap_test m i" | (go) "i < n" "bitmap_test m i" by blast
  then show ?case
  proof cases
    case go
    have "bitmap_test m j" if "j < Suc i" for j
      using that go(2) "1.prems" by (cases "j = i") auto
    then show ?thesis using "1.IH" go by (subst first_free_page.simps) auto
  qed (use "1.prems" in \<open>subst first_free_page.simps; auto\<close>)+
qed

section \<open>The allocator's invariant\<close>

text \<open>
  The bitmap covers every page the allocator can name, and \<open>used_pages\<close> is the number of set
  bits below \<open>total_pages\<close>.
\<close>

definition pmm_wf :: "pmm \<Rightarrow> bool" where
  "pmm_wf s \<longleftrightarrow> length (page_bitmap s) = BITMAP_SIZE \<and> total_pages s \<le> MAX_PHYSICAL_PAGES \<and>
     used_pages s = card (bm.ones (page_bitmap s) (total_pages s))"

text \<open>A page in use: below \<open>total_pages\<close>, with its bit set.\<close>

definition page_used :: "pmm \<Rightarrow> nat \<Rightarrow> bool" where
  "page_used s p \<longleftrightarrow> p < total_pages s \<and> bitmap_test (page_bitmap s) p"

definition page_free :: "pmm \<Rightarrow> nat \<Rightarrow> bool" where
  "page_free s p \<longleftrightarrow> p < total_pages s \<and> \<not> bitmap_test (page_bitmap s) p"

lemma release_region_frame:
  assumes "length (page_bitmap s) = BITMAP_SIZE" "total_pages s \<le> MAX_PHYSICAL_PAGES"
  shows "length (page_bitmap (release_region a n p s)) = BITMAP_SIZE"
    "total_pages (release_region a n p s) \<le> MAX_PHYSICAL_PAGES"
  using assms
proof (induction a n p s rule: release_region.induct)
  case (1 a n p s)
  {
    case 1
    then show ?case using "1.IH" by (subst release_region.simps) (auto simp: Let_def)
  next
    case 2
    then show ?case using "1.IH" by (subst release_region.simps) (auto simp: Let_def)
  }
qed

lemma add_e820_frame:
  assumes "length (page_bitmap s) = BITMAP_SIZE" "total_pages s \<le> MAX_PHYSICAL_PAGES"
  shows "length (page_bitmap (add_e820 es s)) = BITMAP_SIZE \<and>
    total_pages (add_e820 es s) \<le> MAX_PHYSICAL_PAGES"
  using assms
proof (induction es arbitrary: s)
  case (Cons e es)
  show ?case
    using Cons.prems by (auto simp: Let_def intro!: Cons.IH release_region_frame)
qed simp

lemma fallback_map_frame:
  "length (page_bitmap (fallback_map a s)) = length (page_bitmap s)"
  "total_pages (fallback_map a s) \<le> MAX_PHYSICAL_PAGES"
  by (cases a; simp add: fallback_map_def Let_def)+

lemma kernel_reserved_bound: "snd (kernel_reserved a) \<le> MAX_PHYSICAL_PAGES"
  by (cases a) (simp_all add: kernel_reserved_def)

lemma pmm_init_facts:
  "pmm_wf (pmm_init a es)"
  "fst (kernel_reserved a) \<le> p \<Longrightarrow> p < snd (kernel_reserved a) \<Longrightarrow>
     bitmap_test (page_bitmap (pmm_init a es)) p"
proof -
  define s0 where "s0 = \<lparr>page_bitmap = replicate BITMAP_SIZE (- 1), total_pages = 0,
    used_pages = 0, total_memory_bytes = 0, usable_memory_bytes = 0 :: u64\<rparr>"
  define s1 where "s1 = add_e820 es s0"
  define s2 where
    "s2 = (if usable_memory_bytes s1 = 0 \<or> total_pages s1 = 0 then fallback_map a s1 else s1)"
  define m where
    "m = bits_set (fst (kernel_reserved a)) (snd (kernel_reserved a)) (page_bitmap s2)"
  have init: "pmm_init a es =
      s2\<lparr>page_bitmap := m, used_pages := count_used m (total_pages s2)\<rparr>"
    unfolding pmm_init_def s0_def[symmetric] s1_def[symmetric] s2_def[symmetric] Let_def
    by (simp add: m_def split: prod.split)
  have "length (page_bitmap s1) = BITMAP_SIZE \<and> total_pages s1 \<le> MAX_PHYSICAL_PAGES"
    unfolding s1_def by (rule add_e820_frame) (simp_all add: s0_def)
  then have s2: "length (page_bitmap s2) = BITMAP_SIZE" "total_pages s2 \<le> MAX_PHYSICAL_PAGES"
    by (auto simp: s2_def fallback_map_frame)
  then show "pmm_wf (pmm_init a es)"
    by (simp add: init pmm_wf_def count_used_ones) (simp add: m_def)
  have "snd (kernel_reserved a) \<le> 64 * length (page_bitmap s2)"
    using kernel_reserved_bound[of a] s2(1) by simp
  then show "bitmap_test (page_bitmap (pmm_init a es)) p"
    if "fst (kernel_reserved a) \<le> p" "p < snd (kernel_reserved a)"
    using that by (simp add: init m_def test_bits_set)
qed

section \<open>Allocation\<close>

lemma pmm_wf_cap: "pmm_wf s \<Longrightarrow> total_pages s \<le> 64 * length (page_bitmap s)"
  by (simp add: pmm_wf_def)

lemma card_ones_bits_set:
  assumes "free_run (\<lambda>i. \<not> bitmap_test m i) n c a" "n \<le> 64 * length m"
  shows "card (bm.ones (bits_set a (a + c) m) n) = card (bm.ones m n) + c"
proof -
  have "bm.ones (bits_set a (a + c) m) n = bm.ones m n \<union> {a..<a + c}"
    using assms by (auto simp: bm.ones_def test_bits_set free_run_def)
  moreover have "bm.ones m n \<inter> {a..<a + c} = {}"
    using assms(1) by (auto simp: bm.ones_def free_run_def)
  ultimately show ?thesis by (simp add: card_Un_disjoint bm.finite_ones)
qed

lemma pmm_alloc_pages_Some:
  assumes "pmm_wf s" "0 < count"
    "run_scan (\<lambda>i. \<not> bitmap_test (page_bitmap s) i) (total_pages s) count 0 0 0 = Some a"
  defines "s' \<equiv> snd (pmm_alloc_pages count s)"
  shows "fst (pmm_alloc_pages count s) = a * PMM_PAGE_SIZE" "pmm_wf s'"
    "free_run (\<lambda>i. \<not> bitmap_test (page_bitmap s) i) (total_pages s) count a"
    "total_pages s' = total_pages s" "used_pages s' = used_pages s + count"
    "bitmap_test (page_bitmap s') p \<longleftrightarrow> bitmap_test (page_bitmap s) p \<or> (a \<le> p \<and> p < a + count)"
proof -
  note run = run_scan_Some(1)[OF assms(2,3)]
  from run show "free_run (\<lambda>i. \<not> bitmap_test (page_bitmap s) i) (total_pages s) count a" .
  have eq: "pmm_alloc_pages count s = (a * PMM_PAGE_SIZE,
      s\<lparr>page_bitmap := bits_set a (a + count) (page_bitmap s), used_pages := used_pages s + count\<rparr>)"
    using assms(2,3) by (simp add: pmm_alloc_pages_def)
  show "fst (pmm_alloc_pages count s) = a * PMM_PAGE_SIZE" "total_pages s' = total_pages s"
    "used_pages s' = used_pages s + count"
    by (simp_all add: s'_def eq)
  have cap: "a + count \<le> 64 * length (page_bitmap s)"
    using run pmm_wf_cap[OF assms(1)] by (auto simp: free_run_def)
  show "bitmap_test (page_bitmap s') p \<longleftrightarrow>
      bitmap_test (page_bitmap s) p \<or> (a \<le> p \<and> p < a + count)"
    by (simp add: s'_def eq test_bits_set[OF cap])
  show "pmm_wf s'"
    using assms(1) card_ones_bits_set[OF run pmm_wf_cap[OF assms(1)]]
    by (simp add: s'_def eq pmm_wf_def)
qed

lemma pmm_alloc_pages_None:
  assumes "count = 0 \<or> run_scan (\<lambda>i. \<not> bitmap_test (page_bitmap s) i) (total_pages s) count 0 0 0 = None"
  shows "pmm_alloc_pages count s = (0, s)"
  using assms by (auto simp: pmm_alloc_pages_def)

lemma pmm_alloc_pages_wf: "pmm_wf s \<Longrightarrow> pmm_wf (snd (pmm_alloc_pages count s))"
  using pmm_alloc_pages_Some(2) pmm_alloc_pages_None
  by (cases "run_scan (\<lambda>i. \<not> bitmap_test (page_bitmap s) i) (total_pages s) count 0 0 0";
      cases "count = 0") auto

text \<open>A non-NULL result names its first page.\<close>

lemma pmm_alloc_pages_start:
  assumes "pmm_alloc_pages count s = (ptr, s')" "ptr \<noteq> 0"
  shows "0 < count \<and> run_scan (\<lambda>i. \<not> bitmap_test (page_bitmap s) i) (total_pages s) count 0 0 0
      = Some (ptr div PMM_PAGE_SIZE) \<and> ptr mod PMM_PAGE_SIZE = 0"
  using assms by (auto simp: pmm_alloc_pages_def split: if_splits option.splits)

lemma pmm_alloc_page_is_alloc_pages:
  "fst (pmm_alloc_page s) = fst (pmm_alloc_pages 1 s) \<and>
   page_bitmap (snd (pmm_alloc_page s)) = page_bitmap (snd (pmm_alloc_pages 1 s)) \<and>
   used_pages (snd (pmm_alloc_page s)) = used_pages (snd (pmm_alloc_pages 1 s)) \<and>
   total_pages (snd (pmm_alloc_page s)) = total_pages (snd (pmm_alloc_pages 1 s))"
proof -
  let ?m = "page_bitmap s" and ?n = "total_pages s"
  have spec: "case first_free_page ?m ?n 0 of
      Some k \<Rightarrow> k < ?n \<and> \<not> bitmap_test ?m k \<and> (\<forall>j < k. bitmap_test ?m j)
    | None \<Rightarrow> (\<forall>j < ?n. bitmap_test ?m j)"
    by (rule first_free_page_spec) simp
  have one: "bits_set k (Suc k) m = bitmap_set m k" for k m
    by (subst bits_set.simps, subst bits_set.simps) simp
  show ?thesis
  proof (cases "run_scan (\<lambda>i. \<not> bitmap_test ?m i) ?n 1 0 0 0")
    case None
    then have "\<forall>s. \<not> free_run (\<lambda>i. \<not> bitmap_test ?m i) ?n 1 s"
      using run_scan_None[of 1] by simp
    then have "first_free_page ?m ?n 0 = None"
      using spec by (auto simp: free_run_one simp del: One_nat_def split: option.splits)
    with None show ?thesis by (simp add: pmm_alloc_page_def pmm_alloc_pages_def)
  next
    case (Some a)
    note run = run_scan_Some[OF _ Some, unfolded free_run_one]
    have "first_free_page ?m ?n 0 = Some a"
    proof (cases "first_free_page ?m ?n 0")
      case None
      then show ?thesis using spec run(1) by auto
    next
      case (Some k)
      then show ?thesis using spec run(1) run(2)[of k] by (metis linorder_neqE_nat option.simps(5) zero_less_one)
    qed
    with Some show ?thesis by (simp add: pmm_alloc_page_def pmm_alloc_pages_def one)
  qed
qed

lemma pmm_alloc_page_wf: "pmm_wf s \<Longrightarrow> pmm_wf (snd (pmm_alloc_page s))"
  using pmm_alloc_pages_wf[of s 1] pmm_alloc_page_is_alloc_pages[of s] by (simp add: pmm_wf_def)

section \<open>Release\<close>

lemma release_page_facts:
  assumes "pmm_wf s"
  shows "pmm_wf (release_page p s)" "total_pages (release_page p s) = total_pages s"
    "page_used (release_page p s) q \<longleftrightarrow> page_used s q \<and> q \<noteq> p"
    "bitmap_test (page_bitmap (release_page p s)) q \<longleftrightarrow>
       bitmap_test (page_bitmap s) q \<and> \<not> (q = p \<and> p < total_pages s)"
proof -
  have cap: "p < 64 * length (page_bitmap s)" if "p < total_pages s"
    using that pmm_wf_cap[OF assms] by simp
  show "total_pages (release_page p s) = total_pages s"
    by (simp add: release_page_def)
  show "bitmap_test (page_bitmap (release_page p s)) q \<longleftrightarrow>
      bitmap_test (page_bitmap s) q \<and> \<not> (q = p \<and> p < total_pages s)"
    using cap by (auto simp: release_page_def bitmap_test_clear)
  then show "page_used (release_page p s) q \<longleftrightarrow> page_used s q \<and> q \<noteq> p"
    by (auto simp: page_used_def release_page_def)
  show "pmm_wf (release_page p s)"
  proof (cases "p < total_pages s \<and> bitmap_test (page_bitmap s) p")
    case True
    have "Suc (card (bm.ones (bitmap_clear (page_bitmap s) p) (total_pages s)))
        = card (bm.ones (page_bitmap s) (total_pages s))"
      using True cap by (intro bm.card_ones_clear) auto
    then show ?thesis using assms True by (auto simp: pmm_wf_def release_page_def)
  next
    case False
    then show ?thesis using assms unfolding release_page_def by (simp only: if_False)
  qed
qed

lemma release_pages_wf:
  assumes "pmm_wf s"
  shows "pmm_wf (release_pages a n i s) \<and> total_pages (release_pages a n i s) = total_pages s"
  using assms
proof (induction a n i s rule: release_pages.induct)
  case (1 a n i s)
  then show ?case
    using release_page_facts(1,2)[OF "1.prems"]
    by (cases "i < n"; subst (1 2) release_pages.simps) simp_all
qed

lemma release_pages_bits:
  assumes "pmm_wf s" "a + n \<le> 2 ^ 64"
  shows "bitmap_test (page_bitmap (release_pages a n i s)) q \<longleftrightarrow>
    bitmap_test (page_bitmap s) q \<and> \<not> (a + i \<le> q \<and> q < a + n \<and> q < total_pages s)"
  using assms
proof (induction a n i s rule: release_pages.induct)
  case (1 a n i s)
  show ?case
  proof (cases "i < n")
    case True
    then have w: "wrap64 (a + i) = a + i" using "1.prems"(2) by (intro wrap64_small) linarith
    note step = release_page_facts[OF "1.prems"(1), of "a + i"]
    have "a + i \<le> q \<and> q < a + n \<longleftrightarrow> q = a + i \<or> (a + Suc i \<le> q \<and> q < a + n)"
      using True by auto
    then show ?thesis
      using True "1.IH"[OF True, unfolded w, OF step(1) "1.prems"(2)] step(2,4)
      by (subst release_pages.simps) (auto simp: w)
  next
    case False
    with "1.prems" show ?thesis by (subst release_pages.simps) auto
  qed
qed

lemmas release_pages_facts =
  release_pages_wf [THEN conjunct1] release_pages_wf [THEN conjunct2] release_pages_bits

lemma pmm_free_page_wf: "pmm_wf s \<Longrightarrow> pmm_wf (pmm_free_page ptr s)"
  by (simp add: pmm_free_page_def release_page_facts)

lemma pmm_free_pages_wf: "pmm_wf s \<Longrightarrow> pmm_wf (pmm_free_pages ptr count s)"
  by (simp add: pmm_free_pages_def release_pages_facts)

section \<open>Ownership\<close>

text \<open>
  The runs of the allocator from boot, with the page ranges its callers hold: an allocation
  that returns a pointer adds its range, and callers release only ranges they hold.
\<close>

inductive pmm_reach :: "arch \<Rightarrow> pmm \<Rightarrow> (nat \<times> nat) set \<Rightarrow> bool" for a where
  boot: "pmm_reach a (pmm_init a es) {}"
| alloc_pages: "pmm_reach a s own \<Longrightarrow> pmm_alloc_pages n s = (ptr, s') \<Longrightarrow>
    pmm_reach a s' (if ptr = 0 then own else insert (ptr div PMM_PAGE_SIZE, n) own)"
| alloc_page: "pmm_reach a s own \<Longrightarrow> pmm_alloc_page s = (ptr, s') \<Longrightarrow>
    pmm_reach a s' (if ptr = 0 then own else insert (ptr div PMM_PAGE_SIZE, 1) own)"
| free_pages: "pmm_reach a s own \<Longrightarrow> (p, n) \<in> own \<Longrightarrow>
    pmm_reach a (pmm_free_pages (p * PMM_PAGE_SIZE) n s) (own - {(p, n)})"
| free_page: "pmm_reach a s own \<Longrightarrow> (p, 1) \<in> own \<Longrightarrow>
    pmm_reach a (pmm_free_page (p * PMM_PAGE_SIZE) s) (own - {(p, 1)})"

definition pages_of :: "nat \<times> nat \<Rightarrow> nat set" where
  "pages_of r = {fst r..<fst r + snd r}"

definition own_inv :: "arch \<Rightarrow> pmm \<Rightarrow> (nat \<times> nat) set \<Rightarrow> bool" where
  "own_inv a s own \<longleftrightarrow> pmm_wf s \<and>
     (\<forall>p. fst (kernel_reserved a) \<le> p \<and> p < snd (kernel_reserved a) \<longrightarrow>
        bitmap_test (page_bitmap s) p \<and> (\<forall>r \<in> own. p \<notin> pages_of r)) \<and>
     (\<forall>r \<in> own. 0 < snd r \<and> (\<forall>p \<in> pages_of r. page_used s p)) \<and>
     pairwise (\<lambda>r r'. pages_of r \<inter> pages_of r' = {}) own"

lemma own_invD:
  assumes "own_inv a s own"
  shows "pmm_wf s" "r \<in> own \<Longrightarrow> 0 < snd r" "r \<in> own \<Longrightarrow> p \<in> pages_of r \<Longrightarrow> page_used s p"
    "fst (kernel_reserved a) \<le> p \<Longrightarrow> p < snd (kernel_reserved a) \<Longrightarrow> bitmap_test (page_bitmap s) p"
    "fst (kernel_reserved a) \<le> p \<Longrightarrow> p < snd (kernel_reserved a) \<Longrightarrow> r \<in> own \<Longrightarrow> p \<notin> pages_of r"
    "r \<in> own \<Longrightarrow> r' \<in> own \<Longrightarrow> r \<noteq> r' \<Longrightarrow> p \<in> pages_of r \<Longrightarrow> p \<notin> pages_of r'"
  using assms unfolding own_inv_def pairwise_def by blast+

lemma own_invI:
  assumes "pmm_wf s" "\<And>r. r \<in> own \<Longrightarrow> 0 < snd r"
    "\<And>r p. r \<in> own \<Longrightarrow> p \<in> pages_of r \<Longrightarrow> page_used s p"
    "\<And>p. fst (kernel_reserved a) \<le> p \<Longrightarrow> p < snd (kernel_reserved a) \<Longrightarrow> bitmap_test (page_bitmap s) p"
    "\<And>p r. fst (kernel_reserved a) \<le> p \<Longrightarrow> p < snd (kernel_reserved a) \<Longrightarrow> r \<in> own \<Longrightarrow> p \<notin> pages_of r"
    "\<And>r r' p. r \<in> own \<Longrightarrow> r' \<in> own \<Longrightarrow> r \<noteq> r' \<Longrightarrow> p \<in> pages_of r \<Longrightarrow> p \<notin> pages_of r'"
  shows "own_inv a s own"
  using assms unfolding own_inv_def pairwise_def by blast

text \<open>Taking free pages adds a range disjoint from all others.\<close>

lemma own_inv_take:
  assumes "own_inv a s own" "pmm_wf s'" "total_pages s' = total_pages s" "0 < n"
    and free: "\<And>p. q \<le> p \<Longrightarrow> p < q + n \<Longrightarrow> page_free s p"
    and bits: "\<And>p. bitmap_test (page_bitmap s') p \<longleftrightarrow>
      bitmap_test (page_bitmap s) p \<or> (q \<le> p \<and> p < q + n)"
  shows "own_inv a s' (insert (q, n) own)"
proof (rule own_invI)
  note inv = own_invD[OF assms(1)]
  have new_free: "page_free s p" if "p \<in> pages_of (q, n)" for p
    using that free by (simp add: pages_of_def)
  have new: "p \<notin> pages_of (q, n)" if "bitmap_test (page_bitmap s) p" for p
    using that new_free by (auto simp: page_free_def)
  have old: "p \<notin> pages_of (q, n)" if "r \<in> own" "p \<in> pages_of r" for r p
    using new inv(3)[OF that] by (simp add: page_used_def)
  show "pmm_wf s'" by fact
  show "0 < snd r" if "r \<in> insert (q, n) own" for r
    using that inv(2)[of r] assms(4) by (cases "r = (q, n)") auto
  show "page_used s' p" if "r \<in> insert (q, n) own" "p \<in> pages_of r" for r p
  proof (cases "p \<in> pages_of (q, n)")
    case True
    then show ?thesis
      using new_free[of p] assms(3) bits by (simp add: page_free_def page_used_def pages_of_def)
  next
    case False
    then have "page_used s p" using that inv(3)[of r p] by (cases "r = (q, n)") auto
    then show ?thesis using assms(3) bits by (simp add: page_used_def)
  qed
  show "bitmap_test (page_bitmap s') p"
    if "fst (kernel_reserved a) \<le> p" "p < snd (kernel_reserved a)" for p
    using inv(4)[OF that] bits by simp
  show "p \<notin> pages_of r"
    if "fst (kernel_reserved a) \<le> p" "p < snd (kernel_reserved a)" "r \<in> insert (q, n) own" for p r
    using that(3) inv(5)[OF that(1,2), of r] new[OF inv(4)[OF that(1,2)]] by (cases "r = (q, n)") auto
  show "p \<notin> pages_of r'"
    if "r \<in> insert (q, n) own" "r' \<in> insert (q, n) own" "r \<noteq> r'" "p \<in> pages_of r" for r r' p
    using that old inv(6) by blast
qed

lemma own_inv_grow:
  assumes "own_inv a s own" "pmm_wf s'" "total_pages s' = total_pages s"
    and "\<And>p. bitmap_test (page_bitmap s) p \<Longrightarrow> bitmap_test (page_bitmap s') p"
  shows "own_inv a s' own"
  using assms unfolding own_inv_def page_used_def by simp

lemma own_inv_alloc:
  assumes "own_inv a s own" "pmm_alloc_pages n s = (ptr, s')"
  shows "own_inv a s' (if ptr = 0 then own else insert (ptr div PMM_PAGE_SIZE, n) own)"
proof (cases "n = 0 \<or> run_scan (\<lambda>i. \<not> bitmap_test (page_bitmap s) i) (total_pages s) n 0 0 0 = None")
  case True
  then show ?thesis using pmm_alloc_pages_None[OF True] assms by simp
next
  case False
  then obtain q where q: "0 < n"
    "run_scan (\<lambda>i. \<not> bitmap_test (page_bitmap s) i) (total_pages s) n 0 0 0 = Some q" by auto
  have wf: "pmm_wf s" using assms(1) by (simp add: own_inv_def)
  note facts = pmm_alloc_pages_Some[OF wf q, unfolded assms(2) fst_conv snd_conv]
  have "own_inv a s' (insert (q, n) own)"
    using assms(1) facts(2,4) q(1)
    by (rule own_inv_take) (use facts(3,6) in \<open>auto simp: free_run_def page_free_def\<close>)
  moreover have "own_inv a s' own"
    using assms(1) facts(2,4) by (rule own_inv_grow) (simp add: facts(6))
  ultimately show ?thesis using facts(1) by simp
qed

lemma own_inv_cong:
  "own_inv a s own \<Longrightarrow> page_bitmap s' = page_bitmap s \<Longrightarrow> total_pages s' = total_pages s \<Longrightarrow>
   used_pages s' = used_pages s \<Longrightarrow> own_inv a s' own"
  by (simp add: own_inv_def pmm_wf_def page_used_def)

lemma own_inv_drop:
  assumes "own_inv a s own" "(q, n) \<in> own" "pmm_wf s'" "total_pages s' = total_pages s"
    and "\<And>p. bitmap_test (page_bitmap s') p \<longleftrightarrow>
      bitmap_test (page_bitmap s) p \<and> \<not> (q \<le> p \<and> p < q + n \<and> p < total_pages s)"
  shows "own_inv a s' (own - {(q, n)})"
proof (rule own_invI)
  note inv = own_invD[OF assms(1)]
  have other: "p \<notin> pages_of (q, n)" if "r \<in> own - {(q, n)}" "p \<in> pages_of r" for r p
    using inv(6)[of r "(q, n)" p] that assms(2) by auto
  have keep: "bitmap_test (page_bitmap s') p"
    if "bitmap_test (page_bitmap s) p" "p \<notin> pages_of (q, n)" for p
    using that assms(5)[of p] by (auto simp: pages_of_def)
  show "pmm_wf s'" by fact
  show "page_used s' p" if "r \<in> own - {(q, n)}" "p \<in> pages_of r" for r p
    using inv(3)[of r p] that keep other[OF that] assms(4) by (simp add: page_used_def)
  show "bitmap_test (page_bitmap s') p"
    if "fst (kernel_reserved a) \<le> p" "p < snd (kernel_reserved a)" for p
    using inv(4)[OF that] inv(5)[OF that assms(2)] keep by simp
qed (use own_invD[OF assms(1)] in blast)+

lemma pmm_free_page_is_free_pages:
  assumes "ptr < 2 ^ 64"
  shows "pmm_free_pages ptr 1 s = pmm_free_page ptr s"
proof -
  have "wrap64 (ptr div PMM_PAGE_SIZE) = ptr div PMM_PAGE_SIZE"
    using assms by (intro wrap64_small) (auto intro: le_less_trans[OF div_le_dividend])
  then show ?thesis
    unfolding pmm_free_pages_def pmm_free_page_def
    by (subst release_pages.simps, subst release_pages.simps) simp
qed

lemma own_inv_free:
  assumes "own_inv a s own" "(q, n) \<in> own"
  shows "own_inv a (pmm_free_pages (q * PMM_PAGE_SIZE) n s) (own - {(q, n)})"
proof (cases "q = 0")
  case True
  then have eq: "pmm_free_pages (q * PMM_PAGE_SIZE) n s = s" by (simp add: pmm_free_pages_def)
  show ?thesis unfolding eq
    by (rule own_invI) (use own_invD[OF assms(1)] in blast)+
next
  case False
  have "0 < n" "pmm_wf s" using assms by (auto simp: own_inv_def)
  then have eq: "pmm_free_pages (q * PMM_PAGE_SIZE) n s = release_pages q n 0 s"
    using False by (simp add: pmm_free_pages_def)
  have "q + n - 1 \<in> pages_of (q, n)" using \<open>0 < n\<close> by (simp add: pages_of_def)
  then have "q + n - 1 < total_pages s" using own_invD(3)[OF assms] by (simp add: page_used_def)
  then have "q + n \<le> 2 ^ 64" using \<open>pmm_wf s\<close> by (auto simp: pmm_wf_def)
  then show ?thesis unfolding eq
    using release_pages_facts(3)[OF \<open>pmm_wf s\<close>, of q n 0] release_pages_facts(1,2)[OF \<open>pmm_wf s\<close>]
    by (intro own_inv_drop[OF assms]) auto
qed

lemma pmm_reach_own_inv: "pmm_reach a s own \<Longrightarrow> own_inv a s own"
proof (induction rule: pmm_reach.induct)
  case (boot es)
  then show ?case using pmm_init_facts[where a = a and es = es] by (auto simp: own_inv_def pairwise_def)
next
  case (alloc_pages s own n ptr s')
  then show ?case using own_inv_alloc by blast
next
  case (alloc_page s own ptr s')
  obtain ptr' t where t: "pmm_alloc_pages 1 s = (ptr', t)" by fastforce
  have "own_inv a t (if ptr' = 0 then own else insert (ptr' div PMM_PAGE_SIZE, 1) own)"
    using own_inv_alloc[OF alloc_page.IH t] .
  then show ?case
    using own_inv_cong[of a t _ s'] pmm_alloc_page_is_alloc_pages[of s] t alloc_page.hyps(2) by auto
next
  case (free_pages s own p n)
  then show ?case using own_inv_free by blast
next
  case (free_page s own p)
  have "p \<in> pages_of (p, 1)" by (simp add: pages_of_def)
  then have "p < total_pages s" using own_invD(3)[OF free_page.IH free_page.hyps(2)] by (simp add: page_used_def)
  then have "p * PMM_PAGE_SIZE < 2 ^ 64" using own_invD(1)[OF free_page.IH] by (simp add: pmm_wf_def)
  then show ?case
    using own_inv_free[OF free_page.IH free_page.hyps(2)] pmm_free_page_is_free_pages by metis
qed

section \<open>Round trip and the boot map\<close>

lemma bitmap_ext:
  assumes "length m = length m'" "\<And>i. i < 64 * length m \<Longrightarrow> bitmap_test m i = bitmap_test m' i"
  shows "m = m'"
proof (rule nth_equalityI)
  fix w assume w: "w < length m"
  have "bit (m ! w) k = bit (m' ! w) k" if "k < 64" for k
    using assms(2)[of "64 * w + k"] w that by (simp add: bitmap_test_bit)
  then show "m ! w = m' ! w" by (intro bit_word_eqI) simp
qed (rule assms(1))

lemma release_page_bytes:
  "total_memory_bytes (release_page p s) = total_memory_bytes s"
  "usable_memory_bytes (release_page p s) = usable_memory_bytes s"
  by (simp_all add: release_page_def)

lemma release_pages_bytes:
  "total_memory_bytes (release_pages a n i s) = total_memory_bytes s \<and>
   usable_memory_bytes (release_pages a n i s) = usable_memory_bytes s"
proof (induction a n i s rule: release_pages.induct)
  case (1 a n i s)
  then show ?case
    by (cases "i < n"; subst (1 2) release_pages.simps) (simp_all add: release_page_bytes)
qed

lemma pmm_eqI:
  assumes "page_bitmap s = page_bitmap t" "total_pages s = total_pages t" "used_pages s = used_pages t"
    "total_memory_bytes s = total_memory_bytes t" "usable_memory_bytes s = usable_memory_bytes (t :: pmm)"
  shows "s = t"
  using assms by simp

lemma pmm_alloc_free:
  assumes "pmm_wf s" "pmm_alloc_pages n s = (ptr, s')" "ptr \<noteq> 0"
  shows "pmm_free_pages ptr n s' = s"
proof -
  obtain q where q: "0 < n" "run_scan (\<lambda>i. \<not> bitmap_test (page_bitmap s) i) (total_pages s) n 0 0 0 = Some q"
    "ptr = q * PMM_PAGE_SIZE"
    using assms(2,3) by (auto simp: pmm_alloc_pages_def split: if_splits option.splits)
  note facts = pmm_alloc_pages_Some[OF assms(1) q(1,2), unfolded assms(2) fst_conv snd_conv]
  have "q + n \<le> 2 ^ 64" using facts(3) assms(1) by (simp add: free_run_def pmm_wf_def)
  note rel = release_pages_facts(1,2)[OF facts(2), of q n 0] release_pages_facts(3)[OF facts(2) this, of 0]
  have eq: "pmm_free_pages ptr n s' = release_pages q n 0 s'"
    using q assms(3) by (simp add: pmm_free_pages_def)
  have len: "length (page_bitmap (release_pages q n 0 s')) = length (page_bitmap s)"
    using rel(1) assms(1) by (simp add: pmm_wf_def)
  have bits: "page_bitmap (release_pages q n 0 s') = page_bitmap s"
    using facts(3,4,6) by (intro bitmap_ext len) (auto simp: rel(3) free_run_def)
  moreover have "used_pages (release_pages q n 0 s') = used_pages s"
    using rel(1,2) assms(1) facts(4) bits by (simp add: pmm_wf_def)
  moreover have "total_memory_bytes s' = total_memory_bytes s \<and> usable_memory_bytes s' = usable_memory_bytes s"
    using assms(2) by (auto simp: pmm_alloc_pages_def split: if_splits option.splits)
  ultimately show ?thesis
    unfolding eq using rel(2) facts(4) release_pages_bytes[of q n 0 s'] by (intro pmm_eqI) auto
qed

text \<open>Without a memory map the machine boots with the pages from 8 MiB to 128 MiB free.\<close>

lemma pmm_init_default:
  "total_pages (pmm_init X86_64 []) = 32768"
  "p < MAX_PHYSICAL_PAGES \<Longrightarrow>
   bitmap_test (page_bitmap (pmm_init X86_64 [])) p \<longleftrightarrow> p < 2048 \<or> 32768 \<le> p"
proof -
  have minus: "bitmap_test (replicate BITMAP_SIZE (- 1)) p" if "p < MAX_PHYSICAL_PAGES" for p
    using that by (simp add: bitmap_test_bit bit_minus_1_iff)
  show "total_pages (pmm_init X86_64 []) = 32768"
    by (simp add: pmm_init_def Let_def fallback_map_def kernel_reserved_def)
  show "bitmap_test (page_bitmap (pmm_init X86_64 [])) p \<longleftrightarrow> p < 2048 \<or> 32768 \<le> p"
    if "p < MAX_PHYSICAL_PAGES"
    using minus[OF that]
    by (auto simp: pmm_init_def Let_def fallback_map_def kernel_reserved_def test_bits_set test_bits_clear)
qed

lemma pmm_init_default_alloc:
  assumes "0 < n" "n \<le> 30720"
  shows "fst (pmm_alloc_pages n (pmm_init X86_64 [])) = 2048 * PMM_PAGE_SIZE"
proof -
  let ?s = "pmm_init X86_64 []"
  let ?f = "\<lambda>i. \<not> bitmap_test (page_bitmap ?s) i"
  have run: "free_run ?f (total_pages ?s) n q \<longleftrightarrow> 2048 \<le> q \<and> q + n \<le> 32768" for q
    using assms(1) by (fastforce simp: free_run_def pmm_init_default)
  have "run_scan ?f (total_pages ?s) n 0 0 0 \<noteq> None"
    using run_scan_None[OF assms(1)] run[of 2048] assms(2) by auto
  then obtain q where q: "run_scan ?f (total_pages ?s) n 0 0 0 = Some q" by auto
  have "q = 2048"
    using run_scan_Some(1)[OF assms(1) q] run_scan_Some(2)[OF assms(1) q, of 2048] run assms(2) by force
  then show ?thesis using pmm_alloc_pages_Some(1)[OF pmm_init_facts(1) assms(1) q] by simp
qed

section \<open>What the clients of the page allocator rely on\<close>

text \<open>
  The heap, and every other client, sees the allocator through this contract: a returned region is
  page aligned, its pages were not in use and are in use afterwards, pages in use stay in use, and
  all of them lie in the 4 GiB the bitmap covers.
\<close>

locale page_provider =
  fixes alloc :: "nat \<Rightarrow> 'p \<Rightarrow> nat \<times> 'p" and used :: "'p \<Rightarrow> nat \<Rightarrow> bool" and wf :: "'p \<Rightarrow> bool"
  assumes alloc_wf: "wf p \<Longrightarrow> wf (snd (alloc n p))"
    and used_mono: "wf p \<Longrightarrow> used p q \<Longrightarrow> used (snd (alloc n p)) q"
    and used_bound: "wf p \<Longrightarrow> used p q \<Longrightarrow> q < MAX_PHYSICAL_PAGES"
    and alloc_region: "wf p \<Longrightarrow> fst (alloc n p) \<noteq> 0 \<Longrightarrow>
      0 < n \<and> fst (alloc n p) mod PMM_PAGE_SIZE = 0 \<and>
      (\<forall>q. fst (alloc n p) div PMM_PAGE_SIZE \<le> q \<and> q < fst (alloc n p) div PMM_PAGE_SIZE + n \<longrightarrow>
         \<not> used p q \<and> used (snd (alloc n p)) q)"
begin

lemma region_page:
  assumes "wf p" "fst (alloc n p) \<noteq> 0" "fst (alloc n p) \<le> x" "x < fst (alloc n p) + n * PMM_PAGE_SIZE"
  shows "\<not> used p (x div PMM_PAGE_SIZE) \<and> used (snd (alloc n p)) (x div PMM_PAGE_SIZE)"
proof -
  define q where "q = fst (alloc n p) div PMM_PAGE_SIZE"
  have "fst (alloc n p) = q * PMM_PAGE_SIZE"
    using alloc_region[OF assms(1,2)] by (auto simp: q_def)
  then have "q \<le> x div PMM_PAGE_SIZE \<and> x div PMM_PAGE_SIZE < q + n" using assms(3,4) by auto
  then show ?thesis using alloc_region[OF assms(1,2)] unfolding q_def by blast
qed

lemma region_disjoint:
  assumes "wf p" "fst (alloc n p) \<noteq> 0" "\<And>x. x \<in> S \<Longrightarrow> used p (x div PMM_PAGE_SIZE)"
  shows "S \<inter> {fst (alloc n p)..<fst (alloc n p) + n * PMM_PAGE_SIZE} = {}"
  using region_page[OF assms(1,2)] assms(3) by fastforce

lemma region_bound:
  assumes "wf p" "fst (alloc n p) \<noteq> 0"
  shows "n \<le> MAX_PHYSICAL_PAGES"
proof -
  note region = alloc_region[OF assms]
  have "used (snd (alloc n p)) (fst (alloc n p) div PMM_PAGE_SIZE + (n - 1))"
    using region[THEN conjunct2, THEN conjunct2, rule_format, of "fst (alloc n p) div PMM_PAGE_SIZE + (n - 1)"]
      region[THEN conjunct1] by simp
  from used_bound[OF alloc_wf[OF assms(1)] this] show ?thesis by linarith
qed

end

lemma pmm_alloc_pages_region:
  assumes "pmm_wf s" "fst (pmm_alloc_pages n s) \<noteq> 0"
    "fst (pmm_alloc_pages n s) div PMM_PAGE_SIZE \<le> q" "q < fst (pmm_alloc_pages n s) div PMM_PAGE_SIZE + n"
  shows "\<not> page_used s q \<and> page_used (snd (pmm_alloc_pages n s)) q"
proof -
  obtain a where a: "0 < n"
    "run_scan (\<lambda>i. \<not> bitmap_test (page_bitmap s) i) (total_pages s) n 0 0 0 = Some a"
    using pmm_alloc_pages_start[OF _ assms(2)] by (metis prod.collapse)
  note facts = pmm_alloc_pages_Some[OF assms(1) a]
  have "a \<le> q \<and> q < a + n" using assms(3,4) facts(1) by simp
  then show ?thesis using facts(3,4,6) by (auto simp: page_used_def free_run_def)
qed

lemma pmm_alloc_pages_mono:
  assumes "pmm_wf s" "page_used s q"
  shows "page_used (snd (pmm_alloc_pages n s)) q"
proof (cases "n = 0 \<or> run_scan (\<lambda>i. \<not> bitmap_test (page_bitmap s) i) (total_pages s) n 0 0 0 = None")
  case True
  then show ?thesis using pmm_alloc_pages_None[OF True] assms by simp
next
  case False
  then obtain a where "0 < n"
    "run_scan (\<lambda>i. \<not> bitmap_test (page_bitmap s) i) (total_pages s) n 0 0 0 = Some a" by auto
  then show ?thesis using pmm_alloc_pages_Some(4,6)[OF assms(1)] assms(2) by (auto simp: page_used_def)
qed

lemma page_used_bound: "pmm_wf s \<Longrightarrow> page_used s q \<Longrightarrow> q < MAX_PHYSICAL_PAGES"
  by (auto simp: page_used_def pmm_wf_def)

interpretation pg: page_provider pmm_alloc_pages page_used pmm_wf
proof
  fix p n assume p: "pmm_wf p" "fst (pmm_alloc_pages n p) \<noteq> 0"
  show "0 < n \<and> fst (pmm_alloc_pages n p) mod PMM_PAGE_SIZE = 0 \<and>
      (\<forall>q. fst (pmm_alloc_pages n p) div PMM_PAGE_SIZE \<le> q \<and>
          q < fst (pmm_alloc_pages n p) div PMM_PAGE_SIZE + n \<longrightarrow>
         \<not> page_used p q \<and> page_used (snd (pmm_alloc_pages n p)) q)"
    using pmm_alloc_pages_start[OF _ p(2)] pmm_alloc_pages_region[OF p] by (metis prod.collapse)
qed (simp_all add: pmm_alloc_pages_wf pmm_alloc_pages_mono page_used_bound)

section \<open>Properties\<close>

text \<open>C5: In every state the page allocator reaches from boot, whatever the firmware map and
  whatever the sequence of allocations and of releases of held ranges: the used-page counter is
  exact, the pages of live allocations are marked used, no two live allocations share a page and
  none holds a page reserved for the kernel.\<close>

theorem pmm_run_safe:
  assumes "pmm_reach a s own"
  shows "used_pages s = card {p. p < total_pages s \<and> bitmap_test (page_bitmap s) p} \<and>
    (\<forall>r \<in> own. \<forall>p \<in> pages_of r. page_used s p \<and>
       \<not> (fst (kernel_reserved a) \<le> p \<and> p < snd (kernel_reserved a))) \<and>
    (\<forall>r \<in> own. \<forall>r' \<in> own. r \<noteq> r' \<longrightarrow> pages_of r \<inter> pages_of r' = {})"
proof -
  note inv = own_invD[OF pmm_reach_own_inv[OF assms]]
  have "{p. p < total_pages s \<and> bitmap_test (page_bitmap s) p} = bm.ones (page_bitmap s) (total_pages s)"
    by (auto simp: bm.ones_def)
  then have "used_pages s = card {p. p < total_pages s \<and> bitmap_test (page_bitmap s) p}"
    using inv(1) by (simp add: pmm_wf_def)
  moreover have "pages_of r \<inter> pages_of r' = {}" if "r \<in> own" "r' \<in> own" "r \<noteq> r'" for r r'
    using inv(6)[OF that] by blast
  ultimately show ?thesis using inv(3,5) by blast
qed

lemma pmm_reach_two:
  "\<exists>s. pmm_reach X86_64 s {(2048, 3)}"
proof -
  obtain ptr s where s: "pmm_alloc_pages 3 (pmm_init X86_64 []) = (ptr, s)" by fastforce
  then have ptr: "ptr = 2048 * PMM_PAGE_SIZE" using pmm_init_default_alloc[of 3] by simp
  have "pmm_reach X86_64 s (if ptr = 0 then {} else insert (ptr div PMM_PAGE_SIZE, 3) {})"
    by (rule pmm_reach.alloc_pages[OF pmm_reach.boot s])
  then show ?thesis using ptr by auto
qed

theorem pmm_run_safe_witness:
  "\<exists>s. pmm_reach X86_64 s {(2048, 3)} \<and> page_used s 2050 \<and> pages_of (2048, 3) = {2048, 2049, 2050}"
proof -
  obtain s where s: "pmm_reach X86_64 s {(2048, 3)}" using pmm_reach_two by blast
  have "page_used s 2050" using pmm_run_safe[OF s] by (simp add: pages_of_def)
  moreover have "pages_of (2048, 3) = {2048, 2049, 2050}" by (auto simp: pages_of_def)
  ultimately show ?thesis using s by blast
qed

text \<open>\<open>count\<close> free pages start at page \<open>q\<close>.\<close>

definition free_at :: "pmm \<Rightarrow> nat \<Rightarrow> nat \<Rightarrow> bool" where
  "free_at s count q \<longleftrightarrow>
     q + count \<le> total_pages s \<and> (\<forall>p. q \<le> p \<and> p < q + count \<longrightarrow> page_free s p)"

lemma free_at_run:
  "free_at s count q \<longleftrightarrow> free_run (\<lambda>i. \<not> bitmap_test (page_bitmap s) i) (total_pages s) count q"
  by (auto simp: free_at_def free_run_def page_free_def)

lemma pmm_reach_page0: "pmm_reach X86_64 s own \<Longrightarrow> bitmap_test (page_bitmap s) 0"
  using own_invD(4)[OF pmm_reach_own_inv, of X86_64 s own 0] by (simp add: kernel_reserved_def)

lemma pmm_alloc_pages_not_null:
  assumes "pmm_wf s" "0 < n" "free_at s n q" "bitmap_test (page_bitmap s) 0"
  shows "fst (pmm_alloc_pages n s) \<noteq> 0"
proof -
  have "run_scan (\<lambda>i. \<not> bitmap_test (page_bitmap s) i) (total_pages s) n 0 0 0 \<noteq> None"
    using run_scan_None[OF assms(2)] assms(3) free_at_run by auto
  then obtain a where a: "run_scan (\<lambda>i. \<not> bitmap_test (page_bitmap s) i) (total_pages s) n 0 0 0 = Some a" by auto
  note facts = pmm_alloc_pages_Some[OF assms(1,2) a]
  have "a \<noteq> 0" using facts(3) assms(2,4) by (auto simp: free_run_def)
  then show ?thesis using facts(1) by simp
qed

lemma pmm_init_default_alloc_twice:
  assumes "0 < n" "n \<le> 8192" "0 < k" "k \<le> 8192"
  shows "fst (pmm_alloc_pages k (snd (pmm_alloc_pages n (pmm_init X86_64 [])))) \<noteq> 0"
proof -
  let ?s = "pmm_init X86_64 []"
  have "fst (pmm_alloc_pages n ?s) = 2048 * PMM_PAGE_SIZE"
    by (rule pmm_init_default_alloc) (use assms in simp_all)
  moreover obtain a where a: "run_scan (\<lambda>i. \<not> bitmap_test (page_bitmap ?s) i) (total_pages ?s) n 0 0 0 = Some a"
    using pmm_alloc_pages_None[of n ?s] calculation by fastforce
  note facts = pmm_alloc_pages_Some[OF pmm_init_facts(1) assms(1) a]
  ultimately have "a = 2048" by simp
  then have bits: "bitmap_test (page_bitmap (snd (pmm_alloc_pages n ?s))) p \<longleftrightarrow>
      bitmap_test (page_bitmap ?s) p \<or> 2048 \<le> p \<and> p < 2048 + n" for p using facts(6) by simp
  have "free_at (snd (pmm_alloc_pages n ?s)) k 16384"
    using assms facts(4) by (simp add: free_at_def page_free_def bits pmm_init_default)
  moreover have "bitmap_test (page_bitmap (snd (pmm_alloc_pages n ?s))) 0" by (simp add: bits pmm_init_default)
  ultimately show ?thesis by (rule pmm_alloc_pages_not_null[OF facts(2) assms(3)])
qed

text \<open>C6: \<open>pmm_alloc_pages\<close> is first fit: for a positive count, if some run of \<open>count\<close> free pages exists
  it marks exactly the pages of the lowest such run, keeps the invariant and returns the address of
  the run's first page; if there is none it returns NULL and leaves the state unchanged. The address
  of page 0 is NULL, so a NULL result means that there is no run or that the lowest run starts at
  page 0, whose pages are then marked used although the caller sees a failure. Page 0 is never free
  in a state reached from boot on x86-64, where NULL therefore means that there is no run.\<close>

theorem pmm_alloc_pages_first_fit:
  assumes "pmm_wf s" "0 < count"
  shows "(if Ex (free_at s count) then
      (\<exists>q. free_at s count q \<and> (\<forall>q' < q. \<not> free_at s count q') \<and>
         fst (pmm_alloc_pages count s) = q * PMM_PAGE_SIZE \<and>
         pmm_wf (snd (pmm_alloc_pages count s)) \<and>
         (\<forall>p. bitmap_test (page_bitmap (snd (pmm_alloc_pages count s))) p \<longleftrightarrow>
            bitmap_test (page_bitmap s) p \<or> q \<le> p \<and> p < q + count))
      else pmm_alloc_pages count s = (0, s)) \<and>
    (fst (pmm_alloc_pages count s) = 0 \<longleftrightarrow> \<not> Ex (free_at s count) \<or> free_at s count 0) \<and>
    (\<forall>own. pmm_reach X86_64 s own \<longrightarrow> \<not> free_at s count 0)"
proof -
  have r: "\<forall>own. pmm_reach X86_64 s own \<longrightarrow> \<not> free_at s count 0"
    using pmm_reach_page0 assms(2) by (auto simp: free_at_def page_free_def)
  show ?thesis
  proof (cases "run_scan (\<lambda>i. \<not> bitmap_test (page_bitmap s) i) (total_pages s) count 0 0 0")
    case None
    then have "\<not> Ex (free_at s count)" using run_scan_None[OF assms(2)] free_at_run by auto
    then show ?thesis using pmm_alloc_pages_None None r by simp
  next
    case (Some q)
    note facts = pmm_alloc_pages_Some[OF assms Some]
    have q: "free_at s count q" "\<forall>q' < q. \<not> free_at s count q'"
      using facts(3) run_scan_Some(2)[OF assms(2) Some] free_at_run by blast+
    then have "q = 0 \<longleftrightarrow> free_at s count 0" by (cases q) auto
    then have "fst (pmm_alloc_pages count s) = 0 \<longleftrightarrow> \<not> Ex (free_at s count) \<or> free_at s count 0"
      using q(1) facts(1) by auto
    then show ?thesis using q facts(1,2,6) r by auto
  qed
qed

theorem pmm_alloc_pages_first_fit_witness:
  "fst (pmm_alloc_pages 5 (pmm_init X86_64 [])) = 2048 * PMM_PAGE_SIZE \<and>
   pmm_wf (snd (pmm_alloc_pages 5 (pmm_init X86_64 [])))"
proof -
  have "free_at (pmm_init X86_64 []) 5 2048"
    by (simp add: free_at_def page_free_def pmm_init_default)
  then have ex: "Ex (free_at (pmm_init X86_64 []) 5)" by blast
  have "0 < (5::nat)" by simp
  from pmm_alloc_pages_first_fit[OF pmm_init_facts(1) this, of X86_64 "[]", unfolded if_P[OF ex]]
  show ?thesis using pmm_init_default_alloc[of 5] by auto
qed

text \<open>C7: Releasing what an allocation returned restores the allocator's state exactly.\<close>

theorem pmm_alloc_free_roundtrip:
  assumes "pmm_wf s" "fst (pmm_alloc_pages n s) \<noteq> 0"
  shows "pmm_free_pages (fst (pmm_alloc_pages n s)) n (snd (pmm_alloc_pages n s)) = s"
  using pmm_alloc_free[OF assms(1) _ assms(2), of n "snd (pmm_alloc_pages n s)"] by simp

theorem pmm_alloc_free_roundtrip_witness:
  "pmm_free_pages (2048 * PMM_PAGE_SIZE) 3 (snd (pmm_alloc_pages 3 (pmm_init X86_64 [])))
     = pmm_init X86_64 []"
  using pmm_alloc_free_roundtrip[of "pmm_init X86_64 []" 3, OF pmm_init_facts(1)]
    pmm_init_default_alloc[of 3] by simp

end
