(* ===== verification/Kmalloc.thy ===== *)
theory Kmalloc
  imports Links Pmm "HOL-Library.Monad_Syntax"
begin

text \<open>
  \<open>mm/kmalloc.c\<close>: the kernel heap, a NULL-terminated doubly linked list of blocks with a header
  in front of each payload. The header store maps an address to the header read there; payload
  bytes are a second store, written by \<open>kzalloc\<close> and \<open>krealloc\<close>. Pointers to headers are options
  (\<open>None\<close> is NULL), \<open>size_t\<close> values are naturals with the wrap-around written out, and the block
  search is a loop that may not end on a corrupted list, so not returning is \<open>None\<close>.
\<close>

section \<open>The allocator\<close>

abbreviation HEAP_MAGIC :: u32 where
  "HEAP_MAGIC \<equiv> 0x53554248"

abbreviation HEAP_INITIAL_PAGES :: nat where
  "HEAP_INITIAL_PAGES \<equiv> 8192"

abbreviation HEAP_GROW_PAGES :: nat where
  "HEAP_GROW_PAGES \<equiv> 4096"

abbreviation BLOCK_HEADER_SIZE :: nat where
  "BLOCK_HEADER_SIZE \<equiv> 32"

record heap_block =
  hb_magic :: u32
  hb_is_free :: bool
  hb_size :: nat
  hb_next :: "nat option"
  hb_prev :: "nat option"

record heap =
  hdr :: "nat \<Rightarrow> heap_block"
  heap_start :: "nat option"
  heap_tail :: "nat option"
  heap_used_bytes :: nat
  heap_free_bytes :: nat
  heap_total_bytes :: nat
  heap_grow_count :: nat
  heap_pmm :: pmm
  heap_mem :: "nat \<Rightarrow> u8"

definition upd_hdr :: "nat \<Rightarrow> (heap_block \<Rightarrow> heap_block) \<Rightarrow> heap \<Rightarrow> heap" where
  "upd_hdr a f h = h\<lparr>hdr := (hdr h)(a := f (hdr h a))\<rparr>"

definition blocks_adjacent :: "heap \<Rightarrow> nat \<Rightarrow> nat \<Rightarrow> bool" where
  "blocks_adjacent h a b \<longleftrightarrow> wrap64 (a + BLOCK_HEADER_SIZE + hb_size (hdr h a)) = b"

definition heap_init :: "heap \<Rightarrow> heap" where
  "heap_init h =
     (let (initial_mem, p) = pmm_alloc_pages HEAP_INITIAL_PAGES (heap_pmm h);
          h = h\<lparr>heap_pmm := p\<rparr>
      in if initial_mem = 0 then h
         else (let tot = HEAP_INITIAL_PAGES * PMM_PAGE_SIZE; sz = tot - BLOCK_HEADER_SIZE in
               (upd_hdr initial_mem
                  (\<lambda>_. \<lparr>hb_magic = HEAP_MAGIC, hb_is_free = True, hb_size = sz, hb_next = None, hb_prev = None\<rparr>) h)
               \<lparr>heap_start := Some initial_mem, heap_total_bytes := tot, heap_tail := Some initial_mem,
                 heap_used_bytes := 0, heap_free_bytes := sz\<rparr>))"

text \<open>
  The block at \<open>c\<close> absorbs its list successor at \<open>d\<close>. The code has this sequence of assignments
  twice in \<open>kfree\<close>, and in \<open>heap_grow\<close> for a successor that is the last block.
\<close>

definition absorb :: "nat \<Rightarrow> nat \<Rightarrow> heap \<Rightarrow> heap" where
  "absorb c d h =
     (let nx = hb_next (hdr h d);
          sz = wrap64 (hb_size (hdr h c) + (BLOCK_HEADER_SIZE + hb_size (hdr h d)));
          h = upd_hdr c (\<lambda>b. b\<lparr>hb_size := sz, hb_next := nx\<rparr>) h
      in case nx of
           Some y \<Rightarrow> upd_hdr y (\<lambda>b. b\<lparr>hb_prev := Some c\<rparr>) h
         | None \<Rightarrow> h\<lparr>heap_tail := Some c\<rparr>)"

text \<open>\<open>heap_grow\<close>: pages are obtained, the new region becomes the last block, and it is fused with
  its neighbour.\<close>

definition append_region :: "nat \<Rightarrow> nat \<Rightarrow> heap \<Rightarrow> heap" where
  "append_region mem grow_pages h =
     (let sz = sub64 (wrap64 (grow_pages * PMM_PAGE_SIZE)) BLOCK_HEADER_SIZE;
          tail = heap_tail h;
          h = upd_hdr mem (\<lambda>_. \<lparr>hb_magic = HEAP_MAGIC, hb_is_free = True, hb_size = sz,
                               hb_next = None, hb_prev = tail\<rparr>) h;
          h = (case tail of
                 Some t \<Rightarrow> upd_hdr t (\<lambda>b. b\<lparr>hb_next := Some mem\<rparr>) h
               | None \<Rightarrow> h)
      in h\<lparr>heap_tail := Some mem,
           heap_start := (if heap_start h = None then Some mem else heap_start h),
           heap_total_bytes := wrap64 (heap_total_bytes h + grow_pages * PMM_PAGE_SIZE),
           heap_free_bytes := wrap64 (heap_free_bytes h + sz),
           heap_grow_count := wrap64 (heap_grow_count h + 1)\<rparr>)"

definition grow_region :: "nat \<Rightarrow> pmm \<Rightarrow> nat \<times> nat \<times> pmm" where
  "grow_region need p =
     (let need_pages = wrap64 (need + BLOCK_HEADER_SIZE + PMM_PAGE_SIZE - 1) div PMM_PAGE_SIZE;
          grow_pages = (if HEAP_GROW_PAGES < need_pages then need_pages else HEAP_GROW_PAGES);
          (mem, p) = pmm_alloc_pages grow_pages p
      in if mem = 0 \<and> grow_pages \<noteq> need_pages
         then (let (mem, p) = pmm_alloc_pages need_pages p in (mem, need_pages, p))
         else (mem, grow_pages, p))"

definition heap_grow :: "nat \<Rightarrow> heap \<Rightarrow> nat option \<times> heap" where
  "heap_grow need h =
     (let (mem, grow_pages, p) = grow_region need (heap_pmm h);
          h = h\<lparr>heap_pmm := p\<rparr>
      in if mem = 0 then (None, h)
         else (let h = append_region mem grow_pages h
               in case hb_prev (hdr h mem) of
                    Some t \<Rightarrow>
                      if hb_is_free (hdr h t) \<and> blocks_adjacent h t mem
                      then (Some t, absorb t mem h) else (Some mem, h)
                  | None \<Rightarrow> (Some mem, h)))"

definition split_block :: "nat \<Rightarrow> nat \<Rightarrow> heap \<Rightarrow> heap" where
  "split_block cur req h =
     (let b = hdr h cur;
          new_block = wrap64 (cur + BLOCK_HEADER_SIZE + req);
          h = upd_hdr new_block
                (\<lambda>_. \<lparr>hb_magic = HEAP_MAGIC, hb_is_free = True,
                      hb_size = sub64 (sub64 (hb_size b) req) BLOCK_HEADER_SIZE,
                      hb_next = hb_next b, hb_prev = Some cur\<rparr>) h;
          h = (case hb_next b of
                 Some y \<Rightarrow> upd_hdr y (\<lambda>b. b\<lparr>hb_prev := Some new_block\<rparr>) h
               | None \<Rightarrow> h\<lparr>heap_tail := Some new_block\<rparr>)
      in upd_hdr cur (\<lambda>b. b\<lparr>hb_next := Some new_block, hb_size := req\<rparr>) h)"

definition heap_take :: "nat \<Rightarrow> nat \<Rightarrow> heap \<Rightarrow> nat \<times> heap" where
  "heap_take cur req h =
     (let h = (if wrap64 (req + BLOCK_HEADER_SIZE + 16) \<le> hb_size (hdr h cur)
               then split_block cur req h else h);
          h = upd_hdr cur (\<lambda>b. b\<lparr>hb_is_free := False\<rparr>) h;
          sz = hb_size (hdr h cur)
      in (wrap64 (cur + BLOCK_HEADER_SIZE),
          h\<lparr>heap_used_bytes := wrap64 (heap_used_bytes h + sz),
            heap_free_bytes := sub64 (heap_free_bytes h) sz\<rparr>))"

datatype search_result = Found nat | Corrupt | NoFit

partial_function (option) heap_search ::
    "(nat \<Rightarrow> heap_block) \<Rightarrow> nat \<Rightarrow> nat option \<Rightarrow> search_result option" where
  "heap_search m req cur =
     (case cur of
        None \<Rightarrow> Some NoFit
      | Some c \<Rightarrow>
          if hb_magic (m c) \<noteq> HEAP_MAGIC then Some Corrupt
          else if hb_is_free (m c) \<and> req \<le> hb_size (m c) then Some (Found c)
          else heap_search m req (hb_next (m c)))"

text \<open>\<open>(size + 15) & ~15\<close> clears the low four bits of a wrapping sum.\<close>

definition kmalloc_align :: "nat \<Rightarrow> nat" where
  "kmalloc_align req = wrap64 (req + 15) div 16 * 16"

definition kmalloc :: "nat \<Rightarrow> heap \<Rightarrow> (nat option \<times> heap) option" where
  "kmalloc req h =
     (if req = 0 then Some (None, h)
      else (let req = kmalloc_align req;
                hand_out = (\<lambda>c h. let (p, h') = heap_take c req h in (Some p, h'))
            in do { r \<leftarrow> heap_search (hdr h) req (heap_start h);
                    case r of
                      Corrupt \<Rightarrow> Some (None, h)
                    | Found c \<Rightarrow> Some (hand_out c h)
                    | NoFit \<Rightarrow>
                        (case heap_grow req h of
                           (None, h) \<Rightarrow> Some (None, h)
                         | (Some _, h) \<Rightarrow>
                             do { r \<leftarrow> heap_search (hdr h) req (heap_start h);
                                  Some (case r of
                                          Found c \<Rightarrow> hand_out c h
                                        | Corrupt \<Rightarrow> (None, h)
                                        | NoFit \<Rightarrow> (None, h)) }) }))"

definition kzalloc :: "nat \<Rightarrow> heap \<Rightarrow> (nat option \<times> heap) option" where
  "kzalloc req h =
     do { (ptr, h) \<leftarrow> kmalloc req h;
          Some (case ptr of
                  Some p \<Rightarrow>
                    (ptr, h\<lparr>heap_mem := (\<lambda>a. if p \<le> a \<and> a < p + req then 0 else heap_mem h a)\<rparr>)
                | None \<Rightarrow> (ptr, h)) }"

definition absorb_next :: "nat \<Rightarrow> heap \<Rightarrow> heap" where
  "absorb_next c h =
     (case hb_next (hdr h c) of
        Some d \<Rightarrow> if hb_is_free (hdr h d) \<and> blocks_adjacent h c d then absorb c d h else h
      | None \<Rightarrow> h)"

definition absorb_into_prev :: "nat \<Rightarrow> heap \<Rightarrow> heap" where
  "absorb_into_prev c h =
     (case hb_prev (hdr h c) of
        Some d \<Rightarrow> if hb_is_free (hdr h d) \<and> blocks_adjacent h d c then absorb d c h else h
      | None \<Rightarrow> h)"

definition kfree :: "nat option \<Rightarrow> heap \<Rightarrow> heap" where
  "kfree ptr h =
     (case ptr of
        None \<Rightarrow> h
      | Some p \<Rightarrow>
          (let c = sub64 p BLOCK_HEADER_SIZE; b = hdr h c in
           if hb_magic b \<noteq> HEAP_MAGIC then h
           else (let h = upd_hdr c (\<lambda>b. b\<lparr>hb_is_free := True\<rparr>) h;
                     h = h\<lparr>heap_used_bytes := sub64 (heap_used_bytes h) (hb_size b),
                           heap_free_bytes := wrap64 (heap_free_bytes h + hb_size b)\<rparr>
                 in absorb_into_prev c (absorb_next c h))))"

definition krealloc :: "nat option \<Rightarrow> nat \<Rightarrow> heap \<Rightarrow> (nat option \<times> heap) option" where
  "krealloc ptr new_size h =
     (case ptr of
        None \<Rightarrow> kmalloc new_size h
      | Some p \<Rightarrow>
          if new_size = 0 then Some (None, kfree ptr h)
          else (let b = hdr h (sub64 p BLOCK_HEADER_SIZE) in
                if hb_magic b \<noteq> HEAP_MAGIC then Some (None, h)
                else if new_size \<le> hb_size b then Some (ptr, h)
                else do { (new_ptr, h) \<leftarrow> kmalloc new_size h;
                          Some (case new_ptr of
                                  Some q \<Rightarrow>
                                    (new_ptr, kfree ptr
                                       (h\<lparr>heap_mem := (\<lambda>a. if q \<le> a \<and> a < q + hb_size b
                                          then heap_mem h (p + (a - q)) else heap_mem h a)\<rparr>))
                                | None \<Rightarrow> (new_ptr, h)) }))"

section \<open>Block lists\<close>

text \<open>The heap as the list of its blocks in list order.\<close>

datatype blk = Blk (b_addr: nat) (b_size: nat) (b_free: bool)

definition b_end :: "blk \<Rightarrow> nat" where
  "b_end b = b_addr b + BLOCK_HEADER_SIZE + b_size b"

abbreviation addrs :: "blk list \<Rightarrow> nat list" where
  "addrs bs \<equiv> map b_addr bs"

definition hdr_of :: "(nat \<Rightarrow> heap_block) \<Rightarrow> blk \<Rightarrow> bool" where
  "hdr_of m b \<longleftrightarrow> hb_magic (m (b_addr b)) = HEAP_MAGIC \<and> hb_is_free (m (b_addr b)) = b_free b \<and>
     hb_size (m (b_addr b)) = b_size b"

definition heap_rep :: "heap \<Rightarrow> blk list \<Rightarrow> bool" where
  "heap_rep h bs \<longleftrightarrow>
     links (\<lambda>a. hb_next (hdr h a)) (\<lambda>a. hb_prev (hdr h a)) None (addrs bs) None \<and>
     heap_start h = hd_or (addrs bs) None \<and> heap_tail h = last_or None (addrs bs) \<and>
     distinct (addrs bs) \<and> (\<forall>b \<in> set bs. hdr_of (hdr h) b)"

lemma heap_repD:
  assumes "heap_rep h (xs @ b # ys)"
  shows "hb_next (hdr h (b_addr b)) = hd_or (addrs ys) None"
    "hb_prev (hdr h (b_addr b)) = last_or None (addrs xs)"
    "hdr_of (hdr h) b" "distinct (addrs (xs @ b # ys))"
    "heap_start h = hd_or (addrs (xs @ b # ys)) None" "heap_tail h = last_or None (addrs (xs @ b # ys))"
  using assms unfolding heap_rep_def by (simp_all add: links_simps)

lemma upd_hdr_simps [simp]:
  "heap_start (upd_hdr a f h) = heap_start h" "heap_tail (upd_hdr a f h) = heap_tail h"
  "heap_used_bytes (upd_hdr a f h) = heap_used_bytes h"
  "heap_free_bytes (upd_hdr a f h) = heap_free_bytes h"
  "heap_total_bytes (upd_hdr a f h) = heap_total_bytes h"
  "heap_pmm (upd_hdr a f h) = heap_pmm h" "heap_mem (upd_hdr a f h) = heap_mem h"
  "hdr (upd_hdr a f h) = (hdr h)(a := f (hdr h a))"
  by (simp_all add: upd_hdr_def)

text \<open>The search finds the first free block that is large enough, and always ends.\<close>

abbreviation fits :: "nat \<Rightarrow> blk \<Rightarrow> bool" where
  "fits n b \<equiv> b_free b \<and> n \<le> b_size b"

lemma heap_search_suffix:
  assumes "links (\<lambda>a. hb_next (m a)) pv p (addrs bs) None" "\<forall>b \<in> set bs. hdr_of m b"
  shows "heap_search m n (hd_or (addrs bs) None) =
    Some (case find (fits n) bs of Some b \<Rightarrow> Found (b_addr b) | None \<Rightarrow> NoFit)"
  using assms
proof (induction bs arbitrary: p)
  case Nil
  then show ?case by (simp add: heap_search.simps)
next
  case (Cons b bs)
  have "heap_search m n (hd_or (addrs bs) None) =
      Some (case find (fits n) bs of Some b \<Rightarrow> Found (b_addr b) | None \<Rightarrow> NoFit)"
    using Cons.prems by (intro Cons.IH) auto
  then show ?case using Cons.prems by (subst heap_search.simps) (auto simp: hdr_of_def)
qed

lemma heap_search_rep:
  "heap_rep h bs \<Longrightarrow> heap_search (hdr h) n (heap_start h) =
    Some (case find (fits n) bs of Some b \<Rightarrow> Found (b_addr b) | None \<Rightarrow> NoFit)"
proof -
  assume "heap_rep h bs"
  then have "links (\<lambda>a. hb_next (hdr h a)) (\<lambda>a. hb_prev (hdr h a)) None (addrs bs) None"
    "\<forall>b \<in> set bs. hdr_of (hdr h) b" "heap_start h = hd_or (addrs bs) None"
    by (simp_all add: heap_rep_def)
  then show ?thesis by (simp only: heap_search_suffix)
qed

section \<open>What the pointer updates do to the block list\<close>

definition merge_blk :: "blk \<Rightarrow> blk \<Rightarrow> blk" where
  "merge_blk c d = Blk (b_addr c) (b_size c + BLOCK_HEADER_SIZE + b_size d) (b_free c)"

lemma absorb_rep:
  assumes rep: "heap_rep h (xs @ c # d # ys)"
    and "b_size c + BLOCK_HEADER_SIZE + b_size d < 2 ^ 64"
  shows "heap_rep (absorb (b_addr c) (b_addr d) h) (xs @ merge_blk c d # ys)"
proof -
  have c: "hdr_of (hdr h) c" and d: "hdr_of (hdr h) d"
    and nd: "hb_next (hdr h (b_addr d)) = hd_or (addrs ys) None"
    and dist: "distinct (addrs (xs @ c # d # ys))"
    using heap_repD[OF rep] heap_repD[of h "xs @ [c]" d ys] rep by simp_all
  let ?h = "absorb (b_addr c) (b_addr d) h"
  have m: "hdr ?h a = (if a = b_addr c then (hdr h a)\<lparr>hb_size := b_size c + BLOCK_HEADER_SIZE + b_size d, hb_next := hd_or (addrs ys) None\<rparr>
      else if ys \<noteq> [] \<and> a = b_addr (hd ys) then (hdr h a)\<lparr>hb_prev := Some (b_addr c)\<rparr> else hdr h a)" for a
    using c d nd dist assms(2) by (cases ys) (auto simp: absorb_def Let_def hdr_of_def add.assoc)
  have L: "links (\<lambda>a. hb_next (hdr h a)) (\<lambda>a. hb_prev (hdr h a)) None
      (addrs xs @ b_addr c # b_addr d # addrs ys) None"
    using rep by (simp add: heap_rep_def)
  have nc: "x \<noteq> b_addr c" if "x \<in> set (addrs xs) \<union> set (addrs ys)" for x using that dist by auto
  have nh: "ys = [] \<or> x \<noteq> b_addr (hd ys)" if "x \<in> set (addrs xs) \<union> set (tl (addrs ys))" for x
    using that dist by (cases ys) auto
  have nt: "x \<in> set (addrs ys)" if "x \<in> set (tl (addrs ys))" for x using that by (cases ys) auto
  have ch: "b_addr c \<noteq> b_addr (hd ys)" if "ys \<noteq> []" using that dist by (cases ys) auto
  have "links (\<lambda>a. hb_next (hdr ?h a)) (\<lambda>a. hb_prev (hdr ?h a)) None (addrs xs @ b_addr c # addrs ys) None"
  proof (rule links_remove[OF L])
    show "hb_next (hdr ?h x) = hb_next (hdr h x)" if "x \<in> set (addrs xs) \<union> set (addrs ys)" for x
      using nc[OF that] by (simp add: m)
    show "hb_prev (hdr ?h x) = hb_prev (hdr h x)" if "x \<in> set (addrs xs) \<union> set (tl (addrs ys))" for x
      using nc[of x] nh[OF that] nt that by (auto simp: m)
    show "hb_prev (hdr ?h (hd (addrs ys))) = Some (b_addr c)" if "addrs ys \<noteq> []"
      using ch that by (simp add: m hd_map)
  qed (use ch nd in \<open>auto simp: m\<close>)
  moreover have "hdr_of (hdr ?h) b" if "b \<in> set (xs @ merge_blk c d # ys)" for b
  proof (cases "b = merge_blk c d")
    case True
    then show ?thesis using c by (simp add: m hdr_of_def merge_blk_def)
  next
    case False
    then have b: "b \<in> set xs \<union> set ys" using that by auto
    then have "b_addr b \<noteq> b_addr c" by (intro nc) auto
    moreover have "hdr_of (hdr h) b" using b rep by (auto simp: heap_rep_def)
    ultimately show ?thesis by (auto simp: m hdr_of_def)
  qed
  moreover have "heap_start ?h = hd_or (addrs (xs @ merge_blk c d # ys)) None"
    using heap_repD(5)[OF rep] nd
    by (cases xs; cases ys) (simp_all add: absorb_def Let_def merge_blk_def)
  moreover have "heap_tail ?h = last_or None (addrs (xs @ merge_blk c d # ys))"
    using heap_repD(6)[OF rep] nd by (cases ys) (simp_all add: absorb_def Let_def merge_blk_def)
  ultimately show ?thesis using dist by (simp add: heap_rep_def merge_blk_def)
qed

definition split_blk :: "blk \<Rightarrow> nat \<Rightarrow> blk list" where
  "split_blk c n =
     (if n + BLOCK_HEADER_SIZE + 16 \<le> b_size c
      then [Blk (b_addr c) n False,
            Blk (b_addr c + BLOCK_HEADER_SIZE + n) (b_size c - n - BLOCK_HEADER_SIZE) True]
      else [Blk (b_addr c) (b_size c) False])"

text \<open>A header changed only in its size and free flag keeps the chain.\<close>

lemma heap_rep_set:
  assumes rep: "heap_rep h (xs @ c # ys)"
    and h': "hdr h' = (hdr h)(b_addr c := r)" "heap_start h' = heap_start h" "heap_tail h' = heap_tail h"
    and r: "hb_magic r = hb_magic (hdr h (b_addr c))" "hb_is_free r = f" "hb_size r = n"
      "hb_next r = hb_next (hdr h (b_addr c))" "hb_prev r = hb_prev (hdr h (b_addr c))"
  shows "heap_rep h' (xs @ Blk (b_addr c) n f # ys)"
proof -
  have dist: "distinct (addrs (xs @ c # ys))" using rep by (simp add: heap_rep_def)
  have "links (\<lambda>a. hb_next (hdr h' a)) (\<lambda>a. hb_prev (hdr h' a)) None (addrs (xs @ c # ys)) None"
    using rep unfolding heap_rep_def
    by (subst links_cong[where nx' = "\<lambda>a. hb_next (hdr h a)" and pv' = "\<lambda>a. hb_prev (hdr h a)"])
      (simp_all add: h'(1) r)
  moreover have "hdr_of (hdr h') b" if "b \<in> set (xs @ ys)" for b
  proof -
    have "b_addr b \<noteq> b_addr c" using that dist by (auto simp: image_iff)
    moreover have "hdr_of (hdr h) b" using that rep by (auto simp: heap_rep_def)
    ultimately show ?thesis by (simp add: h'(1) hdr_of_def)
  qed
  moreover have "hdr_of (hdr h') (Blk (b_addr c) n f)"
    using heap_repD(3)[OF rep] by (simp add: h'(1) hdr_of_def r)
  ultimately show ?thesis
    using dist h'(2,3) heap_repD(5,6)[OF rep] unfolding heap_rep_def by auto
qed

lemma heap_insert_rep:
  assumes rep: "heap_rep h (xs @ c # ys)" and new: "b_addr d \<notin> set (addrs (xs @ c # ys))"
    and m: "\<And>a. hdr h' a =
      (if a = b_addr c then (hdr h a)\<lparr>hb_next := Some (b_addr d), hb_size := n\<rparr>
       else if ys \<noteq> [] \<and> a = b_addr (hd ys) then (hdr h a)\<lparr>hb_prev := Some (b_addr d)\<rparr>
       else if a = b_addr d then \<lparr>hb_magic = HEAP_MAGIC, hb_is_free = b_free d, hb_size = b_size d,
                              hb_next = hd_or (addrs ys) None, hb_prev = Some (b_addr c)\<rparr>
       else hdr h a)"
    and ends: "heap_start h' = heap_start h"
      "heap_tail h' = (if ys = [] then Some (b_addr d) else heap_tail h)"
  shows "heap_rep h' (xs @ Blk (b_addr c) n (b_free c) # d # ys)"
proof -
  have L: "links (\<lambda>a. hb_next (hdr h a)) (\<lambda>a. hb_prev (hdr h a)) None (addrs xs @ b_addr c # addrs ys) None"
    and dist: "distinct (addrs xs @ b_addr c # addrs ys)"
    using rep by (simp_all add: heap_rep_def)
  have nc: "x \<noteq> b_addr c" "x \<noteq> b_addr d" if "x \<in> set (addrs xs) \<union> set (addrs ys)" for x
    using that dist new by auto
  have nh: "ys = [] \<or> x \<noteq> b_addr (hd ys)" if "x \<in> set (addrs xs) \<union> set (tl (addrs ys))" for x
    using that dist by (cases ys) auto
  have nt: "x \<in> set (addrs ys)" if "x \<in> set (tl (addrs ys))" for x using that by (cases ys) auto
  have ch: "b_addr c \<noteq> b_addr (hd ys)" "b_addr d \<noteq> b_addr (hd ys)" if "ys \<noteq> []"
    using that dist new by (cases ys; auto)+
  have cd: "b_addr d \<noteq> b_addr c" using new by simp
  have "links (\<lambda>a. hb_next (hdr h' a)) (\<lambda>a. hb_prev (hdr h' a)) None
      (addrs xs @ b_addr c # b_addr d # addrs ys) None"
  proof (rule links_insert[OF L dist])
    show "hb_next (hdr h' x) = hb_next (hdr h x)" if "x \<in> set (addrs xs) \<union> set (addrs ys)" for x
      using nc[OF that] by (simp add: m)
    show "hb_prev (hdr h' x) = hb_prev (hdr h x)" if "x \<in> set (addrs xs) \<union> set (tl (addrs ys))" for x
      using nc[of x] nh[OF that] nt that by (auto simp: m)
    show "hb_prev (hdr h' (hd (addrs ys))) = Some (b_addr d)" if "addrs ys \<noteq> []"
      using ch that by (simp add: m hd_map)
    show "hb_next (hdr h' (b_addr d)) = hd_or (addrs ys) None" using ch cd by (auto simp: m)
  qed (use ch cd in \<open>auto simp: m\<close>)
  moreover have "hdr_of (hdr h') b" if "b \<in> set (xs @ ys)" for b
  proof -
    have "b_addr b \<in> set (addrs xs) \<union> set (addrs ys)" using that by auto
    then have "b_addr b \<noteq> b_addr c" "b_addr b \<noteq> b_addr d" using nc by blast+
    moreover have "hdr_of (hdr h) b" using that rep by (auto simp: heap_rep_def)
    ultimately show ?thesis by (auto simp: m hdr_of_def)
  qed
  moreover have "hdr_of (hdr h') d" "hdr_of (hdr h') (Blk (b_addr c) n (b_free c))"
    using heap_repD(3)[OF rep] cd ch(2) by (auto simp: m hdr_of_def)
  ultimately show ?thesis
    using dist new ends heap_repD(5,6)[OF rep] unfolding heap_rep_def by (auto simp: hd_append)
qed

lemma split_block_rep:
  assumes rep: "heap_rep h (xs @ c # ys)" and "b_end c < 2 ^ 64" "n + BLOCK_HEADER_SIZE \<le> b_size c"
    and new: "b_addr c + BLOCK_HEADER_SIZE + n \<notin> set (addrs (xs @ c # ys))"
  shows "heap_rep (split_block (b_addr c) n h)
    (xs @ Blk (b_addr c) n (b_free c) #
     Blk (b_addr c + BLOCK_HEADER_SIZE + n) (b_size c - n - BLOCK_HEADER_SIZE) True # ys)"
    "hb_size (hdr (split_block (b_addr c) n h) (b_addr c)) = n"
proof -
  let ?a = "b_addr c" and ?nb = "b_addr c + BLOCK_HEADER_SIZE + n"
  have c: "hb_size (hdr h ?a) = b_size c" "hb_next (hdr h ?a) = hd_or (addrs ys) None"
    using heap_repD[OF rep] by (simp_all add: hdr_of_def)
  have dist: "distinct (addrs (xs @ c # ys))" using heap_repD(4)[OF rep] .
  have w: "wrap64 ?nb = ?nb" "sub64 (sub64 (b_size c) n) BLOCK_HEADER_SIZE = b_size c - n - BLOCK_HEADER_SIZE"
    using assms(2,3) by (simp_all add: b_end_def)
  show "heap_rep (split_block ?a n h) (xs @ Blk ?a n (b_free c) #
     Blk ?nb (b_size c - n - BLOCK_HEADER_SIZE) True # ys)"
    by (rule heap_insert_rep[OF rep])
      (use new dist c in \<open>cases ys; auto simp: split_block_def Let_def w\<close>)+
  show "hb_size (hdr (split_block ?a n h) ?a) = n"
    by (simp add: split_block_def Let_def)
qed

lemma heap_take_rep:
  assumes rep: "heap_rep h (xs @ c # ys)" and "n \<le> b_size c" "b_end c \<le> 2 ^ 32"
    and new: "n + BLOCK_HEADER_SIZE + 16 \<le> b_size c \<Longrightarrow>
      b_addr c + BLOCK_HEADER_SIZE + n \<notin> set (addrs (xs @ c # ys))"
  shows "heap_rep (snd (heap_take (b_addr c) n h)) (xs @ split_blk c n @ ys)"
    "fst (heap_take (b_addr c) n h) = b_addr c + BLOCK_HEADER_SIZE"
proof -
  let ?a = "b_addr c"
  show "fst (heap_take ?a n h) = ?a + BLOCK_HEADER_SIZE"
    using assms(3) by (simp add: heap_take_def Let_def b_end_def)
  have c: "hb_size (hdr h ?a) = b_size c" using heap_repD(3)[OF rep] by (simp add: hdr_of_def)
  show "heap_rep (snd (heap_take ?a n h)) (xs @ split_blk c n @ ys)"
  proof (cases "n + BLOCK_HEADER_SIZE + 16 \<le> b_size c")
    case True
    then have w: "wrap64 (n + BLOCK_HEADER_SIZE + 16) = n + BLOCK_HEADER_SIZE + 16"
      using assms(3) by (simp add: b_end_def)
    have le: "b_end c < 2 ^ 64" "n + BLOCK_HEADER_SIZE \<le> b_size c" using True assms(3) by simp_all
    note sp = split_block_rep[OF rep le new[OF True]]
    have "snd (heap_take ?a n h) = (upd_hdr ?a (\<lambda>b. b\<lparr>hb_is_free := False\<rparr>) (split_block ?a n h))
        \<lparr>heap_used_bytes := wrap64 (heap_used_bytes (split_block ?a n h) + n),
         heap_free_bytes := sub64 (heap_free_bytes (split_block ?a n h)) n\<rparr>"
      unfolding heap_take_def w c using True sp(2) by (simp add: Let_def)
    then have "heap_rep (snd (heap_take ?a n h)) (xs @ Blk ?a n False #
        Blk (?a + BLOCK_HEADER_SIZE + n) (b_size c - n - BLOCK_HEADER_SIZE) True # ys)"
      using sp(2)
      by (intro heap_rep_set[OF sp(1), unfolded blk.sel,
            where r = "(hdr (split_block ?a n h) ?a)\<lparr>hb_is_free := False\<rparr>"]) simp_all
    then show ?thesis using True by (simp add: split_blk_def)
  next
    case False
    then have "\<not> wrap64 (n + BLOCK_HEADER_SIZE + 16) \<le> b_size c"
      using assms(2,3) by (simp add: wrap64_def b_end_def)
    then have "heap_rep (snd (heap_take ?a n h)) (xs @ Blk ?a (b_size c) False # ys)"
      using c
      by (intro heap_rep_set[OF rep, where r = "(hdr h ?a)\<lparr>hb_is_free := False\<rparr>"])
        (simp_all add: heap_take_def Let_def)
    then show ?thesis using False by (simp add: split_blk_def)
  qed
qed

lemma append_region_rep:
  assumes rep: "heap_rep h bs" and new: "mem \<notin> set (addrs bs)"
    and g: "0 < g" "g * PMM_PAGE_SIZE < 2 ^ 64"
  shows "heap_rep (append_region mem g h) (bs @ [Blk mem (g * PMM_PAGE_SIZE - BLOCK_HEADER_SIZE) True])"
proof -
  let ?h = "append_region mem g h" and ?sz = "g * PMM_PAGE_SIZE - BLOCK_HEADER_SIZE"
  have w: "sub64 (wrap64 (g * PMM_PAGE_SIZE)) BLOCK_HEADER_SIZE = ?sz" using g by simp
  have L: "links (\<lambda>a. hb_next (hdr h a)) (\<lambda>a. hb_prev (hdr h a)) None (addrs bs) None"
    and tail: "heap_tail h = last_or None (addrs bs)" and start: "heap_start h = hd_or (addrs bs) None"
    and dist: "distinct (addrs bs)" and hs: "\<forall>b \<in> set bs. hdr_of (hdr h) b"
    using rep by (simp_all add: heap_rep_def)
  have nl: "bs \<noteq> [] \<Longrightarrow> last (addrs bs) \<noteq> mem" using new last_in_set[of "addrs bs"] by auto
  have m: "hdr ?h a = (if bs \<noteq> [] \<and> a = last (addrs bs) then (hdr h a)\<lparr>hb_next := Some mem\<rparr>
      else if a = mem then \<lparr>hb_magic = HEAP_MAGIC, hb_is_free = True, hb_size = ?sz, hb_next = None,
                            hb_prev = last_or None (addrs bs)\<rparr> else hdr h a)" for a
    using nl tail by (cases "bs = []") (simp_all add: append_region_def Let_def w)
  have nm: "x \<noteq> mem" if "x \<in> set (addrs bs)" for x using that new by auto
  have nb: "bs = [] \<or> x \<noteq> last (addrs bs)" if "x \<in> set (butlast (addrs bs))" for x
    using that dist by (cases bs rule: rev_cases) (auto simp: image_iff)
  have "links (\<lambda>a. hb_next (hdr ?h a)) (\<lambda>a. hb_prev (hdr ?h a)) None (addrs bs @ [mem]) None"
  proof (rule links_snoc[OF L])
    show "hb_next (hdr ?h x) = hb_next (hdr h x)" if "x \<in> set (butlast (addrs bs))" for x
      using nb[OF that] nm in_set_butlastD[OF that] by (auto simp: m)
    show "hb_prev (hdr ?h x) = hb_prev (hdr h x)" if "x \<in> set (addrs bs)" for x
      using nm[OF that] by (simp add: m)
  qed (use nl in \<open>auto simp: m\<close>)
  moreover have "hdr_of (hdr ?h) b" if "b \<in> set bs" for b
  proof -
    have "hdr_of (hdr h) b" "b_addr b \<noteq> mem" "bs \<noteq> []" using that hs nm by auto
    then show ?thesis by (cases "b_addr b = last (addrs bs)") (simp_all add: m hdr_of_def)
  qed
  moreover have "hdr_of (hdr ?h) (Blk mem ?sz True)" using nl by (auto simp: m hdr_of_def)
  moreover have "heap_start ?h = Some (hd (addrs bs @ [mem]))" "heap_tail ?h = Some mem"
    using start by (cases "heap_tail h"; cases bs; simp add: append_region_def Let_def)+
  ultimately show ?thesis using dist new by (simp add: heap_rep_def)
qed

text \<open>Releasing a block merges it with a free neighbour that starts where it ends, on each side.\<close>

definition coalesce_next :: "blk \<Rightarrow> blk list \<Rightarrow> blk list" where
  "coalesce_next b ys =
     (case ys of
        [] \<Rightarrow> [b]
      | y # zs \<Rightarrow> if b_free y \<and> b_end b = b_addr y then merge_blk b y # zs else b # ys)"

definition coalesce_prev :: "blk list \<Rightarrow> blk list \<Rightarrow> blk list" where
  "coalesce_prev xs zs =
     (if xs \<noteq> [] \<and> b_free (last xs) \<and> b_end (last xs) = b_addr (hd zs)
      then butlast xs @ merge_blk (last xs) (hd zs) # tl zs else xs @ zs)"

definition free_blk :: "blk list \<Rightarrow> blk \<Rightarrow> blk list \<Rightarrow> blk list" where
  "free_blk xs c ys = coalesce_prev xs (coalesce_next (Blk (b_addr c) (b_size c) True) ys)"

lemma blocks_adjacent_rep:
  "hdr_of (hdr h) c \<Longrightarrow> b_end c < 2 ^ 64 \<Longrightarrow> blocks_adjacent h (b_addr c) a \<longleftrightarrow> b_end c = a"
  by (simp add: blocks_adjacent_def hdr_of_def b_end_def)

lemma absorb_next_rep:
  assumes "heap_rep h (xs @ c # ys)" "\<forall>b \<in> set (c # ys). b_end b \<le> 2 ^ 32"
  shows "heap_rep (absorb_next (b_addr c) h) (xs @ coalesce_next c ys)"
proof (cases ys)
  case Nil
  then show ?thesis using assms(1) heap_repD(1)[OF assms(1)] by (simp add: absorb_next_def coalesce_next_def)
next
  case (Cons y zs)
  have "hdr_of (hdr h) y" using heap_repD(3)[of h "xs @ [c]" y zs] assms(1) Cons by simp
  then have "absorb_next (b_addr c) h =
      (if b_free y \<and> b_end c = b_addr y then absorb (b_addr c) (b_addr y) h else h)"
    using heap_repD(1,3)[OF assms(1)] assms(2) Cons
    by (simp add: absorb_next_def blocks_adjacent_rep[OF heap_repD(3)[OF assms(1)]] hdr_of_def)
  moreover have "heap_rep (absorb (b_addr c) (b_addr y) h) (xs @ merge_blk c y # zs)"
    using assms Cons by (intro absorb_rep) (auto simp: b_end_def)
  ultimately show ?thesis using assms(1) Cons by (auto simp: coalesce_next_def)
qed

lemma absorb_into_prev_rep:
  assumes "heap_rep h (xs @ c # ys)" "\<forall>b \<in> set (xs @ [c]). b_end b \<le> 2 ^ 32"
  shows "heap_rep (absorb_into_prev (b_addr c) h) (coalesce_prev xs (c # ys))"
proof (cases xs rule: rev_cases)
  case Nil
  then show ?thesis using assms(1) heap_repD(2)[OF assms(1)] by (simp add: absorb_into_prev_def coalesce_prev_def)
next
  case (snoc ws w)
  have rep: "heap_rep h (ws @ w # c # ys)" using assms(1) snoc by simp
  have "absorb_into_prev (b_addr c) h =
      (if b_free w \<and> b_end w = b_addr c then absorb (b_addr w) (b_addr c) h else h)"
    using heap_repD(2)[OF assms(1)] heap_repD(3)[OF rep] assms(2) snoc
    by (simp add: absorb_into_prev_def blocks_adjacent_rep[OF heap_repD(3)[OF rep]] hdr_of_def)
  moreover have "heap_rep (absorb (b_addr w) (b_addr c) h) (ws @ merge_blk w c # ys)"
    using assms rep snoc by (intro absorb_rep) (auto simp: b_end_def)
  ultimately show ?thesis using assms(1) snoc by (auto simp: coalesce_prev_def)
qed

lemma coalesce_next_addr: "\<exists>d zs. coalesce_next c ys = d # zs \<and> b_addr d = b_addr c \<and> b_free d = b_free c"
  by (cases ys) (auto simp: coalesce_next_def merge_blk_def)

lemma kfree_rep:
  assumes rep: "heap_rep h (xs @ c # ys)" and le: "\<forall>b \<in> set (xs @ c # ys). b_end b \<le> 2 ^ 32"
    and "\<forall>b \<in> set (coalesce_next (Blk (b_addr c) (b_size c) True) ys). b_end b \<le> 2 ^ 32"
  shows "heap_rep (kfree (Some (b_addr c + BLOCK_HEADER_SIZE)) h) (free_blk xs c ys)"
proof -
  let ?c = "Blk (b_addr c) (b_size c) True"
  let ?h = "(upd_hdr (b_addr c) (\<lambda>b. b\<lparr>hb_is_free := True\<rparr>) h)\<lparr>
    heap_used_bytes := sub64 (heap_used_bytes h) (b_size c),
    heap_free_bytes := wrap64 (heap_free_bytes h + b_size c)\<rparr>"
  have "b_end c \<le> 2 ^ 32" using le by simp
  then have w: "sub64 (b_addr c + BLOCK_HEADER_SIZE) BLOCK_HEADER_SIZE = b_addr c"
    by (subst sub64_small) (simp_all add: b_end_def)
  have hc: "hdr_of (hdr h) c" using heap_repD(3)[OF rep] .
  have "kfree (Some (b_addr c + BLOCK_HEADER_SIZE)) h = absorb_into_prev (b_addr c) (absorb_next (b_addr c) ?h)"
    unfolding kfree_def option.case w Let_def using hc by (simp add: hdr_of_def)
  moreover have "heap_rep ?h (xs @ ?c # ys)"
    using hc
    by (intro heap_rep_set[OF rep, where r = "(hdr h (b_addr c))\<lparr>hb_is_free := True\<rparr>"])
      (simp_all add: hdr_of_def)
  then have nxt: "heap_rep (absorb_next (b_addr ?c) ?h) (xs @ coalesce_next ?c ys)"
    by (rule absorb_next_rep) (use le in \<open>auto simp: b_end_def\<close>)
  obtain d zs where d: "coalesce_next ?c ys = d # zs" "b_addr d = b_addr c"
    using coalesce_next_addr[of ?c ys] by auto
  have "\<forall>b \<in> set (xs @ [d]). b_end b \<le> 2 ^ 32" using le assms(3) d(1) by auto
  from absorb_into_prev_rep[OF nxt[unfolded d(1)] this]
  have "heap_rep (absorb_into_prev (b_addr c) (absorb_next (b_addr c) ?h)) (free_blk xs c ys)"
    by (simp only: free_blk_def d blk.sel)
  ultimately show ?thesis by (simp only:)
qed

end
