(* ===== verification/KmallocInv.thy ===== *)
theory KmallocInv
  imports Kmalloc
begin

text \<open>
  The heap's invariant and what \<open>kmalloc\<close>, \<open>kfree\<close> and \<open>krealloc\<close> promise. Blocks never overlap,
  lie in pages the page allocator has handed out, are 16-byte aligned, and no two free
  neighbours are left unmerged; the byte counters are those of the block list.
\<close>

section \<open>The invariant\<close>

definition span :: "blk \<Rightarrow> nat set" where
  "span b = {b_addr b..<b_end b}"

definition blk_ok :: "pmm \<Rightarrow> blk \<Rightarrow> bool" where
  "blk_ok p b \<longleftrightarrow> b_addr b \<noteq> 0 \<and> 16 dvd b_addr b \<and> 16 dvd b_size b \<and>
     (\<forall>x \<in> span b. page_used p (x div PMM_PAGE_SIZE))"

abbreviation apart :: "blk \<Rightarrow> blk \<Rightarrow> bool" where
  "apart b c \<equiv> span b \<inter> span c = {}"

definition heap_ok :: "pmm \<Rightarrow> blk list \<Rightarrow> bool" where
  "heap_ok p bs \<longleftrightarrow> pmm_wf p \<and> (\<forall>b \<in> set bs. blk_ok p b) \<and> sorted_wrt apart bs"

definition live_bytes :: "blk list \<Rightarrow> nat" where
  "live_bytes bs = sum_list (map b_size (filter (\<lambda>b. \<not> b_free b) bs))"

definition all_bytes :: "blk list \<Rightarrow> nat" where
  "all_bytes bs = sum_list (map (\<lambda>b. BLOCK_HEADER_SIZE + b_size b) bs)"

abbreviation unmerged :: "blk \<Rightarrow> blk \<Rightarrow> bool" where
  "unmerged b c \<equiv> b_free b \<and> b_free c \<and> b_end b = b_addr c"

definition coalesced :: "blk list \<Rightarrow> bool" where
  "coalesced bs \<longleftrightarrow> successively (\<lambda>b c. \<not> unmerged b c) bs"

definition heap_inv :: "heap \<Rightarrow> blk list \<Rightarrow> bool" where
  "heap_inv h bs \<longleftrightarrow> heap_rep h bs \<and> heap_ok (heap_pmm h) bs \<and> coalesced bs \<and>
     heap_used_bytes h = live_bytes bs \<and> heap_total_bytes h = all_bytes bs"

text \<open>The allocations callers hold: payload address and size.\<close>

definition live :: "blk list \<Rightarrow> (nat \<times> nat) set" where
  "live bs = {(b_addr b + BLOCK_HEADER_SIZE, b_size b) | b. b \<in> set bs \<and> \<not> b_free b}"

section \<open>Block lists\<close>

lemma span_nonempty: "b_addr b \<in> span b"
  by (simp add: span_def b_end_def)

lemma apart_addr: "apart b c \<Longrightarrow> b_addr b \<noteq> b_addr c"
  using span_nonempty[of b] span_nonempty[of c] by auto

lemma blk_ok_end:
  assumes "pmm_wf p" "blk_ok p b"
  shows "b_end b \<le> 2 ^ 32"
proof -
  have "b_end b - 1 \<in> span b" by (simp add: span_def b_end_def)
  then have "(b_end b - 1) div PMM_PAGE_SIZE < MAX_PHYSICAL_PAGES"
    using assms page_used_bound by (auto simp: blk_ok_def)
  then show ?thesis by (simp add: b_end_def)
qed

lemma heap_okD:
  assumes "heap_ok p bs"
  shows "pmm_wf p" "b \<in> set bs \<Longrightarrow> blk_ok p b" "b \<in> set bs \<Longrightarrow> b_end b \<le> 2 ^ 32" "sorted_wrt apart bs"
  using assms blk_ok_end by (auto simp: heap_ok_def)

lemma heap_ok_other:
  assumes "heap_ok p (xs @ c # ys)" "b \<in> set (xs @ ys)" "x \<in> span c"
  shows "x \<notin> span b"
  using assms by (auto simp: heap_ok_def sorted_wrt_append disjoint_iff)

lemma heap_ok_replace:
  assumes "heap_ok p (xs @ cs @ ys)" "\<forall>d \<in> set ds. blk_ok p d" "sorted_wrt apart ds"
    and "(\<Union>d \<in> set ds. span d) \<subseteq> (\<Union>c \<in> set cs. span c)"
  shows "heap_ok p (xs @ ds @ ys)"
  using assms unfolding heap_ok_def sorted_wrt_append
  by (auto simp: disjoint_iff subset_iff)

lemma all_bytes_card:
  assumes "sorted_wrt apart bs"
  shows "all_bytes bs = card (\<Union>b \<in> set bs. span b)"
  using assms
proof (induction bs)
  case Nil
  then show ?case by (simp add: all_bytes_def)
next
  case (Cons b bs)
  have "span b \<inter> (\<Union>c \<in> set bs. span c) = {}" using Cons.prems by auto
  moreover have "finite (span c)" for c by (simp add: span_def)
  ultimately have "card (span b \<union> (\<Union>c \<in> set bs. span c)) = card (span b) + card (\<Union>c \<in> set bs. span c)"
    by (intro card_Un_disjoint) auto
  moreover have "card (span b) = BLOCK_HEADER_SIZE + b_size b" by (simp add: span_def b_end_def)
  ultimately show ?case using Cons by (simp add: all_bytes_def)
qed

lemma all_bytes_bound:
  assumes "heap_ok p bs"
  shows "all_bytes bs \<le> 2 ^ 32"
proof -
  have "(\<Union>b \<in> set bs. span b) \<subseteq> {..<2 ^ 32}"
    using heap_okD(3)[OF assms] by (fastforce simp: span_def)
  from card_mono[OF _ this] show ?thesis using all_bytes_card[OF heap_okD(4)[OF assms]] by simp
qed

lemma live_bytes_le: "live_bytes bs \<le> all_bytes bs"
  by (induction bs) (auto simp: live_bytes_def all_bytes_def)

lemma live_bytes_bound: "heap_ok p bs \<Longrightarrow> live_bytes bs < 2 ^ 64"
  using all_bytes_bound[of p bs] live_bytes_le[of bs] by simp

lemma bytes_append [simp]:
  "live_bytes (xs @ ys) = live_bytes xs + live_bytes ys"
  "all_bytes (xs @ ys) = all_bytes xs + all_bytes ys"
  by (simp_all add: live_bytes_def all_bytes_def)

lemma bytes_Cons [simp]:
  "live_bytes (b # ys) = (if b_free b then 0 else b_size b) + live_bytes ys"
  "all_bytes (b # ys) = BLOCK_HEADER_SIZE + b_size b + all_bytes ys"
  "live_bytes [] = 0" "all_bytes [] = 0"
  by (simp_all add: live_bytes_def all_bytes_def)

lemma live_append [simp]: "live (xs @ ys) = live xs \<union> live ys"
  by (auto simp: live_def)

lemma live_Cons [simp]:
  "live (b # ys) = (if b_free b then {} else {(b_addr b + BLOCK_HEADER_SIZE, b_size b)}) \<union> live ys"
  "live [] = {}"
  by (auto simp: live_def)

lemma coalesced_append:
  "coalesced (xs @ ys) \<longleftrightarrow> coalesced xs \<and> coalesced ys \<and>
     (xs = [] \<or> ys = [] \<or> \<not> unmerged (last xs) (hd ys))"
  by (simp add: coalesced_def successively_append_iff)

lemma coalesced_Cons:
  "coalesced (b # ys) \<longleftrightarrow> coalesced ys \<and> (ys = [] \<or> \<not> unmerged b (hd ys))"
  by (cases ys) (auto simp: coalesced_def)

lemma coalesced_Nil [simp]: "coalesced []"
  by (simp add: coalesced_def)

section \<open>Splitting and merging\<close>

lemma split_blk_span:
  assumes "n \<le> b_size c"
  shows "(\<Union>d \<in> set (split_blk c n). span d) \<subseteq> span c" "sorted_wrt apart (split_blk c n)"
  using assms by (auto simp: split_blk_def span_def b_end_def)

lemma split_blk_ok:
  assumes "blk_ok p c" "n \<le> b_size c" "16 dvd n" "d \<in> set (split_blk c n)"
  shows "blk_ok p d"
proof -
  have "span d \<subseteq> span c" using split_blk_span(1)[OF assms(2)] assms(4) by blast
  moreover have "b_addr d \<noteq> 0 \<and> 16 dvd b_addr d \<and> 16 dvd b_size d"
    using assms by (auto simp: split_blk_def blk_ok_def split: if_splits)
  ultimately show ?thesis using assms(1) by (auto simp: blk_ok_def)
qed

lemma merge_blk_span: "b_end c = b_addr d \<Longrightarrow> span (merge_blk c d) = span c \<union> span d"
  by (auto simp: span_def b_end_def merge_blk_def)

lemma merge_blk_ok:
  "blk_ok p c \<Longrightarrow> blk_ok p d \<Longrightarrow> b_end c = b_addr d \<Longrightarrow> blk_ok p (merge_blk c d)"
  using merge_blk_span[of c d] by (auto simp: blk_ok_def) (auto simp: merge_blk_def)

lemma merge_blk_simps [simp]:
  "b_addr (merge_blk c d) = b_addr c" "b_free (merge_blk c d) = b_free c"
  "b_size (merge_blk c d) = b_size c + BLOCK_HEADER_SIZE + b_size d"
  "b_end c = b_addr d \<Longrightarrow> b_end (merge_blk c d) = b_end d"
  by (simp_all add: merge_blk_def b_end_def)

section \<open>Taking a block\<close>

lemma split_block_frame [simp]:
  "heap_used_bytes (split_block a n h) = heap_used_bytes h" "heap_free_bytes (split_block a n h) = heap_free_bytes h"
  "heap_total_bytes (split_block a n h) = heap_total_bytes h" "heap_pmm (split_block a n h) = heap_pmm h"
  "heap_mem (split_block a n h) = heap_mem h" "heap_grow_count (split_block a n h) = heap_grow_count h"
  by (simp_all add: split_block_def Let_def upd_hdr_def split: option.split)

lemma absorb_frame [simp]:
  "heap_used_bytes (absorb a d h) = heap_used_bytes h" "heap_free_bytes (absorb a d h) = heap_free_bytes h"
  "heap_total_bytes (absorb a d h) = heap_total_bytes h" "heap_pmm (absorb a d h) = heap_pmm h"
  "heap_mem (absorb a d h) = heap_mem h" "heap_grow_count (absorb a d h) = heap_grow_count h"
  by (simp_all add: absorb_def Let_def upd_hdr_def split: option.split)

lemma heap_take_frame [simp]:
  "heap_total_bytes (snd (heap_take a n h)) = heap_total_bytes h"
  "heap_pmm (snd (heap_take a n h)) = heap_pmm h" "heap_mem (snd (heap_take a n h)) = heap_mem h"
  "heap_grow_count (snd (heap_take a n h)) = heap_grow_count h"
  by (simp_all add: heap_take_def Let_def upd_hdr_def)

lemma heap_take_used:
  assumes "heap_rep h (xs @ c # ys)" "n \<le> b_size c" "b_end c \<le> 2 ^ 32"
  shows "heap_used_bytes (snd (heap_take (b_addr c) n h)) =
    wrap64 (heap_used_bytes h + b_size (hd (split_blk c n)))"
proof -
  have "hb_size (hdr h (b_addr c)) = b_size c" using heap_repD(3)[OF assms(1)] by (simp add: hdr_of_def)
  moreover have "hb_size (hdr (split_block (b_addr c) n h) (b_addr c)) = n"
    by (simp add: split_block_def Let_def)
  moreover have "wrap64 (n + BLOCK_HEADER_SIZE + 16) = n + BLOCK_HEADER_SIZE + 16"
    using assms(2,3) by (intro wrap64_small) (simp add: b_end_def)
  ultimately show ?thesis by (simp add: heap_take_def split_blk_def Let_def del: add_2_eq_Suc')
qed

lemma split_blk_coalesced:
  assumes "coalesced (xs @ c # ys)" "b_free c" "n \<le> b_size c"
  shows "coalesced (xs @ split_blk c n @ ys)"
  using assms by (cases ys) (auto simp: coalesced_append coalesced_Cons split_blk_def b_end_def)

lemma heap_take_inv:
  assumes inv: "heap_inv h (xs @ c # ys)" and c: "fits n c" and "16 dvd n"
  shows "heap_inv (snd (heap_take (b_addr c) n h)) (xs @ split_blk c n @ ys)"
    "fst (heap_take (b_addr c) n h) = b_addr c + BLOCK_HEADER_SIZE"
proof -
  have rep: "heap_rep h (xs @ c # ys)" and ok: "heap_ok (heap_pmm h) (xs @ c # ys)"
    using inv by (simp_all add: heap_inv_def)
  have le: "b_end c \<le> 2 ^ 32" using heap_okD(3)[OF ok, of c] by simp
  have new: "b_addr c + BLOCK_HEADER_SIZE + n \<notin> set (addrs (xs @ c # ys))"
    if "n + BLOCK_HEADER_SIZE + 16 \<le> b_size c"
  proof -
    have "b_addr c + BLOCK_HEADER_SIZE + n \<in> span c" using that by (simp add: span_def b_end_def)
    then have "b_addr b \<noteq> b_addr c + BLOCK_HEADER_SIZE + n" if "b \<in> set (xs @ ys)" for b
      using span_nonempty[of b] heap_ok_other[OF ok that] by metis
    then have "b_addr c + BLOCK_HEADER_SIZE + n \<notin> b_addr ` set (xs @ ys)" by (metis imageE)
    then show ?thesis by (simp add: image_Un)
  qed
  note take = heap_take_rep[OF rep _ le new] c
  show "fst (heap_take (b_addr c) n h) = b_addr c + BLOCK_HEADER_SIZE" using take by simp
  have okc: "blk_ok (heap_pmm h) c" using heap_okD(2)[OF ok, of c] by simp
  have "heap_ok (heap_pmm h) (xs @ [c] @ ys)" using ok by simp
  then have "heap_ok (heap_pmm h) (xs @ split_blk c n @ ys)"
  proof (rule heap_ok_replace)
    show "\<forall>d \<in> set (split_blk c n). blk_ok (heap_pmm h) d" using split_blk_ok[OF okc _ assms(3)] c by blast
  qed (use split_blk_span[of n c] c in simp_all)
  moreover have "coalesced (xs @ split_blk c n @ ys)"
    using inv c by (intro split_blk_coalesced) (simp_all add: heap_inv_def)
  moreover have bytes: "live_bytes (split_blk c n) = b_size (hd (split_blk c n))"
    "all_bytes (split_blk c n) = BLOCK_HEADER_SIZE + b_size c"
    by (simp_all add: split_blk_def)
  moreover have "live_bytes (xs @ split_blk c n @ ys) < 2 ^ 64"
    using calculation(1) by (rule live_bytes_bound)
  ultimately show "heap_inv (snd (heap_take (b_addr c) n h)) (xs @ split_blk c n @ ys)"
    using inv take heap_take_used[OF rep _ le] c by (simp add: heap_inv_def)
qed

lemma live_split:
  "b_free c \<Longrightarrow> live (xs @ split_blk c n @ ys) =
     insert (b_addr c + BLOCK_HEADER_SIZE, b_size (hd (split_blk c n))) (live (xs @ c # ys))"
  by (auto simp: split_blk_def)

section \<open>Growing the heap\<close>

lemma blk_ok_mono:
  "blk_ok p b \<Longrightarrow> (\<And>q. page_used p q \<Longrightarrow> page_used p' q) \<Longrightarrow> blk_ok p' b"
  by (auto simp: blk_ok_def)

text \<open>What the two attempts at a region give.\<close>

definition region_ok :: "pmm \<Rightarrow> nat \<Rightarrow> nat \<Rightarrow> pmm \<Rightarrow> bool" where
  "region_ok p mem g p' \<longleftrightarrow> 0 < g \<and> g \<le> MAX_PHYSICAL_PAGES \<and> mem mod PMM_PAGE_SIZE = 0 \<and>
     (\<forall>x. mem \<le> x \<and> x < mem + g * PMM_PAGE_SIZE \<longrightarrow>
        \<not> page_used p (x div PMM_PAGE_SIZE) \<and> page_used p' (x div PMM_PAGE_SIZE))"

lemma pmm_region_ok:
  assumes "pmm_wf p" "fst (pmm_alloc_pages g p) \<noteq> 0"
  shows "region_ok p (fst (pmm_alloc_pages g p)) g (snd (pmm_alloc_pages g p))"
  using pg.alloc_region[OF assms] pg.region_bound[OF assms] pg.region_page[OF assms]
  by (simp add: region_ok_def)

lemma need_pages_enough:
  assumes "need + BLOCK_HEADER_SIZE + PMM_PAGE_SIZE - 1 < 2 ^ 64"
  shows "need + BLOCK_HEADER_SIZE
    \<le> wrap64 (need + BLOCK_HEADER_SIZE + PMM_PAGE_SIZE - 1) div PMM_PAGE_SIZE * PMM_PAGE_SIZE"
proof -
  let ?m = "need + BLOCK_HEADER_SIZE + PMM_PAGE_SIZE - 1"
  have "?m = ?m div PMM_PAGE_SIZE * PMM_PAGE_SIZE + ?m mod PMM_PAGE_SIZE" by (rule div_mult_mod_eq[symmetric])
  moreover have "?m mod PMM_PAGE_SIZE < PMM_PAGE_SIZE" by (rule mod_less_divisor) simp
  ultimately have "need + BLOCK_HEADER_SIZE \<le> ?m div PMM_PAGE_SIZE * PMM_PAGE_SIZE" by linarith
  then show ?thesis by (simp only: wrap64_small[OF assms])
qed

lemma grow_region_facts:
  assumes "pmm_wf p" "grow_region need p = (mem, g, p')"
  shows "pmm_wf p'" "page_used p q \<Longrightarrow> page_used p' q" "mem \<noteq> 0 \<Longrightarrow> region_ok p mem g p'"
    "need + BLOCK_HEADER_SIZE + PMM_PAGE_SIZE - 1 < 2 ^ 64 \<Longrightarrow> need + BLOCK_HEADER_SIZE \<le> g * PMM_PAGE_SIZE"
proof -
  define np where "np = wrap64 (need + BLOCK_HEADER_SIZE + PMM_PAGE_SIZE - 1) div PMM_PAGE_SIZE"
  define gp where "gp = (if HEAP_GROW_PAGES < np then np else HEAP_GROW_PAGES)"
  define p1 where "p1 = snd (pmm_alloc_pages gp p)"
  have p1: "pmm_wf p1" "\<And>q. page_used p q \<Longrightarrow> page_used p1 q"
    unfolding p1_def using assms(1) by (simp_all add: pg.alloc_wf pg.used_mono)
  have split: "(mem, g, p') = (fst (pmm_alloc_pages gp p), gp, p1) \<or>
      (mem, g, p') = (fst (pmm_alloc_pages np p1), np, snd (pmm_alloc_pages np p1))"
    using assms(2) unfolding grow_region_def Let_def np_def[symmetric] gp_def[symmetric] p1_def
    by (simp only: split_beta fst_conv snd_conv prod.inject split: if_splits) auto
  then show "pmm_wf p'" using p1(1) pg.alloc_wf by auto
  show "page_used p' q" if "page_used p q" using split p1 that pg.used_mono by auto
  show "region_ok p mem g p'" if "mem \<noteq> 0"
    using split
  proof
    assume a: "(mem, g, p') = (fst (pmm_alloc_pages gp p), gp, p1)"
    then show ?thesis using pmm_region_ok[OF assms(1), of gp] that by (simp add: p1_def)
  next
    assume a: "(mem, g, p') = (fst (pmm_alloc_pages np p1), np, snd (pmm_alloc_pages np p1))"
    then have "region_ok p1 mem g p'" using pmm_region_ok[OF p1(1), of np] that by simp
    then show ?thesis using p1(2) by (auto simp: region_ok_def)
  qed
  show "need + BLOCK_HEADER_SIZE \<le> g * PMM_PAGE_SIZE"
    if "need + BLOCK_HEADER_SIZE + PMM_PAGE_SIZE - 1 < 2 ^ 64"
  proof -
    have "np \<le> g" using split by (auto simp: gp_def)
    then show ?thesis using need_pages_enough[OF that] unfolding np_def[symmetric]
      by linarith
  qed
qed

lemma region_blk:
  assumes "heap_ok p bs" "pmm_wf p'" "\<And>q. page_used p q \<Longrightarrow> page_used p' q"
    "region_ok p mem g p'" "mem \<noteq> 0"
  defines "r \<equiv> Blk mem (g * PMM_PAGE_SIZE - BLOCK_HEADER_SIZE) True"
  shows "heap_ok p' (bs @ [r])"
proof -
  have g: "0 < g" "mem mod PMM_PAGE_SIZE = 0" using assms(4) by (simp_all add: region_ok_def)
  have sp: "span r = {mem..<mem + g * PMM_PAGE_SIZE}" using g(1) by (auto simp: r_def span_def b_end_def)
  have dvd: "16 dvd mem" by (rule dvd_trans[of 16 PMM_PAGE_SIZE]) (use g(2) in \<open>simp_all add: mod_0_imp_dvd\<close>)
  have "16 dvd g * PMM_PAGE_SIZE - BLOCK_HEADER_SIZE" by (rule dvd_diff_nat) simp_all
  moreover have "\<forall>x \<in> span r. page_used p' (x div PMM_PAGE_SIZE)"
    using assms(4) by (simp add: sp region_ok_def)
  ultimately have "blk_ok p' r" using assms(5) dvd by (simp add: blk_ok_def r_def)
  moreover have "apart b r" if "b \<in> set bs" for b
  proof (rule equals0I)
    fix x assume x: "x \<in> span b \<inter> span r"
    then have "page_used p (x div PMM_PAGE_SIZE)" using heap_okD(2)[OF assms(1) that] by (simp add: blk_ok_def)
    moreover have "\<not> page_used p (x div PMM_PAGE_SIZE)" using x assms(4) by (simp add: sp region_ok_def)
    ultimately show False by blast
  qed
  ultimately show ?thesis
    using assms(1-3) blk_ok_mono by (auto simp: heap_ok_def sorted_wrt_append)
qed

lemma append_region_frame:
  "heap_used_bytes (append_region mem g h) = heap_used_bytes h"
  "heap_total_bytes (append_region mem g h) = wrap64 (heap_total_bytes h + g * PMM_PAGE_SIZE)"
  "heap_pmm (append_region mem g h) = heap_pmm h" "heap_mem (append_region mem g h) = heap_mem h"
  by (simp_all add: append_region_def Let_def split: option.split)

lemma live_nonfree: "b_free r \<Longrightarrow> live (bs @ [r]) = live bs"
  by simp

text \<open>Merging two adjacent free blocks changes neither the allocations nor the counters.\<close>

lemma merge_step:
  assumes "heap_ok p (xs @ c # d # ys)" "unmerged c d"
  shows "heap_ok p (xs @ merge_blk c d # ys)" "live (xs @ merge_blk c d # ys) = live (xs @ c # d # ys)"
    "live_bytes (xs @ merge_blk c d # ys) = live_bytes (xs @ c # d # ys)"
    "all_bytes (xs @ merge_blk c d # ys) = all_bytes (xs @ c # d # ys)"
proof -
  have ok: "heap_ok p (xs @ [c, d] @ ys)" using assms(1) by simp
  have "blk_ok p c" "blk_ok p d" using heap_okD(2)[OF ok] by simp_all
  then have "heap_ok p (xs @ [merge_blk c d] @ ys)"
    using assms(2) merge_blk_span[of c d] by (intro heap_ok_replace[OF ok]) (simp_all add: merge_blk_ok)
  then show "heap_ok p (xs @ merge_blk c d # ys)" by simp
qed (use assms(2) in simp_all)

definition same_heap :: "pmm \<Rightarrow> blk list \<Rightarrow> blk list \<Rightarrow> bool" where
  "same_heap p bs cs \<longleftrightarrow> heap_ok p cs \<and> live cs = live bs \<and> live_bytes cs = live_bytes bs \<and>
     all_bytes cs = all_bytes bs"

lemma coalesce_next_same:
  assumes "heap_ok p (xs @ c # ys)" "b_free c"
  shows "same_heap p (xs @ c # ys) (xs @ coalesce_next c ys)"
proof (cases "ys \<noteq> [] \<and> b_free (hd ys) \<and> b_end c = b_addr (hd ys)")
  case True
  then obtain y zs where ys: "ys = y # zs" "unmerged c y" using assms(2) by (cases ys) auto
  then show ?thesis using merge_step[of p xs c y zs] assms(1) by (simp add: same_heap_def coalesce_next_def)
next
  case False
  then show ?thesis using assms(1) by (cases ys) (auto simp: same_heap_def coalesce_next_def)
qed

lemma coalesce_prev_same:
  assumes "heap_ok p (xs @ d # ds)" "b_free d"
  shows "same_heap p (xs @ d # ds) (coalesce_prev xs (d # ds))"
proof (cases "xs \<noteq> [] \<and> b_free (last xs) \<and> b_end (last xs) = b_addr d")
  case True
  then obtain ws w where xs: "xs = ws @ [w]" "unmerged w d"
    using assms(2) by (cases xs rule: rev_cases) auto
  then show ?thesis using merge_step[of p ws w d ds] assms(1) by (simp add: same_heap_def coalesce_prev_def)
next
  case False
  then show ?thesis using assms(1) by (auto simp: same_heap_def coalesce_prev_def)
qed

lemma coalesce_next_coalesced:
  assumes "coalesced ys"
  shows "coalesced (coalesce_next c ys)"
proof (cases ys)
  case (Cons y zs)
  then show ?thesis using assms
    by (cases zs) (auto simp: coalesce_next_def coalesced_Cons)
qed (simp add: coalesce_next_def coalesced_Cons)

lemma coalesce_prev_coalesced:
  assumes "coalesced xs" "coalesced (d # ds)" "b_free d"
  shows "coalesced (coalesce_prev xs (d # ds))"
proof (cases "xs \<noteq> [] \<and> b_free (last xs) \<and> b_end (last xs) = b_addr d")
  case True
  then obtain ws w where xs: "xs = ws @ [w]" by (cases xs rule: rev_cases) auto
  have "coalesced (ws @ merge_blk w d # ds)"
    using assms True unfolding xs by (simp add: coalesced_append coalesced_Cons)
  then show ?thesis using True by (simp add: coalesce_prev_def xs)
next
  case False
  then show ?thesis using assms by (auto simp: coalesce_prev_def coalesced_append)
qed

text \<open>Growth keeps the invariant and the allocations, and leaves a block that fits the request.\<close>

lemma grown_fits:
  "\<exists>b \<in> set (coalesce_prev bs [r]). b_size r \<le> b_size b \<and> (b_free r \<longrightarrow> b_free b)"
  by (auto simp: coalesce_prev_def)

lemma heap_grow_inv:
  assumes inv: "heap_inv h bs" and g: "heap_grow need h = (r, h')"
  shows "r = None \<Longrightarrow> heap_inv h' bs"
    "r \<noteq> None \<Longrightarrow> \<exists>bs'. heap_inv h' bs' \<and> live bs' = live bs \<and>
       (need + BLOCK_HEADER_SIZE + PMM_PAGE_SIZE - 1 < 2 ^ 64 \<longrightarrow> (\<exists>b \<in> set bs'. fits need b))"
proof -
  obtain mem gp p where reg: "grow_region need (heap_pmm h) = (mem, gp, p)" by (metis prod_cases3)
  have rep: "heap_rep h bs" and ok: "heap_ok (heap_pmm h) bs" using inv by (simp_all add: heap_inv_def)
  note facts = grow_region_facts[OF heap_okD(1)[OF ok] reg]
  have rep1: "heap_rep (h\<lparr>heap_pmm := p\<rparr>) bs" using rep by (simp add: heap_rep_def)
  show "heap_inv h' bs" if "r = None"
  proof -
    have "h' = h\<lparr>heap_pmm := p\<rparr>"
      using g that reg by (auto simp: heap_grow_def Let_def split: if_splits option.splits)
    moreover have "heap_ok p bs" using ok facts(1,2) blk_ok_mono by (auto simp: heap_ok_def)
    ultimately show ?thesis using inv rep1 by (simp add: heap_inv_def)
  qed
  assume "r \<noteq> None"
  then have m: "mem \<noteq> 0" using g reg by (auto simp: heap_grow_def Let_def split: if_splits)
  let ?r = "Blk mem (gp * PMM_PAGE_SIZE - BLOCK_HEADER_SIZE) True"
  let ?h = "append_region mem gp (h\<lparr>heap_pmm := p\<rparr>)"
  have okr: "heap_ok p (bs @ [?r])" using region_blk[OF ok facts(1,2) facts(3)[OF m] m] .
  have gp: "0 < gp" "gp * PMM_PAGE_SIZE < 2 ^ 64" using facts(3)[OF m] by (auto simp: region_ok_def)
  have "mem \<notin> set (addrs bs)"
    using okr apart_addr by (fastforce simp: heap_ok_def sorted_wrt_append)
  then have repr: "heap_rep ?h (bs @ [?r])" using append_region_rep[OF rep1 _ gp] by simp
  have "h' = absorb_into_prev mem ?h"
    using g m reg by (auto simp: heap_grow_def absorb_into_prev_def Let_def split: option.splits if_splits)
  moreover have "heap_rep (absorb_into_prev (b_addr ?r) ?h) (coalesce_prev bs [?r])"
    using okr by (intro absorb_into_prev_rep[OF repr]) (use heap_okD(3) in blast)
  ultimately have rep': "heap_rep h' (coalesce_prev bs [?r])" by simp
  have frame: "heap_used_bytes h' = heap_used_bytes h" "heap_pmm h' = p"
    "heap_total_bytes h' = wrap64 (heap_total_bytes h + gp * PMM_PAGE_SIZE)"
    using \<open>h' = _\<close> by (auto simp: absorb_into_prev_def append_region_frame split: option.split)
  have same: "same_heap p (bs @ [?r]) (coalesce_prev bs [?r])" using okr by (intro coalesce_prev_same) simp_all
  have co: "coalesced (coalesce_prev bs [?r])"
    using inv by (intro coalesce_prev_coalesced) (simp_all add: heap_inv_def coalesced_Cons)
  have "all_bytes (bs @ [?r]) < 2 ^ 64" using all_bytes_bound[OF okr] by simp
  then have "heap_inv h' (coalesce_prev bs [?r])"
    using inv rep' frame same co gp by (simp add: heap_inv_def same_heap_def)
  moreover have "live (coalesce_prev bs [?r]) = live bs" using same by (simp add: same_heap_def)
  moreover have "\<exists>b \<in> set (coalesce_prev bs [?r]). fits need b"
    if "need + BLOCK_HEADER_SIZE + PMM_PAGE_SIZE - 1 < 2 ^ 64"
    using grown_fits[of bs ?r] facts(4)[OF that] by fastforce
  ultimately show "\<exists>bs'. heap_inv h' bs' \<and> live bs' = live bs \<and>
       (need + BLOCK_HEADER_SIZE + PMM_PAGE_SIZE - 1 < 2 ^ 64 \<longrightarrow> (\<exists>b \<in> set bs'. fits need b))"
    by blast
qed

section \<open>Releasing a block\<close>

lemma absorb_step_frame [simp]:
  "heap_used_bytes (absorb_next c h) = heap_used_bytes h" "heap_total_bytes (absorb_next c h) = heap_total_bytes h"
  "heap_pmm (absorb_next c h) = heap_pmm h" "heap_mem (absorb_next c h) = heap_mem h"
  "heap_used_bytes (absorb_into_prev c h) = heap_used_bytes h"
  "heap_total_bytes (absorb_into_prev c h) = heap_total_bytes h"
  "heap_pmm (absorb_into_prev c h) = heap_pmm h" "heap_mem (absorb_into_prev c h) = heap_mem h"
  by (simp_all add: absorb_next_def absorb_into_prev_def split: option.split)

lemma kfree_frame [simp]:
  "heap_total_bytes (kfree ptr h) = heap_total_bytes h" "heap_pmm (kfree ptr h) = heap_pmm h"
  "heap_mem (kfree ptr h) = heap_mem h"
  by (simp_all add: kfree_def Let_def split: option.split)

lemma set_free_ok:
  assumes "heap_ok p (xs @ c # ys)"
  shows "heap_ok p (xs @ Blk (b_addr c) (b_size c) True # ys)"
proof -
  let ?c = "Blk (b_addr c) (b_size c) True"
  have "span ?c = span c" by (simp add: span_def b_end_def)
  moreover have "blk_ok p ?c = blk_ok p c" by (simp add: blk_ok_def span_def b_end_def)
  moreover have "heap_ok p (xs @ [c] @ ys)" using assms by simp
  then have "heap_ok p (xs @ [?c] @ ys)"
    by (rule heap_ok_replace) (use calculation heap_okD(2)[OF assms, of c] in simp_all)
  then show ?thesis by simp
qed

lemma kfree_inv:
  assumes inv: "heap_inv h (xs @ c # ys)" and used: "\<not> b_free c"
  shows "heap_inv (kfree (Some (b_addr c + BLOCK_HEADER_SIZE)) h) (free_blk xs c ys)"
    "live (free_blk xs c ys) = live (xs @ ys)"
proof -
  let ?c = "Blk (b_addr c) (b_size c) True" and ?p = "heap_pmm h"
  have rep: "heap_rep h (xs @ c # ys)" and ok: "heap_ok ?p (xs @ c # ys)" and co: "coalesced (xs @ c # ys)"
    using inv by (simp_all add: heap_inv_def)
  have okc: "heap_ok ?p (xs @ ?c # ys)" using set_free_ok[OF ok] .
  then have s1: "same_heap ?p (xs @ ?c # ys) (xs @ coalesce_next ?c ys)" by (rule coalesce_next_same) simp
  obtain d ds where d: "coalesce_next ?c ys = d # ds" "b_addr d = b_addr c" "b_free d"
    using coalesce_next_addr[of ?c ys] by auto
  have s2: "same_heap ?p (xs @ d # ds) (free_blk xs c ys)"
    using coalesce_prev_same[of ?p xs d ds] s1 d by (simp add: same_heap_def free_blk_def)
  have le: "\<forall>b \<in> set (xs @ c # ys). b_end b \<le> 2 ^ 32" "\<forall>b \<in> set (coalesce_next ?c ys). b_end b \<le> 2 ^ 32"
    using heap_okD(3)[OF ok] heap_okD(3)[of ?p "xs @ coalesce_next ?c ys"] s1 by (auto simp: same_heap_def)
  have rep': "heap_rep (kfree (Some (b_addr c + BLOCK_HEADER_SIZE)) h) (free_blk xs c ys)"
    using kfree_rep[OF rep le] .
  have "coalesced (d # ds)" using coalesce_next_coalesced[of ys ?c] co d(1) by (simp add: coalesced_append coalesced_Cons)
  then have co': "coalesced (free_blk xs c ys)"
    unfolding free_blk_def d(1) using co d(3) by (intro coalesce_prev_coalesced) (simp_all add: coalesced_append)
  have "b_end c \<le> 2 ^ 32" using le(1) by simp
  then have w: "sub64 (b_addr c + BLOCK_HEADER_SIZE) BLOCK_HEADER_SIZE = b_addr c"
    by (subst sub64_small) (simp_all add: b_end_def)
  have "heap_used_bytes (kfree (Some (b_addr c + BLOCK_HEADER_SIZE)) h) = sub64 (heap_used_bytes h) (b_size c)"
    using heap_repD(3)[OF rep] by (simp add: kfree_def w Let_def hdr_of_def)
  moreover have "heap_used_bytes h = live_bytes (xs @ c # ys)" "live_bytes (xs @ c # ys) < 2 ^ 64"
    using inv live_bytes_bound[OF ok] by (simp_all add: heap_inv_def)
  ultimately have used': "heap_used_bytes (kfree (Some (b_addr c + BLOCK_HEADER_SIZE)) h) = live_bytes (xs @ ys)"
    using used by simp
  show "heap_inv (kfree (Some (b_addr c + BLOCK_HEADER_SIZE)) h) (free_blk xs c ys)"
    using rep' co' used' s1 s2 inv d(1) by (simp add: heap_inv_def same_heap_def)
  show "live (free_blk xs c ys) = live (xs @ ys)" using s1 s2 d(1) by (simp add: same_heap_def)
qed

section \<open>Allocation\<close>

lemma kmalloc_align_facts:
  assumes "n + 15 < 2 ^ 64"
  shows "n \<le> kmalloc_align n" "16 dvd kmalloc_align n" "kmalloc_align n \<le> n + 15"
proof -
  have "n + 15 = (n + 15) div 16 * 16 + (n + 15) mod 16" by (rule div_mult_mod_eq[symmetric])
  moreover have "(n + 15) mod 16 < 16" by simp
  ultimately show "n \<le> kmalloc_align n" "kmalloc_align n \<le> n + 15"
    unfolding kmalloc_align_def wrap64_small[OF assms] by linarith+
  show "16 dvd kmalloc_align n" by (simp add: kmalloc_align_def)
qed

lemma heap_inv_distinct: "heap_inv h bs \<Longrightarrow> distinct (addrs bs)"
  by (simp add: heap_inv_def heap_rep_def)

lemma find_split:
  assumes "find P xs = Some x"
  shows "\<exists>ys zs. xs = ys @ x # zs \<and> P x"
proof -
  obtain k where "k < length xs" "P (xs ! k)" "x = xs ! k" using assms by (auto simp: find_Some_iff)
  then show ?thesis using id_take_nth_drop[of k xs] by blast
qed

text \<open>Handing out the block the search found.\<close>

definition alloc_post :: "nat \<Rightarrow> heap \<Rightarrow> blk list \<Rightarrow> nat \<Rightarrow> heap \<Rightarrow> bool" where
  "alloc_post n h bs p h' \<longleftrightarrow> heap_mem h' = heap_mem h \<and>
     (\<exists>bs' m. heap_inv h' bs' \<and> n \<le> m \<and> (\<forall>k. (p, k) \<notin> live bs) \<and> live bs' = insert (p, m) (live bs))"

lemma live_unique:
  assumes "heap_inv h (xs @ c # ys)" "b_free c"
  shows "(b_addr c + BLOCK_HEADER_SIZE, k) \<notin> live (xs @ c # ys)"
  using assms heap_inv_distinct[OF assms(1)] by (auto simp: live_def image_iff)

lemma hand_out:
  assumes inv: "heap_inv h bs" and f: "find (fits n) bs = Some b" and "16 dvd n"
  shows "alloc_post n h bs (fst (heap_take (b_addr b) n h)) (snd (heap_take (b_addr b) n h))"
proof -
  obtain xs ys where bs: "bs = xs @ b # ys" and b: "fits n b" using find_split[OF f] by blast
  note take = heap_take_inv[OF inv[unfolded bs] b assms(3)]
  have "n \<le> b_size (hd (split_blk b n))" using b by (simp add: split_blk_def)
  moreover have "live (xs @ split_blk b n @ ys) =
      insert (b_addr b + BLOCK_HEADER_SIZE, b_size (hd (split_blk b n))) (live bs)"
    unfolding bs using live_split b by blast
  moreover have "\<forall>k. (b_addr b + BLOCK_HEADER_SIZE, k) \<notin> live bs"
    using live_unique[OF inv[unfolded bs]] b bs by blast
  ultimately show ?thesis using take(1) unfolding alloc_post_def take(2) by (simp only: heap_take_frame) blast
qed

lemma alloc_post_le: "alloc_post k h bs p h' \<Longrightarrow> n \<le> k \<Longrightarrow> alloc_post n h bs p h'"
  unfolding alloc_post_def by (meson order_trans)

lemma alloc_post_cong:
  "alloc_post n h1 bs1 p h' \<Longrightarrow> heap_mem h1 = heap_mem h \<Longrightarrow> live bs1 = live bs \<Longrightarrow> alloc_post n h bs p h'"
  by (simp add: alloc_post_def)

lemma heap_grow_mem: "heap_grow n h = (r, h') \<Longrightarrow> heap_mem h' = heap_mem h"
  by (auto simp: heap_grow_def append_region_frame Let_def split: prod.splits if_splits option.splits)

lemma kmalloc_grow:
  assumes inv: "heap_inv h bs" and none: "find (fits (kmalloc_align n)) bs = None"
    and n: "0 < n" "n + 2 ^ 13 \<le> 2 ^ 64"
  shows "case heap_grow (kmalloc_align n) h of
      (None, h1) \<Rightarrow> kmalloc n h = Some (None, h1) \<and> heap_inv h1 bs \<and> heap_mem h1 = heap_mem h
    | (Some _, h1) \<Rightarrow> (\<exists>p h'. kmalloc n h = Some (Some p, h') \<and> alloc_post n h bs p h')"
proof -
  let ?n = "kmalloc_align n"
  have al: "n \<le> ?n" "16 dvd ?n" "?n \<le> n + 15" using kmalloc_align_facts[of n] n(2) by auto
  have search: "heap_search (hdr h) ?n (heap_start h) = Some NoFit"
    using heap_search_rep[of h bs ?n] inv none by (simp add: heap_inv_def)
  obtain r h1 where g: "heap_grow ?n h = (r, h1)" by fastforce
  show ?thesis
  proof (cases r)
    case None
    then show ?thesis
      using g search n(1) heap_grow_inv(1)[OF inv g] heap_grow_mem[OF g] by (simp add: kmalloc_def)
  next
    case (Some x)
    have "?n + BLOCK_HEADER_SIZE + PMM_PAGE_SIZE - 1 < 2 ^ 64" using al(3) n(2) by simp
    then obtain bs1 where bs1: "heap_inv h1 bs1" "live bs1 = live bs" "\<exists>b \<in> set bs1. fits ?n b"
      using heap_grow_inv(2)[OF inv g] Some by auto
    then obtain b where b: "find (fits ?n) bs1 = Some b"
      using find_None_iff[of "fits ?n" bs1] by (cases "find (fits ?n) bs1") auto
    have "heap_search (hdr h1) ?n (heap_start h1) = Some (Found (b_addr b))"
      using heap_search_rep[of h1 bs1 ?n] bs1(1) b by (simp add: heap_inv_def)
    then have "kmalloc n h = Some (Some (fst (heap_take (b_addr b) ?n h1)), snd (heap_take (b_addr b) ?n h1))"
      using g Some search n(1) by (simp add: kmalloc_def Let_def split_beta)
    moreover have "alloc_post ?n h bs (fst (heap_take (b_addr b) ?n h1)) (snd (heap_take (b_addr b) ?n h1))"
      using alloc_post_cong[OF hand_out[OF bs1(1) b al(2)] heap_grow_mem[OF g] bs1(2)] .
    then have "alloc_post n h bs (fst (heap_take (b_addr b) ?n h1)) (snd (heap_take (b_addr b) ?n h1))"
      using al(1) by (rule alloc_post_le)
    ultimately show ?thesis using g Some by auto
  qed
qed

lemma kmalloc_found:
  assumes inv: "heap_inv h bs" and some: "find (fits (kmalloc_align n)) bs = Some b"
    and n: "0 < n" "n + 2 ^ 13 \<le> 2 ^ 64"
  shows "\<exists>p h'. kmalloc n h = Some (Some p, h') \<and> alloc_post n h bs p h'"
proof -
  let ?n = "kmalloc_align n"
  have al: "n \<le> ?n" "16 dvd ?n" using kmalloc_align_facts[of n] n(2) by auto
  have "heap_search (hdr h) ?n (heap_start h) = Some (Found (b_addr b))"
    using heap_search_rep[of h bs ?n] inv some by (simp add: heap_inv_def)
  then have "kmalloc n h = Some (Some (fst (heap_take (b_addr b) ?n h)), snd (heap_take (b_addr b) ?n h))"
    using n(1) by (simp add: kmalloc_def Let_def split_beta)
  moreover have "alloc_post n h bs (fst (heap_take (b_addr b) ?n h)) (snd (heap_take (b_addr b) ?n h))"
    using hand_out[OF inv some al(2)] al(1) by (rule alloc_post_le)
  ultimately show ?thesis by blast
qed

text \<open>\<open>kmalloc\<close> always returns; a NULL result means no block fits and no region can be had.\<close>

lemma kmalloc_spec:
  assumes inv: "heap_inv h bs" and n: "0 < n" "n + 2 ^ 13 \<le> 2 ^ 64"
  shows "\<exists>r h'. kmalloc n h = Some (r, h') \<and>
    (case r of
       Some p \<Rightarrow> alloc_post n h bs p h'
     | None \<Rightarrow> heap_inv h' bs \<and> heap_mem h' = heap_mem h \<and> (\<forall>b \<in> set bs. \<not> fits (kmalloc_align n) b) \<and>
         fst (heap_grow (kmalloc_align n) h) = None)"
proof (cases "find (fits (kmalloc_align n)) bs")
  case None
  then show ?thesis
    using kmalloc_grow[OF inv None n] by (auto simp: find_None_iff split: prod.splits option.splits)
next
  case (Some b)
  then show ?thesis using kmalloc_found[OF inv Some n] by fastforce
qed

section \<open>The heap over time\<close>

text \<open>
  Runs of the heap from boot with the allocations its callers hold. Between heap operations callers
  write their payloads and other parts of the kernel take pages from the page allocator.
\<close>

definition heap_boot :: "(nat \<Rightarrow> heap_block) \<Rightarrow> (nat \<Rightarrow> u8) \<Rightarrow> pmm \<Rightarrow> heap" where
  "heap_boot m mem p = \<lparr>hdr = m, heap_start = None, heap_tail = None, heap_used_bytes = 0,
     heap_free_bytes = 0, heap_total_bytes = 0, heap_grow_count = 0, heap_pmm = p, heap_mem = mem\<rparr>"

inductive heap_reach :: "heap \<Rightarrow> (nat \<times> nat) set \<Rightarrow> bool" where
  boot: "pmm_wf p \<Longrightarrow> heap_reach (heap_init (heap_boot m mem p)) {}"
| alloc: "heap_reach h L \<Longrightarrow> 0 < n \<Longrightarrow> n + 2 ^ 13 \<le> 2 ^ 64 \<Longrightarrow> kmalloc n h = Some (Some p, h') \<Longrightarrow>
    heap_reach h' (insert (p, hb_size (hdr h' (p - BLOCK_HEADER_SIZE))) L)"
| alloc_null: "heap_reach h L \<Longrightarrow> 0 < n \<Longrightarrow> n + 2 ^ 13 \<le> 2 ^ 64 \<Longrightarrow> kmalloc n h = Some (None, h') \<Longrightarrow>
    heap_reach h' L"
| free: "heap_reach h L \<Longrightarrow> (p, m) \<in> L \<Longrightarrow> heap_reach (kfree (Some p) h) (L - {(p, m)})"
| payload: "heap_reach h L \<Longrightarrow> heap_reach (h\<lparr>heap_mem := f\<rparr>) L"
| pages: "heap_reach h L \<Longrightarrow> heap_reach (h\<lparr>heap_pmm := snd (pmm_alloc_pages k (heap_pmm h))\<rparr>) L"

lemma heap_init_inv:
  assumes "pmm_wf p"
  shows "\<exists>bs. heap_inv (heap_init (heap_boot m mem p)) bs \<and> live bs = {}"
proof -
  let ?h = "heap_boot m mem p" and ?a = "pmm_alloc_pages HEAP_INITIAL_PAGES p"
  show ?thesis
  proof (cases "fst ?a = 0")
    case True
    then have "heap_init ?h = heap_boot m mem (snd ?a)"
      by (simp add: heap_init_def heap_boot_def Let_def split_beta)
    then have "heap_inv (heap_init ?h) []"
      using pmm_alloc_pages_wf[OF assms] by (simp add: heap_inv_def heap_rep_def heap_ok_def heap_boot_def)
    then show ?thesis by (intro exI[of _ "[]"]) simp
  next
    case False
    let ?b = "Blk (fst ?a) (HEAP_INITIAL_PAGES * PMM_PAGE_SIZE - BLOCK_HEADER_SIZE) True"
    have "heap_ok p []" using assms by (simp add: heap_ok_def)
    then have "heap_ok (snd ?a) ([] @ [?b])"
      by (rule region_blk) (use assms False pmm_alloc_pages_wf pmm_alloc_pages_mono pmm_region_ok in auto)
    moreover have "heap_pmm (heap_init ?h) = snd ?a" "heap_used_bytes (heap_init ?h) = 0"
      "heap_total_bytes (heap_init ?h) = HEAP_INITIAL_PAGES * PMM_PAGE_SIZE"
      using False by (simp_all add: heap_init_def heap_boot_def Let_def split_beta upd_hdr_def)
    moreover have "heap_rep (heap_init ?h) [?b]"
      using False by (simp add: heap_init_def heap_boot_def heap_rep_def hdr_of_def Let_def split_beta)
    ultimately have "heap_inv (heap_init ?h) [?b]" by (simp add: heap_inv_def coalesced_def)
    then show ?thesis by (intro exI[of _ "[?b]"]) simp
  qed
qed

lemma live_blk:
  assumes "(p, m) \<in> live bs"
  shows "\<exists>xs c ys. bs = xs @ c # ys \<and> \<not> b_free c \<and> p = b_addr c + BLOCK_HEADER_SIZE \<and> m = b_size c"
  using assms by (auto simp: live_def) (metis split_list)

lemma live_hdr:
  assumes "heap_inv h bs" "(p, m) \<in> live bs"
  shows "hb_size (hdr h (p - BLOCK_HEADER_SIZE)) = m" "hb_magic (hdr h (p - BLOCK_HEADER_SIZE)) = HEAP_MAGIC"
proof -
  obtain xs c ys where c: "bs = xs @ c # ys" "p = b_addr c + BLOCK_HEADER_SIZE" "m = b_size c"
    using live_blk[OF assms(2)] by blast
  have "hdr_of (hdr h) c" using heap_repD(3)[of h xs c ys] assms(1) c(1) by (simp add: heap_inv_def)
  then show "hb_size (hdr h (p - BLOCK_HEADER_SIZE)) = m" "hb_magic (hdr h (p - BLOCK_HEADER_SIZE)) = HEAP_MAGIC"
    using c by (simp_all add: hdr_of_def)
qed

lemma live_key: "heap_inv h bs \<Longrightarrow> (p, m) \<in> live bs \<Longrightarrow> (p, m') \<in> live bs \<Longrightarrow> m = m'"
  using live_hdr(1) by metis

lemma kfree_live:
  assumes "heap_inv h bs" "(p, m) \<in> live bs"
  shows "\<exists>bs'. heap_inv (kfree (Some p) h) bs' \<and> live bs' = live bs - {(p, m)}"
proof -
  obtain xs c ys where c: "bs = xs @ c # ys" "\<not> b_free c" "p = b_addr c + BLOCK_HEADER_SIZE" "m = b_size c"
    using live_blk[OF assms(2)] by blast
  have "(p, m) \<notin> live (xs @ ys)"
    using heap_inv_distinct[OF assms(1)] c by (auto simp: live_def image_iff)
  then show ?thesis
    using kfree_inv[of h xs c ys] assms(1) c by (intro exI[of _ "free_blk xs c ys"]) auto
qed

lemma heap_reach_inv: "heap_reach h L \<Longrightarrow> \<exists>bs. heap_inv h bs \<and> live bs = L"
proof (induction rule: heap_reach.induct)
  case (boot p m mem)
  then show ?case by (rule heap_init_inv)
next
  case (alloc h L n p h')
  then obtain bs where bs: "heap_inv h bs" "live bs = L" by blast
  then obtain bs' k where "heap_inv h' bs'" "live bs' = insert (p, k) L"
    using kmalloc_spec[OF bs(1) alloc.hyps(2,3)] alloc.hyps(4) by (auto simp: alloc_post_def)
  then show ?case using live_hdr(1)[of h' bs' p k] by auto
next
  case (alloc_null h L n h')
  then obtain bs where bs: "heap_inv h bs" "live bs = L" by blast
  then show ?case using kmalloc_spec[OF bs(1) alloc_null.hyps(2,3)] alloc_null.hyps(4) by auto
next
  case (free h L p m)
  then show ?case using kfree_live by blast
next
  case (payload h L f)
  then show ?case by (auto simp: heap_inv_def heap_rep_def)
next
  case (pages h L k)
  then obtain bs where bs: "heap_inv h bs" "live bs = L" by blast
  have "heap_ok (snd (pmm_alloc_pages k (heap_pmm h))) bs"
    using bs(1) pmm_alloc_pages_wf pmm_alloc_pages_mono blk_ok_mono
    unfolding heap_inv_def heap_ok_def by meson
  then show ?case using bs by (intro exI[of _ bs]) (simp add: heap_inv_def heap_rep_def)
qed

text \<open>The heap is well formed and its callers hold exactly \<open>L\<close>.\<close>

definition heap_holds :: "heap \<Rightarrow> (nat \<times> nat) set \<Rightarrow> bool" where
  "heap_holds h L \<longleftrightarrow> (\<exists>bs. heap_inv h bs \<and> live bs = L)"

abbreviation payload_of :: "nat \<times> nat \<Rightarrow> nat set" where
  "payload_of r \<equiv> {fst r..<fst r + snd r}"

lemma live_apart:
  assumes "heap_inv h bs" "r \<in> live bs" "r' \<in> live bs" "r \<noteq> r'"
  shows "payload_of r \<inter> payload_of r' = {}"
proof -
  obtain b where b: "b \<in> set bs" "r = (b_addr b + BLOCK_HEADER_SIZE, b_size b)"
    using assms(2) by (auto simp: live_def)
  obtain c where c: "c \<in> set bs" "r' = (b_addr c + BLOCK_HEADER_SIZE, b_size c)"
    using assms(3) by (auto simp: live_def)
  have "b \<noteq> c" using assms(4) b c by auto
  have ok: "heap_ok (heap_pmm h) bs" using assms(1) by (simp add: heap_inv_def)
  obtain xs ys where bs: "bs = xs @ b # ys" using split_list[OF b(1)] by blast
  have "c \<in> set (xs @ ys)" using c(1) \<open>b \<noteq> c\<close> bs by auto
  then have "span b \<inter> span c = {}" using heap_ok_other[OF ok[unfolded bs]] by blast
  moreover have "payload_of r \<subseteq> span b" "payload_of r' \<subseteq> span c"
    by (auto simp: b c span_def b_end_def)
  ultimately show ?thesis by blast
qed

lemma live_place:
  assumes "heap_inv h bs" "r \<in> live bs"
  shows "16 dvd fst r" "x \<in> payload_of r \<Longrightarrow> page_used (heap_pmm h) (x div PMM_PAGE_SIZE)"
proof -
  obtain b where b: "b \<in> set bs" "r = (b_addr b + BLOCK_HEADER_SIZE, b_size b)"
    using assms(2) by (auto simp: live_def)
  then have ok: "blk_ok (heap_pmm h) b" using assms(1) heap_okD(2) by (auto simp: heap_inv_def)
  then show "16 dvd fst r" by (simp add: b blk_ok_def)
  show "page_used (heap_pmm h) (x div PMM_PAGE_SIZE)" if "x \<in> payload_of r"
    using ok that by (auto simp: b blk_ok_def span_def b_end_def)
qed

lemma live_sum:
  assumes "distinct (addrs bs)"
  shows "live_bytes bs = (\<Sum>r \<in> live bs. snd r)"
  using assms
proof (induction bs)
  case Nil
  then show ?case by simp
next
  case (Cons b bs)
  have "finite (live bs)"
    by (rule finite_subset[of _ "(\<lambda>b. (b_addr b + BLOCK_HEADER_SIZE, b_size b)) ` set bs"]) (auto simp: live_def)
  moreover have "(b_addr b + BLOCK_HEADER_SIZE, b_size b) \<notin> live bs"
    using Cons.prems by (auto simp: live_def image_iff)
  ultimately show ?case using Cons by simp
qed

lemma holds_apart:
  "heap_holds h L \<Longrightarrow> r \<in> L \<Longrightarrow> r' \<in> L \<Longrightarrow> r \<noteq> r' \<Longrightarrow> payload_of r \<inter> payload_of r' = {}"
  unfolding heap_holds_def using live_apart by blast

lemma kmalloc_holds:
  assumes "heap_holds h L" "0 < n" "n + 2 ^ 13 \<le> 2 ^ 64"
  shows "\<exists>r h'. kmalloc n h = Some (r, h') \<and> heap_mem h' = heap_mem h \<and>
    (case r of
       Some p \<Rightarrow> (\<forall>k. (p, k) \<notin> L) \<and> (\<exists>m \<ge> n. heap_holds h' (insert (p, m) L))
     | None \<Rightarrow> heap_holds h' L \<and> fst (heap_grow (kmalloc_align n) h) = None)"
proof -
  obtain bs where bs: "heap_inv h bs" "live bs = L" using assms(1) by (auto simp: heap_holds_def)
  obtain r h' where r: "kmalloc n h = Some (r, h')"
    "case r of Some p \<Rightarrow> alloc_post n h bs p h'
     | None \<Rightarrow> heap_inv h' bs \<and> heap_mem h' = heap_mem h \<and> (\<forall>b \<in> set bs. \<not> fits (kmalloc_align n) b) \<and>
         fst (heap_grow (kmalloc_align n) h) = None"
    using kmalloc_spec[OF bs(1) assms(2,3)] by blast
  then show ?thesis using bs(2) by (cases r) (auto simp: alloc_post_def heap_holds_def)
qed

text \<open>A block given back right away merges into the block it was cut from.\<close>

lemma free_split:
  assumes "coalesced (xs @ c # ys)" "b_free c" "n \<le> b_size c"
  shows "free_blk xs (hd (split_blk c n)) (tl (split_blk c n) @ ys) = xs @ c # ys"
proof -
  have c: "Blk (b_addr c) (b_size c) True = c" using assms(2) by (cases c) simp
  have prev: "coalesce_prev xs (c # ys) = xs @ c # ys"
    using assms(1,2) by (auto simp: coalesce_prev_def coalesced_append)
  show ?thesis
  proof (cases "n + BLOCK_HEADER_SIZE + 16 \<le> b_size c")
    case True
    then have "coalesce_next (Blk (b_addr c) n True)
        (Blk (b_addr c + BLOCK_HEADER_SIZE + n) (b_size c - n - BLOCK_HEADER_SIZE) True # ys) = c # ys"
      using c by (simp add: coalesce_next_def b_end_def merge_blk_def)
    then show ?thesis using True prev by (simp add: free_blk_def split_blk_def)
  next
    case False
    then have "coalesce_next c ys = c # ys"
      using assms(1,2) by (cases ys) (auto simp: coalesce_next_def coalesced_append coalesced_Cons)
    then show ?thesis using False prev c by (simp add: free_blk_def split_blk_def)
  qed
qed

lemma kmalloc_kfree:
  assumes inv: "heap_inv h bs" and some: "find (fits (kmalloc_align n)) bs = Some b"
    and n: "0 < n" "n + 15 < 2 ^ 64" and k: "kmalloc n h = Some (Some p, h')"
  shows "heap_inv (kfree (Some p) h') bs"
proof -
  let ?n = "kmalloc_align n"
  have dvd: "16 dvd ?n" using kmalloc_align_facts(2)[OF n(2)] .
  have "heap_search (hdr h) ?n (heap_start h) = Some (Found (b_addr b))"
    using heap_search_rep[of h bs ?n] inv some by (simp add: heap_inv_def)
  then have p: "p = fst (heap_take (b_addr b) ?n h)" "h' = snd (heap_take (b_addr b) ?n h)"
    using k n(1) by (simp_all add: kmalloc_def Let_def split_beta)
  obtain xs ys where bs: "bs = xs @ b # ys" and b: "fits ?n b" using find_split[OF some] by blast
  note take = heap_take_inv[OF inv[unfolded bs] b dvd]
  let ?c = "hd (split_blk b ?n)" and ?ds = "tl (split_blk b ?n)"
  have c: "split_blk b ?n = ?c # ?ds" "\<not> b_free ?c" "b_addr ?c = b_addr b"
    by (simp_all add: split_blk_def)
  have "xs @ split_blk b ?n @ ys = xs @ ?c # ?ds @ ys" using c(1) by (metis append_Cons)
  then have "heap_inv h' (xs @ ?c # ?ds @ ys)" using take(1) p(2) by metis
  from kfree_inv(1)[OF this c(2)] have "heap_inv (kfree (Some p) h') (free_blk xs ?c (?ds @ ys))"
    using take(2) p(1) c(3) by simp
  then show ?thesis using free_split[of xs b ys ?n] inv b by (simp add: bs heap_inv_def)
qed

text \<open>When nothing fits, \<open>kmalloc\<close> is \<open>heap_grow\<close> followed by an allocation from a block that fits.\<close>

lemma kmalloc_after_grow:
  assumes inv: "heap_inv h bs" and none: "find (fits (kmalloc_align n)) bs = None"
    and n: "0 < n" "n + 2 ^ 13 \<le> 2 ^ 64" and k: "kmalloc n h = Some (Some p, h')"
  shows "\<exists>bs1 b. heap_inv (snd (heap_grow (kmalloc_align n) h)) bs1 \<and>
    find (fits (kmalloc_align n)) bs1 = Some b \<and> kmalloc n (snd (heap_grow (kmalloc_align n) h)) = Some (Some p, h')"
proof -
  let ?n = "kmalloc_align n"
  have al: "?n \<le> n + 15" using kmalloc_align_facts[of n] n(2) by auto
  have search: "heap_search (hdr h) ?n (heap_start h) = Some NoFit"
    using heap_search_rep[of h bs ?n] inv none by (simp add: heap_inv_def)
  obtain r h1 where g: "heap_grow ?n h = (r, h1)" by fastforce
  have r: "r \<noteq> None" using k g search n(1) by (cases r) (auto simp: kmalloc_def Let_def)
  have "?n + BLOCK_HEADER_SIZE + PMM_PAGE_SIZE - 1 < 2 ^ 64" using al n(2) by simp
  then obtain bs1 where bs1: "heap_inv h1 bs1" "\<exists>b \<in> set bs1. fits ?n b"
    using heap_grow_inv(2)[OF inv g r] by auto
  then obtain b where b: "find (fits ?n) bs1 = Some b"
    using find_None_iff[of "fits ?n" bs1] by (cases "find (fits ?n) bs1") auto
  have "heap_search (hdr h1) ?n (heap_start h1) = Some (Found (b_addr b))"
    using heap_search_rep[of h1 bs1 ?n] bs1(1) b by (simp add: heap_inv_def)
  then have "kmalloc n h1 = kmalloc n h" using g r search n(1) by (auto simp: kmalloc_def Let_def split_beta)
  then show ?thesis using bs1(1) b k g by auto
qed

lemma krealloc_holds:
  assumes h: "heap_holds h L" and p: "(p, m) \<in> L" and n: "0 < n" "n + 2 ^ 13 \<le> 2 ^ 64"
  shows "\<exists>r h'. krealloc (Some p) n h = Some (r, h') \<and>
    (case r of
       None \<Rightarrow> heap_holds h' L \<and> heap_mem h' = heap_mem h \<and> m < n \<and> fst (heap_grow (kmalloc_align n) h) = None
     | Some q \<Rightarrow> (\<exists>k \<ge> n. heap_holds h' (insert (q, k) (L - {(p, m)}))) \<and>
         (\<forall>i < m. heap_mem h' (q + i) = heap_mem h (p + i)))"
proof -
  obtain bs where bs: "heap_inv h bs" "live bs = L" using h by (auto simp: heap_holds_def)
  obtain xs c ys where c: "bs = xs @ c # ys" "p = b_addr c + BLOCK_HEADER_SIZE"
    using live_blk[of p m bs] p bs(2) by blast
  have "b_end c \<le> 2 ^ 32" using heap_okD(3)[of "heap_pmm h" bs c] bs(1) c(1) by (simp add: heap_inv_def)
  then have w: "sub64 p BLOCK_HEADER_SIZE = p - BLOCK_HEADER_SIZE"
    unfolding c(2) by (intro sub64_small) (simp_all add: b_end_def)
  note hd = live_hdr[OF bs(1), unfolded bs(2), OF p]
  show ?thesis
  proof (cases "n \<le> m")
    case True
    then have "krealloc (Some p) n h = Some (Some p, h)" using n(1) hd by (simp add: krealloc_def w Let_def)
    moreover have "insert (p, m) (L - {(p, m)}) = L" using p by blast
    ultimately show ?thesis using True h by auto
  next
    case False
    obtain r h1 where r: "kmalloc n h = Some (r, h1)" "heap_mem h1 = heap_mem h"
      "case r of Some q \<Rightarrow> (\<forall>k. (q, k) \<notin> L) \<and> (\<exists>k \<ge> n. heap_holds h1 (insert (q, k) L))
       | None \<Rightarrow> heap_holds h1 L \<and> fst (heap_grow (kmalloc_align n) h) = None"
      using kmalloc_holds[OF h n] by blast
    show ?thesis
    proof (cases r)
      case None
      then have "krealloc (Some p) n h = Some (None, h1)"
        using False n(1) hd r(1) by (simp add: krealloc_def w Let_def)
      then show ?thesis using r None False by simp
    next
      case (Some q)
      then obtain k where k: "n \<le> k" "heap_holds h1 (insert (q, k) L)" "\<forall>k. (q, k) \<notin> L" using r(3) by auto
      define h2 where "h2 = h1\<lparr>heap_mem := (\<lambda>a. if q \<le> a \<and> a < q + m
        then heap_mem h1 (p + (a - q)) else heap_mem h1 a)\<rparr>"
      have eq: "krealloc (Some p) n h = Some (Some q, kfree (Some p) h2)"
        using False n(1) hd r(1) Some by (simp add: krealloc_def w Let_def h2_def)
      have "heap_holds h2 (insert (q, k) L)"
        using k(2) by (auto simp: heap_holds_def heap_inv_def heap_rep_def h2_def)
      then obtain bs2 where bs2: "heap_inv h2 bs2" "live bs2 = insert (q, k) L" by (auto simp: heap_holds_def)
      obtain bs3 where "heap_inv (kfree (Some p) h2) bs3" "live bs3 = insert (q, k) L - {(p, m)}"
        using kfree_live[OF bs2(1), of p m] bs2(2) p by auto
      moreover have "insert (q, k) L - {(p, m)} = insert (q, k) (L - {(p, m)})" using k(3) p by auto
      ultimately have "heap_holds (kfree (Some p) h2) (insert (q, k) (L - {(p, m)}))"
        by (auto simp: heap_holds_def)
      moreover have "heap_mem (kfree (Some p) h2) (q + i) = heap_mem h (p + i)" if "i < m" for i
        using that r(2) by (simp add: h2_def)
      ultimately show ?thesis using eq k(1) by auto
    qed
  qed
qed

section \<open>A booted heap\<close>

lemma links_unique:
  assumes "links nx pv p xs None" "links nx pv' p' ys None" "hd_or xs None = hd_or ys None"
  shows "xs = ys"
  using assms
proof (induction xs arbitrary: p p' ys)
  case Nil
  then show ?case by (cases ys) auto
next
  case (Cons x xs)
  then obtain zs where ys: "ys = x # zs" by (cases ys) auto
  then have "hd_or xs None = hd_or zs None" using Cons.prems by auto
  then show ?case using Cons.IH[of "Some x" "Some x" zs] Cons.prems ys by auto
qed

lemma heap_rep_unique:
  assumes "heap_rep h bs" "heap_rep h cs"
  shows "bs = cs"
proof -
  have "addrs bs = addrs cs"
    using assms links_unique[of "\<lambda>a. hb_next (hdr h a)" "\<lambda>a. hb_prev (hdr h a)" None "addrs bs"
        "\<lambda>a. hb_prev (hdr h a)" None "addrs cs"] by (auto simp: heap_rep_def)
  moreover have "inj_on b_addr (set bs \<union> set cs)"
  proof (rule inj_onI)
    fix b c assume bc: "b \<in> set bs \<union> set cs" "c \<in> set bs \<union> set cs" "b_addr b = b_addr c"
    then have "hdr_of (hdr h) b" "hdr_of (hdr h) c" using assms by (auto simp: heap_rep_def)
    then show "b = c" using bc(3) by (intro blk.expand) (simp add: hdr_of_def)
  qed
  ultimately show ?thesis by (rule map_inj_on)
qed

definition heap0 :: heap where
  "heap0 = heap_init (heap_boot
     (\<lambda>_. \<lparr>hb_magic = 0, hb_is_free = False, hb_size = 0, hb_next = None, hb_prev = None\<rparr>)
     (\<lambda>_. 0) (pmm_init X86_64 []))"

lemma heap0_inv:
  "heap_inv heap0 [Blk (2048 * PMM_PAGE_SIZE) (HEAP_INITIAL_PAGES * PMM_PAGE_SIZE - BLOCK_HEADER_SIZE) True]"
proof -
  have at: "fst (pmm_alloc_pages HEAP_INITIAL_PAGES (pmm_init X86_64 [])) = 2048 * PMM_PAGE_SIZE"
    by (rule pmm_init_default_alloc) simp_all
  obtain bs where bs: "heap_inv heap0 bs" using heap_init_inv[OF pmm_init_facts(1)] unfolding heap0_def by blast
  have "heap_rep heap0 [Blk (2048 * PMM_PAGE_SIZE) (HEAP_INITIAL_PAGES * PMM_PAGE_SIZE - BLOCK_HEADER_SIZE) True]"
    unfolding heap0_def heap_init_def heap_boot_def
    using at by (simp add: heap_rep_def hdr_of_def Let_def split_beta)
  moreover have "heap_rep heap0 bs" using bs by (simp add: heap_inv_def)
  ultimately have "bs = [Blk (2048 * PMM_PAGE_SIZE) (HEAP_INITIAL_PAGES * PMM_PAGE_SIZE - BLOCK_HEADER_SIZE) True]"
    by (rule heap_rep_unique[symmetric])
  then show ?thesis using bs by simp
qed

lemma heap0_alloc:
  "\<exists>p m h. kmalloc 100 heap0 = Some (Some p, h) \<and> heap_reach h {(p, m)} \<and> heap_holds h {(p, m)} \<and> 100 \<le> m"
proof -
  let ?b = "Blk (2048 * PMM_PAGE_SIZE) (HEAP_INITIAL_PAGES * PMM_PAGE_SIZE - BLOCK_HEADER_SIZE) True"
  have "find (fits (kmalloc_align 100)) [?b] = Some ?b" by (simp add: kmalloc_align_def)
  from kmalloc_found[OF heap0_inv this] obtain p h where k: "kmalloc 100 heap0 = Some (Some p, h)"
    "alloc_post 100 heap0 [?b] p h" by auto
  obtain bs m where m: "heap_inv h bs" "100 \<le> m" "live bs = {(p, m)}"
    using k(2) by (auto simp: alloc_post_def)
  have "heap_reach heap0 {}" unfolding heap0_def by (rule heap_reach.boot[OF pmm_init_facts(1)])
  then have "heap_reach h (insert (p, hb_size (hdr h (p - BLOCK_HEADER_SIZE))) {})"
    by (rule heap_reach.alloc[OF _ _ _ k(1)]) simp_all
  then show ?thesis using live_hdr(1)[OF m(1), of p m] m k(1) by (auto simp: heap_holds_def)
qed

text \<open>After a first allocation the booted machine still has pages to grow the heap by.\<close>

lemma heap0_alloc_grow:
  "\<exists>p m h. heap_reach h {(p, m)} \<and> fst (heap_grow (kmalloc_align 5000) h) \<noteq> None"
proof -
  let ?b = "Blk (2048 * PMM_PAGE_SIZE) (HEAP_INITIAL_PAGES * PMM_PAGE_SIZE - BLOCK_HEADER_SIZE) True"
  let ?p = "snd (pmm_alloc_pages HEAP_INITIAL_PAGES (pmm_init X86_64 []))"
  obtain p m h where h: "kmalloc 100 heap0 = Some (Some p, h)" "heap_reach h {(p, m)}" using heap0_alloc by blast
  have "find (fits (kmalloc_align 100)) [?b] = Some ?b" by (simp add: kmalloc_align_def)
  then have "heap_search (hdr heap0) (kmalloc_align 100) (heap_start heap0) = Some (Found (b_addr ?b))"
    using heap_search_rep[of heap0 "[?b]" "kmalloc_align 100"] heap0_inv by (simp add: heap_inv_def)
  then have "heap_pmm h = heap_pmm heap0"
    using h(1) by (auto simp: kmalloc_def Let_def split_beta)
  then have pm: "heap_pmm h = ?p" by (simp add: heap0_def heap_init_def heap_boot_def split_beta Let_def)
  have "fst (pmm_alloc_pages HEAP_GROW_PAGES ?p) \<noteq> 0" by (rule pmm_init_default_alloc_twice) simp_all
  then show ?thesis
    using h(2) pm by (intro exI[of _ p] exI[of _ m] exI[of _ h])
      (simp add: heap_grow_def grow_region_def kmalloc_align_def wrap64_def split_beta Let_def split: option.split)
qed

lemma heap0_reach: "heap_reach heap0 {}"
  unfolding heap0_def by (rule heap_reach.boot[OF pmm_init_facts(1)])

lemma kmalloc_align_wrap:
  assumes "2 ^ 64 \<le> n + 15" "n < 2 ^ 64"
  shows "kmalloc_align n = 0"
proof -
  have "wrap64 (n + 15) = n + 15 - 2 ^ 64"
    using assms unfolding wrap64_def by (subst le_mod_geq) simp_all
  then show ?thesis using assms by (simp add: kmalloc_align_def)
qed

section \<open>Properties\<close>

text \<open>C1: In every state the kernel heap reaches from boot, through any sequence of allocations,
  releases of held blocks, payload writes and foreign page allocations: the payloads callers hold
  are pairwise disjoint, 16-byte aligned and inside pages the page allocator has handed out, and
  \<open>heap_used_bytes\<close> is the sum of their sizes.\<close>

theorem heap_run_safe:
  assumes "heap_reach h L"
  shows "heap_used_bytes h = (\<Sum>r \<in> L. snd r) \<and>
    (\<forall>r \<in> L. 16 dvd fst r \<and> (\<forall>x \<in> payload_of r. page_used (heap_pmm h) (x div PMM_PAGE_SIZE))) \<and>
    (\<forall>r \<in> L. \<forall>r' \<in> L. r \<noteq> r' \<longrightarrow> payload_of r \<inter> payload_of r' = {})"
proof -
  obtain bs where bs: "heap_inv h bs" "live bs = L" using heap_reach_inv[OF assms] by blast
  have "heap_used_bytes h = (\<Sum>r \<in> L. snd r)"
    using live_sum[OF heap_inv_distinct[OF bs(1)]] bs by (simp add: heap_inv_def)
  then show ?thesis using live_apart[OF bs(1)] live_place[OF bs(1)] bs(2) by blast
qed

theorem heap_run_safe_witness:
  "\<exists>h p m. heap_reach h {(p, m)} \<and> 100 \<le> m \<and> heap_used_bytes h = m \<and> 16 dvd p"
proof -
  obtain p m h where h: "heap_reach h {(p, m)}" "100 \<le> m" using heap0_alloc by blast
  show ?thesis using heap_run_safe[OF h(1)] h by (intro exI[of _ h] exI[of _ p] exI[of _ m]) simp
qed

text \<open>C2: For every request of at most 2^64 - 2^13 bytes \<open>kmalloc\<close> returns. A request of 0 bytes yields
  NULL and changes nothing. For a positive request a non-NULL result is a fresh block of at least the
  requested size, disjoint from every allocation held; NULL is returned only when the heap could not
  be grown, and changes no allocation. (Requests above the bound wrap in the size computations.)\<close>

theorem kmalloc_correct:
  assumes "heap_reach h L" "n + 2 ^ 13 \<le> 2 ^ 64"
  shows "\<exists>r h'. kmalloc n h = Some (r, h') \<and>
    (case r of
       Some p \<Rightarrow> 0 < n \<and> (\<exists>m \<ge> n. heap_holds h' (insert (p, m) L) \<and> (p, m) \<notin> L \<and>
         (\<forall>r \<in> L. payload_of (p, m) \<inter> payload_of r = {}))
     | None \<Rightarrow> heap_holds h' L \<and>
         (if n = 0 then h' = h else fst (heap_grow (kmalloc_align n) h) = None))"
proof (cases "n = 0")
  case True
  then show ?thesis using heap_reach_inv[OF assms(1)] by (simp add: kmalloc_def heap_holds_def)
next
  case False
  have "heap_holds h L" using heap_reach_inv[OF assms(1)] by (simp add: heap_holds_def)
  then obtain r h' where r: "kmalloc n h = Some (r, h')"
    "case r of Some p \<Rightarrow> (\<forall>k. (p, k) \<notin> L) \<and> (\<exists>m \<ge> n. heap_holds h' (insert (p, m) L))
     | None \<Rightarrow> heap_holds h' L \<and> fst (heap_grow (kmalloc_align n) h) = None"
    using kmalloc_holds[OF _ _ assms(2)] False by blast
  show ?thesis
  proof (cases r)
    case (Some p)
    then obtain m where m: "n \<le> m" "heap_holds h' (insert (p, m) L)" "(p, m) \<notin> L" using r(2) by auto
    then have "\<forall>r \<in> L. payload_of (p, m) \<inter> payload_of r = {}"
      using holds_apart[OF m(2), of "(p, m)"] by (metis insertI1 insertI2)
    then show ?thesis
      using Some False r(1) m by (intro exI[of _ r] exI[of _ h'] conjI) (simp_all only: option.case neq0_conv, blast)
  qed (use r False in auto)
qed

theorem kmalloc_correct_witness:
  "\<exists>p m h. kmalloc 100 heap0 = Some (Some p, h) \<and> heap_holds h {(p, m)} \<and> 100 \<le> m"
proof -
  have "(100::nat) + 2 ^ 13 \<le> 2 ^ 64" by simp
  from kmalloc_correct[OF heap0_reach this] obtain r h where r: "kmalloc 100 heap0 = Some (r, h)"
    "\<And>p. r = Some p \<Longrightarrow> \<exists>m \<ge> 100. heap_holds h {(p, m)}" by (auto split: option.splits)
  moreover have "r \<noteq> None" using heap0_alloc r(1) by auto
  ultimately show ?thesis by auto
qed

text \<open>C4: For a positive request of at most 2^64 - 2^13 bytes, \<open>kfree\<close> of what \<open>kmalloc\<close> just returned
  restores the block list: exactly the list before the call when some free block fitted the request,
  and otherwise, when \<open>kmalloc\<close> had to grow the heap, exactly the list \<open>heap_grow\<close> produced. The cut is
  merged back and nothing is left fragmented.\<close>

theorem kmalloc_kfree_roundtrip:
  assumes "heap_inv h bs" "0 < n" "n + 2 ^ 13 \<le> 2 ^ 64" "kmalloc n h = Some (Some p, h')"
  shows "if \<exists>b \<in> set bs. fits (kmalloc_align n) b then heap_inv (kfree (Some p) h') bs
    else \<exists>bs1. heap_inv (snd (heap_grow (kmalloc_align n) h)) bs1 \<and> heap_inv (kfree (Some p) h') bs1"
proof (cases "find (fits (kmalloc_align n)) bs")
  case (Some b)
  then have "\<exists>b \<in> set bs. fits (kmalloc_align n) b" by (metis find_split in_set_conv_decomp)
  moreover have "heap_inv (kfree (Some p) h') bs" using kmalloc_kfree[OF assms(1) Some assms(2) _ assms(4)] assms(3) by simp
  ultimately show ?thesis by simp
next
  case None
  obtain bs1 b where b: "heap_inv (snd (heap_grow (kmalloc_align n) h)) bs1" "find (fits (kmalloc_align n)) bs1 = Some b"
    "kmalloc n (snd (heap_grow (kmalloc_align n) h)) = Some (Some p, h')"
    using kmalloc_after_grow[OF assms(1) None assms(2-4)] by blast
  moreover have "heap_inv (kfree (Some p) h') bs1"
    using kmalloc_kfree[OF b(1,2) assms(2) _ b(3)] assms(3) by simp
  ultimately show ?thesis using None by (auto simp: find_None_iff)
qed

theorem kmalloc_kfree_roundtrip_witness:
  "\<exists>p h. kmalloc 100 heap0 = Some (Some p, h) \<and> heap_used_bytes (kfree (Some p) h) = 0"
proof -
  obtain p h where k: "kmalloc 100 heap0 = Some (Some p, h)" using heap0_alloc by blast
  let ?bs = "[Blk (2048 * PMM_PAGE_SIZE) (HEAP_INITIAL_PAGES * PMM_PAGE_SIZE - BLOCK_HEADER_SIZE) True]"
  have "0 < (100::nat)" "(100::nat) + 2 ^ 13 \<le> 2 ^ 64" "\<exists>b \<in> set ?bs. fits (kmalloc_align 100) b"
    by (simp_all add: kmalloc_align_def)
  then have "heap_inv (kfree (Some p) h) ?bs"
    using kmalloc_kfree_roundtrip[OF heap0_inv _ _ k] by (simp only: if_True)
  then show ?thesis using k by (auto simp: heap_inv_def)
qed

text \<open>C3: \<open>krealloc\<close> of a held block \<open>p\<close> of \<open>m\<close> bytes to \<open>n\<close> bytes, for every \<open>n\<close> of at most 2^64 - 2^13, returns.
  With \<open>n = 0\<close> it frees the block and returns NULL. With \<open>n > 0\<close> a non-NULL result is a block of at
  least \<open>n\<close> bytes that the caller holds in place of the old one, with the old \<open>m\<close> bytes at its start;
  NULL is returned only when the heap could not be grown for \<open>n > m\<close> bytes, and then the old block and all memory
  are untouched. A NULL pointer makes it \<open>kmalloc\<close>.\<close>

theorem krealloc_correct:
  assumes "heap_reach h L" "(p, m) \<in> L" "n + 2 ^ 13 \<le> 2 ^ 64"
  shows "krealloc None n h = kmalloc n h \<and> (\<exists>r h'. krealloc (Some p) n h = Some (r, h') \<and>
    (case r of
       None \<Rightarrow> if n = 0 then heap_holds h' (L - {(p, m)})
               else heap_holds h' L \<and> heap_mem h' = heap_mem h \<and> m < n \<and>
                 fst (heap_grow (kmalloc_align n) h) = None
     | Some q \<Rightarrow> 0 < n \<and> (\<exists>k \<ge> n. heap_holds h' (insert (q, k) (L - {(p, m)}))) \<and>
         (\<forall>i < m. heap_mem h' (q + i) = heap_mem h (p + i))))"
proof (cases "n = 0")
  case True
  obtain bs where bs: "heap_inv h bs" "live bs = L" using heap_reach_inv[OF assms(1)] by blast
  then have "heap_holds (kfree (Some p) h) (L - {(p, m)})"
    using kfree_live[OF bs(1), of p m] assms(2) by (auto simp: heap_holds_def)
  then show ?thesis using True by (simp add: krealloc_def)
next
  case False
  have h: "heap_holds h L" using heap_reach_inv[OF assms(1)] by (simp add: heap_holds_def)
  have "krealloc None n h = kmalloc n h" by (simp add: krealloc_def)
  then show ?thesis using krealloc_holds[OF h assms(2) _ assms(3)] False by (simp cong: option.case_cong)
qed

theorem krealloc_correct_witness:
  "\<exists>h p m q k h'. heap_reach h {(p, m)} \<and> krealloc (Some p) 5000 h = Some (Some q, h') \<and>
     heap_holds h' {(q, k)} \<and> 5000 \<le> k"
proof -
  obtain p m h where h: "heap_reach h {(p, m)}" "fst (heap_grow (kmalloc_align 5000) h) \<noteq> None"
    using heap0_alloc_grow by blast
  have "(5000::nat) + 2 ^ 13 \<le> 2 ^ 64" by simp
  from krealloc_correct[OF h(1) singletonI this] obtain r h' where r: "krealloc (Some p) 5000 h = Some (r, h')"
    "\<And>q. r = Some q \<Longrightarrow> \<exists>k \<ge> 5000. heap_holds h' {(q, k)}" "r \<noteq> None"
    using h(2) by (auto split: option.splits)
  then show ?thesis using h(1) by blast
qed

text \<open>C37: A request within 15 bytes of \<open>SIZE_MAX\<close> wraps in the alignment step: whenever the heap has
  a free block, \<open>kmalloc\<close> reports success with a block smaller than the request.\<close>

theorem kmalloc_huge_request_wraps:
  assumes "heap_inv h bs" "\<exists>b \<in> set bs. b_free b" "2 ^ 64 \<le> n + 15" "n < 2 ^ 64"
  shows "\<exists>p h'. kmalloc n h = Some (Some p, h') \<and> hb_size (hdr h' (p - BLOCK_HEADER_SIZE)) < n"
proof -
  have al: "kmalloc_align n = 0" using kmalloc_align_wrap[OF assms(3,4)] .
  obtain b where b: "find (fits 0) bs = Some b"
    using assms(2) by (cases "find (fits 0) bs") (auto simp: find_None_iff)
  have "heap_search (hdr h) 0 (heap_start h) = Some (Found (b_addr b))"
    using heap_search_rep[of h bs 0] assms(1) b by (simp add: heap_inv_def)
  then have k: "kmalloc n h = Some (Some (fst (heap_take (b_addr b) 0 h)), snd (heap_take (b_addr b) 0 h))"
    using assms(3) al by (auto simp: kmalloc_def Let_def split_beta)
  obtain bs' m where m: "heap_inv (snd (heap_take (b_addr b) 0 h)) bs'"
    "(fst (heap_take (b_addr b) 0 h), m) \<in> live bs'"
    using hand_out[OF assms(1) b] by (auto simp: alloc_post_def)
  obtain c where "c \<in> set bs'" "m = b_size c" using m(2) by (auto simp: live_def)
  then have "b_end c \<le> 2 ^ 32" "m = b_size c" using m(1) heap_okD(3) by (auto simp: heap_inv_def)
  then have "m < n" using assms(3) by (simp add: b_end_def)
  then show ?thesis using k live_hdr(1)[OF m] by auto
qed

theorem kmalloc_huge_request_wraps_witness:
  "\<exists>p h'. kmalloc (2 ^ 64 - 1) heap0 = Some (Some p, h') \<and> hb_size (hdr h' (p - BLOCK_HEADER_SIZE)) < 2 ^ 64 - 1"
  by (rule kmalloc_huge_request_wraps[OF heap0_inv]) simp_all

end
