(* ===== verification/ByteQueue.thy ===== *)
theory ByteQueue
  imports Prelude
begin

text \<open>
  The contract of a bounded byte queue, kept by the ring buffer of \<open>lib/kfifo.c\<close> and by the pipe of
  \<open>ipc/pipe.c\<close>: a write accepts the prefix that fits and appends it, a read removes a prefix. Inside
  the contract it is proved once that over any sequence of reads and writes no byte is lost,
  duplicated or reordered.
\<close>

section \<open>Block copies\<close>

text \<open>\<open>memcpy (buf + off, src, n)\<close> on lists.\<close>

definition memcpy_at :: "'b list \<Rightarrow> nat \<Rightarrow> 'b list \<Rightarrow> nat \<Rightarrow> 'b list" where
  "memcpy_at buf off src n = take off buf @ take n src @ drop (off + n) buf"

lemma length_memcpy_at [simp]:
  "off + n \<le> length buf \<Longrightarrow> n \<le> length src \<Longrightarrow> length (memcpy_at buf off src n) = length buf"
  by (simp add: memcpy_at_def)

lemma nth_memcpy_at:
  assumes "off + n \<le> length buf" "n \<le> length src" "j < length buf"
  shows "memcpy_at buf off src n ! j = (if off \<le> j \<and> j < off + n then src ! (j - off) else buf ! j)"
  using assms by (auto simp: memcpy_at_def nth_append min_def)

section \<open>Ring positions\<close>

lemma mod_shift:
  assumes "i < (n :: nat)"
  shows "(x + i) mod n = (if x mod n + i < n then x mod n + i else x mod n + i - n)"
proof -
  have "(x + i) mod n = (x mod n + i) mod n" by (simp add: mod_add_left_eq)
  moreover have "x mod n < n" using assms by simp
  then have "x mod n + i - n < n" using assms by linarith
  ultimately show ?thesis by (simp add: le_mod_geq)
qed

text \<open>
  Slots of a ring of \<open>n\<close> bytes with \<open>u\<close> of them in use from \<open>x\<close> on: the \<open>len\<close> slots that follow are
  disjoint from those in use.
\<close>

lemma ring_index:
  assumes "0 < (n :: nat)" "i < u + len" "u + len \<le> n"
  shows "i < u \<Longrightarrow> \<not> ((x + u) mod n \<le> (x + i) mod n \<and> (x + i) mod n < (x + u) mod n + len) \<and>
      \<not> (x + i) mod n + n < (x + u) mod n + len" (is "_ \<Longrightarrow> ?A")
    "u \<le> i \<Longrightarrow>
      (x + u) mod n \<le> (x + i) mod n \<and> (x + i) mod n < (x + u) mod n + len \<and>
        (x + i) mod n - (x + u) mod n = i - u \<or>
      \<not> (x + u) mod n \<le> (x + i) mod n \<and> (x + i) mod n + n < (x + u) mod n + len \<and>
        (x + i) mod n + n - (x + u) mod n = i - u" (is "_ \<Longrightarrow> ?B")
proof -
  have lt: "x mod n < n" using assms(1) by simp
  have i: "(x + i) mod n = (if x mod n + i < n then x mod n + i else x mod n + i - n)"
    using assms(2,3) by (intro mod_shift) simp
  consider "u = n" "len = 0" | "u < n" using assms(3) by linarith
  then show ?A if "i < u"
  proof cases
    case 2
    then show ?thesis using that lt i mod_shift[of u n x] assms(2,3) by (auto split: if_splits)
  qed (use lt in simp)
  show ?B if "u \<le> i"
  proof -
    have "u < n" using that assms(2,3) by simp
    then show ?thesis using that lt i mod_shift[of u n x] assms(2,3) by (auto split: if_splits)
  qed
qed

lemma ring_distinct:
  assumes "(x + i) mod n = (x + j) mod n" "i < n" "j < (n :: nat)"
  shows "i = j"
proof -
  have "x mod n < n" using assms(2) by simp
  then show ?thesis
    using assms mod_shift[OF assms(2), of x] mod_shift[OF assms(3), of x] by (auto split: if_splits)
qed

section \<open>The queue contract\<close>

datatype 'b qop = Put "'b list" | Get nat

locale byte_queue =
  fixes contents :: "'q \<Rightarrow> 'b list" and capacity :: "'q \<Rightarrow> nat" and wf :: "'q \<Rightarrow> bool"
    and put :: "'b list \<Rightarrow> 'q \<Rightarrow> nat \<times> 'q" and get :: "nat \<Rightarrow> 'q \<Rightarrow> 'b list \<times> 'q"
  assumes put_wf: "wf q \<Longrightarrow> wf (snd (put xs q))"
    and put_count: "wf q \<Longrightarrow> fst (put xs q) = min (length xs) (capacity q - length (contents q))"
    and put_contents: "wf q \<Longrightarrow> contents (snd (put xs q)) = contents q @ take (fst (put xs q)) xs"
    and put_capacity: "wf q \<Longrightarrow> capacity (snd (put xs q)) = capacity q"
    and get_wf: "wf q \<Longrightarrow> wf (snd (get n q))"
    and get_bytes: "wf q \<Longrightarrow> fst (get n q) = take n (contents q)"
    and get_contents: "wf q \<Longrightarrow> contents (snd (get n q)) = drop n (contents q)"
    and get_capacity: "wf q \<Longrightarrow> capacity (snd (get n q)) = capacity q"
    and bounded: "wf q \<Longrightarrow> length (contents q) \<le> capacity q"
begin

text \<open>A run collects the bytes accepted and the bytes delivered.\<close>

primrec run :: "'b qop list \<Rightarrow> 'q \<Rightarrow> 'b list \<times> 'b list \<times> 'q" where
  "run [] q = ([], [], q)"
| "run (c # cs) q =
     (case c of
        Put xs \<Rightarrow> (let (k, q') = put xs q; (acc, del, q'') = run cs q' in (take k xs @ acc, del, q''))
      | Get n \<Rightarrow> (let (ys, q') = get n q; (acc, del, q'') = run cs q' in (acc, ys @ del, q'')))"

lemma run_stream:
  assumes "wf q" "run cs q = (acc, del, q')"
  shows "wf q' \<and> capacity q' = capacity q \<and> contents q @ acc = del @ contents q'"
  using assms
proof (induction cs arbitrary: q acc del)
  case Nil
  then show ?case by simp
next
  case (Cons c cs)
  show ?case
  proof (cases c)
    case (Put xs)
    obtain acc1 where 1: "run cs (snd (put xs q)) = (acc1, del, q')" "acc = take (fst (put xs q)) xs @ acc1"
      using Cons.prems(2) Put by (auto simp: Let_def split: prod.splits)
    then show ?thesis
      using Cons.IH[OF put_wf[OF Cons.prems(1)] 1(1)] put_contents[OF Cons.prems(1)]
        put_capacity[OF Cons.prems(1)] by simp
  next
    case (Get n)
    obtain del1 where 1: "run cs (snd (get n q)) = (acc, del1, q')" "del = fst (get n q) @ del1"
      using Cons.prems(2) Get by (auto simp: Let_def split: prod.splits)
    have "contents q = fst (get n q) @ contents (snd (get n q))"
      using get_bytes[OF Cons.prems(1)] get_contents[OF Cons.prems(1)] by simp
    then show ?thesis
      using Cons.IH[OF get_wf[OF Cons.prems(1)] 1(1)] 1(2) get_capacity[OF Cons.prems(1)] by simp
  qed
qed

text \<open>What was written into an empty queue with room comes back unchanged.\<close>

lemma put_get:
  assumes "wf q" "contents q = []" "length xs \<le> capacity q"
  shows "fst (put xs q) = length xs \<and> fst (get (length xs) (snd (put xs q))) = xs \<and>
    contents (snd (get (length xs) (snd (put xs q)))) = []"
  using assms put_count[OF assms(1)] put_contents[OF assms(1)] get_bytes[OF put_wf[OF assms(1)]]
    get_contents[OF put_wf[OF assms(1)]] by simp

lemma put_fails_iff_full:
  assumes "wf q" "xs \<noteq> []"
  shows "fst (put xs q) = 0 \<longleftrightarrow> length (contents q) = capacity q"
proof -
  have "0 < length xs" using assms(2) by simp
  then show ?thesis using put_count[OF assms(1), of xs] bounded[OF assms(1)] by linarith
qed

end

end
