(* ===== verification/Kfifo.thy ===== *)
theory Kfifo
  imports ByteQueue "HOL-Library.Monad_Syntax"
begin

text \<open>
  \<open>lib/kfifo.c\<close>: the power-of-two byte ring with free-running indices. \<open>size_t\<close> values are naturals
  with the wrap-around written out, the buffer is the list of its bytes (\<open>None\<close> for a NULL
  pointer), and each locked operation is one step. The heap is an argument of \<open>kfifo_alloc\<close>: it
  gives a block of the requested size or NULL.
\<close>

section \<open>The ring\<close>

record kfifo =
  buffer :: "u8 list option"
  k_size :: nat
  k_mask :: nat
  k_in :: nat
  k_out :: nat
  owns_buffer :: bool

definition round_up_pow2 :: "nat \<Rightarrow> nat option" where
  "round_up_pow2 v = (if v < 2 then Some 2 else pow2_loop v 1)"

definition kfifo_alloc :: "(nat \<Rightarrow> u8 list option) \<Rightarrow> nat \<Rightarrow> kfifo \<Rightarrow> (int \<times> kfifo) option" where
  "kfifo_alloc heap n f =
     (if n = 0 then Some (- 1, f)
      else do { n \<leftarrow> round_up_pow2 n;
                let f = f\<lparr>buffer := heap n\<rparr>;
                Some (if buffer f = None then (- 1, f)
                      else (0, f\<lparr>k_size := n, k_mask := n - 1, k_in := 0, k_out := 0, owns_buffer := True\<rparr>)) })"

definition kfifo_init_static :: "u8 list option \<Rightarrow> nat \<Rightarrow> kfifo \<Rightarrow> int \<times> kfifo" where
  "kfifo_init_static buf n f =
     (if buf = None \<or> n = 0 then (- 1, f)
      else if n AND (n - 1) \<noteq> 0 then (- 1, f)
      else (0, f\<lparr>buffer := buf, k_size := n, k_mask := n - 1, k_in := 0, k_out := 0, owns_buffer := False\<rparr>))"

definition kfifo_free :: "kfifo \<Rightarrow> kfifo" where
  "kfifo_free f = f\<lparr>buffer := None, k_size := 0, k_mask := 0, k_in := 0, k_out := 0, owns_buffer := False\<rparr>"

definition kfifo_reset :: "kfifo \<Rightarrow> kfifo" where
  "kfifo_reset f = f\<lparr>k_in := 0, k_out := 0\<rparr>"

definition kfifo_len :: "kfifo \<Rightarrow> nat" where
  "kfifo_len f = (if buffer f = None then 0 else sub64 (k_in f) (k_out f))"

definition kfifo_avail :: "kfifo \<Rightarrow> nat" where
  "kfifo_avail f = (if buffer f = None then 0 else sub64 (k_size f) (sub64 (k_in f) (k_out f)))"

definition kfifo_is_empty :: "kfifo \<Rightarrow> bool" where
  "kfifo_is_empty f \<longleftrightarrow> kfifo_len f = 0"

definition kfifo_is_full :: "kfifo \<Rightarrow> bool" where
  "kfifo_is_full f \<longleftrightarrow> kfifo_avail f = 0"

definition copy_in :: "kfifo \<Rightarrow> u8 list \<Rightarrow> u8 list \<Rightarrow> nat \<Rightarrow> nat \<Rightarrow> u8 list" where
  "copy_in f buf src len off =
     (let start = off AND k_mask f;
          first = (if len < k_size f - start then len else k_size f - start);
          buf = memcpy_at buf start src first
      in if first < len then memcpy_at buf 0 (drop first src) (len - first) else buf)"

definition copy_out :: "kfifo \<Rightarrow> u8 list \<Rightarrow> nat \<Rightarrow> nat \<Rightarrow> u8 list" where
  "copy_out f buf len off =
     (let start = off AND k_mask f;
          first = (if len < k_size f - start then len else k_size f - start);
          dst = take first (drop start buf)
      in if first < len then dst @ take (len - first) buf else dst)"

definition kfifo_in :: "u8 list \<Rightarrow> kfifo \<Rightarrow> nat \<times> kfifo" where
  "kfifo_in src f =
     (case buffer f of
        None \<Rightarrow> (0, f)
      | Some buf \<Rightarrow>
          if src = [] then (0, f)
          else (let space = sub64 (k_size f) (sub64 (k_in f) (k_out f));
                    len = (if space < length src then space else length src)
                in (len, f\<lparr>buffer := Some (copy_in f buf src len (k_in f)), k_in := wrap64 (k_in f + len)\<rparr>)))"

text \<open>The bytes a read delivers; \<open>kfifo_peek\<close> leaves the ring as it is.\<close>

definition kfifo_peek :: "nat \<Rightarrow> kfifo \<Rightarrow> u8 list" where
  "kfifo_peek len f =
     (case buffer f of
        None \<Rightarrow> []
      | Some buf \<Rightarrow>
          if len = 0 then []
          else (let used = sub64 (k_in f) (k_out f); len = (if used < len then used else len)
                in copy_out f buf len (k_out f)))"

definition kfifo_out :: "nat \<Rightarrow> kfifo \<Rightarrow> u8 list \<times> kfifo" where
  "kfifo_out len f =
     (case buffer f of
        None \<Rightarrow> ([], f)
      | Some buf \<Rightarrow>
          if len = 0 then ([], f)
          else (let used = sub64 (k_in f) (k_out f); len = (if used < len then used else len)
                in (copy_out f buf len (k_out f), f\<lparr>k_out := wrap64 (k_out f + len)\<rparr>)))"

definition kfifo_put_byte :: "u8 \<Rightarrow> kfifo \<Rightarrow> int \<times> kfifo" where
  "kfifo_put_byte b f = (let (n, f') = kfifo_in [b] f in (if n = 1 then 0 else - 1, f'))"

definition kfifo_get_byte :: "kfifo \<Rightarrow> int \<times> u8 option \<times> kfifo" where
  "kfifo_get_byte f =
     (let (bs, f') = kfifo_out 1 f
      in if length bs = 1 then (0, Some (hd bs), f') else (- 1, None, f'))"

section \<open>Well-formed rings\<close>

definition kfifo_wf :: "kfifo \<Rightarrow> bool" where
  "kfifo_wf f \<longleftrightarrow> (\<exists>buf k. buffer f = Some buf \<and> k < 64 \<and> k_size f = 2 ^ k \<and> length buf = k_size f) \<and>
     k_mask f = k_size f - 1 \<and> k_in f < 2 ^ 64 \<and> k_out f < 2 ^ 64 \<and>
     sub64 (k_in f) (k_out f) \<le> k_size f"

text \<open>The bytes in the ring, oldest first.\<close>

definition kfifo_contents :: "kfifo \<Rightarrow> u8 list" where
  "kfifo_contents f =
     map (\<lambda>i. the (buffer f) ! ((k_out f + i) mod k_size f)) [0..<sub64 (k_in f) (k_out f)]"

lemma kfifo_wfE:
  assumes "kfifo_wf f"
  obtains buf k where "buffer f = Some buf" "k < 64" "k_size f = 2 ^ k" "length buf = 2 ^ k"
    "0 < k_size f" "k_size f < 2 ^ 64" "k_size f dvd 2 ^ 64" "k_mask f = 2 ^ k - 1"
    "sub64 (k_in f) (k_out f) \<le> k_size f" "k_in f < 2 ^ 64" "k_out f < 2 ^ 64"
proof -
  obtain buf k where b: "buffer f = Some buf" "k < 64" "k_size f = 2 ^ k" "length buf = k_size f"
    using assms by (auto simp: kfifo_wf_def)
  moreover have "k_size f < 2 ^ 64" unfolding b(3) using b(2) by (intro power_strict_increasing) auto
  moreover have "k_size f dvd 2 ^ 64" unfolding b(3) using b(2) by (intro le_imp_power_dvd) auto
  ultimately show thesis using that[of buf k] assms by (auto simp: kfifo_wf_def)
qed

lemma and_mask_nat: "(x :: nat) AND (2 ^ k - 1) = x mod 2 ^ k"
  using take_bit_eq_mask[of k x] by (simp add: mask_eq_exp_minus_1 take_bit_eq_mod)

lemma mod_add_self_dvd: "d dvd m \<Longrightarrow> (a + m) mod d = a mod (d :: nat)"
  by (auto simp: dvd_def)

text \<open>Index arithmetic: the producer index is the consumer index plus the length, modulo the size.\<close>

lemma sub64_cases:
  assumes "a < 2 ^ 64" "b < 2 ^ 64"
  shows "sub64 a b = (if b \<le> a then a - b else a + 2 ^ 64 - b)"
proof (cases "b \<le> a")
  case False
  then have "a + (2 ^ 64 - b) < 2 ^ 64" "a + (2 ^ 64 - b) = a + 2 ^ 64 - b" using assms by linarith+
  then show ?thesis using False by (simp add: sub64_def)
qed (use assms in simp)

lemma wrap64_cases:
  assumes "x < 2 * 2 ^ 64"
  shows "wrap64 x = (if x < 2 ^ 64 then x else x - 2 ^ 64)"
proof (cases "x < 2 ^ 64")
  case False
  then have "x mod 2 ^ 64 = (x - 2 ^ 64) mod 2 ^ 64" by (intro le_mod_geq) simp
  then show ?thesis using assms False by (simp add: wrap64_def)
qed simp

lemma sub64_add_mod:
  assumes "d dvd 2 ^ 64" "a < 2 ^ 64" "b < 2 ^ 64"
  shows "(b + sub64 a b) mod d = a mod d"
proof (cases "b \<le> a")
  case False
  then have "b + sub64 a b = a + 2 ^ 64" using assms sub64_cases[OF assms(2,3)] by simp
  also have "(a + 2 ^ 64) mod d = a mod d" by (rule mod_add_self_dvd[OF assms(1)])
  finally show ?thesis .
qed (use assms in simp)

lemma wrap64_mod: "d dvd 2 ^ 64 \<Longrightarrow> wrap64 x mod d = x mod d"
  unfolding wrap64_def by (rule mod_mod_cancel)

lemma sub64_add_left:
  assumes "a < 2 ^ 64" "b < 2 ^ 64" "sub64 a b + n < 2 ^ 64"
  shows "sub64 (wrap64 (a + n)) b = sub64 a b + n"
proof -
  have "a + n < 2 * 2 ^ 64" using assms sub64_cases[OF assms(1,2)] by (auto split: if_splits)
  note w = wrap64_cases[OF this]
  have "wrap64 (a + n) < 2 ^ 64" by (rule wrap64_bound)
  from sub64_cases[OF this assms(2)] show ?thesis
    using assms sub64_cases[OF assms(1,2)] w by (auto split: if_splits)
qed

lemma sub64_add_right:
  assumes "a < 2 ^ 64" "b < 2 ^ 64" "n \<le> sub64 a b"
  shows "sub64 a (wrap64 (b + n)) = sub64 a b - n"
proof -
  have "b + n < 2 * 2 ^ 64" using assms sub64_cases[OF assms(1,2)] by (auto split: if_splits)
  note w = wrap64_cases[OF this]
  have "wrap64 (b + n) < 2 ^ 64" by (rule wrap64_bound)
  from sub64_cases[OF assms(1) this] show ?thesis
    using assms sub64_cases[OF assms(1,2)] w by (auto split: if_splits)
qed

section \<open>The two-part copies\<close>

lemma copy_in_nth:
  assumes "k_size f = n" "k_mask f = n - 1" "n = 2 ^ k" "length buf = n" "len \<le> n" "len \<le> length src"
  shows "length (copy_in f buf src len off) = n" (is ?L)
    "j < n \<Longrightarrow> copy_in f buf src len off ! j =
      (if off mod n \<le> j \<and> j < off mod n + len then src ! (j - off mod n)
       else if j + n < off mod n + len then src ! (j + n - off mod n) else buf ! j)" (is "_ \<Longrightarrow> ?N")
proof -
  have start: "off AND k_mask f = off mod n" using assms(2,3) by (simp only: and_mask_nat)
  have lt: "off mod n < n" using assms(3) by simp
  define first where "first = (if len < n - off mod n then len else n - off mod n)"
  define b1 where "b1 = memcpy_at buf (off mod n) src first"
  have f: "off mod n + first \<le> n" "first \<le> len" "first < len \<Longrightarrow> off mod n + first = n"
    using lt by (auto simp: first_def)
  have b1: "length b1 = n" using f assms unfolding b1_def by (subst length_memcpy_at) auto
  have eq: "copy_in f buf src len off =
      (if first < len then memcpy_at b1 0 (drop first src) (len - first) else b1)"
    unfolding copy_in_def Let_def start assms(1) first_def b1_def ..
  have n1: "b1 ! j = (if off mod n \<le> j \<and> j < off mod n + first then src ! (j - off mod n) else buf ! j)"
    if "j < n" for j
    unfolding b1_def using f(1,2) assms(4,6) that by (subst nth_memcpy_at) auto
  show ?L unfolding eq using b1 assms(5,6) by (simp add: length_memcpy_at)
  show ?N if j: "j < n"
  proof (cases "first < len")
    case True
    then have "memcpy_at b1 0 (drop first src) (len - first) ! j =
        (if j < len - first then src ! (first + j) else b1 ! j)"
      using b1 assms(5,6) j by (subst nth_memcpy_at) auto
    moreover have "first + j = j + n - off mod n" using f(3)[OF True] lt by simp
    ultimately show ?thesis using True n1[OF j] f(3)[OF True] assms(5) j unfolding eq by auto
  next
    case False
    then have "len = first" using f(2) by simp
    then show ?thesis using n1[OF j] f(1) unfolding eq by auto
  qed
qed

lemma copy_out_nth:
  assumes "k_size f = n" "k_mask f = n - 1" "n = 2 ^ k" "length buf = n" "len \<le> n"
  shows "copy_out f buf len off = map (\<lambda>i. buf ! ((off + i) mod n)) [0..<len]"
proof -
  have start: "off AND k_mask f = off mod n" using assms(2,3) by (simp only: and_mask_nat)
  have lt: "off mod n < n" using assms(3) by simp
  have eq: "copy_out f buf len off = (if n - off mod n < len
      then drop (off mod n) buf @ take (len - (n - off mod n)) buf else take len (drop (off mod n) buf))"
    unfolding copy_out_def Let_def start assms(1) using assms(4) by auto
  have len: "length (copy_out f buf len off) = len" unfolding eq using assms(4,5) lt by auto
  have "copy_out f buf len off ! i = buf ! ((off + i) mod n)" if "i < len" for i
    using that assms(4,5) lt mod_shift[of i n off] unfolding eq by (auto simp: nth_append add.commute)
  then show ?thesis using len by (intro nth_equalityI) auto
qed

section \<open>The ring is a byte queue\<close>

lemma length_contents [simp]: "length (kfifo_contents f) = sub64 (k_in f) (k_out f)"
  by (simp add: kfifo_contents_def)

lemma kfifo_out_spec:
  assumes "kfifo_wf f"
  shows "fst (kfifo_out n f) = take n (kfifo_contents f)"
    "kfifo_contents (snd (kfifo_out n f)) = drop n (kfifo_contents f)"
    "kfifo_wf (snd (kfifo_out n f))" "k_size (snd (kfifo_out n f)) = k_size f"
proof -
  obtain buf k where f: "buffer f = Some buf" "k < 64" "k_size f = 2 ^ k" "length buf = 2 ^ k"
    "k_size f dvd 2 ^ 64" "k_mask f = 2 ^ k - 1" "sub64 (k_in f) (k_out f) \<le> k_size f"
    "k_in f < 2 ^ 64" "k_out f < 2 ^ 64"
    using kfifo_wfE[OF assms] by metis
  define u where "u = sub64 (k_in f) (k_out f)"
  define len where "len = min n u"
  have out: "kfifo_out n f = (map (\<lambda>i. buf ! ((k_out f + i) mod k_size f)) [0..<len],
      f\<lparr>k_out := wrap64 (k_out f + len)\<rparr>)"
  proof (cases "n = 0")
    case True
    then show ?thesis using f(1,9) by (simp add: kfifo_out_def len_def)
  next
    case False
    have "len \<le> 2 ^ k" using f(3,7) by (simp add: len_def u_def)
    then have "copy_out f buf len (k_out f) = map (\<lambda>i. buf ! ((k_out f + i) mod k_size f)) [0..<len]"
      using f copy_out_nth[of f "2 ^ k" k buf len] by simp
    moreover have "(if u < n then u else n) = len" by (simp add: len_def)
    ultimately show ?thesis using False f(1) by (simp add: kfifo_out_def Let_def u_def[symmetric])
  qed
  have u': "sub64 (k_in f) (wrap64 (k_out f + len)) = u - len"
    unfolding u_def using f by (intro sub64_add_right) (auto simp: len_def u_def)
  show "fst (kfifo_out n f) = take n (kfifo_contents f)"
    by (simp add: out kfifo_contents_def f(1) take_map len_def u_def min_def)
  show "kfifo_wf (snd (kfifo_out n f))"
    using assms u' f(7) by (auto simp: out kfifo_wf_def u_def)
  show "k_size (snd (kfifo_out n f)) = k_size f" by (simp add: out)
  have "drop n (kfifo_contents f) = map (\<lambda>i. buf ! ((k_out f + (len + i)) mod k_size f)) [0..<u - len]"
    by (rule nth_equalityI) (auto simp: kfifo_contents_def f(1) len_def u_def)
  moreover have "(wrap64 (k_out f + len) + i) mod k_size f = (k_out f + (len + i)) mod k_size f" for i
    using wrap64_mod[OF f(5), of "k_out f + len"] by (metis add.assoc mod_add_left_eq)
  ultimately show "kfifo_contents (snd (kfifo_out n f)) = drop n (kfifo_contents f)"
    by (simp add: out kfifo_contents_def f(1) u')
qed

lemma kfifo_in_spec:
  assumes "kfifo_wf f"
  shows "fst (kfifo_in src f) = min (length src) (k_size f - length (kfifo_contents f))"
    "kfifo_contents (snd (kfifo_in src f)) = kfifo_contents f @ take (fst (kfifo_in src f)) src"
    "kfifo_wf (snd (kfifo_in src f))" "k_size (snd (kfifo_in src f)) = k_size f"
proof -
  obtain buf k where f: "buffer f = Some buf" "k < 64" "k_size f = 2 ^ k" "length buf = 2 ^ k"
    "k_size f dvd 2 ^ 64" "k_mask f = 2 ^ k - 1" "sub64 (k_in f) (k_out f) \<le> k_size f"
    "k_in f < 2 ^ 64" "k_out f < 2 ^ 64" "k_size f < 2 ^ 64"
    using kfifo_wfE[OF assms] by metis
  define u where "u = sub64 (k_in f) (k_out f)"
  define len where "len = min (length src) (k_size f - u)"
  define buf' where "buf' = (if src = [] then buf else copy_in f buf src len (k_in f))"
  have sp: "sub64 (k_size f) u = k_size f - u" using f(7,10) by (intro sub64_small) (simp_all add: u_def)
  have ifl: "(if k_size f - u < length src then k_size f - u else length src) = len" by (simp add: len_def)
  have eq: "kfifo_in src f = (len, f\<lparr>buffer := Some buf', k_in := wrap64 (k_in f + len)\<rparr>)"
  proof (cases "src = []")
    case True
    then show ?thesis using f(1,8) by (simp add: kfifo_in_def len_def buf'_def)
  next
    case False
    then show ?thesis using f(1) by (simp add: kfifo_in_def Let_def u_def[symmetric] sp ifl buf'_def)
  qed
  have len: "len \<le> 2 ^ k" "len \<le> length src" "u + len \<le> 2 ^ k"
    using f(3,7) by (simp_all add: len_def u_def)
  note copy = copy_in_nth[OF f(3,6) refl f(4) len(1,2), where off = "k_in f"]
  have lbuf: "length buf' = 2 ^ k" using copy(1) f(4) by (simp add: buf'_def)
  have u': "sub64 (wrap64 (k_in f + len)) (k_out f) = u + len"
    unfolding u_def using f(8,9,10) len(3) f(3) by (intro sub64_add_left) (simp_all add: u_def)
  show "fst (kfifo_in src f) = min (length src) (k_size f - length (kfifo_contents f))"
    by (simp add: eq len_def u_def)
  show "kfifo_wf (snd (kfifo_in src f))"
    unfolding kfifo_wf_def using assms f(2,3) lbuf u' len(3) by (auto simp: eq kfifo_wf_def)
  show "k_size (snd (kfifo_in src f)) = k_size f" by (simp add: eq)
  have pos: "k_in f mod 2 ^ k = (k_out f + u) mod 2 ^ k"
    using sub64_add_mod[OF f(5,8,9)] f(3) by (simp add: u_def)
  have get: "buf' ! ((k_out f + i) mod 2 ^ k) = (if i < u then buf ! ((k_out f + i) mod 2 ^ k) else src ! (i - u))"
    if i: "i < u + len" for i
  proof (cases "src = []")
    case True
    then show ?thesis using i by (simp add: buf'_def len_def)
  next
    case False
    have "(k_out f + i) mod 2 ^ k < 2 ^ k" by simp
    note at = copy(2)[OF this, unfolded pos]
    note r = ring_index[of "2 ^ k" i u len "k_out f"]
    show ?thesis
    proof (cases "i < u")
      case True
      then show ?thesis using at r(1) i len(3) False by (simp add: buf'_def)
    next
      case ge: False
      then show ?thesis using at r(2) i len(3) False by (auto simp: buf'_def)
    qed
  qed
  show "kfifo_contents (snd (kfifo_in src f)) = kfifo_contents f @ take (fst (kfifo_in src f)) src"
    using get f(1,3) u' len by (intro nth_equalityI) (auto simp: eq kfifo_contents_def nth_append u_def[symmetric])
qed

interpretation kq: byte_queue kfifo_contents k_size kfifo_wf kfifo_in kfifo_out
proof
  fix q assume q: "kfifo_wf q"
  show "length (kfifo_contents q) \<le> k_size q" using q by (simp add: kfifo_wf_def)
qed (simp_all add: kfifo_in_spec kfifo_out_spec)

lemma kfifo_alloc_ok:
  assumes "\<And>m. heap m = None \<or> (\<exists>buf. heap m = Some buf \<and> length buf = m)" "0 < n" "n \<le> 2 ^ 63"
  shows "\<exists>r f'. kfifo_alloc heap n f = Some (r, f') \<and>
    (r = 0 \<and> kfifo_wf f' \<and> kfifo_contents f' = [] \<and> n \<le> k_size f' \<and> k_size f' < 2 * n + 2 \<or> r = - 1 \<and> buffer f' = None)"
proof -
  obtain k where k: "k \<le> 63" "round_up_pow2 n = Some (2 ^ k)" "n \<le> 2 ^ k" "(2 :: nat) ^ k < 2 * n + 2"
  proof (cases "n < 2")
    case True
    then show thesis using that[of 1] assms(2) by (simp add: round_up_pow2_def)
  next
    case False
    obtain k where k: "k \<le> 63" "pow2_loop n 1 = Some (2 ^ k)" "n \<le> 2 ^ k" "\<forall>i < k. 2 ^ i < n"
      using pow2_loop_total[OF assms(3)] by blast
    have "0 < k" using k(3) False by (cases k) auto
    then have "(2 :: nat) ^ k = 2 * 2 ^ (k - 1)" "2 ^ (k - 1) < n" using k(4) by (cases k; simp)+
    then show thesis using that[of k] k False by (simp add: round_up_pow2_def)
  qed
  then show ?thesis using assms(1)[of "2 ^ k"] assms(2)
    by (auto simp: kfifo_alloc_def Let_def kfifo_wf_def kfifo_contents_def intro!: exI[of _ k])
qed

section \<open>Properties\<close>

text \<open>C19: Over any sequence of reads and writes of any sizes, and across wrap-around of the buffer
  and of the 64-bit indices, the kfifo is a FIFO byte stream: what was in it followed by what it
  accepted is exactly what it delivered followed by what is left, and it stays well formed.\<close>

theorem kfifo_stream:
  assumes "kfifo_wf f" "kq.run cs f = (acc, del, f')"
  shows "kfifo_wf f' \<and> k_size f' = k_size f \<and> kfifo_contents f @ acc = del @ kfifo_contents f'"
  using kq.run_stream[OF assms] .

definition kfifo_demo :: kfifo where
  "kfifo_demo = \<lparr>buffer = Some [0, 0, 0, 0], k_size = 4, k_mask = 3, k_in = 2 ^ 64 - 2, k_out = 2 ^ 64 - 2,
     owns_buffer = True\<rparr>"

lemma kfifo_demo_wf: "kfifo_wf kfifo_demo"
  unfolding kfifo_wf_def by (auto simp: kfifo_demo_def intro: exI[of _ 2])

theorem kfifo_stream_witness:
  "kfifo_wf (snd (snd (kq.run [Put [1, 2, 3], Get 2, Put [4, 5]] kfifo_demo))) \<and>
   fst (kq.run [Put [1, 2, 3], Get 2, Put [4, 5]] kfifo_demo) =
     fst (snd (kq.run [Put [1, 2, 3], Get 2, Put [4, 5]] kfifo_demo)) @
     kfifo_contents (snd (snd (kq.run [Put [1, 2, 3], Get 2, Put [4, 5]] kfifo_demo)))"
proof -
  have "kfifo_contents kfifo_demo = []" by (simp add: kfifo_contents_def kfifo_demo_def)
  then show ?thesis
    using kfifo_stream[OF kfifo_demo_wf, of "[Put [1, 2, 3], Get 2, Put [4, 5]]"] by (metis append_Nil prod.collapse)
qed

text \<open>C36: \<open>kfifo_alloc\<close> returns for every size up to \<open>2 ^ 63\<close>, with an empty well-formed ring whose size is
  the next power of two, or with an error and no buffer when the heap is exhausted; for a larger size
  its rounding loop never ends.\<close>

theorem kfifo_alloc_total:
  assumes "\<And>m. heap m = None \<or> (\<exists>buf. heap m = Some buf \<and> length buf = m)" "0 < n"
  shows "if n \<le> 2 ^ 63 then
      \<exists>r f'. kfifo_alloc heap n f = Some (r, f') \<and>
        (r = 0 \<and> kfifo_wf f' \<and> kfifo_contents f' = [] \<and> n \<le> k_size f' \<and> k_size f' < 2 * n + 2 \<or>
         r = - 1 \<and> buffer f' = None)
    else kfifo_alloc heap n f = None"
proof (cases "n \<le> 2 ^ 63")
  case True
  then show ?thesis using kfifo_alloc_ok[OF assms] by simp
next
  case False
  then have "2 ^ 63 < n" by simp
  then have "round_up_pow2 n = None" using pow2_loop_diverges[of n] by (auto simp: round_up_pow2_def)
  then show ?thesis using False assms(2) by (simp add: kfifo_alloc_def)
qed

theorem kfifo_alloc_total_witness:
  "\<exists>r f'. kfifo_alloc (\<lambda>m. Some (replicate m 0)) 100 kfifo_demo = Some (r, f') \<and>
     (r = 0 \<and> kfifo_wf f' \<and> kfifo_contents f' = [] \<and> 100 \<le> k_size f' \<and> k_size f' < 2 * 100 + 2 \<or>
      r = - 1 \<and> buffer f' = None)"
  using kfifo_alloc_total[of "\<lambda>m. Some (replicate m 0)" 100 kfifo_demo] by simp

end
