(* ===== verification/Pipe.thy ===== *)
theory Pipe
  imports ByteQueue
begin

text \<open>
  \<open>ipc/pipe.c\<close>: the 4096-byte pipe. Head, tail and count stay below the buffer size, so they are
  natural numbers. The end of a pipe's life (\<open>kfree\<close>) is \<open>None\<close>. \<open>pipe_create\<close> takes as arguments
  which of its three allocations succeed and what \<open>vfs_open_node\<close> returns for the two ends.
\<close>

section \<open>The pipe\<close>

abbreviation PIPE_BUF_SIZE :: nat where
  "PIPE_BUF_SIZE \<equiv> 4096"

record pipe =
  pbuffer :: "u8 list"
  head :: nat
  tail :: nat
  pcount :: nat
  read_open :: bool
  write_open :: bool

datatype pipe_end = Read_End | Write_End

definition pipe_create :: "bool \<Rightarrow> bool \<Rightarrow> bool \<Rightarrow> (pipe_end \<Rightarrow> int) \<Rightarrow> int \<times> (pipe \<times> int \<times> int) option" where
  "pipe_create p_ok rnode_ok wnode_ok open_node =
     (if \<not> p_ok then (- 1, None)
      else (let p = \<lparr>pbuffer = replicate PIPE_BUF_SIZE 0, head = 0, tail = 0, pcount = 0,
                     read_open = True, write_open = True\<rparr>
            in if \<not> rnode_ok \<or> \<not> wnode_ok then (- 1, None)
               else (0, Some (p, open_node Read_End, open_node Write_End))))"

text \<open>The copy loops; \<open>read_bytes\<close> and \<open>written\<close> count up to the request.\<close>

function pipe_read_loop :: "nat \<Rightarrow> nat \<Rightarrow> u8 list \<Rightarrow> pipe \<Rightarrow> u8 list \<times> pipe" where
  "pipe_read_loop count read_bytes out p =
     (if read_bytes < count \<and> 0 < pcount p then
        pipe_read_loop count (read_bytes + 1) (out @ [pbuffer p ! tail p])
          (p\<lparr>tail := (tail p + 1) mod PIPE_BUF_SIZE, pcount := pcount p - 1\<rparr>)
      else (out, p))"
  by pat_completeness auto
termination
  by (relation "measure (\<lambda>(count, read_bytes, out, p). count - read_bytes)") auto

declare pipe_read_loop.simps [simp del]

definition pipe_read :: "nat \<Rightarrow> pipe \<Rightarrow> u8 list \<times> pipe" where
  "pipe_read count p = (if count = 0 then ([], p) else pipe_read_loop count 0 [] p)"

function pipe_write_loop :: "u8 list \<Rightarrow> nat \<Rightarrow> pipe \<Rightarrow> nat \<times> pipe" where
  "pipe_write_loop buf written p =
     (if written < length buf \<and> pcount p < PIPE_BUF_SIZE then
        pipe_write_loop buf (written + 1)
          (p\<lparr>pbuffer := (pbuffer p)[head p := buf ! written], head := (head p + 1) mod PIPE_BUF_SIZE,
             pcount := pcount p + 1\<rparr>)
      else (written, p))"
  by pat_completeness auto
termination
  by (relation "measure (\<lambda>(buf, written, p). length buf - written)") auto

declare pipe_write_loop.simps [simp del]

definition pipe_write :: "u8 list \<Rightarrow> pipe \<Rightarrow> int \<times> pipe" where
  "pipe_write buf p =
     (if buf = [] then (0, p)
      else if \<not> read_open p then (- 1, p)
      else (let (n, p') = pipe_write_loop buf 0 p in (int n, p')))"

definition pipe_close_read :: "pipe \<Rightarrow> pipe option" where
  "pipe_close_read p = (if \<not> write_open p then None else Some (p\<lparr>read_open := False\<rparr>))"

definition pipe_close_write :: "pipe \<Rightarrow> pipe option" where
  "pipe_close_write p = (if \<not> read_open p then None else Some (p\<lparr>write_open := False\<rparr>))"

text \<open>The VFS callbacks of the two ends: a node without a pipe behind it transfers nothing.\<close>

definition pipe_vfs_read :: "pipe option \<Rightarrow> nat \<Rightarrow> u8 list \<times> pipe option" where
  "pipe_vfs_read ptr count =
     (case ptr of None \<Rightarrow> ([], None) | Some p \<Rightarrow> (let (bs, p') = pipe_read count p in (bs, Some p')))"

definition pipe_vfs_write :: "pipe option \<Rightarrow> u8 list \<Rightarrow> int \<times> pipe option" where
  "pipe_vfs_write ptr buf =
     (case ptr of None \<Rightarrow> (0, None) | Some p \<Rightarrow> (let (n, p') = pipe_write buf p in (n, Some p')))"

section \<open>The pipe is a byte queue\<close>

definition pipe_wf :: "pipe \<Rightarrow> bool" where
  "pipe_wf p \<longleftrightarrow> length (pbuffer p) = PIPE_BUF_SIZE \<and> tail p < PIPE_BUF_SIZE \<and>
     pcount p \<le> PIPE_BUF_SIZE \<and> head p = (tail p + pcount p) mod PIPE_BUF_SIZE"

definition pipe_contents :: "pipe \<Rightarrow> u8 list" where
  "pipe_contents p = map (\<lambda>i. pbuffer p ! ((tail p + i) mod PIPE_BUF_SIZE)) [0..<pcount p]"

lemma length_pipe_contents [simp]: "length (pipe_contents p) = pcount p"
  by (simp add: pipe_contents_def)

lemma pipe_pop:
  assumes "pipe_wf p" "0 < pcount p"
  defines "p' \<equiv> p\<lparr>tail := (tail p + 1) mod PIPE_BUF_SIZE, pcount := pcount p - 1\<rparr>"
  shows "pipe_wf p'" "pipe_contents p = pbuffer p ! tail p # pipe_contents p'"
proof -
  have "((tail p + 1) mod PIPE_BUF_SIZE + (pcount p - 1)) mod PIPE_BUF_SIZE = (tail p + pcount p) mod PIPE_BUF_SIZE"
    using assms(2) mod_add_left_eq[of "tail p + 1" PIPE_BUF_SIZE "pcount p - 1"] by simp
  then show "pipe_wf p'" using assms(1) by (auto simp: pipe_wf_def p'_def)
  have "[0..<pcount p] = 0 # map Suc [0..<pcount p - 1]"
    using assms(2) by (simp add: map_Suc_upt upt_conv_Cons)
  moreover have "((tail p + 1) mod PIPE_BUF_SIZE + i) mod PIPE_BUF_SIZE = (tail p + Suc i) mod PIPE_BUF_SIZE" for i
    by (simp add: mod_add_left_eq)
  ultimately show "pipe_contents p = pbuffer p ! tail p # pipe_contents p'"
    using assms(1) by (simp add: pipe_contents_def p'_def pipe_wf_def comp_def)
qed

lemma pipe_push:
  fixes b :: u8
  assumes "pipe_wf p" "pcount p < PIPE_BUF_SIZE"
  defines "p' \<equiv> p\<lparr>pbuffer := (pbuffer p)[head p := b], head := (head p + 1) mod PIPE_BUF_SIZE,
    pcount := pcount p + 1\<rparr>"
  shows "pipe_wf p'" "pipe_contents p' = pipe_contents p @ [b]"
proof -
  have h: "head p = (tail p + pcount p) mod PIPE_BUF_SIZE" "tail p < PIPE_BUF_SIZE"
    using assms(1) by (simp_all add: pipe_wf_def)
  have "(head p + 1) mod PIPE_BUF_SIZE = (tail p + (pcount p + 1)) mod PIPE_BUF_SIZE"
    unfolding h by (simp add: mod_add_left_eq mod_Suc_eq)
  then show "pipe_wf p'" using assms(1,2) by (simp add: pipe_wf_def p'_def)
  have "head p \<noteq> (tail p + i) mod PIPE_BUF_SIZE" if "i < pcount p" for i
    using ring_distinct[of "tail p" i PIPE_BUF_SIZE "pcount p"] that assms(2) h(1) by auto
  moreover have "head p < length (pbuffer p)" using h assms(1) by (simp add: pipe_wf_def)
  ultimately show "pipe_contents p' = pipe_contents p @ [b]"
    by (simp add: pipe_contents_def p'_def h(1)[symmetric])
qed

lemma pipe_read_loop_spec:
  assumes "pipe_wf p" "pipe_read_loop count n out p = (bs, p')"
  shows "bs = out @ take (count - n) (pipe_contents p) \<and> pipe_contents p' = drop (count - n) (pipe_contents p) \<and>
    pipe_wf p' \<and> read_open p' = read_open p \<and> write_open p' = write_open p"
  using assms
proof (induction count n out p arbitrary: bs p' rule: pipe_read_loop.induct)
  case (1 count n out p)
  show ?case
  proof (cases "n < count \<and> 0 < pcount p")
    case True
    then have pc: "0 < pcount p" ..
    note pop = pipe_pop[OF "1.prems"(1) pc]
    have "pipe_read_loop count (n + 1) (out @ [pbuffer p ! tail p])
        (p\<lparr>tail := (tail p + 1) mod PIPE_BUF_SIZE, pcount := pcount p - 1\<rparr>) = (bs, p')"
      using "1.prems"(2) True by (subst (asm) pipe_read_loop.simps) simp
    from "1.IH"[OF True pop(1) this] show ?thesis
      using True by (simp add: pop(2) Suc_diff_Suc[symmetric])
  next
    case False
    then have "bs = out \<and> p' = p" using "1.prems"(2) by (subst (asm) pipe_read_loop.simps) auto
    moreover have "take (count - n) (pipe_contents p) = [] \<and> drop (count - n) (pipe_contents p) = pipe_contents p"
      using False by (cases "n < count") (auto simp: pipe_contents_def)
    ultimately show ?thesis using "1.prems"(1) by simp
  qed
qed

lemma pipe_write_loop_spec:
  assumes "pipe_wf p" "n \<le> length buf" "pipe_write_loop buf n p = (k, p')"
  shows "k = n + min (length buf - n) (PIPE_BUF_SIZE - pcount p) \<and>
    pipe_contents p' = pipe_contents p @ take (k - n) (drop n buf) \<and>
    pipe_wf p' \<and> read_open p' = read_open p \<and> write_open p' = write_open p"
  using assms
proof (induction buf n p arbitrary: k p' rule: pipe_write_loop.induct)
  case (1 buf n p)
  show ?case
  proof (cases "n < length buf \<and> pcount p < PIPE_BUF_SIZE")
    case True
    then have pc: "pcount p < PIPE_BUF_SIZE" and n: "n + 1 \<le> length buf" by simp_all
    note push = pipe_push[OF "1.prems"(1) pc, of "buf ! n"]
    have "pipe_write_loop buf (n + 1) (p\<lparr>pbuffer := (pbuffer p)[head p := buf ! n],
        head := (head p + 1) mod PIPE_BUF_SIZE, pcount := pcount p + 1\<rparr>) = (k, p')"
      using "1.prems"(3) True by (subst (asm) pipe_write_loop.simps) simp
    note IH = "1.IH"[OF True push(1) n this]
    then have k: "k = n + min (length buf - n) (PIPE_BUF_SIZE - pcount p)" using True by auto
    have "0 < k - n" using True by (simp add: k)
    then have "take (k - n) (drop n buf) = buf ! n # take (k - (n + 1)) (drop (n + 1) buf)"
      using True by (metis Cons_nth_drop_Suc Suc_diff_Suc Suc_eq_plus1 take_Suc_Cons zero_less_diff)
    then show ?thesis using IH k push(2) by simp
  next
    case False
    then have "k = n \<and> p' = p" using "1.prems"(3) by (subst (asm) pipe_write_loop.simps) auto
    then show ?thesis using False "1.prems"(1,2) by (auto simp: pipe_wf_def)
  qed
qed

text \<open>A pipe whose reader is open accepts writes; the count is then never negative.\<close>

definition pipe_open_wf :: "pipe \<Rightarrow> bool" where
  "pipe_open_wf p \<longleftrightarrow> pipe_wf p \<and> read_open p"

definition pipe_put :: "u8 list \<Rightarrow> pipe \<Rightarrow> nat \<times> pipe" where
  "pipe_put buf p = (let (n, p') = pipe_write buf p in (nat n, p'))"

lemma pipe_put_loop: "read_open p \<Longrightarrow> pipe_put buf p = pipe_write_loop buf 0 p"
  by (cases "buf = []") (simp_all add: pipe_put_def pipe_write_def pipe_write_loop.simps split_beta)

lemma pipe_read_loop_eq: "pipe_read count p = pipe_read_loop count 0 [] p"
  by (simp add: pipe_read_def pipe_read_loop.simps)

interpretation pq: byte_queue pipe_contents "\<lambda>_. PIPE_BUF_SIZE" pipe_open_wf pipe_put pipe_read
proof
  fix q xs assume q: "pipe_open_wf q"
  then have w: "pipe_wf q" "read_open q" by (simp_all add: pipe_open_wf_def)
  note put = pipe_write_loop_spec[OF w(1) le0 surjective_pairing, of xs, folded pipe_put_loop[OF w(2)]]
  show "pipe_open_wf (snd (pipe_put xs q))" using put w(2) by (simp add: pipe_open_wf_def)
  show "fst (pipe_put xs q) = min (length xs) (PIPE_BUF_SIZE - length (pipe_contents q))" using put by simp
  show "pipe_contents (snd (pipe_put xs q)) = pipe_contents q @ take (fst (pipe_put xs q)) xs" using put by simp
  show "length (pipe_contents q) \<le> PIPE_BUF_SIZE" using w(1) by (simp add: pipe_wf_def)
next
  fix q n assume q: "pipe_open_wf q"
  then have w: "pipe_wf q" "read_open q" by (simp_all add: pipe_open_wf_def)
  note get = pipe_read_loop_spec[OF w(1) surjective_pairing, of n 0 "[]", folded pipe_read_loop_eq]
  show "pipe_open_wf (snd (pipe_read n q))" using get w(2) by (simp add: pipe_open_wf_def)
  show "fst (pipe_read n q) = take n (pipe_contents q)" using get by simp
  show "pipe_contents (snd (pipe_read n q)) = drop n (pipe_contents q)" using get by simp
qed simp_all

lemma pipe_create_wf:
  assumes "pipe_create a b c fd = (0, Some (p, r, w))"
  shows "pipe_open_wf p \<and> pipe_contents p = [] \<and> write_open p"
  using assms by (auto simp: pipe_create_def pipe_open_wf_def pipe_wf_def pipe_contents_def Let_def split: if_splits)

section \<open>Properties\<close>

text \<open>C30: A freshly created pipe is a FIFO byte stream while its reader is open: over any sequence of
  reads and writes, the accepted bytes are exactly the delivered bytes followed by those still in
  the pipe, and the pipe stays within its 4096-byte buffer.\<close>

theorem pipe_stream:
  assumes "pipe_create a b c fd = (0, Some (p, r, w))" "pq.run cs p = (acc, del, p')"
  shows "pipe_wf p' \<and> acc = del @ pipe_contents p' \<and> length (pipe_contents p') \<le> PIPE_BUF_SIZE"
  using pq.run_stream[OF _ assms(2)] pipe_create_wf[OF assms(1)] pq.bounded[of p']
  by (auto simp: pipe_open_wf_def)

theorem pipe_stream_witness:
  "\<exists>p acc del p'. pipe_create True True True (\<lambda>_. 3) = (0, Some (p, 3, 3)) \<and>
     pq.run [Put [1, 2, 3], Get 2] p = (acc, del, p') \<and> acc = del @ pipe_contents p'"
proof -
  obtain p where p: "pipe_create True True True (\<lambda>_. 3) = (0, Some (p, 3, 3))" by (simp add: pipe_create_def)
  obtain acc del p' where r: "pq.run [Put [1, 2, 3], Get 2] p = (acc, del, p')" by (metis prod_cases3)
  show ?thesis using pipe_stream[OF p r] p r by blast
qed

end
