(* ===== verification/KvTable.thy ===== *)
theory KvTable
  imports Main
begin

text \<open>
  The contract of a table from keys to values whose insertions may fail for lack of memory. A client
  that runs any sequence of operations on such a table sees a finite map.
\<close>

datatype ('a, 'k, 'v) kv_op = Store 'a 'k 'v | Erase 'k

text \<open>The map a sequence of operations leaves, given which insertions succeeded.\<close>

primrec kv_spec :: "(('a, 'k, 'v) kv_op \<times> bool) list \<Rightarrow> ('k \<Rightarrow> 'v option) \<Rightarrow> ('k \<Rightarrow> 'v option)" where
  "kv_spec [] m = m"
| "kv_spec (c # cs) m =
     kv_spec cs (case c of
                   (Store a k v, ok) \<Rightarrow> if ok then m(k \<mapsto> v) else m
                 | (Erase k, ok) \<Rightarrow> m(k := None))"

locale kv_table =
  fixes look :: "'t \<Rightarrow> 'k \<Rightarrow> 'v option"
    and put :: "'a \<Rightarrow> 'k \<Rightarrow> 'v \<Rightarrow> 't \<Rightarrow> bool \<times> 't"
    and rem :: "'k \<Rightarrow> 't \<Rightarrow> bool \<times> 't"
    and wf :: "'t \<Rightarrow> bool"
  assumes put_wf: "wf t \<Longrightarrow> wf (snd (put a k v t))"
    and put_look: "wf t \<Longrightarrow> look (snd (put a k v t)) = (if fst (put a k v t) then (look t)(k \<mapsto> v) else look t)"
    and rem_wf: "wf t \<Longrightarrow> wf (snd (rem k t))"
    and rem_look: "wf t \<Longrightarrow> look (snd (rem k t)) = (look t)(k := None)"
    and rem_found: "wf t \<Longrightarrow> fst (rem k t) \<longleftrightarrow> look t k \<noteq> None"
begin

primrec exec :: "('a, 'k, 'v) kv_op list \<Rightarrow> 't \<Rightarrow> bool list \<times> 't" where
  "exec [] t = ([], t)"
| "exec (c # cs) t =
     (let (b, t') = (case c of Store a k v \<Rightarrow> put a k v t | Erase k \<Rightarrow> rem k t);
          (bs, t'') = exec cs t'
      in (b # bs, t''))"

lemma exec_refines:
  assumes "wf t" "exec cs t = (bs, t')"
  shows "wf t' \<and> length bs = length cs \<and> look t' = kv_spec (zip cs bs) (look t)"
  using assms
proof (induction cs arbitrary: t bs)
  case Nil
  then show ?case by simp
next
  case (Cons c cs)
  let ?r = "case c of Store a k v \<Rightarrow> put a k v t | Erase k \<Rightarrow> rem k t"
  obtain bs1 where 1: "exec cs (snd ?r) = (bs1, t')" "bs = fst ?r # bs1"
    using Cons.prems(2) by (auto simp: Let_def split: prod.splits)
  have "wf (snd ?r)" using Cons.prems(1) put_wf rem_wf by (cases c) auto
  from Cons.IH[OF this 1(1)] show ?case
    using Cons.prems(1) put_look rem_look by (cases c) (simp_all add: 1(2) fun_upd_def)
qed

text \<open>A key just stored is found; other keys keep their values.\<close>

lemma put_then_look:
  "wf t \<Longrightarrow> fst (put a k v t) \<Longrightarrow> look (snd (put a k v t)) k = Some v"
  "wf t \<Longrightarrow> k' \<noteq> k \<Longrightarrow> look (snd (put a k v t)) k' = look t k'"
  by (simp_all add: put_look)

end

end
