(* ===== verification/Hashtable.thy ===== *)
theory Hashtable
  imports Prelude KvTable "HOL-Library.Multiset" "HOL-Library.Monad_Syntax"
begin

text \<open>
  \<open>lib/hashtable.c\<close>: the chained hash table with FNV-1a hashing and growth. A bucket is the list of
  the nodes of its chain, a stored value is a pointer (0 for NULL). The heap is an argument: for each
  of its allocation sites whether the allocation succeeds.
\<close>

section \<open>Hash functions\<close>

definition hash_fnv1a :: "u8 list \<Rightarrow> u64" where
  "hash_fnv1a data = foldl (\<lambda>h b. (h XOR ucast b) * 1099511628211) 1469598103934665603 data"

definition hash_string :: "string \<Rightarrow> u64" where
  "hash_string s = hash_fnv1a (map of_char s)"

definition hash_u64 :: "u64 \<Rightarrow> u64" where
  "hash_u64 v =
     (let v = v XOR drop_bit 33 v;
          v = v * 0xFF51AFD7ED558CCD;
          v = v XOR drop_bit 33 v;
          v = v * 0xC4CEB9FE1A85EC53
      in v XOR drop_bit 33 v)"

section \<open>The table\<close>

record hnode =
  h_hash :: u64
  skey :: "string option"
  ikey :: u64
  h_value :: nat

record hashtable =
  buckets :: "hnode list list"
  bucket_count :: nat
  entries :: nat
  collisions :: nat
  string_keys :: bool

datatype ht_site = Table_Site | Buckets_Site | Grow_Site | Node_Site | Key_Site

abbreviation HT_MAX_BUCKETS :: nat where
  "HT_MAX_BUCKETS \<equiv> 4096"

definition ht_round_up_pow2 :: "nat \<Rightarrow> nat option" where
  "ht_round_up_pow2 v = (if v < 8 then Some 8 else pow2_loop v 1)"

definition hashtable_create :: "(ht_site \<Rightarrow> bool) \<Rightarrow> nat \<Rightarrow> bool \<Rightarrow> hashtable option option" where
  "hashtable_create ok initial_buckets sk =
     (if \<not> ok Table_Site then Some None
      else do { n \<leftarrow> ht_round_up_pow2 initial_buckets;
                Some (if \<not> ok Buckets_Site then None
                      else Some \<lparr>buckets = replicate n [], bucket_count = n, entries = 0, collisions = 0,
                                 string_keys = sk\<rparr>) })"

text \<open>Destruction releases every node, in this order.\<close>

definition hashtable_destroy :: "hashtable \<Rightarrow> hnode list" where
  "hashtable_destroy ht = concat (take (bucket_count ht) (buckets ht))"

definition bucket_index :: "u64 \<Rightarrow> nat \<Rightarrow> nat" where
  "bucket_index h n = unat (h AND (of_nat n - 1))"

text \<open>Moving one node to the front of its new chain.\<close>

definition rehash_node :: "nat \<Rightarrow> hnode list list \<times> nat \<Rightarrow> hnode \<Rightarrow> hnode list list \<times> nat" where
  "rehash_node new_count acc n =
     (let (nb, coll) = acc; idx = bucket_index (h_hash n) new_count
      in (nb[idx := n # nb ! idx], if nb ! idx \<noteq> [] then coll + 1 else coll))"

definition hashtable_grow :: "bool \<Rightarrow> hashtable \<Rightarrow> hashtable" where
  "hashtable_grow ok ht =
     (if HT_MAX_BUCKETS \<le> bucket_count ht then ht
      else (let new_count = bucket_count ht * 2 in
            if \<not> ok then ht
            else (let (nb, coll) = foldl (foldl (rehash_node new_count)) (replicate new_count [], 0)
                                     (take (bucket_count ht) (buckets ht))
                  in ht\<lparr>buckets := nb, bucket_count := new_count, collisions := coll\<rparr>)))"

definition node_match :: "bool \<Rightarrow> u64 \<Rightarrow> string option \<Rightarrow> u64 \<Rightarrow> hnode \<Rightarrow> bool" where
  "node_match sk h s i n \<longleftrightarrow>
     h_hash n = h \<and> (if sk then skey n \<noteq> None \<and> s \<noteq> None \<and> skey n = s else ikey n = i)"

definition find_node :: "hashtable \<Rightarrow> u64 \<Rightarrow> string option \<Rightarrow> u64 \<Rightarrow> hnode option" where
  "find_node ht h s i =
     find (node_match (string_keys ht) h s i) (buckets ht ! bucket_index h (bucket_count ht))"

text \<open>Overwriting the value of the first matching node of a chain, and unlinking it.\<close>

fun chain_set :: "(hnode \<Rightarrow> bool) \<Rightarrow> nat \<Rightarrow> hnode list \<Rightarrow> hnode list" where
  "chain_set P v [] = []"
| "chain_set P v (n # ns) = (if P n then n\<lparr>h_value := v\<rparr> # ns else n # chain_set P v ns)"

fun chain_unlink :: "(hnode \<Rightarrow> bool) \<Rightarrow> hnode list \<Rightarrow> hnode list option" where
  "chain_unlink P [] = None"
| "chain_unlink P (n # ns) =
     (if P n then Some ns else do { ns' \<leftarrow> chain_unlink P ns; Some (n # ns') })"

definition hashtable_insert ::
    "(ht_site \<Rightarrow> bool) \<Rightarrow> u64 \<Rightarrow> string option \<Rightarrow> u64 \<Rightarrow> nat \<Rightarrow> hashtable \<Rightarrow> int \<times> hashtable" where
  "hashtable_insert ok h s i v ht =
     (if find_node ht h s i \<noteq> None then
        (let idx = bucket_index h (bucket_count ht)
         in (0, ht\<lparr>buckets := (buckets ht)[idx := chain_set (node_match (string_keys ht) h s i) v (buckets ht ! idx)]\<rparr>))
      else (let ht = (if bucket_count ht * 3 < entries ht * 4 then hashtable_grow (ok Grow_Site) ht else ht) in
            if \<not> ok Node_Site then (- 1, ht)
            else if string_keys ht \<and> s \<noteq> None \<and> \<not> ok Key_Site then (- 1, ht)
            else (let n = \<lparr>h_hash = h, skey = (if string_keys ht then s else None), ikey = i, h_value = v\<rparr>;
                      idx = bucket_index h (bucket_count ht)
                  in (0, ht\<lparr>collisions := (if buckets ht ! idx \<noteq> [] then collisions ht + 1 else collisions ht),
                           buckets := (buckets ht)[idx := n # buckets ht ! idx],
                           entries := entries ht + 1\<rparr>))))"

definition hashtable_unlink :: "u64 \<Rightarrow> string option \<Rightarrow> u64 \<Rightarrow> hashtable \<Rightarrow> bool \<times> hashtable" where
  "hashtable_unlink h s i ht =
     (let idx = bucket_index h (bucket_count ht) in
      case chain_unlink (node_match (string_keys ht) h s i) (buckets ht ! idx) of
        Some ns \<Rightarrow> (True, ht\<lparr>buckets := (buckets ht)[idx := ns], entries := entries ht - 1\<rparr>)
      | None \<Rightarrow> (False, ht))"

definition hashtable_put :: "(ht_site \<Rightarrow> bool) \<Rightarrow> string \<Rightarrow> nat \<Rightarrow> hashtable \<Rightarrow> int \<times> hashtable" where
  "hashtable_put ok key v ht =
     (if \<not> string_keys ht then (- 1, ht) else hashtable_insert ok (hash_string key) (Some key) 0 v ht)"

definition hashtable_get :: "hashtable \<Rightarrow> string \<Rightarrow> nat" where
  "hashtable_get ht key =
     (if \<not> string_keys ht then 0
      else case find_node ht (hash_string key) (Some key) 0 of Some n \<Rightarrow> h_value n | None \<Rightarrow> 0)"

definition hashtable_remove :: "string \<Rightarrow> hashtable \<Rightarrow> bool \<times> hashtable" where
  "hashtable_remove key ht =
     (if \<not> string_keys ht then (False, ht) else hashtable_unlink (hash_string key) (Some key) 0 ht)"

definition hashtable_put_u64 :: "(ht_site \<Rightarrow> bool) \<Rightarrow> u64 \<Rightarrow> nat \<Rightarrow> hashtable \<Rightarrow> int \<times> hashtable" where
  "hashtable_put_u64 ok key v ht =
     (if string_keys ht then (- 1, ht) else hashtable_insert ok (hash_u64 key) None key v ht)"

definition hashtable_get_u64 :: "hashtable \<Rightarrow> u64 \<Rightarrow> nat" where
  "hashtable_get_u64 ht key =
     (if string_keys ht then 0
      else case find_node ht (hash_u64 key) None key of Some n \<Rightarrow> h_value n | None \<Rightarrow> 0)"

definition hashtable_remove_u64 :: "u64 \<Rightarrow> hashtable \<Rightarrow> bool \<times> hashtable" where
  "hashtable_remove_u64 key ht =
     (if string_keys ht then (False, ht) else hashtable_unlink (hash_u64 key) None key ht)"

definition hashtable_longest_chain :: "hashtable \<Rightarrow> nat" where
  "hashtable_longest_chain ht =
     foldl (\<lambda>longest c. if longest < length c then length c else longest) 0 (take (bucket_count ht) (buckets ht))"

definition hashtable_foreach :: "(hnode \<Rightarrow> 'c \<Rightarrow> 'c) \<Rightarrow> 'c \<Rightarrow> hashtable \<Rightarrow> 'c" where
  "hashtable_foreach fn ctx ht =
     foldl (foldl (\<lambda>c n. fn n c)) ctx (take (bucket_count ht) (buckets ht))"

section \<open>Keys and the map a table stands for\<close>

type_synonym hkey = "string + u64"

definition nkey :: "bool \<Rightarrow> hnode \<Rightarrow> hkey" where
  "nkey sk n = (if sk then Inl (the (skey n)) else Inr (ikey n))"

fun khash :: "hkey \<Rightarrow> u64" where
  "khash (Inl s) = hash_string s"
| "khash (Inr v) = hash_u64 v"

fun kstr :: "hkey \<Rightarrow> string option" where
  "kstr (Inl s) = Some s"
| "kstr (Inr v) = None"

fun kint :: "hkey \<Rightarrow> u64" where
  "kint (Inl s) = 0"
| "kint (Inr v) = v"

abbreviation nodes :: "hashtable \<Rightarrow> hnode list" where
  "nodes ht \<equiv> concat (buckets ht)"

abbreviation kvs :: "bool \<Rightarrow> hnode list \<Rightarrow> (hkey \<times> nat) list" where
  "kvs sk ns \<equiv> map (\<lambda>n. (nkey sk n, h_value n)) ns"

definition ht_map :: "hashtable \<Rightarrow> hkey \<Rightarrow> nat option" where
  "ht_map ht = map_of (kvs (string_keys ht) (nodes ht))"

definition node_ok :: "bool \<Rightarrow> nat \<Rightarrow> nat \<Rightarrow> hnode \<Rightarrow> bool" where
  "node_ok sk cnt i n \<longleftrightarrow> h_hash n = khash (nkey sk n) \<and> bucket_index (h_hash n) cnt = i \<and>
     (sk \<longrightarrow> skey n \<noteq> None)"

definition ht_wf :: "hashtable \<Rightarrow> bool" where
  "ht_wf ht \<longleftrightarrow> (\<exists>k \<le> 63. bucket_count ht = 2 ^ k) \<and> length (buckets ht) = bucket_count ht \<and>
     (\<forall>i < bucket_count ht. \<forall>n \<in> set (buckets ht ! i). node_ok (string_keys ht) (bucket_count ht) i n) \<and>
     distinct (map (nkey (string_keys ht)) (nodes ht)) \<and> entries ht = length (nodes ht)"

lemma and_mask_word: "unat ((h :: u64) AND (of_nat (2 ^ k) - 1)) = unat h mod 2 ^ k" if "k \<le> 63"
proof -
  have "h AND (of_nat (2 ^ k) - 1) = take_bit k h"
    by (simp add: take_bit_eq_mask mask_eq_exp_minus_1)
  moreover have "unat (take_bit k h) = take_bit k (unat h)" by (rule unsigned_take_bit_eq)
  ultimately show ?thesis by (simp only: take_bit_eq_mod[of k "unat h"])
qed

lemma bucket_index_less: "k \<le> 63 \<Longrightarrow> bucket_index h (2 ^ k) < 2 ^ k"
  by (simp only: bucket_index_def and_mask_word) simp

lemma ht_wfD:
  assumes "ht_wf ht"
  shows "bucket_index h (bucket_count ht) < length (buckets ht)" "length (buckets ht) = bucket_count ht"
    "i < length (buckets ht) \<Longrightarrow> n \<in> set (buckets ht ! i) \<Longrightarrow> node_ok (string_keys ht) (bucket_count ht) i n"
    "distinct (map (nkey (string_keys ht)) (nodes ht))"
  using assms bucket_index_less by (auto simp: ht_wf_def)

lemma concat_split:
  assumes "i < length bs"
  shows "concat bs = concat (take i bs) @ bs ! i @ concat (drop (Suc i) bs)"
    "concat (bs[i := c]) = concat (take i bs) @ c @ concat (drop (Suc i) bs)"
  using arg_cong[OF id_take_nth_drop[OF assms], of concat] assms by (simp_all add: upd_conv_take_nth_drop)

lemma node_match_key:
  assumes "node_ok sk cnt i n" "isl k = sk"
  shows "node_match sk (khash k) (kstr k) (kint k) n \<longleftrightarrow> nkey sk n = k"
  using assms by (cases k) (auto simp: node_match_def node_ok_def nkey_def)

lemma find_distinct:
  assumes "distinct (map f xs)"
  shows "find (\<lambda>x. f x = k) xs = Some x \<longleftrightarrow> x \<in> set xs \<and> f x = k"
  using assms by (induction xs) auto

text \<open>A key can only be in the bucket its hash selects.\<close>

lemma key_bucket:
  assumes wf: "ht_wf ht" and n: "n \<in> set (nodes ht)" "nkey (string_keys ht) n = k"
  shows "n \<in> set (buckets ht ! bucket_index (khash k) (bucket_count ht))"
proof -
  obtain c where "c \<in> set (buckets ht)" "n \<in> set c" using n(1) by auto
  then obtain i where i: "i < length (buckets ht)" "n \<in> set (buckets ht ! i)"
    by (metis in_set_conv_nth)
  then have "bucket_index (khash k) (bucket_count ht) = i"
    using ht_wfD(3)[OF wf i] n(2) by (auto simp: node_ok_def)
  then show ?thesis using i by simp
qed

lemma find_node_iff:
  assumes wf: "ht_wf ht" and "isl k = string_keys ht"
  shows "find_node ht (khash k) (kstr k) (kint k) = Some n \<longleftrightarrow> n \<in> set (nodes ht) \<and> nkey (string_keys ht) n = k"
proof -
  let ?i = "bucket_index (khash k) (bucket_count ht)"
  have i: "?i < length (buckets ht)" using ht_wfD(1)[OF wf] .
  have "find_node ht (khash k) (kstr k) (kint k) = find (\<lambda>n. nkey (string_keys ht) n = k) (buckets ht ! ?i)"
    unfolding find_node_def using ht_wfD(3)[OF wf i] node_match_key[OF _ assms(2)]
    by (intro find_cong) auto
  moreover have "distinct (map (nkey (string_keys ht)) (buckets ht ! ?i))"
    using ht_wfD(4)[OF wf] concat_split(1)[OF i] by simp
  ultimately have "find_node ht (khash k) (kstr k) (kint k) = Some n \<longleftrightarrow>
      n \<in> set (buckets ht ! ?i) \<and> nkey (string_keys ht) n = k"
    by (simp only: find_distinct)
  moreover have "set (buckets ht ! ?i) \<subseteq> set (nodes ht)"
    unfolding set_concat by (rule UN_upper[OF nth_mem[OF i]])
  ultimately show ?thesis using key_bucket[OF wf] by blast
qed

lemma ht_map_iff:
  assumes "ht_wf ht"
  shows "ht_map ht k = Some v \<longleftrightarrow> (\<exists>n \<in> set (nodes ht). nkey (string_keys ht) n = k \<and> h_value n = v)"
proof -
  have "distinct (map fst (kvs (string_keys ht) (nodes ht)))"
    using ht_wfD(4)[OF assms] by (simp add: comp_def)
  from map_of_eq_Some_iff[OF this] show ?thesis unfolding ht_map_def by auto
qed

lemma find_node_map:
  assumes "ht_wf ht" "isl k = string_keys ht"
  shows "map_option h_value (find_node ht (khash k) (kstr k) (kint k)) = ht_map ht k"
proof (cases "find_node ht (khash k) (kstr k) (kint k)")
  case None
  have "ht_map ht k \<noteq> Some v" for v using ht_map_iff[OF assms(1)] find_node_iff[OF assms] None by auto
  then show ?thesis using None by (cases "ht_map ht k") auto
next
  case (Some n)
  then have "ht_map ht k = Some (h_value n)" using ht_map_iff[OF assms(1)] find_node_iff[OF assms] by auto
  then show ?thesis using Some by simp
qed

section \<open>Chains\<close>

lemma chain_set_keys:
  "map (nkey sk) (chain_set P v c) = map (nkey sk) c" "length (chain_set P v c) = length c"
  "n \<in> set (chain_set P v c) \<Longrightarrow> \<exists>m \<in> set c. nkey sk n = nkey sk m \<and> h_hash n = h_hash m \<and> skey n = skey m"
  by (induction c) (auto simp: nkey_def split: if_splits)

lemma chain_set_kvs:
  assumes "\<And>n. n \<in> set c \<Longrightarrow> P n \<longleftrightarrow> nkey sk n = k" "distinct (map (nkey sk) c)"
  shows "map_of (kvs sk (chain_set P v c)) = (if k \<in> set (map (nkey sk) c)
    then (map_of (kvs sk c))(k \<mapsto> v) else map_of (kvs sk c))"
  using assms
proof (induction c)
  case (Cons n c)
  show ?case
  proof (cases "P n")
    case True
    then have "nkey sk n = k" using Cons.prems(1) by simp
    moreover have "nkey sk (n\<lparr>h_value := v\<rparr>) = nkey sk n" by (simp add: nkey_def)
    ultimately show ?thesis using True by simp
  next
    case False
    then have "nkey sk n \<noteq> k" using Cons.prems(1) by simp
    then show ?thesis using Cons False by (auto simp: fun_upd_twist)
  qed
qed simp

lemma chain_unlink_cases:
  "case chain_unlink P c of
     Some ns \<Rightarrow> (\<exists>as n bs. c = as @ n # bs \<and> P n \<and> ns = as @ bs)
   | None \<Rightarrow> (\<forall>n \<in> set c. \<not> P n)"
proof (induction c)
  case (Cons n c)
  show ?case
  proof (cases "P n")
    case True
    then show ?thesis by (auto intro!: exI[of _ "[]"])
  next
    case False
    show ?thesis
    proof (cases "chain_unlink P c")
      case None
      then show ?thesis using Cons False by auto
    next
      case (Some ns)
      then obtain as m bs where "c = as @ m # bs" "P m" "ns = as @ bs" using Cons by auto
      then show ?thesis using Some False by (auto intro!: exI[of _ "n # as"])
    qed
  qed
qed simp

section \<open>Growth\<close>

lemma foldl_concat: "foldl (foldl f) a xss = foldl f a (concat xss)"
  by (induction xss arbitrary: a) auto

lemma rehash_all:
  assumes "k \<le> 63" "length nb = 2 ^ k" "\<forall>i < 2 ^ k. \<forall>n \<in> set (nb ! i). bucket_index (h_hash n) (2 ^ k) = i"
  shows "\<exists>nb' coll'. foldl (rehash_node (2 ^ k)) (nb, coll) ns = (nb', coll') \<and> length nb' = 2 ^ k \<and>
    (\<forall>i < 2 ^ k. \<forall>n \<in> set (nb' ! i). bucket_index (h_hash n) (2 ^ k) = i) \<and>
    mset (concat nb') = mset (concat nb) + mset ns"
  using assms(2,3)
proof (induction ns arbitrary: nb coll)
  case (Cons n ns)
  let ?i = "bucket_index (h_hash n) (2 ^ k)"
  have i: "?i < length nb" using bucket_index_less[OF assms(1)] Cons.prems(1) by simp
  let ?nb = "nb[?i := n # nb ! ?i]"
  let ?coll = "if nb ! ?i \<noteq> [] then coll + 1 else coll"
  have ms: "mset (concat ?nb) = add_mset n (mset (concat nb))"
    unfolding concat_split(2)[OF i] using arg_cong[OF concat_split(1)[OF i], of mset] by simp
  have idx: "\<forall>i < 2 ^ k. \<forall>n \<in> set (?nb ! i). bucket_index (h_hash n) (2 ^ k) = i"
    using Cons.prems i by (auto simp: nth_list_update)
  have "length ?nb = 2 ^ k" using Cons.prems(1) by simp
  from Cons.IH[OF this idx, of ?coll] obtain nb' coll' where
    "foldl (rehash_node (2 ^ k)) (?nb, ?coll) ns = (nb', coll')" "length nb' = 2 ^ k"
    "\<forall>i < 2 ^ k. \<forall>n \<in> set (nb' ! i). bucket_index (h_hash n) (2 ^ k) = i"
    "mset (concat nb') = mset (concat ?nb) + mset ns" by blast
  moreover have "rehash_node (2 ^ k) (nb, coll) n = (?nb, ?coll)"
    by (simp only: rehash_node_def Let_def prod.case)
  ultimately show ?case by (intro exI[of _ nb'] exI[of _ coll']) (simp add: ms)
qed simp

lemma hashtable_grow_ok:
  assumes wf: "ht_wf ht"
  shows "ht_wf (hashtable_grow ok ht) \<and> ht_map (hashtable_grow ok ht) = ht_map ht \<and>
    string_keys (hashtable_grow ok ht) = string_keys ht"
proof (cases "HT_MAX_BUCKETS \<le> bucket_count ht \<or> \<not> ok")
  case True
  then show ?thesis using wf by (auto simp: hashtable_grow_def Let_def)
next
  case False
  obtain k where k: "bucket_count ht = 2 ^ k" "length (buckets ht) = 2 ^ k" using wf by (auto simp: ht_wf_def)
  have "(2 :: nat) ^ k < 2 ^ 12" using False k(1) by simp
  then have k12: "k < 12" by (rule power_less_imp_less_exp[rotated]) simp
  then have k63: "Suc k \<le> 63" by simp
  have two: "bucket_count ht * 2 = 2 ^ Suc k" using k by simp
  obtain nb coll where nb: "foldl (rehash_node (2 ^ Suc k)) (replicate (2 ^ Suc k) [], 0) (nodes ht) = (nb, coll)"
    "length nb = 2 ^ Suc k" "\<forall>i < 2 ^ Suc k. \<forall>n \<in> set (nb ! i). bucket_index (h_hash n) (2 ^ Suc k) = i"
    "mset (concat nb) = mset (nodes ht)"
    using rehash_all[OF k63, of "replicate (2 ^ Suc k) []" 0 "nodes ht"] by auto
  have grow: "hashtable_grow ok ht = ht\<lparr>buckets := nb, bucket_count := 2 ^ Suc k, collisions := coll\<rparr>"
    using False nb(1) k unfolding hashtable_grow_def Let_def two foldl_concat by simp
  let ?sk = "string_keys ht"
  have set: "set (concat nb) = set (nodes ht)" using nb(4) by (rule mset_eq_setD)
  have dist: "distinct (map (nkey ?sk) (concat nb))"
    using ht_wfD(4)[OF wf] nb(4) by (metis mset_eq_imp_distinct_iff mset_map)
  have ok: "node_ok ?sk (2 ^ Suc k) i n" if "i < 2 ^ Suc k" "n \<in> set (nb ! i)" for i n
  proof -
    have "n \<in> set (concat nb)" using that nb(2) nth_mem[of i nb] by auto
    then have "n \<in> set (nodes ht)" unfolding set .
    then obtain c where "c \<in> set (buckets ht)" "n \<in> set c" by auto
    then obtain j where "j < length (buckets ht)" "n \<in> set (buckets ht ! j)" by (metis in_set_conv_nth)
    from ht_wfD(3)[OF wf this] show ?thesis using nb(3) that unfolding node_ok_def by blast
  qed
  have "ht_wf (hashtable_grow True ht)"
    unfolding ht_wf_def using ok dist nb(2) k63 wf mset_eq_length[OF nb(4)] grow False
    by (auto simp: ht_wf_def intro!: exI[of _ "Suc k"])
  moreover have "map_of (kvs ?sk (concat nb)) = map_of (kvs ?sk (nodes ht))"
    using dist ht_wfD(4)[OF wf] set by (subst map_of_inject_set) (simp_all add: comp_def)
  ultimately show ?thesis using grow False by (simp add: ht_map_def)
qed

section \<open>Insertion and removal\<close>

lemma ht_wf_update:
  assumes wf: "ht_wf ht" and i: "i < length (buckets ht)"
    and c: "\<And>n. n \<in> set c \<Longrightarrow> node_ok (string_keys ht) (bucket_count ht) i n"
    and dist: "distinct (map (nkey (string_keys ht)) (concat ((buckets ht)[i := c])))"
    and ht': "buckets ht' = (buckets ht)[i := c]" "bucket_count ht' = bucket_count ht"
      "string_keys ht' = string_keys ht" "entries ht' = length (concat ((buckets ht)[i := c]))"
  shows "ht_wf ht'"
proof -
  have "node_ok (string_keys ht) (bucket_count ht) j n"
    if "j < bucket_count ht" "n \<in> set ((buckets ht)[i := c] ! j)" for j n
    using that c ht_wfD(2,3)[OF wf] by (cases "j = i") auto
  then show ?thesis using wf dist ht' by (auto simp: ht_wf_def)
qed

lemma insert_existing:
  assumes wf: "ht_wf ht" and k: "isl k = string_keys ht"
    and f: "find_node ht (khash k) (kstr k) (kint k) \<noteq> None"
  shows "fst (hashtable_insert ok (khash k) (kstr k) (kint k) v ht) = 0"
    "ht_wf (snd (hashtable_insert ok (khash k) (kstr k) (kint k) v ht))"
    "ht_map (snd (hashtable_insert ok (khash k) (kstr k) (kint k) v ht)) = (ht_map ht)(k \<mapsto> v)"
    "string_keys (snd (hashtable_insert ok (khash k) (kstr k) (kint k) v ht)) = string_keys ht"
proof -
  let ?sk = "string_keys ht" and ?i = "bucket_index (khash k) (bucket_count ht)"
  let ?P = "node_match ?sk (khash k) (kstr k) (kint k)"
  let ?c = "buckets ht ! ?i" and ?c' = "chain_set ?P v (buckets ht ! ?i)"
  have i: "?i < length (buckets ht)" using ht_wfD(1)[OF wf] .
  let ?ht = "ht\<lparr>buckets := (buckets ht)[?i := ?c']\<rparr>"
  have ins: "hashtable_insert ok (khash k) (kstr k) (kint k) v ht = (0, ?ht)"
    using f by (simp add: hashtable_insert_def Let_def)
  then show "fst (hashtable_insert ok (khash k) (kstr k) (kint k) v ht) = 0"
    "string_keys (snd (hashtable_insert ok (khash k) (kstr k) (kint k) v ht)) = ?sk" by simp_all
  have P: "?P n \<longleftrightarrow> nkey ?sk n = k" if "n \<in> set ?c" for n
    using node_match_key[OF ht_wfD(3)[OF wf i that] k] .
  obtain n where n: "n \<in> set (nodes ht)" "nkey ?sk n = k" using f find_node_iff[OF wf k] by auto
  then have kc: "k \<in> set (map (nkey ?sk) ?c)" using key_bucket[OF wf n] by auto
  let ?xs = "concat (take ?i (buckets ht))" and ?ys = "concat (drop (Suc ?i) (buckets ht))"
  have old: "nodes ht = ?xs @ ?c @ ?ys" and new: "nodes ?ht = ?xs @ ?c' @ ?ys"
    using concat_split[OF i] by simp_all
  have keys: "map (nkey ?sk) (nodes ?ht) = map (nkey ?sk) (nodes ht)"
    unfolding old new by (simp add: chain_set_keys(1))
  have "ht_wf ?ht"
  proof (rule ht_wf_update[OF wf i, of ?c'])
    fix m assume "m \<in> set ?c'"
    then obtain m' where "m' \<in> set ?c" "nkey ?sk m = nkey ?sk m'" "h_hash m = h_hash m'" "skey m = skey m'"
      using chain_set_keys(3) by metis
    then show "node_ok ?sk (bucket_count ht) ?i m" using ht_wfD(3)[OF wf i] unfolding node_ok_def by metis
  next
    show "distinct (map (nkey ?sk) (concat ((buckets ht)[?i := ?c'])))"
      using keys ht_wfD(4)[OF wf] by simp
  next
    show "entries ?ht = length (concat ((buckets ht)[?i := ?c']))"
      using wf keys map_eq_imp_length_eq[OF keys] by (simp add: ht_wf_def)
  qed simp_all
  then show "ht_wf (snd (hashtable_insert ok (khash k) (kstr k) (kint k) v ht))" by (simp add: ins)
  have "set (map (nkey ?sk) ?xs) \<inter> set (map (nkey ?sk) ?c) = {}"
    using ht_wfD(4)[OF wf] unfolding old map_append distinct_append set_append by blast
  then have "k \<notin> set (map (nkey ?sk) ?xs)" using kc by blast
  then have "k \<notin> dom (map_of (kvs ?sk ?xs))" by (simp add: dom_map_of_conv_image_fst image_image)
  moreover have "map_of (kvs ?sk ?c') = (map_of (kvs ?sk ?c))(k \<mapsto> v)"
    using chain_set_kvs[of ?c ?P ?sk k v] P kc ht_wfD(4)[OF wf] unfolding old by simp
  ultimately have "map_of (kvs ?sk (?xs @ ?c' @ ?ys)) = (map_of (kvs ?sk (?xs @ ?c @ ?ys)))(k \<mapsto> v)"
    by (simp add: map_add_upd_left)
  then have "map_of (kvs ?sk (nodes ?ht)) = (map_of (kvs ?sk (nodes ht)))(k \<mapsto> v)"
    unfolding old new .
  then show "ht_map (snd (hashtable_insert ok (khash k) (kstr k) (kint k) v ht)) = (ht_map ht)(k \<mapsto> v)"
    by (simp add: ins ht_map_def)
qed

lemma insert_new:
  fixes v c :: nat
  assumes wf: "ht_wf ht" and k: "isl k = string_keys ht" and new: "ht_map ht k = None"
  defines "i \<equiv> bucket_index (khash k) (bucket_count ht)"
  defines "n \<equiv> \<lparr>h_hash = khash k, skey = (if string_keys ht then kstr k else None), ikey = kint k, h_value = v\<rparr>"
  defines "ht' \<equiv> ht\<lparr>collisions := c, buckets := (buckets ht)[i := n # buckets ht ! i], entries := entries ht + 1\<rparr>"
  shows "ht_wf ht'" "ht_map ht' = (ht_map ht)(k \<mapsto> v)"
proof -
  let ?sk = "string_keys ht"
  have i: "i < length (buckets ht)" unfolding i_def using ht_wfD(1)[OF wf] .
  have key: "nkey ?sk n = k" using k by (cases k) (auto simp: n_def nkey_def)
  have nok: "node_ok ?sk (bucket_count ht) i n"
    using k key by (cases k) (auto simp: node_ok_def n_def i_def)
  let ?xs = "concat (take i (buckets ht))" and ?ys = "concat (drop (Suc i) (buckets ht))"
  have old: "nodes ht = ?xs @ (buckets ht ! i) @ ?ys"
    and now: "concat ((buckets ht)[i := n # buckets ht ! i]) = ?xs @ (n # buckets ht ! i) @ ?ys"
    using concat_split[OF i] by simp_all
  have ms: "mset (concat ((buckets ht)[i := n # buckets ht ! i])) = add_mset n (mset (nodes ht))"
    unfolding now by (subst old) simp
  have "ht_map ht k \<noteq> Some (h_value m)" for m using new by simp
  then have fresh: "k \<notin> nkey ?sk ` set (nodes ht)" unfolding ht_map_iff[OF wf] by blast
  have "distinct (map (nkey ?sk) (n # nodes ht))" using ht_wfD(4)[OF wf] fresh key by simp
  moreover have "mset (map (nkey ?sk) (concat ((buckets ht)[i := n # buckets ht ! i]))) =
      mset (map (nkey ?sk) (n # nodes ht))" by (simp only: mset_map ms mset.simps)
  ultimately have dist: "distinct (map (nkey ?sk) (concat ((buckets ht)[i := n # buckets ht ! i])))"
    by (metis mset_eq_imp_distinct_iff)
  have len: "length (concat ((buckets ht)[i := n # buckets ht ! i])) = length (nodes ht) + 1"
    using arg_cong[OF ms, of size] by (simp only: size_mset size_add_mset)
  show "ht_wf ht'"
  proof (rule ht_wf_update[OF wf i, of "n # buckets ht ! i"])
    show "node_ok ?sk (bucket_count ht) i m" if "m \<in> set (n # buckets ht ! i)" for m
      using that nok ht_wfD(3)[OF wf i] by auto
    show "entries ht' = length (concat ((buckets ht)[i := n # buckets ht ! i]))"
      using len wf by (simp add: ht'_def ht_wf_def)
  qed (use dist in \<open>simp_all add: ht'_def\<close>)
  have "set (kvs ?sk (concat ((buckets ht)[i := n # buckets ht ! i]))) = set (kvs ?sk (n # nodes ht))"
    using mset_eq_setD[of "concat ((buckets ht)[i := n # buckets ht ! i])" "n # nodes ht"] ms
    by (simp only: set_map mset.simps)
  then have "map_of (kvs ?sk (concat ((buckets ht)[i := n # buckets ht ! i]))) = map_of (kvs ?sk (n # nodes ht))"
    using dist \<open>distinct (map (nkey ?sk) (n # nodes ht))\<close>
    by (subst map_of_inject_set) (simp_all only: map_map comp_def fst_conv)
  then show "ht_map ht' = (ht_map ht)(k \<mapsto> v)" using key by (simp add: ht_map_def ht'_def n_def)
qed


lemma hashtable_insert_spec:
  fixes v :: nat and ok :: "ht_site \<Rightarrow> bool"
  assumes wf: "ht_wf ht" and k: "isl k = string_keys ht"
  defines "r \<equiv> hashtable_insert ok (khash k) (kstr k) (kint k) v ht"
  shows "ht_wf (snd r) \<and> string_keys (snd r) = string_keys ht \<and>
    (fst r = 0 \<and> ht_map (snd r) = (ht_map ht)(k \<mapsto> v) \<or> fst r = - 1 \<and> ht_map (snd r) = ht_map ht)"
proof (cases "find_node ht (khash k) (kstr k) (kint k)")
  case (Some n)
  then show ?thesis using insert_existing[OF wf k, of ok v] by (simp add: r_def)
next
  case None
  define ht1 where "ht1 = (if bucket_count ht * 3 < entries ht * 4 then hashtable_grow (ok Grow_Site) ht else ht)"
  have h1: "ht_wf ht1" "ht_map ht1 = ht_map ht" "string_keys ht1 = string_keys ht"
    using hashtable_grow_ok[OF wf] wf by (auto simp: ht1_def)
  have "ht_map ht k = None" using find_node_map[OF wf k] None by simp
  then have new: "ht_map ht1 k = None" using h1 by simp
  have k1: "isl k = string_keys ht1" using k h1 by simp
  show ?thesis
  proof (cases "ok Node_Site \<and> \<not> (string_keys ht1 \<and> kstr k \<noteq> None \<and> \<not> ok Key_Site)")
    case True
    then show ?thesis
      using insert_new[OF h1(1) k1 new] h1 None
      by (simp add: r_def hashtable_insert_def Let_def ht1_def[symmetric])
  next
    case False
    then show ?thesis using h1 None by (auto simp: r_def hashtable_insert_def Let_def ht1_def[symmetric])
  qed
qed

lemma distinct_map_drop:
  "distinct (map f (xs @ (as @ n # bs) @ ys)) \<Longrightarrow>
   distinct (map f (xs @ (as @ bs) @ ys)) \<and> f n \<notin> f ` set (xs @ (as @ bs) @ ys)"
  by auto

lemma map_drop_key:
  assumes "\<And>k v. f k = Some v \<longleftrightarrow> (\<exists>n \<in> A. key n = k \<and> val n = v)"
    and "\<And>k v. g k = Some v \<longleftrightarrow> (\<exists>n \<in> B. key n = k \<and> val n = v)"
    and "A = insert n B" "key n = k0" "key n \<notin> key ` B"
  shows "g = f(k0 := None)"
proof
  fix k
  have "g k = Some v \<longleftrightarrow> (f(k0 := None)) k = Some v" for v
  proof (cases "k = k0")
    case True
    then have "\<not> (\<exists>n \<in> B. key n = k)" using assms(4,5) by (metis imageI)
    then show ?thesis using True assms(2) by auto
  next
    case False
    then show ?thesis using assms(1-4) by auto
  qed
  then show "g k = (f(k0 := None)) k" by (metis not_None_eq)
qed

lemma hashtable_unlink_spec:
  assumes wf: "ht_wf ht" and k: "isl k = string_keys ht"
  defines "r \<equiv> hashtable_unlink (khash k) (kstr k) (kint k) ht"
  shows "ht_wf (snd r) \<and> string_keys (snd r) = string_keys ht \<and> (fst r \<longleftrightarrow> ht_map ht k \<noteq> None) \<and>
    ht_map (snd r) = (ht_map ht)(k := None)"
proof -
  let ?sk = "string_keys ht" and ?i = "bucket_index (khash k) (bucket_count ht)"
  let ?P = "node_match ?sk (khash k) (kstr k) (kint k)" and ?c = "buckets ht ! ?i"
  have i: "?i < length (buckets ht)" using ht_wfD(1)[OF wf] .
  have P: "?P n \<longleftrightarrow> nkey ?sk n = k" if "n \<in> set ?c" for n
    using node_match_key[OF ht_wfD(3)[OF wf i that] k] .
  show ?thesis
  proof (cases "chain_unlink ?P ?c")
    case None
    then have "\<forall>n \<in> set ?c. nkey ?sk n \<noteq> k" using chain_unlink_cases[of ?c ?P] P by simp
    then have "\<forall>n \<in> set (nodes ht). nkey ?sk n \<noteq> k" using key_bucket[OF wf] by blast
    then have no: "ht_map ht k = None" using ht_map_iff[OF wf] by (cases "ht_map ht k") blast+
    then show ?thesis using None wf by (auto simp: r_def hashtable_unlink_def Let_def)
  next
    case (Some ns)
    then obtain as n bs where c: "?c = as @ n # bs" "?P n" "ns = as @ bs"
      using chain_unlink_cases[of ?c ?P] by auto
    then have nk: "nkey ?sk n = k" using P[of n] by simp
    let ?ht = "ht\<lparr>buckets := (buckets ht)[?i := ns], entries := entries ht - 1\<rparr>"
    have r: "r = (True, ?ht)" using Some by (simp add: r_def hashtable_unlink_def Let_def)
    let ?xs = "concat (take ?i (buckets ht))" and ?ys = "concat (drop (Suc ?i) (buckets ht))"
    have old: "nodes ht = ?xs @ (as @ n # bs) @ ?ys" and now: "concat ((buckets ht)[?i := ns]) = ?xs @ ns @ ?ys"
      using concat_split[OF i] c(1) by simp_all
    have dist: "distinct (map (nkey ?sk) (?xs @ ns @ ?ys))" "k \<notin> nkey ?sk ` set (?xs @ ns @ ?ys)"
      using distinct_map_drop[OF ht_wfD(4)[OF wf, unfolded old]] nk c(3) by simp_all
    have len: "length (nodes ht) = Suc (length (concat ((buckets ht)[?i := ns])))"
      unfolding old now by (simp add: c(3))
    have wf': "ht_wf ?ht"
    proof (rule ht_wf_update[OF wf i, of ns])
      show "node_ok ?sk (bucket_count ht) ?i m" if "m \<in> set ns" for m
        using that ht_wfD(3)[OF wf i] c by auto
      show "distinct (map (nkey ?sk) (concat ((buckets ht)[?i := ns])))" unfolding now by (rule dist(1))
      show "entries ?ht = length (concat ((buckets ht)[?i := ns]))"
        using wf len by (simp add: ht_wf_def)
    qed simp_all
    have mem: "m \<in> set (nodes ht) \<longleftrightarrow> m = n \<or> m \<in> set (nodes ?ht)" for m
    proof -
      have nds: "nodes ?ht = ?xs @ (as @ bs) @ ?ys" using now c(3) by simp
      show ?thesis unfolding nds old by (simp only: set_append list.set) blast
    qed
    have "nkey ?sk n \<notin> nkey ?sk ` set (nodes ?ht)" using dist(2) nk now by simp
    then have "ht_map ?ht = (ht_map ht)(k := None)"
    proof (intro map_drop_key[OF ht_map_iff[OF wf] _ _ nk])
      show "ht_map ?ht k' = Some v \<longleftrightarrow> (\<exists>n \<in> set (nodes ?ht). nkey ?sk n = k' \<and> h_value n = v)" for k' v
        using ht_map_iff[OF wf', of k' v] by simp
      show "set (nodes ht) = insert n (set (nodes ?ht))" using mem by blast
    qed
    moreover have "ht_map ht k = Some (h_value n)" unfolding ht_map_iff[OF wf] using mem nk by blast
    ultimately show ?thesis using wf' r by auto
  qed
qed

section \<open>The tables are maps\<close>

definition str_look :: "hashtable \<Rightarrow> string \<Rightarrow> nat option" where
  "str_look ht key = ht_map ht (Inl key)"

definition str_put :: "(ht_site \<Rightarrow> bool) \<Rightarrow> string \<Rightarrow> nat \<Rightarrow> hashtable \<Rightarrow> bool \<times> hashtable" where
  "str_put ok key v ht = (let (r, ht') = hashtable_put ok key v ht in (r = 0, ht'))"

definition u64_look :: "hashtable \<Rightarrow> u64 \<Rightarrow> nat option" where
  "u64_look ht key = ht_map ht (Inr key)"

definition u64_put :: "(ht_site \<Rightarrow> bool) \<Rightarrow> u64 \<Rightarrow> nat \<Rightarrow> hashtable \<Rightarrow> bool \<times> hashtable" where
  "u64_put ok key v ht = (let (r, ht') = hashtable_put_u64 ok key v ht in (r = 0, ht'))"

interpretation st: kv_table str_look str_put hashtable_remove "\<lambda>ht. ht_wf ht \<and> string_keys ht"
proof
  fix t :: hashtable and a k v assume t: "ht_wf t \<and> string_keys t"
  have put: "str_put a k v t = (fst (hashtable_insert a (hash_string k) (Some k) 0 v t) = 0,
      snd (hashtable_insert a (hash_string k) (Some k) 0 v t))"
    using t by (simp add: str_put_def hashtable_put_def split_beta)
  note spec = hashtable_insert_spec[of t "Inl k" a v, simplified]
  show "ht_wf (snd (str_put a k v t)) \<and> string_keys (snd (str_put a k v t))" using spec t put by auto
  show "str_look (snd (str_put a k v t)) = (if fst (str_put a k v t) then (str_look t)(k \<mapsto> v) else str_look t)"
    using spec t put by (auto simp: str_look_def fun_eq_iff)
next
  fix t :: hashtable and k assume t: "ht_wf t \<and> string_keys t"
  note spec = hashtable_unlink_spec[of t "Inl k", simplified]
  show "ht_wf (snd (hashtable_remove k t)) \<and> string_keys (snd (hashtable_remove k t))"
    "str_look (snd (hashtable_remove k t)) = (str_look t)(k := None)"
    "fst (hashtable_remove k t) = (str_look t k \<noteq> None)"
    using spec t by (auto simp: hashtable_remove_def str_look_def fun_eq_iff)
qed

interpretation ut: kv_table u64_look u64_put hashtable_remove_u64 "\<lambda>ht. ht_wf ht \<and> \<not> string_keys ht"
proof
  fix t :: hashtable and a k v assume t: "ht_wf t \<and> \<not> string_keys t"
  have put: "u64_put a k v t = (fst (hashtable_insert a (hash_u64 k) None k v t) = 0,
      snd (hashtable_insert a (hash_u64 k) None k v t))"
    using t by (simp add: u64_put_def hashtable_put_u64_def split_beta)
  note spec = hashtable_insert_spec[of t "Inr k" a v, simplified]
  show "ht_wf (snd (u64_put a k v t)) \<and> \<not> string_keys (snd (u64_put a k v t))" using spec t put by auto
  show "u64_look (snd (u64_put a k v t)) = (if fst (u64_put a k v t) then (u64_look t)(k \<mapsto> v) else u64_look t)"
    using spec t put by (auto simp: u64_look_def fun_eq_iff)
next
  fix t :: hashtable and k assume t: "ht_wf t \<and> \<not> string_keys t"
  note spec = hashtable_unlink_spec[of t "Inr k", simplified]
  show "ht_wf (snd (hashtable_remove_u64 k t)) \<and> \<not> string_keys (snd (hashtable_remove_u64 k t))"
    "u64_look (snd (hashtable_remove_u64 k t)) = (u64_look t)(k := None)"
    "fst (hashtable_remove_u64 k t) = (u64_look t k \<noteq> None)"
    using spec t by (auto simp: hashtable_remove_u64_def u64_look_def fun_eq_iff)
qed

lemma hashtable_get_look:
  assumes "ht_wf ht" "string_keys ht"
  shows "hashtable_get ht key = (case str_look ht key of Some v \<Rightarrow> v | None \<Rightarrow> 0)"
  using find_node_map[OF assms(1), of "Inl key", symmetric] assms(2)
  by (cases "find_node ht (hash_string key) (Some key) 0") (auto simp: hashtable_get_def str_look_def)

lemma hashtable_get_u64_look:
  assumes "ht_wf ht" "\<not> string_keys ht"
  shows "hashtable_get_u64 ht key = (case u64_look ht key of Some v \<Rightarrow> v | None \<Rightarrow> 0)"
  using find_node_map[OF assms(1), of "Inr key", symmetric] assms(2)
  by (cases "find_node ht (hash_u64 key) None key") (auto simp: hashtable_get_u64_def u64_look_def)

lemma hashtable_create_wf:
  assumes "hashtable_create ok n sk = Some (Some ht)" "n \<le> 2 ^ 63"
  shows "ht_wf ht \<and> string_keys ht = sk \<and> ht_map ht = Map.empty \<and> entries ht = 0"
proof -
  obtain m where m: "ht_round_up_pow2 n = Some m"
    "ht = \<lparr>buckets = replicate m [], bucket_count = m, entries = 0, collisions = 0, string_keys = sk\<rparr>"
    using assms(1) by (auto simp: hashtable_create_def split: if_splits Option.bind_splits)
  have "\<exists>k \<le> 63. m = 2 ^ k"
  proof (cases "n < 8")
    case True
    then show ?thesis using m(1) by (auto simp: ht_round_up_pow2_def intro!: exI[of _ 3])
  next
    case False
    then show ?thesis using m(1) pow2_loop_total[OF assms(2)] by (auto simp: ht_round_up_pow2_def)
  qed
  moreover have "concat (replicate m []) = []" by (induction m) auto
  ultimately show ?thesis by (auto simp: m(2) ht_wf_def ht_map_def)
qed

section \<open>Properties\<close>

text \<open>C18: A table created for string keys refines a finite map: after any sequence of insertions (any
  of which may fail for lack of memory, and which grow and rehash the table) and removals, a lookup
  returns the last value successfully stored under the key, or NULL.\<close>

theorem hashtable_string_refines_map:
  assumes "hashtable_create ok0 n True = Some (Some ht)" "n \<le> 2 ^ 63" "st.exec cs ht = (rs, ht')"
  shows "hashtable_get ht' key = (case kv_spec (zip cs rs) Map.empty key of Some v \<Rightarrow> v | None \<Rightarrow> 0) \<and>
    entries ht' = length (nodes ht')"
proof -
  have c: "ht_wf ht" "string_keys ht" "str_look ht = Map.empty"
    using hashtable_create_wf[OF assms(1,2)] by (auto simp: str_look_def)
  then have "ht_wf ht'" "string_keys ht'" "str_look ht' = kv_spec (zip cs rs) Map.empty"
    using st.exec_refines[OF _ assms(3)] by auto
  moreover from this(1) have "entries ht' = length (nodes ht')" by (simp add: ht_wf_def)
  ultimately show ?thesis using hashtable_get_look[of ht' key] by simp
qed

definition ht_demo_ops :: "(ht_site \<Rightarrow> bool, string, nat) kv_op list" where
  "ht_demo_ops = [Store (\<lambda>_. True) ''pid'' 7, Store (\<lambda>_. False) ''uid'' 8, Store (\<lambda>_. True) ''gid'' 9, Erase ''gid'']"

theorem hashtable_string_refines_map_witness:
  "\<exists>ht rs ht'. hashtable_create (\<lambda>_. True) 5 True = Some (Some ht) \<and> st.exec ht_demo_ops ht = (rs, ht') \<and>
     hashtable_get ht' ''pid'' = (case kv_spec (zip ht_demo_ops rs) Map.empty ''pid'' of Some v \<Rightarrow> v | None \<Rightarrow> 0)"
proof -
  obtain ht where ht: "hashtable_create (\<lambda>_. True) 5 True = Some (Some ht)"
    by (simp add: hashtable_create_def ht_round_up_pow2_def)
  obtain rs ht' where r: "st.exec ht_demo_ops ht = (rs, ht')" by fastforce
  have "(5 :: nat) \<le> 2 ^ 63" by simp
  from hashtable_string_refines_map[OF ht this r] show ?thesis using ht r by blast
qed

text \<open>The same for a table created for 64-bit integer keys.\<close>

theorem hashtable_u64_refines_map:
  assumes "hashtable_create ok0 n False = Some (Some ht)" "n \<le> 2 ^ 63" "ut.exec cs ht = (rs, ht')"
  shows "hashtable_get_u64 ht' key = (case kv_spec (zip cs rs) Map.empty key of Some v \<Rightarrow> v | None \<Rightarrow> 0)"
proof -
  have c: "ht_wf ht" "\<not> string_keys ht" "u64_look ht = Map.empty"
    using hashtable_create_wf[OF assms(1,2)] by (auto simp: u64_look_def)
  then have "ht_wf ht' \<and> \<not> string_keys ht'" "u64_look ht' = kv_spec (zip cs rs) Map.empty"
    using ut.exec_refines[OF _ assms(3)] by auto
  then show ?thesis using hashtable_get_u64_look[of ht' key] by simp
qed

definition ht_demo_ops64 :: "(ht_site \<Rightarrow> bool, u64, nat) kv_op list" where
  "ht_demo_ops64 = [Store (\<lambda>_. True) 3 7, Store (\<lambda>_. True) 4 8, Erase 4]"

theorem hashtable_u64_refines_map_witness:
  "\<exists>ht rs ht'. hashtable_create (\<lambda>_. True) 5 False = Some (Some ht) \<and>
     ut.exec ht_demo_ops64 ht = (rs, ht') \<and>
     hashtable_get_u64 ht' 3 = (case kv_spec (zip ht_demo_ops64 rs) Map.empty 3 of Some v \<Rightarrow> v | None \<Rightarrow> 0)"
proof -
  obtain ht where ht: "hashtable_create (\<lambda>_. True) 5 False = Some (Some ht)"
    by (simp add: hashtable_create_def ht_round_up_pow2_def)
  obtain rs ht' where r: "ut.exec ht_demo_ops64 ht = (rs, ht')" by fastforce
  have "(5 :: nat) \<le> 2 ^ 63" by simp
  note spec = hashtable_u64_refines_map[OF ht this r, of 3]
  show ?thesis by (rule exI[of _ ht], rule exI[of _ rs], rule exI[of _ ht'], intro conjI ht r spec)
qed

end
