(* ===== verification/Switch.thy ===== *)
theory Switch
  imports Prelude
begin

text \<open>
  \<open>arch/x86_64/cpu/switch.asm\<close>, \<open>arch/aarch64/cpu/switch.S\<close>, \<open>arch/armv8i/cpu/switch.S\<close> and
  \<open>task_forge_frame\<close> of \<open>kernel/task.c\<close>: the register swap under the scheduler. Memory maps the byte
  address of a machine word to its contents. The lemmas say that a thread that is switched out and
  in again finds its callee-saved registers, and that the frame forged for a new thread is the
  mirror image of what the switch pops.
\<close>

type_synonym memory = "nat \<Rightarrow> nat"

section \<open>x86\_64\<close>

record x86_regs =
  x_rbp :: nat
  x_rbx :: nat
  x_r12 :: nat
  x_r13 :: nat
  x_r14 :: nat
  x_r15 :: nat
  x_rflags :: nat
  x_rsp :: nat
  x_rip :: nat

definition push64 :: "nat \<Rightarrow> nat \<times> memory \<Rightarrow> nat \<times> memory" where
  "push64 v sm = (fst sm - 8, (snd sm)(fst sm - 8 := v))"

text \<open>
  The first half, up to \<open>mov [rdi], rsp\<close>. The \<open>call\<close> has left the return address at \<open>rsp\<close>.
  The result is the stack pointer saved through \<open>save_sp\<close>, with the memory.
\<close>

definition x86_ctx_save :: "x86_regs \<Rightarrow> memory \<Rightarrow> nat \<times> memory" where
  "x86_ctx_save r m =
     push64 (x_rflags r) (push64 (x_r15 r) (push64 (x_r14 r) (push64 (x_r13 r)
       (push64 (x_r12 r) (push64 (x_rbx r) (push64 (x_rbp r) (x_rsp r, m)))))))"

text \<open>The second half, from \<open>mov rsp, rsi\<close> to \<open>ret\<close>.\<close>

definition x86_ctx_load :: "nat \<Rightarrow> memory \<Rightarrow> x86_regs" where
  "x86_ctx_load sp m =
     \<lparr>x_rbp = m (sp + 48), x_rbx = m (sp + 40), x_r12 = m (sp + 32), x_r13 = m (sp + 24),
      x_r14 = m (sp + 16), x_r15 = m (sp + 8), x_rflags = m sp, x_rsp = sp + 64, x_rip = m (sp + 56)\<rparr>"

section \<open>AArch64 and AArch32\<close>

text \<open>The register file by register number; words at ascending addresses, \<open>w\<close> bytes apart.\<close>

primrec store_words :: "nat \<Rightarrow> nat \<Rightarrow> nat list \<Rightarrow> memory \<Rightarrow> memory" where
  "store_words w a [] m = m"
| "store_words w a (v # vs) m = store_words w (a + w) vs (m(a := v))"

primrec load_words :: "nat \<Rightarrow> nat \<Rightarrow> nat list \<Rightarrow> memory \<Rightarrow> memory \<Rightarrow> memory" where
  "load_words w a [] m regs = regs"
| "load_words w a (r # rs) m regs = load_words w (a + w) rs m (regs(r := m a))"

definition aarch64_saved :: "nat list" where
  "aarch64_saved = [19 ..< 31]"

definition aarch64_ctx_save :: "(nat \<Rightarrow> nat) \<Rightarrow> nat \<Rightarrow> memory \<Rightarrow> nat \<times> memory" where
  "aarch64_ctx_save regs sp m = (sp - 96, store_words 8 (sp - 96) (map regs aarch64_saved) m)"

definition aarch64_ctx_load :: "nat \<Rightarrow> memory \<Rightarrow> (nat \<Rightarrow> nat) \<Rightarrow> nat \<times> (nat \<Rightarrow> nat)" where
  "aarch64_ctx_load sp m regs = (sp + 96, load_words 8 sp aarch64_saved m regs)"

definition arm_saved :: "nat list" where
  "arm_saved = [4 ..< 12] @ [14]"

definition arm_ctx_save :: "(nat \<Rightarrow> nat) \<Rightarrow> nat \<Rightarrow> memory \<Rightarrow> nat \<times> memory" where
  "arm_ctx_save regs sp m = (sp - 36, store_words 4 (sp - 36) (map regs arm_saved) m)"

definition arm_ctx_load :: "nat \<Rightarrow> memory \<Rightarrow> (nat \<Rightarrow> nat) \<Rightarrow> nat \<times> (nat \<Rightarrow> nat)" where
  "arm_ctx_load sp m regs = (sp + 36, load_words 4 sp arm_saved m regs)"

section \<open>The frame of a new thread\<close>

datatype arch = X86_64 | AArch64 | ARMv8i

definition align_down :: "nat \<Rightarrow> nat \<Rightarrow> nat" where
  "align_down k a = a - a mod k"

definition task_forge_frame ::
    "arch \<Rightarrow> nat \<Rightarrow> nat \<Rightarrow> nat \<Rightarrow> nat \<Rightarrow> nat \<Rightarrow> memory \<Rightarrow> nat \<times> memory" where
  "task_forge_frame a trampoline stack_base stack_size entry arg m =
     (case a of
        X86_64 \<Rightarrow>
          (let top = align_down 16 (wrap64 (stack_base + stack_size))
           in push64 2 (push64 0 (push64 0 (push64 arg (push64 entry (push64 0 (push64 0
                (push64 trampoline (top, m)))))))))
      | AArch64 \<Rightarrow>
          (let sp = align_down 16 (wrap64 (stack_base + stack_size)) - 12 * 8
           in (sp, store_words 8 sp ([entry, arg] @ replicate 9 0 @ [trampoline]) m))
      | ARMv8i \<Rightarrow>
          (let sp = align_down 8 (wrap64 (stack_base + stack_size)) mod 2 ^ 32 - 9 * 4
           in (sp, store_words 4 sp ([entry, arg] @ replicate 6 0 @ [trampoline]) m)))"

section \<open>Switching out and in again\<close>

lemma store_words_below [simp]: "n < a \<Longrightarrow> store_words w a vs m n = m n"
  by (induction vs arbitrary: a m) auto

lemma store_words_nth:
  "0 < w \<Longrightarrow> i < length vs \<Longrightarrow> store_words w a vs m (a + i * w) = vs ! i"
proof (induction vs arbitrary: a m i)
  case (Cons v vs)
  show ?case
  proof (cases i)
    case 0
    then show ?thesis using Cons.prems by simp
  next
    case (Suc j)
    then show ?thesis using Cons.IH[of j "a + w"] Cons.prems by (simp add: add.assoc)
  qed
qed simp

lemma load_words_other: "r \<notin> set rs \<Longrightarrow> load_words w a rs m regs r = regs r"
  by (induction rs arbitrary: a regs) auto

lemma load_words_nth:
  "distinct rs \<Longrightarrow> i < length rs \<Longrightarrow> load_words w a rs m regs (rs ! i) = m (a + i * w)"
proof (induction rs arbitrary: a regs i)
  case (Cons r rs)
  then show ?case by (cases i) (auto simp: load_words_other add.assoc)
qed simp

lemma load_forged:
  assumes "0 < w" "distinct rs" "length vs = length rs" "i < length rs" "r = rs ! i"
  shows "load_words w a rs (store_words w a vs m) regs r = vs ! i"
  using assms by (simp add: load_words_nth store_words_nth)

lemma saved_lists [simp]:
  "distinct aarch64_saved" "length aarch64_saved = 12" "r \<in> set aarch64_saved \<longleftrightarrow> 19 \<le> r \<and> r \<le> 30"
  "distinct arm_saved" "length arm_saved = 9"
proof -
  have "length aarch64_saved = 31 - 19" unfolding aarch64_saved_def by (rule length_upt)
  then show "length aarch64_saved = 12" by simp
  have "set aarch64_saved = {19 ..< 31}" unfolding aarch64_saved_def by (rule set_upt)
  then show "r \<in> set aarch64_saved \<longleftrightarrow> 19 \<le> r \<and> r \<le> 30" by auto
  show "distinct aarch64_saved" unfolding aarch64_saved_def by (rule distinct_upt)
qed (simp_all add: arm_saved_def)

text \<open>Words stored for a register list are what a later load of that list finds.\<close>

lemma load_store_words:
  assumes "0 < w" "distinct rs" "r \<in> set rs"
    "\<And>i. i < length rs \<Longrightarrow> m' (a + i * w) = store_words w a (map regs rs) m (a + i * w)"
  shows "load_words w a rs m' regs' r = regs r"
proof -
  from assms(3) obtain i where i: "i < length rs" "rs ! i = r" by (metis in_set_conv_nth)
  then show ?thesis
    using load_words_nth[OF assms(2) i(1), of w a m' regs'] assms(1,4)
    by (simp add: store_words_nth)
qed

text \<open>C20: the x86\_64 switch is transparent for the thread: registers saved on the way out come
  back on the way in, with the return address, provided nobody wrote to the saved frame.\<close>

theorem x86_switch_roundtrip:
  assumes "64 \<le> x_rsp r" "m (x_rsp r) = x_rip r" "x86_ctx_save r m = (sp, m1)"
    "\<forall>i < 8. m2 (sp + 8 * i) = m1 (sp + 8 * i)"
  shows "x86_ctx_load sp m2 = r\<lparr>x_rsp := x_rsp r + 8\<rparr>"
proof -
  define b where "b = x_rsp r - 56"
  have rsp: "x_rsp r = b + 56" using assms(1) by (simp add: b_def)
  have save: "sp = b" "m1 b = x_rflags r" "m1 (b + 8) = x_r15 r" "m1 (b + 16) = x_r14 r"
    "m1 (b + 24) = x_r13 r" "m1 (b + 32) = x_r12 r" "m1 (b + 40) = x_rbx r"
    "m1 (b + 48) = x_rbp r" "m1 (b + 56) = x_rip r"
    using assms(2,3) rsp by (auto simp: x86_ctx_save_def push64_def)
  have "m2 (b + 8 * i) = m1 (b + 8 * i)" if "i < 8" for i using assms(4) save(1) that by simp
  from this[of 0] this[of 1] this[of 2] this[of 3] this[of 4] this[of 5] this[of 6] this[of 7]
  show ?thesis using save rsp by (cases r) (simp add: x86_ctx_load_def)
qed

definition demo_regs :: x86_regs where
  "demo_regs = \<lparr>x_rbp = 11, x_rbx = 12, x_r12 = 13, x_r13 = 14, x_r14 = 15, x_r15 = 16,
     x_rflags = 518, x_rsp = 4096, x_rip = 77\<rparr>"

theorem x86_switch_roundtrip_witness:
  "x86_ctx_load 4040 (snd (x86_ctx_save demo_regs ((\<lambda>_. 0)(4096 := 77)))) = demo_regs\<lparr>x_rsp := 4104\<rparr>"
  using x86_switch_roundtrip[of demo_regs "(\<lambda>_. 0)(4096 := 77)" 4040
      "snd (x86_ctx_save demo_regs ((\<lambda>_. 0)(4096 := 77)))" "snd (x86_ctx_save demo_regs ((\<lambda>_. 0)(4096 := 77)))"]
  by (simp add: demo_regs_def x86_ctx_save_def push64_def)

lemma aarch64_switch_roundtrip:
  assumes "aarch64_ctx_save regs sp m = (sp1, m1)" "96 \<le> sp" "\<forall>i < 12. m2 (sp1 + i * 8) = m1 (sp1 + i * 8)"
  shows "fst (aarch64_ctx_load sp1 m2 regs') = sp"
    "19 \<le> r \<Longrightarrow> r \<le> 30 \<Longrightarrow> snd (aarch64_ctx_load sp1 m2 regs') r = regs r"
proof -
  have *: "sp1 = sp - 96" "m1 = store_words 8 sp1 (map regs aarch64_saved) m"
    using assms(1) by (auto simp: aarch64_ctx_save_def)
  show "fst (aarch64_ctx_load sp1 m2 regs') = sp" using *(1) assms(2) by (simp add: aarch64_ctx_load_def)
  show "snd (aarch64_ctx_load sp1 m2 regs') r = regs r" if "19 \<le> r" "r \<le> 30"
    unfolding aarch64_ctx_load_def snd_conv using assms(3) that
    by (intro load_store_words[where m = m]) (simp_all add: *(2)[symmetric])
qed

lemma arm_switch_roundtrip:
  assumes "arm_ctx_save regs sp m = (sp1, m1)" "36 \<le> sp" "\<forall>i < 9. m2 (sp1 + i * 4) = m1 (sp1 + i * 4)"
  shows "fst (arm_ctx_load sp1 m2 regs') = sp"
    "r \<in> set arm_saved \<Longrightarrow> snd (arm_ctx_load sp1 m2 regs') r = regs r"
proof -
  have *: "sp1 = sp - 36" "m1 = store_words 4 sp1 (map regs arm_saved) m"
    using assms(1) by (auto simp: arm_ctx_save_def)
  show "fst (arm_ctx_load sp1 m2 regs') = sp" using *(1) assms(2) by (simp add: arm_ctx_load_def)
  show "snd (arm_ctx_load sp1 m2 regs') r = regs r" if "r \<in> set arm_saved"
    unfolding arm_ctx_load_def snd_conv using assms(3) that
    by (intro load_store_words[where m = m]) (simp_all add: *(2)[symmetric])
qed

section \<open>The first switch into a thread\<close>

lemma align_down_le: "align_down k a \<le> a" "0 < k \<Longrightarrow> k dvd align_down k a" "0 < k \<Longrightarrow> a < align_down k a + k"
proof -
  show "align_down k a \<le> a" by (simp add: align_down_def)
  assume k: "0 < k"
  show "k dvd align_down k a" by (simp add: align_down_def minus_mod_eq_mult_div)
  have "a = align_down k a + a mod k" by (simp add: align_down_def)
  then show "a < align_down k a + k" using mod_less_divisor[OF k, of a] by linarith
qed

text \<open>C21: on x86\_64 the first switch into a new thread arrives at the trampoline with the entry
  function in r12 and its argument in r13, interrupts off, on a 16-byte aligned stack, and the
  forged frame lies inside the thread's stack.\<close>

theorem x86_first_switch:
  assumes "128 \<le> stack_size" "stack_base + stack_size < 2 ^ 64"
    "task_forge_frame X86_64 trampoline stack_base stack_size entry arg m = (sp, m')"
  shows "x86_ctx_load sp m' =
           \<lparr>x_rbp = 0, x_rbx = 0, x_r12 = entry, x_r13 = arg, x_r14 = 0, x_r15 = 0, x_rflags = 2,
            x_rsp = sp + 64, x_rip = trampoline\<rparr>
       \<and> 16 dvd sp + 64 \<and> stack_base \<le> sp \<and> sp + 64 \<le> stack_base + stack_size
       \<and> (\<forall>a. a < sp \<or> sp + 64 \<le> a \<longrightarrow> m' a = m a)"
proof -
  define top where "top = align_down 16 (stack_base + stack_size)"
  define b where "b = top - 64"
  have al: "top \<le> stack_base + stack_size" "16 dvd top" "stack_base + stack_size < top + 16"
    unfolding top_def by (simp_all add: align_down_le)
  then have tb: "top = b + 64" "stack_base \<le> b" using assms(1) by (auto simp: b_def)
  have f: "sp = b" "m' = m(b + 56 := trampoline, b + 48 := 0, b + 40 := 0, b + 32 := entry,
      b + 24 := arg, b + 16 := 0, b + 8 := 0, b := 2)"
    using assms(2,3) tb(1) by (auto simp: task_forge_frame_def top_def push64_def Let_def add.commute)
  then show ?thesis using al tb by (auto simp: x86_ctx_load_def)
qed

theorem x86_first_switch_witness:
  "x_rip (x86_ctx_load 20416 (snd (task_forge_frame X86_64 500 4096 16384 600 700 (\<lambda>_. 0)))) = 500
   \<and> x_r12 (x86_ctx_load 20416 (snd (task_forge_frame X86_64 500 4096 16384 600 700 (\<lambda>_. 0)))) = 600"
  using x86_first_switch[of 16384 4096 500 600 700 "\<lambda>_. 0" 20416
      "snd (task_forge_frame X86_64 500 4096 16384 600 700 (\<lambda>_. 0))"]
  by (simp add: task_forge_frame_def align_down_def push64_def)

text \<open>The two ARM frames, likewise: register 19 (4) holds the entry, register 20 (5) the argument and
  the link register the trampoline.\<close>

lemma aarch64_first_switch:
  assumes "task_forge_frame AArch64 trampoline stack_base stack_size entry arg m = (sp, m')"
  shows "snd (aarch64_ctx_load sp m' regs) 19 = entry" "snd (aarch64_ctx_load sp m' regs) 20 = arg"
    "snd (aarch64_ctx_load sp m' regs) 30 = trampoline"
proof -
  have m': "m' = store_words 8 sp ([entry, arg] @ replicate 9 0 @ [trampoline]) m"
    using assms by (auto simp: task_forge_frame_def Let_def)
  have i: "19 = aarch64_saved ! 0" "20 = aarch64_saved ! 1" "30 = aarch64_saved ! 11"
    by (simp_all add: aarch64_saved_def)
  show "snd (aarch64_ctx_load sp m' regs) 19 = entry"
    unfolding m' aarch64_ctx_load_def snd_conv by (subst load_forged[OF _ _ _ _ i(1)]) simp_all
  show "snd (aarch64_ctx_load sp m' regs) 20 = arg"
    unfolding m' aarch64_ctx_load_def snd_conv by (subst load_forged[OF _ _ _ _ i(2)]) simp_all
  show "snd (aarch64_ctx_load sp m' regs) 30 = trampoline"
    unfolding m' aarch64_ctx_load_def snd_conv by (subst load_forged[OF _ _ _ _ i(3)]) (simp_all add: nth_append)
qed

lemma arm_first_switch:
  assumes "task_forge_frame ARMv8i trampoline stack_base stack_size entry arg m = (sp, m')"
  shows "snd (arm_ctx_load sp m' regs) 4 = entry" "snd (arm_ctx_load sp m' regs) 5 = arg"
    "snd (arm_ctx_load sp m' regs) 14 = trampoline"
proof -
  have m': "m' = store_words 4 sp ([entry, arg] @ replicate 6 0 @ [trampoline]) m"
    using assms by (auto simp: task_forge_frame_def Let_def)
  have i: "4 = arm_saved ! 0" "5 = arm_saved ! 1" "14 = arm_saved ! 8"
    by (simp_all add: arm_saved_def)
  show "snd (arm_ctx_load sp m' regs) 4 = entry"
    unfolding m' arm_ctx_load_def snd_conv by (subst load_forged[OF _ _ _ _ i(1)]) simp_all
  show "snd (arm_ctx_load sp m' regs) 5 = arg"
    unfolding m' arm_ctx_load_def snd_conv by (subst load_forged[OF _ _ _ _ i(2)]) simp_all
  show "snd (arm_ctx_load sp m' regs) 14 = trampoline"
    unfolding m' arm_ctx_load_def snd_conv by (subst load_forged[OF _ _ _ _ i(3)]) (simp_all add: nth_append)
qed

end
