(* ===== verification/Sched.thy ===== *)
theory Sched
  imports ListHead Switch
begin

text \<open>
  \<open>kernel/sched.c\<close> and \<open>kernel/task.c\<close>: the Weave scheduler and the task table. Tasks are named by
  the identity of their \<open>task_t\<close> (the idle task is 0); the run lanes and the global task list are
  lists in one node store. Every operation runs with interrupts masked and the run lock held, so it
  is one step; a NULL dereference is the result \<open>None\<close>. The register swap of \<open>sub_ctx_switch\<close> is the
  subject of theory \<open>Switch\<close>; here it is which task runs afterwards.
\<close>

section \<open>State\<close>

datatype task_state = TASK_STATE_READY | TASK_STATE_RUNNING | TASK_STATE_BLOCKED | TASK_STATE_SLEEPING
  | TASK_STATE_ZOMBIE | TASK_STATE_DEAD

datatype knode = LaneHead nat | RunNode nat | GlobalHead | AllNode nat

record task_struct =
  pid :: int
  ppid :: int
  pgid :: int
  tname :: string
  tstate :: task_state
  rsp :: nat
  stack_base :: nat
  stack_size :: nat
  priority :: int
  time_slice :: int
  exit_code :: int
  ctx_sp :: nat
  weave_lane :: nat
  weave_credit :: nat
  sched_runs :: nat
  weave_on :: bool
  saved_before :: "nat option"

text \<open>
  The last field is not in \<open>task_t\<close>: it is the local variable \<open>before\<close> of a thread that is suspended
  inside \<open>sched_preempt_on_return\<close>, which that thread reads when it is switched back in.
\<close>

record sched =
  task :: "nat \<Rightarrow> task_struct"
  klinks :: "knode lstore"
  next_pid :: int
  current_task :: "nat option"
  weave_current :: "nat option"
  weave_preempt :: bool
  weave_nready :: nat
  weave_switches :: nat
  weave_preemptions :: nat
  weave_need_resched :: bool
  weave_preempt_depth :: int

abbreviation WEAVE_NLANES :: nat where
  "WEAVE_NLANES \<equiv> 4"

definition weave_quantum :: "nat \<Rightarrow> nat" where
  "weave_quantum l = [2, 4, 8, 16] ! l"

definition upd_task :: "nat \<Rightarrow> (task_struct \<Rightarrow> task_struct) \<Rightarrow> sched \<Rightarrow> sched" where
  "upd_task t f s = s\<lparr>task := (task s)(t := f (task s t))\<rparr>"

section \<open>Lane primitives\<close>

definition weave_enqueue :: "nat \<Rightarrow> sched \<Rightarrow> sched option" where
  "weave_enqueue t s =
     (let s = (if WEAVE_NLANES \<le> weave_lane (task s t)
               then upd_task t (\<lambda>k. k\<lparr>weave_lane := WEAVE_NLANES - 1\<rparr>) s else s)
      in do { h \<leftarrow> list_add_tail (RunNode t) (LaneHead (weave_lane (task s t))) (klinks s);
              Some (s\<lparr>klinks := h, weave_nready := weave_nready s + 1\<rparr>) })"

text \<open>\<open>list_entry\<close> of a node that is not a task's run node is a fault.\<close>

fun task_entry :: "knode option \<Rightarrow> nat option" where
  "task_entry (Some (RunNode t)) = Some t"
| "task_entry _ = None"

function weave_pick_from :: "nat \<Rightarrow> sched \<Rightarrow> nat option option" where
  "weave_pick_from l s =
     (if l < WEAVE_NLANES then
        (if \<not> list_empty (klinks s) (LaneHead l)
         then do { t \<leftarrow> task_entry (lh_next (klinks s (LaneHead l))); Some (Some t) }
         else weave_pick_from (Suc l) s)
      else Some None)"
  by pat_completeness auto
termination
  by (relation "measure (\<lambda>(l, s). WEAVE_NLANES - l)") auto

declare weave_pick_from.simps [simp del]

definition weave_pick :: "sched \<Rightarrow> nat option option" where
  "weave_pick s = weave_pick_from 0 s"

definition task_set_current :: "nat option \<Rightarrow> sched \<Rightarrow> sched" where
  "task_set_current t s = s\<lparr>current_task := t\<rparr>"

text \<open>What a thread does when it comes back from the \<open>sched_schedule\<close> of \<open>sched_preempt_on_return\<close>.\<close>

definition preempt_tail :: "nat \<Rightarrow> sched \<Rightarrow> sched" where
  "preempt_tail t s =
     (case saved_before (task s t) of
        None \<Rightarrow> s
      | Some before \<Rightarrow>
          (let s = upd_task t (\<lambda>k. k\<lparr>saved_before := None\<rparr>) s
           in if weave_switches s \<noteq> before then s\<lparr>weave_preemptions := weave_preemptions s + 1\<rparr> else s))"

definition weave_switch_to :: "nat \<Rightarrow> sched \<Rightarrow> sched option" where
  "weave_switch_to nxt s =
     (if weave_current s = Some nxt then Some s
      else (let s = upd_task nxt (\<lambda>k. k\<lparr>tstate := TASK_STATE_RUNNING, sched_runs := sched_runs k + 1\<rparr>) s;
                prev = weave_current s;
                s = task_set_current (Some nxt)
                      (s\<lparr>weave_switches := weave_switches s + 1, weave_current := Some nxt\<rparr>)
            in if prev = None then None else Some (preempt_tail nxt s)))"

section \<open>The scheduler's interface\<close>

definition task_init_idle :: "sched \<Rightarrow> sched" where
  "task_init_idle s =
     (let s = upd_task 0 (\<lambda>_. \<lparr>pid = 0, ppid = 0, pgid = 0, tname = ''swapper/0'', tstate = TASK_STATE_RUNNING,
                rsp = 0, stack_base = 0, stack_size = 0, priority = 0, time_slice = 0, exit_code = 0, ctx_sp = 0,
                weave_lane = 0, weave_credit = 0, sched_runs = 0, weave_on = False, saved_before = None\<rparr>) s;
          h = INIT_LIST_HEAD (RunNode 0) (klinks s);
          h = INIT_LIST_HEAD (AllNode 0) h;
          h = INIT_LIST_HEAD GlobalHead h
      in s\<lparr>klinks := h, current_task := Some 0\<rparr>)"

primrec init_lanes :: "nat \<Rightarrow> knode lstore \<Rightarrow> knode lstore" where
  "init_lanes 0 h = h"
| "init_lanes (Suc l) h = INIT_LIST_HEAD (LaneHead l) (init_lanes l h)"

definition sched_init :: "sched \<Rightarrow> sched" where
  "sched_init s =
     (let s = s\<lparr>klinks := init_lanes WEAVE_NLANES (klinks s), weave_nready := 0, weave_switches := 0,
               weave_preempt := False\<rparr>;
          s = task_init_idle s;
          s = s\<lparr>weave_current := current_task s\<rparr>
      in upd_task 0 (\<lambda>k. k\<lparr>weave_lane := 0, weave_credit := weave_quantum 0, weave_on := False\<rparr>) s)"

definition sched_add_task :: "nat \<Rightarrow> sched \<Rightarrow> sched option" where
  "sched_add_task t s =
     weave_enqueue t
       (upd_task t (\<lambda>k. k\<lparr>weave_lane := 0, weave_credit := weave_quantum 0, weave_on := True,
                          tstate := TASK_STATE_READY\<rparr>) s)"

definition weave_linked :: "nat \<Rightarrow> sched \<Rightarrow> bool" where
  "weave_linked t s \<longleftrightarrow> lh_next (klinks s (RunNode t)) \<noteq> None \<and>
     lh_next (klinks s (RunNode t)) \<noteq> Some (RunNode t)"

text \<open>Taking a task off its lane.\<close>

definition weave_take :: "nat \<Rightarrow> sched \<Rightarrow> sched option" where
  "weave_take t s =
     do { h \<leftarrow> list_del (RunNode t) (klinks s);
          Some (s\<lparr>klinks := h, weave_nready := (if weave_nready s \<noteq> 0 then weave_nready s - 1 else weave_nready s)\<rparr>) }"

definition sched_remove_task :: "nat \<Rightarrow> sched \<Rightarrow> sched option" where
  "sched_remove_task t s =
     do { s \<leftarrow> (if weave_linked t s then weave_take t s else Some s);
          Some (upd_task t (\<lambda>k. k\<lparr>weave_on := False\<rparr>) s) }"

definition sched_join :: "sched \<Rightarrow> sched" where
  "sched_join s = (case weave_current s of Some c \<Rightarrow> upd_task c (\<lambda>k. k\<lparr>weave_on := True\<rparr>) s | None \<Rightarrow> s)"

definition sched_leave :: "sched \<Rightarrow> sched" where
  "sched_leave s = (case weave_current s of Some c \<Rightarrow> upd_task c (\<lambda>k. k\<lparr>weave_on := False\<rparr>) s | None \<Rightarrow> s)"

definition sched_set_preempt :: "bool \<Rightarrow> sched \<Rightarrow> sched" where
  "sched_set_preempt armed s = s\<lparr>weave_preempt := armed\<rparr>"

definition sched_preempt_disable :: "sched \<Rightarrow> sched" where
  "sched_preempt_disable s = s\<lparr>weave_preempt_depth := weave_preempt_depth s + 1\<rparr>"

definition sched_preempt_enable :: "sched \<Rightarrow> sched" where
  "sched_preempt_enable s = s\<lparr>weave_preempt_depth := weave_preempt_depth s - 1\<rparr>"

text \<open>Requeueing the running task one lane up or down.\<close>

definition weave_requeue :: "bool \<Rightarrow> nat \<Rightarrow> sched \<Rightarrow> sched option" where
  "weave_requeue voluntary c s =
     (if weave_on (task s c) \<and>
         (tstate (task s c) = TASK_STATE_RUNNING \<or> tstate (task s c) = TASK_STATE_READY)
      then (let l = weave_lane (task s c);
                l = (if voluntary then (if 0 < l then l - 1 else l)
                     else (if l < WEAVE_NLANES - 1 then l + 1 else l))
            in weave_enqueue c
                 (upd_task c (\<lambda>k. k\<lparr>weave_lane := l, weave_credit := weave_quantum l,
                                   tstate := TASK_STATE_READY\<rparr>) s))
      else Some s)"

definition weave_rotate :: "bool \<Rightarrow> sched \<Rightarrow> sched option" where
  "weave_rotate voluntary s =
     do { nxt \<leftarrow> weave_pick s;
          case nxt of
            None \<Rightarrow> Some s
          | Some t \<Rightarrow>
              do { s \<leftarrow> weave_take t s;
                   s \<leftarrow> (case weave_current s of Some c \<Rightarrow> weave_requeue voluntary c s | None \<Rightarrow> Some s);
                   weave_switch_to t
                     (upd_task t (\<lambda>k. k\<lparr>weave_credit := weave_quantum (weave_lane k)\<rparr>) s) } }"

definition sched_yield :: "sched \<Rightarrow> sched option" where
  "sched_yield s = weave_rotate True s"

definition sched_schedule :: "sched \<Rightarrow> sched option" where
  "sched_schedule s = weave_rotate False s"

definition sched_tick :: "sched \<Rightarrow> sched" where
  "sched_tick s =
     (case weave_current s of
        None \<Rightarrow> s
      | Some c \<Rightarrow>
          if pid (task s c) = 0 then s
          else (let s = (if 0 < weave_credit (task s c)
                         then upd_task c (\<lambda>k. k\<lparr>weave_credit := weave_credit k - 1\<rparr>) s else s)
                in if weave_credit (task s c) = 0 \<and> weave_preempt s \<and> weave_preempt_depth s = 0
                   then s\<lparr>weave_need_resched := True\<rparr> else s))"

definition sched_preempt_on_return :: "sched \<Rightarrow> sched option" where
  "sched_preempt_on_return s =
     (if \<not> weave_preempt s \<or> \<not> weave_need_resched s then Some s
      else if weave_preempt_depth s \<noteq> 0 then Some s
      else case weave_current s of
             None \<Rightarrow> Some s
           | Some c \<Rightarrow>
               if pid (task s c) = 0 then Some s
               else do { s \<leftarrow> sched_schedule
                             (upd_task c (\<lambda>k. k\<lparr>saved_before := Some (weave_switches s)\<rparr>)
                               (s\<lparr>weave_need_resched := False\<rparr>));
                         Some (if weave_current s = Some c then preempt_tail c s else s) })"

definition sched_exit_current :: "sched \<Rightarrow> sched option" where
  "sched_exit_current s =
     do { nxt \<leftarrow> weave_pick s;
          case nxt of
            None \<Rightarrow> Some s
          | Some t \<Rightarrow>
              do { s \<leftarrow> weave_take t s;
                   let s = upd_task t (\<lambda>k. k\<lparr>tstate := TASK_STATE_RUNNING, sched_runs := sched_runs k + 1,
                                            weave_credit := weave_quantum (weave_lane k)\<rparr>) s;
                   Some (preempt_tail t (task_set_current (Some t)
                           (s\<lparr>weave_switches := weave_switches s + 1, weave_current := Some t\<rparr>))) } }"

section \<open>Tasks\<close>

text \<open>
  \<open>task_create\<close>: \<open>tp\<close> is the result of \<open>kzalloc\<close>, \<open>sb\<close> that of the stack's \<open>kmalloc\<close> (0 is NULL).
  \<open>pid_t\<close> is \<open>int32_t\<close>: \<open>next_pid++\<close> at \<open>INT32_MAX\<close> overflows a signed integer, which has no defined
  result, so it is \<open>None\<close>.
\<close>

definition task_create ::
    "arch \<Rightarrow> nat \<Rightarrow> string option \<Rightarrow> nat \<Rightarrow> nat \<Rightarrow> int \<Rightarrow> nat option \<Rightarrow> nat \<Rightarrow> sched \<Rightarrow> (nat option \<times> sched) option" where
  "task_create a trampoline nm entry arg prio tp sb s =
     (case tp of
        None \<Rightarrow> Some (None, s)
      | Some t \<Rightarrow>
          if next_pid s = INT32_MAX then None
          else
          (let p = next_pid s;
               par = (case current_task s of Some c \<Rightarrow> pid (task s c) | None \<Rightarrow> 0);
               s = s\<lparr>next_pid := p + 1\<rparr>;
               s = upd_task t (\<lambda>_. \<lparr>pid = p, ppid = par, pgid = p,
                     tname = cstr_ncopy 32 (case nm of Some n \<Rightarrow> n | None \<Rightarrow> ''task''),
                     tstate = TASK_STATE_READY, rsp = 0, stack_base = sb, stack_size = 16384, priority = prio,
                     time_slice = 10, exit_code = 0, ctx_sp = 0, weave_lane = 0, weave_credit = 0,
                     sched_runs = 0, weave_on = False, saved_before = None\<rparr>) s
           in if sb = 0 then Some (None, s)
              else (let sp = fst (task_forge_frame a trampoline sb 16384 entry arg (\<lambda>_. 0));
                        s = upd_task t (\<lambda>k. k\<lparr>ctx_sp := sp, rsp := sp\<rparr>) s;
                        h = INIT_LIST_HEAD (AllNode t) (INIT_LIST_HEAD (RunNode t) (klinks s))
                    in do { h \<leftarrow> list_add_tail (AllNode t) GlobalHead h;
                            s \<leftarrow> sched_add_task t (s\<lparr>klinks := h\<rparr>);
                            Some (Some t, s) })))"

text \<open>\<open>task_exit\<close> up to the halt loop it falls into when it is not switched away.\<close>

definition task_exit :: "int \<Rightarrow> sched \<Rightarrow> sched option" where
  "task_exit code s =
     (case current_task s of
        None \<Rightarrow> Some s
      | Some c \<Rightarrow>
          if pid (task s c) \<noteq> 0
          then sched_exit_current
                 (upd_task c (\<lambda>k. k\<lparr>exit_code := code, tstate := TASK_STATE_DEAD, weave_on := False\<rparr>) s)
          else Some s)"

definition task_get_pid :: "sched \<Rightarrow> int" where
  "task_get_pid s = (case current_task s of Some c \<Rightarrow> pid (task s c) | None \<Rightarrow> 0)"

partial_function (option) find_pid_walk :: "sched \<Rightarrow> int \<Rightarrow> knode option \<Rightarrow> nat option option" where
  "find_pid_walk s p pos =
     (case pos of
        Some (AllNode t) \<Rightarrow>
          if pid (task s t) = p then Some (Some t) else find_pid_walk s p (lh_next (klinks s (AllNode t)))
      | Some GlobalHead \<Rightarrow> Some None
      | _ \<Rightarrow> None)"

definition task_find_by_pid :: "int \<Rightarrow> sched \<Rightarrow> nat option option" where
  "task_find_by_pid p s =
     (if p = 0 then Some (Some 0) else find_pid_walk s p (lh_next (klinks s GlobalHead)))"

definition task_kill :: "int \<Rightarrow> int \<Rightarrow> sched \<Rightarrow> (int \<times> sched) option" where
  "task_kill p sig s =
     (if p = 0 then Some (- 1, s)
      else do { r \<leftarrow> task_find_by_pid p s;
                case r of
                  None \<Rightarrow> Some (- 1, s)
                | Some t \<Rightarrow>
                    if sig = 9 \<or> sig = 15
                    then do { s \<leftarrow> sched_remove_task t (upd_task t (\<lambda>k. k\<lparr>tstate := TASK_STATE_DEAD\<rparr>) s);
                              Some (0, s) }
                    else Some (0, s) })"

end
