(* ===== verification/SchedInv.thy ===== *)
theory SchedInv
  imports Sched
begin

text \<open>
  The invariant of the Weave scheduler and what follows from it: the lanes are well-formed lists of
  ready tasks, no operation follows a NULL pointer, the dispatcher takes the first task of the
  lowest lane, and a task that is neither running nor on a lane never runs again.
\<close>

section \<open>The lists behind the lanes\<close>

type_synonym lanes = "nat \<Rightarrow> nat list"

definition queued :: "lanes \<Rightarrow> nat set" where
  "queued L = (\<Union>l < WEAVE_NLANES. set (L l))"

definition unlinked :: "knode lstore \<Rightarrow> nat \<Rightarrow> bool" where
  "unlinked h t \<longleftrightarrow> lh_next (h (RunNode t)) = None \<or> lh_next (h (RunNode t)) = Some (RunNode t)"

definition lanes_rep :: "knode lstore \<Rightarrow> lanes \<Rightarrow> bool" where
  "lanes_rep h L \<longleftrightarrow>
     (\<forall>l < WEAVE_NLANES. dlist h (LaneHead l) (map RunNode (L l))) \<and>
     (\<forall>l < WEAVE_NLANES. \<forall>k < WEAVE_NLANES. l \<noteq> k \<longrightarrow> set (L l) \<inter> set (L k) = {})"

lemma weave_linked_unlinked: "weave_linked t s \<longleftrightarrow> \<not> unlinked (klinks s) t"
  by (auto simp: weave_linked_def unlinked_def)

lemma lanes_repD:
  assumes "lanes_rep h L" "l < WEAVE_NLANES"
  shows "dlist h (LaneHead l) (map RunNode (L l))" "distinct (L l)"
proof -
  show *: "dlist h (LaneHead l) (map RunNode (L l))" using assms by (simp add: lanes_rep_def)
  show "distinct (L l)" using dlistD(1)[OF *] by (simp add: distinct_map)
qed

lemma queuedE:
  assumes "t \<in> queued L"
  obtains l where "l < WEAVE_NLANES" "t \<in> set (L l)"
  using assms by (auto simp: queued_def)

lemma queuedI: "l < WEAVE_NLANES \<Longrightarrow> t \<in> set (L l) \<Longrightarrow> t \<in> queued L"
  by (auto simp: queued_def)

lemma queued_split:
  assumes "l < WEAVE_NLANES"
  shows "queued (L(l := xs)) = set xs \<union> (\<Union>k \<in> {..< WEAVE_NLANES} - {l}. set (L k))"
    "queued L = set (L l) \<union> (\<Union>k \<in> {..< WEAVE_NLANES} - {l}. set (L k))"
proof -
  have *: "{..< WEAVE_NLANES} = insert l ({..< WEAVE_NLANES} - {l})" using assms by auto
  show "queued (L(l := xs)) = set xs \<union> (\<Union>k \<in> {..< WEAVE_NLANES} - {l}. set (L k))"
    unfolding queued_def by (subst *) (auto split: if_splits)
  show "queued L = set (L l) \<union> (\<Union>k \<in> {..< WEAVE_NLANES} - {l}. set (L k))"
    unfolding queued_def by (subst *) auto
qed

lemma lanes_rep_linked: "lanes_rep h L \<Longrightarrow> t \<in> queued L \<Longrightarrow> \<not> unlinked h t"
proof (elim queuedE)
  fix l assume "lanes_rep h L" "l < WEAVE_NLANES" "t \<in> set (L l)"
  then show "\<not> unlinked h t"
    using dlist_node_linked[OF lanes_repD(1), of h L l "RunNode t"] by (auto simp: unlinked_def)
qed

text \<open>Lanes only see their own nodes.\<close>

lemma lanes_rep_frame:
  assumes "lanes_rep h L" "\<And>l. l < WEAVE_NLANES \<Longrightarrow> h' (LaneHead l) = h (LaneHead l)"
    "\<And>t. t \<in> queued L \<Longrightarrow> h' (RunNode t) = h (RunNode t)"
  shows "lanes_rep h' L"
proof -
  have "dlist h' (LaneHead l) (map RunNode (L l))" if "l < WEAVE_NLANES" for l
    using lanes_repD(1)[OF assms(1) that] dlist_cong[of "LaneHead l" "map RunNode (L l)" h' h] assms(2,3) that
    by (auto simp: queued_def)
  then show ?thesis using assms(1) by (simp add: lanes_rep_def)
qed

lemma lanes_rep_push:
  assumes "lanes_rep h L" "l < WEAVE_NLANES" "t \<notin> queued L"
  obtains h' where "list_add_tail (RunNode t) (LaneHead l) h = Some h'"
    "lanes_rep h' (L(l := L l @ [t]))"
    "\<And>m. m \<notin> RunNode ` insert t (queued L) \<Longrightarrow> m \<notin> LaneHead ` {..< WEAVE_NLANES} \<Longrightarrow> h' m = h m"
    "\<And>u. u \<notin> insert t (queued L) \<Longrightarrow> unlinked h' u = unlinked h u"
proof -
  note dl = lanes_repD(1)[OF assms(1,2)]
  have new: "RunNode t \<notin> set (LaneHead l # map RunNode (L l))"
    using assms(2,3) by (auto simp: queued_def)
  from dlist_add_tail[OF dl new] obtain h' where h':
    "list_add_tail (RunNode t) (LaneHead l) h = Some h'" "dlist h' (LaneHead l) (map RunNode (L l) @ [RunNode t])"
    "\<And>m. m \<notin> set (RunNode t # LaneHead l # map RunNode (L l)) \<Longrightarrow> h' m = h m" by blast
  have disj: "set (L l) \<inter> set (L k) = {}" if "k < WEAVE_NLANES" "k \<noteq> l" for k
    using assms(1,2) that by (auto simp: lanes_rep_def)
  have other: "dlist h' (LaneHead k) (map RunNode (L k))" if k: "k < WEAVE_NLANES" "k \<noteq> l" for k
  proof (rule dlist_frame[OF lanes_repD(1)[OF assms(1) k(1)] h'(3)])
    show "set (RunNode t # LaneHead l # map RunNode (L l)) \<inter> set (LaneHead k # map RunNode (L k)) = {}"
      using assms(2,3) disj[OF k] k by (auto simp: queued_def)
  qed
  have "lanes_rep h' (L(l := L l @ [t]))"
    using h'(2) other assms by (auto simp: lanes_rep_def queued_def)
  moreover have "h' m = h m"
    if "m \<notin> RunNode ` insert t (queued L)" "m \<notin> LaneHead ` {..< WEAVE_NLANES}" for m
    using that assms(2) by (intro h'(3)) (auto simp: queued_def)
  moreover have "unlinked h' u = unlinked h u" if "u \<notin> insert t (queued L)" for u
  proof -
    have "u \<notin> set (L l)" using that queuedI[OF assms(2), of u L] by blast
    then have "h' (RunNode u) = h (RunNode u)" using that by (intro h'(3)) auto
    then show ?thesis by (simp add: unlinked_def)
  qed
  ultimately show thesis using h'(1) by (intro that)
qed

lemma lanes_rep_del:
  assumes "lanes_rep h L" "l < WEAVE_NLANES" "L l = xs @ t # ys"
  obtains h' where "list_del (RunNode t) h = Some h'" "lanes_rep h' (L(l := xs @ ys))"
    "\<And>m. m \<notin> RunNode ` queued L \<Longrightarrow> m \<notin> LaneHead ` {..< WEAVE_NLANES} \<Longrightarrow> h' m = h m"
    "\<And>u. u \<notin> queued L \<Longrightarrow> unlinked h' u = unlinked h u" "unlinked h' t"
proof -
  have dl: "dlist h (LaneHead l) (map RunNode xs @ RunNode t # map RunNode ys)"
    using lanes_repD(1)[OF assms(1,2)] assms(3) by simp
  from dlist_del[OF dl] obtain h' where h':
    "list_del (RunNode t) h = Some h'" "dlist h' (LaneHead l) (map RunNode xs @ map RunNode ys)"
    "lh_next (h' (RunNode t)) = None"
    "\<And>m. m \<notin> set (RunNode t # LaneHead l # map RunNode xs @ map RunNode ys) \<Longrightarrow> h' m = h m" by blast
  have other: "dlist h' (LaneHead k) (map RunNode (L k))" if k: "k < WEAVE_NLANES" "k \<noteq> l" for k
  proof (rule dlist_frame[OF lanes_repD(1)[OF assms(1) k(1)] h'(4)])
    have "set (L l) \<inter> set (L k) = {}" using assms(1,2) k by (auto simp: lanes_rep_def)
    then show "set (RunNode t # LaneHead l # map RunNode xs @ map RunNode ys) \<inter>
        set (LaneHead k # map RunNode (L k)) = {}"
      using assms(3) k by auto
  qed
  have "set (L l) \<inter> set (L k) = {}" if "k < WEAVE_NLANES" "k \<noteq> l" for k
    using assms(1,2) that by (auto simp: lanes_rep_def)
  then have "lanes_rep h' (L(l := xs @ ys))"
    using h'(2) other assms by (auto simp: lanes_rep_def)
  moreover have "h' m = h m" if "m \<notin> RunNode ` queued L" "m \<notin> LaneHead ` {..< WEAVE_NLANES}" for m
    using that assms(2,3) by (intro h'(4)) (auto simp: queued_def image_iff)
  moreover have "unlinked h' u = unlinked h u" if "u \<notin> queued L" for u
  proof -
    have "u \<notin> set (L l)" using that queuedI[OF assms(2), of u L] by blast
    then have "h' (RunNode u) = h (RunNode u)" using assms(3) by (intro h'(4)) auto
    then show ?thesis by (simp add: unlinked_def)
  qed
  moreover have "unlinked h' t" using h'(3) by (simp add: unlinked_def)
  ultimately show thesis using h'(1) by (intro that)
qed

text \<open>The dispatcher's choice: the head of the lowest lane that is not empty.\<close>

definition next_ready :: "lanes \<Rightarrow> (nat \<times> nat) option" where
  "next_ready L =
     (case filter (\<lambda>l. L l \<noteq> []) [0 ..< WEAVE_NLANES] of [] \<Rightarrow> None | l # _ \<Rightarrow> Some (l, hd (L l)))"

lemma weave_pick_from_ready:
  assumes "lanes_rep (klinks s) L"
  shows "weave_pick_from l s =
     Some (case filter (\<lambda>l. L l \<noteq> []) [l ..< WEAVE_NLANES] of [] \<Rightarrow> None | k # _ \<Rightarrow> Some (hd (L k)))"
proof (induction "WEAVE_NLANES - l" arbitrary: l)
  case 0
  then show ?case by (subst weave_pick_from.simps) simp
next
  case (Suc n)
  then have l: "l < WEAVE_NLANES" by simp
  have emp: "list_empty (klinks s) (LaneHead l) \<longleftrightarrow> L l = []"
    using dlist_empty_iff[OF lanes_repD(1)[OF assms l]] by simp
  have IH: "weave_pick_from (Suc l) s =
      Some (case filter (\<lambda>l. L l \<noteq> []) [Suc l ..< WEAVE_NLANES] of [] \<Rightarrow> None | k # _ \<Rightarrow> Some (hd (L k)))"
    by (rule Suc.hyps(1)) (use Suc.hyps(2) in simp)
  have "lh_next (klinks s (LaneHead l)) = Some (RunNode (hd (L l)))" if "L l \<noteq> []"
    using lanes_repD(1)[OF assms l] that by (cases "L l") (simp_all add: dlist_first)
  then show ?case using l emp IH by (subst weave_pick_from.simps) (simp add: upt_conv_Cons)
qed

lemma weave_pick_ready:
  assumes "lanes_rep (klinks s) L"
  shows "weave_pick s = Some (map_option snd (next_ready L))"
  using weave_pick_from_ready[OF assms, of 0]
  by (simp add: weave_pick_def next_ready_def split: list.splits)

lemma next_ready_None: "next_ready L = None \<longleftrightarrow> queued L = {}"
proof -
  have "next_ready L = None \<longleftrightarrow> filter (\<lambda>l. L l \<noteq> []) [0 ..< WEAVE_NLANES] = []"
    by (simp add: next_ready_def del: upt_rec_numeral split: list.splits)
  then show ?thesis by (auto simp: filter_empty_conv queued_def simp del: upt_rec_numeral)
qed

lemma next_ready_Some:
  assumes "next_ready L = Some (l, t)"
  shows "l < WEAVE_NLANES" "L l = t # tl (L l)" "\<And>k. k < l \<Longrightarrow> L k = []"
proof -
  from assms obtain ls where f: "filter (\<lambda>l. L l \<noteq> []) [0 ..< WEAVE_NLANES] = l # ls" "t = hd (L l)"
    by (auto simp: next_ready_def simp del: upt_rec_numeral split: list.splits)
  from f(1) have "l \<in> set (filter (\<lambda>l. L l \<noteq> []) [0 ..< WEAVE_NLANES])" by (metis list.set_intros(1))
  then show l: "l < WEAVE_NLANES" "L l = t # tl (L l)" using f(2) by (auto simp del: upt_rec_numeral)
  show "L k = []" if "k < l" for k
  proof (rule ccontr)
    assume "L k \<noteq> []"
    then have "k \<in> set (l # ls)" using f(1)[symmetric] that l(1) by (simp del: upt_rec_numeral)
    moreover have "sorted (l # ls)" using f(1)[symmetric] by (simp add: sorted_wrt_filter del: upt_rec_numeral)
    ultimately show False using that by auto
  qed
qed

section \<open>The invariant\<close>

definition lane_count :: "lanes \<Rightarrow> nat" where
  "lane_count L = (\<Sum>l < WEAVE_NLANES. length (L l))"

lemma lane_count_update:
  assumes "l < WEAVE_NLANES"
  shows "lane_count (L(l := xs)) + length (L l) = lane_count L + length xs"
proof -
  have "lane_count (L(l := xs)) = length xs + (\<Sum>k \<in> {..< WEAVE_NLANES} - {l}. length (L k))"
    unfolding lane_count_def using assms by (subst sum.remove[of _ l]) auto
  moreover have "lane_count L = length (L l) + (\<Sum>k \<in> {..< WEAVE_NLANES} - {l}. length (L k))"
    unfolding lane_count_def using assms by (subst sum.remove[of _ l]) auto
  ultimately show ?thesis by simp
qed

definition sched_rep :: "lanes \<Rightarrow> nat list \<Rightarrow> sched \<Rightarrow> bool" where
  "sched_rep L G s \<longleftrightarrow>
     lanes_rep (klinks s) L \<and> dlist (klinks s) GlobalHead (map AllNode G) \<and> 0 \<notin> set G \<and>
     queued L \<subseteq> insert 0 (set G) \<and>
     (\<forall>t \<in> insert 0 (set G) - queued L. unlinked (klinks s) t) \<and>
     (\<forall>l < WEAVE_NLANES. \<forall>t \<in> set (L l).
        weave_lane (task s t) = l \<and> tstate (task s t) = TASK_STATE_READY \<and> weave_on (task s t)) \<and>
     (\<forall>t \<in> insert 0 (set G). weave_lane (task s t) < WEAVE_NLANES) \<and>
     pid (task s 0) = 0 \<and> 0 < next_pid s \<and> next_pid s \<le> INT32_MAX \<and>
     (\<forall>t \<in> set G. 0 < pid (task s t) \<and> pid (task s t) < next_pid s) \<and>
     distinct (map (\<lambda>t. pid (task s t)) G) \<and> weave_nready s = lane_count L"

definition running :: "nat \<Rightarrow> lanes \<Rightarrow> nat list \<Rightarrow> sched \<Rightarrow> bool" where
  "running c L G s \<longleftrightarrow>
     weave_current s = Some c \<and> current_task s = Some c \<and> c \<in> insert 0 (set G) \<and> c \<notin> queued L"

lemma sched_rep_cong:
  assumes "klinks s' = klinks s" "task s' = task s" "weave_nready s' = weave_nready s" "next_pid s' = next_pid s"
  shows "sched_rep L G s' = sched_rep L G s"
  unfolding sched_rep_def assms ..

lemma sched_rep_fields [simp]:
  "sched_rep L G (s\<lparr>current_task := a\<rparr>) = sched_rep L G s"
  "sched_rep L G (s\<lparr>weave_current := a\<rparr>) = sched_rep L G s"
  "sched_rep L G (s\<lparr>weave_preempt := b\<rparr>) = sched_rep L G s"
  "sched_rep L G (s\<lparr>weave_switches := n\<rparr>) = sched_rep L G s"
  "sched_rep L G (s\<lparr>weave_preemptions := n\<rparr>) = sched_rep L G s"
  "sched_rep L G (s\<lparr>weave_need_resched := b\<rparr>) = sched_rep L G s"
  "sched_rep L G (s\<lparr>weave_preempt_depth := i\<rparr>) = sched_rep L G s"
  by (rule sched_rep_cong; simp)+

lemma upd_task_simps [simp]:
  "klinks (upd_task t f s) = klinks s" "weave_nready (upd_task t f s) = weave_nready s"
  "next_pid (upd_task t f s) = next_pid s" "current_task (upd_task t f s) = current_task s"
  "weave_current (upd_task t f s) = weave_current s" "weave_preempt (upd_task t f s) = weave_preempt s"
  "weave_switches (upd_task t f s) = weave_switches s" "weave_preemptions (upd_task t f s) = weave_preemptions s"
  "weave_need_resched (upd_task t f s) = weave_need_resched s"
  "weave_preempt_depth (upd_task t f s) = weave_preempt_depth s"
  "task (upd_task t f s) u = (if u = t then f (task s t) else task s u)"
  by (simp_all add: upd_task_def)

lemma sched_rep_upd:
  assumes "sched_rep L G s" "pid (f (task s t)) = pid (task s t)" "weave_lane (f (task s t)) < WEAVE_NLANES"
    "t \<in> queued L \<Longrightarrow> weave_lane (f (task s t)) = weave_lane (task s t) \<and>
       tstate (f (task s t)) = tstate (task s t) \<and> weave_on (f (task s t)) = weave_on (task s t)"
  shows "sched_rep L G (upd_task t f s)"
proof -
  have "weave_lane (task (upd_task t f s) u) = l \<and> tstate (task (upd_task t f s) u) = TASK_STATE_READY \<and>
      weave_on (task (upd_task t f s) u)" if "l < WEAVE_NLANES" "u \<in> set (L l)" for l u
    using assms(1,4) that queuedI[of l u L] by (auto simp: sched_rep_def)
  moreover have "pid (task (upd_task t f s) u) = pid (task s u)" for u using assms(2) by simp
  moreover have "weave_lane (task (upd_task t f s) u) < WEAVE_NLANES" if "u \<in> insert 0 (set G)" for u
    using assms(1,3) that by (auto simp: sched_rep_def)
  ultimately show ?thesis using assms(1) unfolding sched_rep_def by (simp del: upd_task_simps(11))
qed

text \<open>Two updates of links and the ready count: on to a lane, off a lane.\<close>

lemma weave_enqueue_rep:
  assumes "sched_rep L G s" "t \<notin> queued L" "t \<in> insert 0 (set G)" "tstate (task s t) = TASK_STATE_READY"
    "weave_on (task s t)" "weave_lane (task s t) = l"
  obtains h where "weave_enqueue t s = Some (s\<lparr>klinks := h, weave_nready := weave_nready s + 1\<rparr>)"
    "sched_rep (L(l := L l @ [t])) G (s\<lparr>klinks := h, weave_nready := weave_nready s + 1\<rparr>)"
proof -
  have l: "l < WEAVE_NLANES" using assms(1,3,6) by (auto simp: sched_rep_def)
  have lr: "lanes_rep (klinks s) L" using assms(1) by (simp add: sched_rep_def)
  from lanes_rep_push[OF lr l assms(2)] obtain h where h:
    "list_add_tail (RunNode t) (LaneHead l) (klinks s) = Some h" "lanes_rep h (L(l := L l @ [t]))"
    "\<And>m. m \<notin> RunNode ` insert t (queued L) \<Longrightarrow> m \<notin> LaneHead ` {..< WEAVE_NLANES} \<Longrightarrow> h m = klinks s m"
    "\<And>u. u \<notin> insert t (queued L) \<Longrightarrow> unlinked h u = unlinked (klinks s) u" by blast
  have q: "queued (L(l := L l @ [t])) = insert t (queued L)"
    using queued_split(1)[OF l, of L "L l @ [t]"] queued_split(2)[OF l, of L] by auto
  have "dlist h GlobalHead (map AllNode G)"
    using assms(1) dlist_cong[of GlobalHead "map AllNode G" h "klinks s"] h(3) by (auto simp: sched_rep_def)
  moreover have "lane_count (L(l := L l @ [t])) = lane_count L + 1"
    using lane_count_update[OF l, of L "L l @ [t]"] by simp
  ultimately have "sched_rep (L(l := L l @ [t])) G (s\<lparr>klinks := h, weave_nready := weave_nready s + 1\<rparr>)"
    using assms h(2,4) unfolding sched_rep_def q by (auto simp: fun_upd_apply)
  moreover have "weave_enqueue t s = Some (s\<lparr>klinks := h, weave_nready := weave_nready s + 1\<rparr>)"
    using h(1) assms(6) l by (simp add: weave_enqueue_def)
  ultimately show thesis by (intro that)
qed

lemma weave_take_rep:
  assumes "sched_rep L G s" "l < WEAVE_NLANES" "L l = xs @ t # ys"
  obtains h where "weave_take t s = Some (s\<lparr>klinks := h, weave_nready := weave_nready s - 1\<rparr>)"
    "sched_rep (L(l := xs @ ys)) G (s\<lparr>klinks := h, weave_nready := weave_nready s - 1\<rparr>)"
    "queued (L(l := xs @ ys)) = queued L - {t}"
proof -
  have lr: "lanes_rep (klinks s) L" using assms(1) by (simp add: sched_rep_def)
  from lanes_rep_del[where L = L, OF lr assms(2,3)] obtain h where h:
    "list_del (RunNode t) (klinks s) = Some h" "lanes_rep h (L(l := xs @ ys))"
    "\<And>m. m \<notin> RunNode ` queued L \<Longrightarrow> m \<notin> LaneHead ` {..< WEAVE_NLANES} \<Longrightarrow> h m = klinks s m"
    "\<And>u. u \<notin> queued L \<Longrightarrow> unlinked h u = unlinked (klinks s) u" "unlinked h t" by blast
  have "t \<notin> (\<Union>k \<in> {..< WEAVE_NLANES} - {l}. set (L k))"
    using lr assms(2,3) by (auto simp: lanes_rep_def)
  moreover have "t \<notin> set xs" "t \<notin> set ys" using lanes_repD(2)[OF lr assms(2)] assms(3) by auto
  ultimately have q: "queued (L(l := xs @ ys)) = queued L - {t}"
    unfolding queued_split(1)[OF assms(2)] queued_split(2)[OF assms(2), of L] using assms(3) by auto
  have "dlist h GlobalHead (map AllNode G)"
    using assms(1) dlist_cong[of GlobalHead "map AllNode G" h "klinks s"] h(3) by (auto simp: sched_rep_def)
  moreover have c: "lane_count (L(l := xs @ ys)) + 1 = lane_count L"
    using lane_count_update[OF assms(2), of L "xs @ ys"] assms(3) by simp
  ultimately have "sched_rep (L(l := xs @ ys)) G (s\<lparr>klinks := h, weave_nready := weave_nready s - 1\<rparr>)"
    using assms h(2,4,5) unfolding sched_rep_def q by (auto simp: fun_upd_apply)
  moreover have "weave_take t s = Some (s\<lparr>klinks := h, weave_nready := weave_nready s - 1\<rparr>)"
    using h(1) c assms(1) by (simp add: weave_take_def sched_rep_def)
  ultimately show thesis using q by (intro that)
qed

section \<open>What each operation does to the lanes\<close>

lemma preempt_tail_simps [simp]:
  "klinks (preempt_tail t s) = klinks s" "weave_nready (preempt_tail t s) = weave_nready s"
  "next_pid (preempt_tail t s) = next_pid s" "current_task (preempt_tail t s) = current_task s"
  "weave_current (preempt_tail t s) = weave_current s" "weave_switches (preempt_tail t s) = weave_switches s"
  "weave_preempt (preempt_tail t s) = weave_preempt s"
  "weave_preempt_depth (preempt_tail t s) = weave_preempt_depth s"
  "weave_need_resched (preempt_tail t s) = weave_need_resched s"
  "pid (task (preempt_tail t s) u) = pid (task s u)"
  "weave_lane (task (preempt_tail t s) u) = weave_lane (task s u)"
  "tstate (task (preempt_tail t s) u) = tstate (task s u)"
  "weave_on (task (preempt_tail t s) u) = weave_on (task s u)"
  "weave_credit (task (preempt_tail t s) u) = weave_credit (task s u)"
  "sched_runs (task (preempt_tail t s) u) = sched_runs (task s u)"
  by (auto simp: preempt_tail_def Let_def split: option.splits)

lemma sched_rep_tail [simp]: "sched_rep L G (preempt_tail t s) = sched_rep L G s"
  by (simp add: sched_rep_def)

text \<open>The lane on which a switched-out task waits, if it takes part in the rotation.\<close>

definition rotates :: "sched \<Rightarrow> nat \<Rightarrow> bool" where
  "rotates s c \<longleftrightarrow> weave_on (task s c) \<and>
     (tstate (task s c) = TASK_STATE_RUNNING \<or> tstate (task s c) = TASK_STATE_READY)"

definition woven :: "bool \<Rightarrow> nat \<Rightarrow> nat" where
  "woven voluntary l = (if voluntary then l - 1 else if l < WEAVE_NLANES - 1 then l + 1 else l)"

definition requeue_lanes :: "bool \<Rightarrow> sched \<Rightarrow> nat \<Rightarrow> lanes \<Rightarrow> lanes" where
  "requeue_lanes voluntary s c L =
     (if rotates s c then (let l = woven voluntary (weave_lane (task s c)) in L(l := L l @ [c])) else L)"

lemma woven_bound [simp]: "l < WEAVE_NLANES \<Longrightarrow> woven v l < WEAVE_NLANES"
  by (auto simp: woven_def)

lemma weave_requeue_rep:
  assumes "sched_rep L G s" "c \<notin> queued L" "c \<in> insert 0 (set G)"
  obtains s' where "weave_requeue v c s = Some s'" "sched_rep (requeue_lanes v s c L) G s'"
    "queued (requeue_lanes v s c L) = (if rotates s c then insert c (queued L) else queued L)"
    "weave_current s' = weave_current s" "current_task s' = current_task s"
    "weave_switches s' = weave_switches s" "\<And>t. t \<noteq> c \<Longrightarrow> task s' t = task s t"
    "sched_runs (task s' c) = sched_runs (task s c)"
proof (cases "rotates s c")
  case False
  then have "weave_requeue v c s = Some s" by (auto simp: weave_requeue_def rotates_def)
  then show thesis using assms False by (intro that[of s]) (auto simp: requeue_lanes_def)
next
  case True
  let ?l = "woven v (weave_lane (task s c))"
  let ?s = "upd_task c (\<lambda>k. k\<lparr>weave_lane := ?l, weave_credit := weave_quantum ?l, tstate := TASK_STATE_READY\<rparr>) s"
  have wl: "weave_lane (task s c) < WEAVE_NLANES" using assms(1,3) by (auto simp: sched_rep_def)
  have rep: "sched_rep L G ?s" by (rule sched_rep_upd[OF assms(1)]) (use assms(2) wl in auto)
  from weave_enqueue_rep[OF rep assms(2,3), of ?l] obtain h where h:
    "weave_enqueue c ?s = Some (?s\<lparr>klinks := h, weave_nready := weave_nready ?s + 1\<rparr>)"
    "sched_rep (L(?l := L ?l @ [c])) G (?s\<lparr>klinks := h, weave_nready := weave_nready ?s + 1\<rparr>)"
    using True by (auto simp: rotates_def)
  have e: "weave_requeue v c s = weave_enqueue c ?s"
    using True by (auto simp: weave_requeue_def rotates_def woven_def Let_def)
  have l: "?l < WEAVE_NLANES" using wl by simp
  have q: "queued (L(?l := L ?l @ [c])) = insert c (queued L)"
    using queued_split(1)[OF l, of L "L ?l @ [c]"] queued_split(2)[OF l, of L] by auto
  show thesis
    using True h q by (intro that[OF e[unfolded h(1)]]) (simp_all add: requeue_lanes_def Let_def)
qed

lemma rotates_links [simp]: "rotates (s\<lparr>klinks := h, weave_nready := n\<rparr>) c = rotates s c"
  by (simp add: rotates_def)

lemma requeue_lanes_links [simp]: "requeue_lanes v (s\<lparr>klinks := h, weave_nready := n\<rparr>) c L = requeue_lanes v s c L"
  by (simp add: requeue_lanes_def)

lemma weave_switch_to_rep:
  assumes "sched_rep L G s" "weave_current s = Some c" "t \<noteq> c" "t \<notin> queued L" "t \<in> insert 0 (set G)"
  obtains s' where "weave_switch_to t s = Some s'" "sched_rep L G s'" "running t L G s'"
    "weave_switches s' = weave_switches s + 1" "tstate (task s' t) = TASK_STATE_RUNNING"
    "weave_lane (task s' t) = weave_lane (task s t)" "weave_credit (task s' t) = weave_credit (task s t)"
    "weave_on (task s' t) = weave_on (task s t)" "sched_runs (task s' t) = sched_runs (task s t) + 1"
    "\<And>u. u \<noteq> t \<Longrightarrow> task s' u = task s u"
proof -
  let ?s1 = "upd_task t (\<lambda>k. k\<lparr>tstate := TASK_STATE_RUNNING, sched_runs := sched_runs k + 1\<rparr>) s"
  let ?s2 = "task_set_current (Some t) (?s1\<lparr>weave_switches := weave_switches ?s1 + 1, weave_current := Some t\<rparr>)"
  have wl: "weave_lane (task s t) < WEAVE_NLANES" using assms(1,5) by (auto simp: sched_rep_def)
  have "sched_rep L G ?s1" by (rule sched_rep_upd[OF assms(1)]) (use assms(4) wl in auto)
  then have rep: "sched_rep L G (preempt_tail t ?s2)" by (simp add: task_set_current_def)
  have w: "weave_switch_to t s = Some (preempt_tail t ?s2)"
    using assms(2,3) by (auto simp: weave_switch_to_def Let_def)
  have "task (preempt_tail t ?s2) u = task s u" if "u \<noteq> t" for u
    using that by (auto simp: preempt_tail_def task_set_current_def Let_def split: option.splits)
  then show thesis using assms
    by (intro that[OF w rep]) (simp_all add: running_def task_set_current_def)
qed

lemma weave_rotate_rep:
  assumes "sched_rep L G s" "running c L G s" "next_ready L = Some (l, t)"
    "L' = requeue_lanes v s c (L(l := tl (L l)))"
  obtains s' where "weave_rotate v s = Some s'" "sched_rep L' G s'" "running t L' G s'"
    "weave_switches s' = weave_switches s + 1" "tstate (task s' t) = TASK_STATE_RUNNING"
    "weave_lane (task s' t) = l" "weave_on (task s' t)" "weave_credit (task s' t) = weave_quantum l"
    "sched_runs (task s' t) = sched_runs (task s t) + 1" "\<And>u. u \<noteq> t \<Longrightarrow> u \<noteq> c \<Longrightarrow> task s' u = task s u"
    "sched_runs (task s' c) = sched_runs (task s c)" "insert t (queued L') \<subseteq> insert c (queued L)"
proof -
  note nr = next_ready_Some[OF assms(3)]
  have lr: "lanes_rep (klinks s) L" using assms(1) by (simp add: sched_rep_def)
  have cur: "weave_current s = Some c" "c \<in> insert 0 (set G)" "c \<notin> queued L"
    using assms(2) by (auto simp: running_def)
  have t: "t \<in> queued L" using queuedI[OF nr(1), of t L] nr(2) by (metis list.set_intros(1))
  then have tc: "t \<noteq> c" "t \<in> insert 0 (set G)" "weave_on (task s t)" "weave_lane (task s t) = l"
    using cur(3) assms(1) nr(1,2) list.set_intros(1)[of t "tl (L l)"] by (auto simp: sched_rep_def)
  from weave_take_rep[OF assms(1) nr(1), of "[]" t "tl (L l)"] nr(2) obtain h where h:
    "weave_take t s = Some (s\<lparr>klinks := h, weave_nready := weave_nready s - 1\<rparr>)"
    "sched_rep (L(l := tl (L l))) G (s\<lparr>klinks := h, weave_nready := weave_nready s - 1\<rparr>)"
    "queued (L(l := tl (L l))) = queued L - {t}" by auto
  let ?s1 = "s\<lparr>klinks := h, weave_nready := weave_nready s - 1\<rparr>"
  have c1: "c \<notin> queued (L(l := tl (L l)))" using h(3) cur(3) by simp
  obtain s2 where s2: "weave_requeue v c ?s1 = Some s2" "sched_rep L' G s2"
    "queued L' = (if rotates s c then insert c (queued L - {t}) else queued L - {t})"
    "weave_current s2 = Some c" "weave_switches s2 = weave_switches s"
    "\<And>u. u \<noteq> c \<Longrightarrow> task s2 u = task s u" "sched_runs (task s2 c) = sched_runs (task s c)"
    by (rule weave_requeue_rep[OF h(2) c1 cur(2), of v]) (use h(3) cur(1) assms(4) in simp)
  let ?f = "\<lambda>k. k\<lparr>weave_credit := weave_quantum (weave_lane k)\<rparr>"
  have wl: "weave_lane (task s2 t) < WEAVE_NLANES" using s2(2) tc(2) by (auto simp: sched_rep_def)
  have rep: "sched_rep L' G (upd_task t ?f s2)"
    by (rule sched_rep_upd[OF s2(2)]) (use wl in auto)
  have tq: "t \<notin> queued L'" using s2(3) tc(1) by simp
  from weave_switch_to_rep[OF rep _ tc(1) tq tc(2)] s2(4) obtain s' where s':
    "weave_switch_to t (upd_task t ?f s2) = Some s'" "sched_rep L' G s'" "running t L' G s'"
    "weave_switches s' = weave_switches (upd_task t ?f s2) + 1" "tstate (task s' t) = TASK_STATE_RUNNING"
    "weave_lane (task s' t) = weave_lane (task (upd_task t ?f s2) t)"
    "weave_credit (task s' t) = weave_credit (task (upd_task t ?f s2) t)"
    "weave_on (task s' t) = weave_on (task (upd_task t ?f s2) t)"
    "sched_runs (task s' t) = sched_runs (task (upd_task t ?f s2) t) + 1"
    "\<And>u. u \<noteq> t \<Longrightarrow> task s' u = task (upd_task t ?f s2) u" by auto
  have "weave_rotate v s = Some s'"
    using weave_pick_ready[OF lr] assms(3) h(1) s2(1) s'(1) cur(1) by (simp add: weave_rotate_def)
  then show thesis
    using s' s2(3,5,7) s2(6) tc t by (intro that[of s']) auto
qed

lemma weave_rotate_idle:
  assumes "sched_rep L G s" "next_ready L = None"
  shows "weave_rotate v s = Some s"
  using weave_pick_ready[of s L] assms by (simp add: weave_rotate_def sched_rep_def)

lemma sched_exit_current_rep:
  assumes "sched_rep L G s" "running c L G s" "next_ready L = Some (l, t)"
  obtains s' where "sched_exit_current s = Some s'" "sched_rep (L(l := tl (L l))) G s'"
    "running t (L(l := tl (L l))) G s'" "queued (L(l := tl (L l))) = queued L - {t}"
proof -
  note nr = next_ready_Some[OF assms(3)]
  have lr: "lanes_rep (klinks s) L" using assms(1) by (simp add: sched_rep_def)
  have t: "t \<in> queued L" using queuedI[OF nr(1), of t L] nr(2) by (metis list.set_intros(1))
  then have tG: "t \<in> insert 0 (set G)" using assms(1) by (auto simp: sched_rep_def)
  from weave_take_rep[OF assms(1) nr(1), of "[]" t "tl (L l)"] nr(2) obtain h where h:
    "weave_take t s = Some (s\<lparr>klinks := h, weave_nready := weave_nready s - 1\<rparr>)"
    "sched_rep (L(l := tl (L l))) G (s\<lparr>klinks := h, weave_nready := weave_nready s - 1\<rparr>)"
    "queued (L(l := tl (L l))) = queued L - {t}" by auto
  let ?s1 = "s\<lparr>klinks := h, weave_nready := weave_nready s - 1\<rparr>"
  let ?f = "\<lambda>k. k\<lparr>tstate := TASK_STATE_RUNNING, sched_runs := sched_runs k + 1,
    weave_credit := weave_quantum (weave_lane k)\<rparr>"
  have "weave_lane (task ?s1 t) < WEAVE_NLANES" using h(2) tG by (auto simp: sched_rep_def)
  then have rep: "sched_rep (L(l := tl (L l))) G (upd_task t ?f ?s1)"
    by (intro sched_rep_upd[OF h(2)]) (use h(3) in auto)
  have e: "sched_exit_current s = Some (preempt_tail t (task_set_current (Some t)
      ((upd_task t ?f ?s1)\<lparr>weave_switches := weave_switches (upd_task t ?f ?s1) + 1, weave_current := Some t\<rparr>)))"
    using weave_pick_ready[OF lr] assms(3) h(1) by (simp add: sched_exit_current_def Let_def)
  show thesis using rep tG h(3)
    by (intro that[OF e]) (simp_all add: task_set_current_def running_def)
qed

text \<open>The task list.\<close>

lemma find_pid_walk_dlist:
  assumes "links (lh_next \<circ> klinks s) (lh_prev \<circ> klinks s) p (map AllNode G) (Some GlobalHead)"
  shows "find_pid_walk s q (hd_or (map AllNode G) (Some GlobalHead)) = Some (find (\<lambda>t. pid (task s t) = q) G)"
  using assms
proof (induction G arbitrary: p)
  case Nil
  then show ?case by (simp add: find_pid_walk.simps)
next
  case (Cons t G)
  have "find_pid_walk s q (hd_or (map AllNode G) (Some GlobalHead)) = Some (find (\<lambda>t. pid (task s t) = q) G)"
    by (rule Cons.IH[of "Some (AllNode t)"]) (use Cons.prems in simp)
  then show ?case using Cons.prems by (subst find_pid_walk.simps) auto
qed

lemma task_find_by_pid_rep:
  assumes "sched_rep L G s" "q \<noteq> 0"
  shows "task_find_by_pid q s = Some (find (\<lambda>t. pid (task s t) = q) G)"
proof -
  have d: "dlist (klinks s) GlobalHead (map AllNode G)" using assms(1) by (simp add: sched_rep_def)
  then have "lh_next (klinks s GlobalHead) = hd_or (map AllNode G) (Some GlobalHead)" by (rule dlistD(3))
  with d find_pid_walk_dlist[of s "Some GlobalHead" G q] assms(2) show ?thesis
    by (simp add: task_find_by_pid_def dlist_def)
qed

lemma weave_take_upd: "weave_take t (upd_task u f s) = map_option (upd_task u f) (weave_take t s)"
  by (cases "list_del (RunNode t) (klinks s)") (auto simp: weave_take_def upd_task_def)

lemma sched_remove_task_rep:
  assumes "sched_rep L G s" "t \<in> insert 0 (set G)"
  obtains s' L' where "sched_remove_task t (upd_task t (\<lambda>k. k\<lparr>tstate := st\<rparr>) s) = Some s'"
    "sched_rep L' G s'" "queued L' = queued L - {t}"
    "weave_current s' = weave_current s" "current_task s' = current_task s"
proof -
  let ?f = "\<lambda>k. k\<lparr>tstate := st\<rparr>" and ?g = "\<lambda>k. k\<lparr>weave_on := False\<rparr>"
  have off: "sched_rep L' G (upd_task t ?g (upd_task t ?f s0))"
    if "sched_rep L' G s0" "t \<notin> queued L'" for L' s0
  proof -
    have "weave_lane (task s0 t) < WEAVE_NLANES" using that(1) assms(2) by (auto simp: sched_rep_def)
    then show ?thesis using that by (intro sched_rep_upd) auto
  qed
  show thesis
  proof (cases "t \<in> queued L")
    case False
    then have "\<not> weave_linked t (upd_task t ?f s)"
      using assms by (auto simp: weave_linked_unlinked sched_rep_def)
    then show thesis using off[OF assms(1) False] False
      by (intro that[of "upd_task t ?g (upd_task t ?f s)" L]) (auto simp: sched_remove_task_def)
  next
    case True
    then obtain l where l: "l < WEAVE_NLANES" "t \<in> set (L l)" by (rule queuedE)
    then obtain xs ys where xy: "L l = xs @ t # ys" by (meson split_list)
    have lk: "weave_linked t (upd_task t ?f s)"
      using assms(1) True lanes_rep_linked by (auto simp: weave_linked_unlinked sched_rep_def)
    from weave_take_rep[where L = L, OF assms(1) l(1) xy] obtain h where h:
      "weave_take t s = Some (s\<lparr>klinks := h, weave_nready := weave_nready s - 1\<rparr>)"
      "sched_rep (L(l := xs @ ys)) G (s\<lparr>klinks := h, weave_nready := weave_nready s - 1\<rparr>)"
      "queued (L(l := xs @ ys)) = queued L - {t}" by blast
    have "sched_remove_task t (upd_task t ?f s) =
        Some (upd_task t ?g (upd_task t ?f (s\<lparr>klinks := h, weave_nready := weave_nready s - 1\<rparr>)))"
      using lk h(1) by (simp add: sched_remove_task_def weave_take_upd)
    then show thesis by (rule that[OF _ off[OF h(2)]]) (use h(3) in auto)
  qed
qed

text \<open>Creation: a fresh task joins the task list and lane 0.\<close>

lemma sched_rep_fresh:
  assumes "sched_rep L G s" "t \<notin> insert 0 (set G)"
  shows "sched_rep L G (upd_task t f s)"
proof -
  have "task (upd_task t f s) u = task s u" if "u \<in> insert 0 (set G)" for u using that assms(2) by auto
  moreover have "u \<in> insert 0 (set G)" if "l < WEAVE_NLANES" "u \<in> set (L l)" for u l
    using assms(1) queuedI[of l u L] that by (auto simp: sched_rep_def)
  moreover have "distinct (map (\<lambda>u. pid (task (upd_task t f s) u)) G)"
  proof -
    have "map (\<lambda>u. pid (task (upd_task t f s) u)) G = map (\<lambda>u. pid (task s u)) G"
      using assms(2) by (intro map_cong refl) auto
    moreover have "distinct (map (\<lambda>u. pid (task s u)) G)" using assms(1) by (simp add: sched_rep_def)
    ultimately show ?thesis by metis
  qed
  ultimately show ?thesis
    using assms(1) unfolding sched_rep_def by (simp del: upd_task_simps(11))
qed

lemma sched_rep_next_pid:
  "sched_rep L G s \<Longrightarrow> next_pid s \<le> n \<Longrightarrow> n \<le> INT32_MAX \<Longrightarrow> sched_rep L G (s\<lparr>next_pid := n\<rparr>)"
  by (auto simp: sched_rep_def)

lemma sched_rep_add_global:
  assumes "sched_rep L G s" "t \<notin> insert 0 (set G)" "weave_lane (task s t) < WEAVE_NLANES"
    "0 < pid (task s t)" "pid (task s t) < next_pid s" "pid (task s t) \<notin> (\<lambda>u. pid (task s u)) ` set G"
  obtains h where
    "list_add_tail (AllNode t) GlobalHead (INIT_LIST_HEAD (AllNode t) (INIT_LIST_HEAD (RunNode t) (klinks s))) = Some h"
    "sched_rep L (G @ [t]) (s\<lparr>klinks := h\<rparr>)"
proof -
  let ?h = "INIT_LIST_HEAD (AllNode t) (INIT_LIST_HEAD (RunNode t) (klinks s))"
  have tq: "t \<notin> queued L" using assms(1,2) by (auto simp: sched_rep_def)
  have d: "dlist ?h GlobalHead (map AllNode G)"
  proof (rule dlist_frame)
    show "dlist (klinks s) GlobalHead (map AllNode G)" using assms(1) by (simp add: sched_rep_def)
    show "?h n = klinks s n" if "n \<notin> {AllNode t, RunNode t}" for n using that by simp
    show "{AllNode t, RunNode t} \<inter> set (GlobalHead # map AllNode G) = {}" using assms(2) by auto
  qed
  have new: "AllNode t \<notin> set (GlobalHead # map AllNode G)" using assms(2) by auto
  from dlist_add_tail[OF d new] obtain h where h: "list_add_tail (AllNode t) GlobalHead ?h = Some h"
    "dlist h GlobalHead (map AllNode G @ [AllNode t])"
    "\<And>m. m \<notin> set (AllNode t # GlobalHead # map AllNode G) \<Longrightarrow> h m = ?h m" by blast
  have run: "h (RunNode u) = (if u = t then ?h (RunNode t) else klinks s (RunNode u))" for u
  proof -
    have "h (RunNode u) = ?h (RunNode u)" by (rule h(3)) auto
    then show ?thesis by simp
  qed
  have "lanes_rep h L"
  proof (rule lanes_rep_frame)
    show "lanes_rep (klinks s) L" using assms(1) by (simp add: sched_rep_def)
    show "h (LaneHead l) = klinks s (LaneHead l)" for l by (subst h(3)) auto
    show "h (RunNode u) = klinks s (RunNode u)" if "u \<in> queued L" for u using run that tq by auto
  qed
  moreover have "unlinked h u" if "u \<in> insert 0 (set (G @ [t])) - queued L" for u
  proof (cases "u = t")
    case True
    then show ?thesis
      using run[of t] by (simp add: unlinked_def INIT_LIST_HEAD_def set_next_def set_prev_def)
  next
    case False
    then have "unlinked (klinks s) u" using assms(1) that by (auto simp: sched_rep_def)
    then show ?thesis using run[of u] False by (simp add: unlinked_def)
  qed
  moreover have "dlist h GlobalHead (map AllNode (G @ [t]))" using h(2) by simp
  moreover have "distinct (map (\<lambda>u. pid (task s u)) (G @ [t]))"
    using assms(1,6) by (auto simp: sched_rep_def)
  moreover have "0 < pid (task s u) \<and> pid (task s u) < next_pid s" if "u \<in> set (G @ [t])" for u
    using assms(1,4,5) that by (auto simp: sched_rep_def)
  moreover have "weave_lane (task s u) < WEAVE_NLANES" if "u \<in> insert 0 (set (G @ [t]))" for u
    using assms(1,3) that by (auto simp: sched_rep_def)
  moreover have "queued L \<subseteq> insert 0 (set (G @ [t]))" "0 \<notin> set (G @ [t])"
    using assms(1,2) by (auto simp: sched_rep_def)
  ultimately have "sched_rep L (G @ [t]) (s\<lparr>klinks := h\<rparr>)"
    using assms(1) unfolding sched_rep_def by (simp del: map_append set_append)
  with h(1) show thesis by (rule that)
qed

lemma task_create_rep:
  assumes "sched_rep L G s" "running c L G s" "\<forall>t. tp = Some t \<longrightarrow> t \<notin> insert 0 (set G) \<and> next_pid s < INT32_MAX"
  obtains r s' L' G' where "task_create a tr nm e ar pr tp sb s = Some (r, s')"
    "sched_rep L' G' s'" "running c L' G' s'" "set G \<subseteq> set G'"
    "queued L' = queued L \<union> (set G' - set G)"
    "\<And>t. tp = Some t \<Longrightarrow> sb \<noteq> 0 \<Longrightarrow> L' = L(0 := L 0 @ [t]) \<and> G' = G @ [t] \<and> (\<forall>u. u \<noteq> t \<longrightarrow> task s' u = task s u)
       \<and> weave_preempt s' = weave_preempt s \<and> weave_preempt_depth s' = weave_preempt_depth s
       \<and> next_pid s' = next_pid s + 1"
proof (cases tp)
  case None
  then show thesis using assms by (intro that[of None s L G]) (auto simp: task_create_def)
next
  case (Some t)
  let ?new = "\<lambda>_. \<lparr>pid = next_pid s, ppid = pid (task s c), pgid = next_pid s,
      tname = cstr_ncopy 32 (case nm of Some n \<Rightarrow> n | None \<Rightarrow> ''task''),
      tstate = TASK_STATE_READY, rsp = 0, stack_base = sb, stack_size = 16384, priority = pr,
      time_slice = 10, exit_code = 0, ctx_sp = 0, weave_lane = 0, weave_credit = 0,
      sched_runs = 0, weave_on = False, saved_before = None\<rparr>"
  let ?sp = "fst (task_forge_frame a tr sb 16384 e ar (\<lambda>_. 0))"
  define s1 where "s1 = upd_task t ?new (s\<lparr>next_pid := next_pid s + 1\<rparr>)"
  define s2 where "s2 = upd_task t (\<lambda>k. k\<lparr>ctx_sp := ?sp, rsp := ?sp\<rparr>) s1"
  have fresh: "t \<notin> insert 0 (set G)" and small: "next_pid s \<noteq> INT32_MAX" using assms(3) Some by auto
  have cur: "current_task s = Some c" using assms(2) by (simp add: running_def)
  have rep1: "sched_rep L G s1"
    unfolding s1_def by (intro sched_rep_fresh sched_rep_next_pid assms(1) fresh) (use assms(3) Some in auto)
  show thesis
  proof (cases "sb = 0")
    case True
    then have "task_create a tr nm e ar pr tp sb s = Some (None, s1)"
      using Some cur small by (simp add: task_create_def Let_def s1_def)
    then show thesis using rep1 assms(2) True by (intro that[of None s1 L G]) (auto simp: running_def s1_def)
  next
    case False
    have rep2: "sched_rep L G s2" unfolding s2_def by (rule sched_rep_fresh[OF rep1 fresh])
    have old: "pid (task s2 u) < next_pid s" if "u \<in> set G" for u
      using assms(1) that fresh by (auto simp: sched_rep_def s2_def s1_def)
    have new: "pid (task s2 t) = next_pid s" "weave_lane (task s2 t) = 0" "next_pid s2 = next_pid s + 1"
      by (simp_all add: s2_def s1_def)
    have "pid (task s2 t) \<notin> (\<lambda>u. pid (task s2 u)) ` set G" using old new(1) by fastforce
    from sched_rep_add_global[OF rep2 fresh _ _ _ this] new assms(1) obtain h where h:
      "list_add_tail (AllNode t) GlobalHead (INIT_LIST_HEAD (AllNode t) (INIT_LIST_HEAD (RunNode t) (klinks s2))) = Some h"
      "sched_rep L (G @ [t]) (s2\<lparr>klinks := h\<rparr>)" by (auto simp: sched_rep_def)
    have tq: "t \<notin> queued L" using assms(1) fresh by (auto simp: sched_rep_def)
    let ?f = "\<lambda>k. k\<lparr>weave_lane := 0, weave_credit := weave_quantum 0, weave_on := True, tstate := TASK_STATE_READY\<rparr>"
    have rep3: "sched_rep L (G @ [t]) (upd_task t ?f (s2\<lparr>klinks := h\<rparr>))"
      by (rule sched_rep_upd[OF h(2)]) (use tq in auto)
    from weave_enqueue_rep[OF rep3 tq, of 0] obtain h' where h':
      "weave_enqueue t (upd_task t ?f (s2\<lparr>klinks := h\<rparr>)) = Some ((upd_task t ?f (s2\<lparr>klinks := h\<rparr>))
         \<lparr>klinks := h', weave_nready := weave_nready (upd_task t ?f (s2\<lparr>klinks := h\<rparr>)) + 1\<rparr>)"
      "sched_rep (L(0 := L 0 @ [t])) (G @ [t]) ((upd_task t ?f (s2\<lparr>klinks := h\<rparr>))
         \<lparr>klinks := h', weave_nready := weave_nready (upd_task t ?f (s2\<lparr>klinks := h\<rparr>)) + 1\<rparr>)" by auto
    have q: "queued (L(0 := L 0 @ [t])) = insert t (queued L)"
      using queued_split(1)[of 0 L "L 0 @ [t]"] queued_split(2)[of 0 L] by auto
    have "task_create a tr nm e ar pr tp sb s = Some (Some t, (upd_task t ?f (s2\<lparr>klinks := h\<rparr>))
         \<lparr>klinks := h', weave_nready := weave_nready (upd_task t ?f (s2\<lparr>klinks := h\<rparr>)) + 1\<rparr>)"
      using Some cur small False h(1) h'(1)
      by (simp add: task_create_def Let_def s1_def s2_def sched_add_task_def del: weave_enqueue_def)
    then show thesis
      by (rule that[OF _ h'(2)]) (use assms(2) fresh q Some in \<open>auto simp: running_def s1_def s2_def\<close>)
  qed
qed

section \<open>Runs\<close>

text \<open>
  The entry points of the scheduler, with the two state changes \<open>kernel/wait.c\<close> makes on tasks
  (\<open>Block\<close> on the running task, \<open>Ready\<close> on any).
\<close>

datatype sched_op =
    Create arch nat "string option" nat nat int "nat option" nat
  | Yield | Tick | Irq_Return | Exit int | Kill int int | Join | Leave
  | Set_Preempt bool | Preempt_Disable | Preempt_Enable | Block | Ready nat

definition set_state :: "task_state \<Rightarrow> nat \<Rightarrow> sched \<Rightarrow> sched" where
  "set_state st t s = upd_task t (\<lambda>k. k\<lparr>tstate := st\<rparr>) s"

fun sched_exec :: "sched_op \<Rightarrow> sched \<Rightarrow> sched option" where
  "sched_exec (Create a tr nm e ar pr tp sb) s = map_option snd (task_create a tr nm e ar pr tp sb s)"
| "sched_exec Yield s = sched_yield s"
| "sched_exec Tick s = Some (sched_tick s)"
| "sched_exec Irq_Return s = sched_preempt_on_return s"
| "sched_exec (Exit code) s = task_exit code s"
| "sched_exec (Kill p sig) s = map_option snd (task_kill p sig s)"
| "sched_exec Join s = Some (sched_join s)"
| "sched_exec Leave s = Some (sched_leave s)"
| "sched_exec (Set_Preempt b) s = Some (sched_set_preempt b s)"
| "sched_exec Preempt_Disable s = Some (sched_preempt_disable s)"
| "sched_exec Preempt_Enable s = Some (sched_preempt_enable s)"
| "sched_exec Block s =
     Some (case current_task s of Some c \<Rightarrow> set_state TASK_STATE_BLOCKED c s | None \<Rightarrow> s)"
| "sched_exec (Ready t) s = Some (set_state TASK_STATE_READY t s)"

fun node_task :: "knode \<Rightarrow> nat" where
  "node_task (RunNode t) = t"
| "node_task (AllNode t) = t"
| "node_task _ = 0"

definition lane :: "sched \<Rightarrow> nat \<Rightarrow> nat list" where
  "lane s l = (case list_for_each (klinks s) (LaneHead l) of Some ns \<Rightarrow> map node_task ns | None \<Rightarrow> [])"

definition all_tasks :: "sched \<Rightarrow> nat list" where
  "all_tasks s = 0 # (case list_for_each (klinks s) GlobalHead of Some ns \<Rightarrow> map node_task ns | None \<Rightarrow> [])"

text \<open>
  The heap hands out memory no live task occupies, a task is created only while the pid counter is
  below its maximum, and a wait queue only names existing tasks.
\<close>

fun op_ok :: "sched_op \<Rightarrow> sched \<Rightarrow> bool" where
  "op_ok (Create a tr nm e ar pr (Some t) sb) s = (t \<notin> set (all_tasks s) \<and> next_pid s < INT32_MAX)"
| "op_ok (Ready t) s = (t \<in> set (all_tasks s))"
| "op_ok _ s = True"

lemma sched_rep_lane:
  assumes "sched_rep L G s"
  shows "l < WEAVE_NLANES \<Longrightarrow> lane s l = L l" "all_tasks s = 0 # G"
proof -
  have id: "map (node_task \<circ> RunNode) xs = xs" "map (node_task \<circ> AllNode) xs = xs" for xs
    by (simp_all add: comp_def)
  show "lane s l = L l" if "l < WEAVE_NLANES"
    using dlist_for_each[OF lanes_repD(1)[of "klinks s" L l]] assms that
    by (simp add: lane_def sched_rep_def id)
  show "all_tasks s = 0 # G"
    using dlist_for_each[of "klinks s" GlobalHead "map AllNode G"] assms
    by (simp add: all_tasks_def sched_rep_def id)
qed

lemma upd_current_rep:
  assumes "sched_rep L G s" "running c L G s" "pid (f (task s c)) = pid (task s c)"
    "weave_lane (f (task s c)) = weave_lane (task s c)"
  shows "sched_rep L G (upd_task c f s)" "running c L G (upd_task c f s)"
proof -
  have "weave_lane (task s c) < WEAVE_NLANES" using assms(1,2) by (auto simp: sched_rep_def running_def)
  then show "sched_rep L G (upd_task c f s)"
    using assms by (intro sched_rep_upd) (auto simp: running_def)
  show "running c L G (upd_task c f s)" using assms(2) by (simp add: running_def)
qed

text \<open>One rotation, whatever it finds.\<close>

lemma rotate_step:
  assumes "sched_rep L G s" "running c L G s"
  obtains s' L' c' where "weave_rotate v s = Some s'" "sched_rep L' G s'" "running c' L' G s'"
    "insert c' (queued L') \<subseteq> insert c (queued L)"
proof (cases "next_ready L")
  case None
  then show thesis using assms weave_rotate_idle[OF assms(1) None] by (intro that[of s L c]) auto
next
  case (Some lt)
  then obtain l t where lt: "next_ready L = Some (l, t)" by (cases lt) auto
  show thesis by (rule weave_rotate_rep[OF assms lt refl, of v], rule that)
qed

lemma exit_step:
  assumes "sched_rep L G s" "running c L G s"
  obtains s' L' c' where "sched_exit_current s = Some s'" "sched_rep L' G s'" "running c' L' G s'"
    "insert c' (queued L') \<subseteq> insert c (queued L)"
proof (cases "next_ready L")
  case None
  then have "sched_exit_current s = Some s"
    using weave_pick_ready[of s L] assms(1) by (simp add: sched_exit_current_def sched_rep_def)
  then show thesis using assms by (intro that[of s L c]) auto
next
  case (Some lt)
  then obtain l t where lt: "next_ready L = Some (l, t)" by (cases lt) auto
  note nr = next_ready_Some[OF lt]
  have t: "t \<in> queued L" using queuedI[OF nr(1), of t L] nr(2) by (metis list.set_intros(1))
  show thesis by (rule sched_exit_current_rep[OF assms lt], rule that) (use t in auto)
qed

end
