(* ===== verification/SchedProps.thy ===== *)
theory SchedProps
  imports SchedInv
begin

text \<open>
  Properties of every run of the scheduler from boot: safety, the dispatch order, round robin inside a
  lane, preemption control, and the fate of a task that is neither running nor on a lane.
\<close>

section \<open>Every operation preserves the invariant\<close>

text \<open>What a step leaves behind: the invariant, and no task comes back from outside the rotation.\<close>

definition stepped :: "nat \<Rightarrow> lanes \<Rightarrow> nat list \<Rightarrow> sched option \<Rightarrow> bool" where
  "stepped c L G r \<longleftrightarrow>
     (\<exists>s' L' G' c'. r = Some s' \<and> sched_rep L' G' s' \<and> running c' L' G' s' \<and> set G \<subseteq> set G' \<and>
        insert c' (queued L') \<subseteq> insert c (queued L) \<union> (set G' - set G))"

lemma steppedI:
  assumes "r = Some s'" "sched_rep L' G' s'" "running c' L' G' s'" "set G \<subseteq> set G'"
    "insert c' (queued L') \<subseteq> insert c (queued L) \<union> (set G' - set G)"
  shows "stepped c L G r"
  using assms unfolding stepped_def by blast

lemma stepped_current:
  assumes "sched_rep L G s" "running c L G s" "pid (f (task s c)) = pid (task s c)"
    "weave_lane (f (task s c)) = weave_lane (task s c)"
  shows "stepped c L G (Some (upd_task c f s))"
  by (rule steppedI[OF refl upd_current_rep[where f = f, OF assms]]) auto

lemma stepped_rotate:
  assumes "sched_rep L G s" "running c L G s"
  shows "stepped c L G (weave_rotate v s)"
  by (rule rotate_step[OF assms, of v], rule steppedI) auto

lemma stepped_exit:
  assumes "sched_rep L G s" "running c L G s"
  shows "stepped c L G (sched_exit_current s)"
  by (rule exit_step[OF assms], rule steppedI) auto

lemma stepped_irq_return:
  assumes "sched_rep L G s" "running c L G s"
  shows "stepped c L G (sched_preempt_on_return s)"
proof -
  have cur: "weave_current s = Some c" using assms(2) by (simp add: running_def)
  let ?s = "upd_task c (\<lambda>k. k\<lparr>saved_before := Some (weave_switches s)\<rparr>) (s\<lparr>weave_need_resched := False\<rparr>)"
  have rep: "sched_rep L G (s\<lparr>weave_need_resched := False\<rparr>)" "running c L G (s\<lparr>weave_need_resched := False\<rparr>)"
    using assms by (simp_all add: running_def)
  have rep': "sched_rep L G ?s" "running c L G ?s" by (rule upd_current_rep[OF rep]; simp)+
  obtain s' L' c' where s': "weave_rotate False ?s = Some s'" "sched_rep L' G s'" "running c' L' G s'"
    "insert c' (queued L') \<subseteq> insert c (queued L)" by (rule rotate_step[OF rep'])
  define s2 where "s2 = (if weave_current s' = Some c then preempt_tail c s' else s')"
  have "sched_rep L' G s2" "running c' L' G s2" using s'(2,3) by (auto simp: s2_def running_def)
  then have go: "stepped c L G (Some s2)" by (rule steppedI[OF refl]) (use s'(4) in auto)
  have stay: "stepped c L G (Some s)" using assms by (intro steppedI[OF refl]) auto
  show ?thesis
    using go stay s'(1) cur by (simp add: sched_preempt_on_return_def sched_schedule_def s2_def)
qed

lemma stepped_tick:
  assumes "sched_rep L G s" "running c L G s"
  shows "stepped c L G (Some (sched_tick s))"
proof -
  have cur: "weave_current s = Some c" using assms(2) by (simp add: running_def)
  define s1 where "s1 = (if 0 < weave_credit (task s c)
      then upd_task c (\<lambda>k. k\<lparr>weave_credit := weave_credit k - 1\<rparr>) s else s)"
  have s1: "sched_rep L G s1" "running c L G s1"
    using upd_current_rep[OF assms, of "\<lambda>k. k\<lparr>weave_credit := weave_credit k - 1\<rparr>"] assms
    by (auto simp: s1_def)
  have "sched_tick s = s \<or> sched_tick s = s1 \<or> sched_tick s = s1\<lparr>weave_need_resched := True\<rparr>"
    using cur by (auto simp: sched_tick_def s1_def Let_def)
  moreover have "sched_rep L G (s1\<lparr>weave_need_resched := True\<rparr>)" "running c L G (s1\<lparr>weave_need_resched := True\<rparr>)"
    using s1 by (simp_all add: running_def)
  ultimately have "sched_rep L G (sched_tick s)" "running c L G (sched_tick s)" using s1 assms by metis+
  then show ?thesis by (intro steppedI[OF refl]) auto
qed

lemma stepped_kill:
  assumes "sched_rep L G s" "running c L G s"
  shows "stepped c L G (map_option snd (task_kill p sig s))"
proof -
  have stay: "stepped c L G (Some s)" using assms by (intro steppedI[OF refl]) auto
  show ?thesis
  proof (cases "p = 0 \<or> find (\<lambda>t. pid (task s t) = p) G = None \<or> \<not> (sig = 9 \<or> sig = 15)")
    case True
    then have "map_option snd (task_kill p sig s) = Some s"
      using task_find_by_pid_rep[OF assms(1), of p] by (cases "p = 0") (auto simp: task_kill_def split: option.splits)
    then show ?thesis using stay by (simp only:)
  next
    case False
    then obtain t where t: "find (\<lambda>t. pid (task s t) = p) G = Some t" by auto
    then have "t \<in> insert 0 (set G)" by (auto simp: find_Some_iff)
    then obtain s' L' where s': "sched_remove_task t (upd_task t (\<lambda>k. k\<lparr>tstate := TASK_STATE_DEAD\<rparr>) s) = Some s'"
      "sched_rep L' G s'" "queued L' = queued L - {t}" "weave_current s' = weave_current s"
      "current_task s' = current_task s"
      by (rule sched_remove_task_rep[OF assms(1)])
    then have "map_option snd (task_kill p sig s) = Some s'"
      using False t task_find_by_pid_rep[OF assms(1), of p] by (simp add: task_kill_def)
    moreover have "running c L' G s'" using assms(2) s'(3-5) by (simp add: running_def)
    ultimately show ?thesis using s'(2,3) by (intro steppedI) auto
  qed
qed

lemma stepped_ready:
  assumes "sched_rep L G s" "running c L G s" "t \<in> insert 0 (set G)"
  shows "stepped c L G (Some (set_state TASK_STATE_READY t s))"
proof (rule steppedI[OF refl])
  have "tstate (task s t) = TASK_STATE_READY" if "t \<in> queued L"
    using assms(1) that by (auto simp: sched_rep_def elim!: queuedE)
  moreover have "weave_lane (task s t) < WEAVE_NLANES" using assms(1,3) by (auto simp: sched_rep_def)
  ultimately show "sched_rep L G (set_state TASK_STATE_READY t s)"
    unfolding set_state_def by (intro sched_rep_upd[OF assms(1)]) auto
  show "running c L G (set_state TASK_STATE_READY t s)"
    using assms(2) by (simp add: set_state_def running_def)
qed auto

lemma sched_exec_step:
  assumes "sched_rep L G s" "running c L G s" "op_ok op s"
  shows "stepped c L G (sched_exec op s)"
proof (cases op)
  case (Create a tr nm e ar pr tp sb)
  have fresh: "\<forall>t. tp = Some t \<longrightarrow> t \<notin> insert 0 (set G) \<and> next_pid s < INT32_MAX"
    using assms(3) Create sched_rep_lane(2)[OF assms(1)] by (cases tp) auto
  show ?thesis unfolding Create
    by (rule task_create_rep[OF assms(1,2) fresh, of a tr nm e ar pr sb], rule steppedI) auto
next
  case (Exit code)
  have cur: "current_task s = Some c" using assms(2) by (simp add: running_def)
  have "stepped c L G (Some s)" using assms(1,2) by (intro steppedI[OF refl]) auto
  moreover have "stepped c L G (sched_exit_current
      (upd_task c (\<lambda>k. k\<lparr>exit_code := code, tstate := TASK_STATE_DEAD, weave_on := False\<rparr>) s))"
    by (rule stepped_exit; rule upd_current_rep[OF assms(1,2)]; simp)
  ultimately show ?thesis using cur by (simp add: Exit task_exit_def)
next
  case (Ready t)
  then have "t \<in> insert 0 (set G)" using assms(3) sched_rep_lane(2)[OF assms(1)] by auto
  then show ?thesis using stepped_ready[OF assms(1,2)] Ready by simp
next
  case (Kill p sig)
  then show ?thesis using stepped_kill[OF assms(1,2)] by simp
next
  case Block
  then show ?thesis using assms(2) stepped_current[OF assms(1,2), of "\<lambda>k. k\<lparr>tstate := TASK_STATE_BLOCKED\<rparr>"]
    by (simp add: running_def set_state_def)
next
  case Join
  then show ?thesis using assms(2) stepped_current[OF assms(1,2), of "\<lambda>k. k\<lparr>weave_on := True\<rparr>"]
    by (simp add: running_def sched_join_def)
next
  case Leave
  then show ?thesis using assms(2) stepped_current[OF assms(1,2), of "\<lambda>k. k\<lparr>weave_on := False\<rparr>"]
    by (simp add: running_def sched_leave_def)
qed (use stepped_rotate[OF assms(1,2)] stepped_irq_return[OF assms(1,2)] stepped_tick[OF assms(1,2)] assms(1,2) in
    \<open>auto simp: sched_yield_def sched_set_preempt_def sched_preempt_disable_def sched_preempt_enable_def running_def
       intro!: steppedI[OF refl, of L G _ c]\<close>)

section \<open>Runs from boot\<close>

definition sched_boot :: sched where
  "sched_boot =
     \<lparr>task = (\<lambda>_. \<lparr>pid = 0, ppid = 0, pgid = 0, tname = [], tstate = TASK_STATE_READY, rsp = 0, stack_base = 0,
        stack_size = 0, priority = 0, time_slice = 0, exit_code = 0, ctx_sp = 0, weave_lane = 0,
        weave_credit = 0, sched_runs = 0, weave_on = False, saved_before = None\<rparr>),
      klinks = (\<lambda>_. \<lparr>lh_next = None, lh_prev = None\<rparr>), next_pid = 1, current_task = None,
      weave_current = None, weave_preempt = False, weave_nready = 0, weave_switches = 0,
      weave_preemptions = 0, weave_need_resched = False, weave_preempt_depth = 0\<rparr>"

inductive sched_leads :: "sched \<Rightarrow> sched \<Rightarrow> bool" where
  leads_start: "sched_leads s s"
| leads_more: "sched_leads s s' \<Longrightarrow> op_ok op s' \<Longrightarrow> sched_exec op s' = Some s'' \<Longrightarrow> sched_leads s s''"

definition sched_reach :: "sched \<Rightarrow> bool" where
  "sched_reach s \<longleftrightarrow> sched_leads (sched_init sched_boot) s"

lemma init_lanes_dlist:
  "l < n \<Longrightarrow> dlist (init_lanes n h) (LaneHead l) []" "\<forall>l < n. m \<noteq> LaneHead l \<Longrightarrow> init_lanes n h m = h m"
proof (induction n)
  case (Suc n)
  { case 1
    then show ?case
      using Suc.IH(1) dlist_cong[of "LaneHead l" "[]" "init_lanes (Suc n) h" "init_lanes n h"]
      by (cases "l = n") auto
  next
    case 2
    then show ?case using Suc.IH(2) by simp }
qed auto

lemma sched_init_rep:
  assumes "0 < next_pid s" "next_pid s \<le> INT32_MAX"
  shows "sched_rep (\<lambda>_. []) [] (sched_init s)" "running 0 (\<lambda>_. []) [] (sched_init s)"
proof -
  let ?h = "INIT_LIST_HEAD GlobalHead (INIT_LIST_HEAD (AllNode 0) (INIT_LIST_HEAD (RunNode 0)
      (init_lanes WEAVE_NLANES (klinks s))))"
  have k: "klinks (sched_init s) = ?h"
    by (simp add: sched_init_def task_init_idle_def Let_def)
  have "dlist ?h (LaneHead l) []" if "l < WEAVE_NLANES" for l
    using init_lanes_dlist(1)[OF that, of "klinks s"]
      dlist_cong[of "LaneHead l" "[]" ?h "init_lanes WEAVE_NLANES (klinks s)"] by auto
  moreover have "unlinked ?h 0"
    by (simp add: unlinked_def INIT_LIST_HEAD_def set_next_def set_prev_def)
  ultimately show "sched_rep (\<lambda>_. []) [] (sched_init s)"
    using assms k
    by (simp add: sched_rep_def lanes_rep_def queued_def lane_count_def)
      (simp add: sched_init_def task_init_idle_def Let_def)
  show "running 0 (\<lambda>_. []) [] (sched_init s)"
    by (simp add: running_def queued_def sched_init_def task_init_idle_def Let_def)
qed

lemma sched_leads_rep:
  assumes "sched_leads s s'" "sched_rep L G s" "running c L G s"
  shows "\<exists>L' G' c'. sched_rep L' G' s' \<and> running c' L' G' s' \<and> set G \<subseteq> set G' \<and>
    insert c' (queued L') \<subseteq> insert c (queued L) \<union> (set G' - set G)"
  using assms
proof (induction rule: sched_leads.induct)
  case (leads_start s)
  then show ?case by blast
next
  case (leads_more s s' op s'')
  then obtain L1 G1 c1 where 1: "sched_rep L1 G1 s'" "running c1 L1 G1 s'" "set G \<subseteq> set G1"
    "insert c1 (queued L1) \<subseteq> insert c (queued L) \<union> (set G1 - set G)" by auto
  have "stepped c1 L1 G1 (Some s'')" using sched_exec_step[OF 1(1,2) leads_more.hyps(2)] leads_more.hyps(3) by simp
  then obtain L2 G2 c2 where 2: "sched_rep L2 G2 s''" "running c2 L2 G2 s''" "set G1 \<subseteq> set G2"
    "insert c2 (queued L2) \<subseteq> insert c1 (queued L1) \<union> (set G2 - set G1)" by (auto simp: stepped_def)
  have "insert c2 (queued L2) \<subseteq> insert c (queued L) \<union> (set G2 - set G)" using 1(3,4) 2(3,4) by blast
  then show ?case using 1(3) 2 by blast
qed

lemma sched_reach_rep:
  assumes "sched_reach s"
  obtains L G c where "sched_rep L G s" "running c L G s"
proof -
  have pos: "0 < next_pid sched_boot" "next_pid sched_boot \<le> INT32_MAX" by (simp_all add: sched_boot_def)
  from sched_leads_rep[OF assms[unfolded sched_reach_def] sched_init_rep[OF pos]] that show thesis by blast
qed

lemma sched_reach_init: "sched_reach (sched_init sched_boot)"
  by (simp add: sched_reach_def sched_leads.leads_start)

lemma sched_reach_step: "sched_reach s \<Longrightarrow> op_ok op s \<Longrightarrow> sched_exec op s = Some s' \<Longrightarrow> sched_reach s'"
  unfolding sched_reach_def by (rule sched_leads.leads_more)

section \<open>Properties\<close>

text \<open>C14: In every state the scheduler can reach from boot by operations that respect \<open>op_ok\<close> (tasks are created
  in memory no task occupies and only while the 32-bit pid counter is below \<open>INT32_MAX\<close>, only existing tasks are
  made ready) no such operation faults, the running task is on no lane, every lane holds distinct tasks that are
  ready, take part in the rotation and know their lane, the ready counter is the number of queued tasks, and all
  tasks have distinct pids, none above the 32-bit range.\<close>

theorem sched_run_safe:
  assumes "sched_reach s" "op_ok op s"
  shows "(\<exists>s'. sched_exec op s = Some s') \<and>
    (\<exists>c. weave_current s = Some c \<and> current_task s = Some c \<and> (\<forall>l < WEAVE_NLANES. c \<notin> set (lane s l))) \<and>
    (\<forall>l < WEAVE_NLANES. distinct (lane s l) \<and>
       (\<forall>t \<in> set (lane s l). weave_lane (task s t) = l \<and> tstate (task s t) = TASK_STATE_READY \<and> weave_on (task s t))) \<and>
    weave_nready s = (\<Sum>l < WEAVE_NLANES. length (lane s l)) \<and>
    distinct (map (\<lambda>t. pid (task s t)) (all_tasks s)) \<and>
    (\<forall>t \<in> set (all_tasks s). 0 \<le> pid (task s t) \<and> pid (task s t) < INT32_MAX)"
proof -
  obtain L G c where rep: "sched_rep L G s" "running c L G s" by (rule sched_reach_rep[OF assms(1)])
  note lane = sched_rep_lane[OF rep(1)]
  have "stepped c L G (sched_exec op s)" by (rule sched_exec_step[OF rep assms(2)])
  then have "\<exists>s'. sched_exec op s = Some s'" by (auto simp: stepped_def)
  moreover have "c \<notin> set (lane s l)" if "l < WEAVE_NLANES" for l
    using rep(2) queuedI[OF that, of c L] lane(1)[OF that] by (auto simp: running_def)
  moreover have "distinct (lane s l)" if "l < WEAVE_NLANES" for l
    using rep(1) lanes_repD(2)[of "klinks s" L l] lane(1)[OF that] that by (simp add: sched_rep_def)
  moreover have "weave_nready s = (\<Sum>l < WEAVE_NLANES. length (lane s l))"
    using rep(1) lane(1) by (simp add: sched_rep_def lane_count_def)
  moreover have "distinct (map (\<lambda>t. pid (task s t)) (all_tasks s))"
    using rep(1) unfolding lane(2) by (auto simp: sched_rep_def)
  moreover have "weave_lane (task s t) = l \<and> tstate (task s t) = TASK_STATE_READY \<and> weave_on (task s t)"
    if "l < WEAVE_NLANES" "t \<in> set (lane s l)" for l t
    using rep(1) that lane(1)[OF that(1)] by (simp add: sched_rep_def)
  moreover have "0 \<le> pid (task s t) \<and> pid (task s t) < INT32_MAX" if "t \<in> set (all_tasks s)" for t
    using rep(1) that unfolding lane(2) by (auto simp: sched_rep_def intro: less_le_trans)
  ultimately show ?thesis using rep(2) by (auto simp: running_def)
qed

theorem sched_run_safe_witness:
  "\<exists>s'. sched_exec (Create X86_64 11 None 2 3 0 (Some 7) 4096) (sched_init sched_boot) = Some s'"
proof -
  have "op_ok (Create X86_64 11 None 2 3 0 (Some 7) 4096) (sched_init sched_boot)"
    using sched_rep_lane(2)[OF sched_init_rep(1), of sched_boot]
    by (simp add: sched_boot_def sched_init_def task_init_idle_def Let_def)
  from sched_run_safe[OF sched_reach_init this] show ?thesis by blast
qed

lemma next_ready_cong:
  assumes "\<And>l. l < WEAVE_NLANES \<Longrightarrow> L l = L' l"
  shows "next_ready L = next_ready L'"
proof -
  have f: "filter (\<lambda>l. L l \<noteq> []) [0 ..< WEAVE_NLANES] = filter (\<lambda>l. L' l \<noteq> []) [0 ..< WEAVE_NLANES]"
    by (rule filter_cong) (use assms in \<open>auto simp del: upt_rec_numeral\<close>)
  show ?thesis
  proof (cases "filter (\<lambda>l. L' l \<noteq> []) [0 ..< WEAVE_NLANES]")
    case (Cons l ls)
    then have "l \<in> set (filter (\<lambda>l. L' l \<noteq> []) [0 ..< WEAVE_NLANES])" by (metis list.set_intros(1))
    then have "L l = L' l" by (intro assms) (simp del: upt_rec_numeral)
    then show ?thesis using f Cons by (simp add: next_ready_def del: upt_rec_numeral)
  qed (use f in \<open>simp add: next_ready_def del: upt_rec_numeral\<close>)
qed

text \<open>C15: The dispatcher takes the head of the lowest lane that is not empty, gives it that lane's quantum
  and runs it; the switched-out task, if it takes part, is appended one lane up when it yielded and one
  lane down when it was preempted, and no other queue entry moves.\<close>

theorem weave_rotate_dispatch:
  assumes "sched_reach s" "weave_current s = Some c"
  shows "case next_ready (lane s) of
      None \<Rightarrow> weave_rotate voluntary s = Some s
    | Some (l, t) \<Rightarrow>
        \<exists>s'. weave_rotate voluntary s = Some s' \<and> weave_current s' = Some t \<and> t \<noteq> c \<and>
          tstate (task s' t) = TASK_STATE_RUNNING \<and> weave_credit (task s' t) = weave_quantum l \<and>
          sched_runs (task s' t) = sched_runs (task s t) + 1 \<and> weave_switches s' = weave_switches s + 1 \<and>
          (\<forall>k < WEAVE_NLANES. lane s' k = requeue_lanes voluntary s c ((lane s)(l := tl (lane s l))) k)"
proof -
  obtain L G c' where rep: "sched_rep L G s" "running c' L G s" by (rule sched_reach_rep[OF assms(1)])
  with assms(2) have run: "running c L G s" by (simp add: running_def)
  note lane = sched_rep_lane(1)[OF rep(1)]
  have nr: "next_ready (lane s) = next_ready L" by (rule next_ready_cong) (rule lane)
  show ?thesis
  proof (cases "next_ready L")
    case None
    then show ?thesis using nr weave_rotate_idle[OF rep(1) None] by simp
  next
    case (Some lt)
    then obtain l t where lt: "next_ready L = Some (l, t)" by (cases lt) auto
    note ready = next_ready_Some[OF lt]
    obtain s' where s': "weave_rotate voluntary s = Some s'"
      "sched_rep (requeue_lanes voluntary s c (L(l := tl (L l)))) G s'"
      "running t (requeue_lanes voluntary s c (L(l := tl (L l)))) G s'"
      "weave_switches s' = weave_switches s + 1" "tstate (task s' t) = TASK_STATE_RUNNING"
      "weave_credit (task s' t) = weave_quantum l" "sched_runs (task s' t) = sched_runs (task s t) + 1"
      by (rule weave_rotate_rep[OF rep(1) run lt refl, of voluntary]) blast
    have "weave_lane (task s c) < WEAVE_NLANES" using rep(1) run by (auto simp: sched_rep_def running_def)
    then have "requeue_lanes voluntary s c ((lane s)(l := tl (lane s l))) k =
        requeue_lanes voluntary s c (L(l := tl (L l))) k" if "k < WEAVE_NLANES" for k
      using lane that ready(1) by (auto simp: requeue_lanes_def Let_def)
    then have "lane s' k = requeue_lanes voluntary s c ((lane s)(l := tl (lane s l))) k"
      if "k < WEAVE_NLANES" for k using sched_rep_lane(1)[OF s'(2) that] that by simp
    moreover have "t \<noteq> c"
      using run ready(1,2) queuedI[OF ready(1), of t L] list.set_intros(1)[of t "tl (L l)"] by (auto simp: running_def)
    ultimately show ?thesis using nr lt s' by (auto simp: running_def)
  qed
qed

text \<open>A small run for the examples: two tasks created at boot and the boot thread joined.\<close>

lemma sched_demo:
  obtains s where "sched_reach s" "weave_current s = Some 0" "lane s 0 = [7, 8]" "rotates s 0"
    "weave_lane (task s 0) = 0" "tstate (task s 0) = TASK_STATE_RUNNING" "all_tasks s = [0, 7, 8]"
    "weave_preempt_depth s = 0"
proof -
  let ?i = "sched_init sched_boot"
  have i: "sched_rep (\<lambda>_. []) [] ?i" "running 0 (\<lambda>_. []) [] ?i"
    by (rule sched_init_rep; simp add: sched_boot_def)+
  have n1: "next_pid ?i = 1" by (simp add: sched_init_def task_init_idle_def sched_boot_def Let_def)
  then have f1: "\<forall>t. Some (7::nat) = Some t \<longrightarrow> t \<notin> insert 0 (set []) \<and> next_pid ?i < INT32_MAX" by simp
  obtain r1 s1 L1 G1 where s1: "task_create X86_64 11 None 2 3 0 (Some 7) 4096 ?i = Some (r1, s1)"
    "sched_rep L1 G1 s1" "running 0 L1 G1 s1"
    "L1 = (\<lambda>_. [])(0 := [7]) \<and> G1 = [7] \<and> (\<forall>u. u \<noteq> 7 \<longrightarrow> task s1 u = task ?i u) \<and>
       weave_preempt s1 = weave_preempt ?i \<and> weave_preempt_depth s1 = weave_preempt_depth ?i \<and>
       next_pid s1 = next_pid ?i + 1"
    by (rule task_create_rep[OF i f1, where sb = 4096]) auto
  have f2: "\<forall>t. Some 8 = Some t \<longrightarrow> t \<notin> insert 0 (set G1) \<and> next_pid s1 < INT32_MAX" using s1(4) n1 by simp
  obtain r2 s2 L2 G2 where s2: "task_create X86_64 11 None 2 3 0 (Some 8) 8192 s1 = Some (r2, s2)"
    "sched_rep L2 G2 s2" "running 0 L2 G2 s2"
    "L2 = L1(0 := L1 0 @ [8]) \<and> G2 = G1 @ [8] \<and> (\<forall>u. u \<noteq> 8 \<longrightarrow> task s2 u = task s1 u) \<and>
       weave_preempt s2 = weave_preempt s1 \<and> weave_preempt_depth s2 = weave_preempt_depth s1"
    by (rule task_create_rep[OF s1(2,3) f2, where sb = 8192]) auto
  let ?s = "sched_join s2"
  have s: "?s = upd_task 0 (\<lambda>k. k\<lparr>weave_on := True\<rparr>) s2" using s2(3) by (simp add: running_def sched_join_def)
  have rep: "sched_rep L2 G2 ?s" unfolding s by (rule upd_current_rep[OF s2(2,3)]) simp_all
  have "sched_reach s1"
    by (rule sched_reach_step[OF sched_reach_init, of "Create X86_64 11 None 2 3 0 (Some 7) 4096"])
      (simp_all add: s1(1) n1 sched_rep_lane(2)[OF i(1)])
  then have "sched_reach s2"
    by (rule sched_reach_step[of _ "Create X86_64 11 None 2 3 0 (Some 8) 8192"])
      (use s1(4) s2(1) n1 in \<open>simp_all add: sched_rep_lane(2)[OF s1(2)]\<close>)
  then have "sched_reach ?s" by (rule sched_reach_step[of _ Join]) simp_all
  moreover have "task s2 0 = task ?i 0" using s1(4) s2(4) by simp
  ultimately show thesis
    using s s1(4) s2(3,4) sched_rep_lane[OF rep]
    by (intro that[of ?s])
      (auto simp: running_def rotates_def sched_init_def task_init_idle_def sched_boot_def Let_def)
qed

theorem weave_rotate_dispatch_witness:
  "\<exists>s s'. sched_reach s \<and> weave_current s = Some 0 \<and> lane s 0 = [7, 8] \<and>
     weave_rotate True s = Some s' \<and> weave_current s' = Some 7 \<and> lane s' 0 = [8, 0]"
proof -
  obtain s where s: "sched_reach s" "weave_current s = Some 0" "lane s 0 = [7, 8]" "rotates s 0"
    "weave_lane (task s 0) = 0" by (rule sched_demo)
  have "next_ready (lane s) = Some (0, 7)" using s(3) by (simp add: next_ready_def upt_rec)
  with weave_rotate_dispatch[OF s(1,2), of True] s show ?thesis
    by (auto simp: requeue_lanes_def woven_def)
qed

text \<open>Repeated yields of whoever is running.\<close>

primrec yields :: "nat \<Rightarrow> sched \<Rightarrow> sched option" where
  "yields 0 s = Some s"
| "yields (Suc n) s = do { s \<leftarrow> sched_yield s; yields n s }"

lemma yield_lane0:
  assumes "sched_rep L G s" "running c L G s" "rotates s c" "weave_lane (task s c) = 0" "L 0 = t # ts"
  obtains s' where "sched_yield s = Some s'" "sched_rep (L(0 := ts @ [c])) G s'"
    "running t (L(0 := ts @ [c])) G s'" "rotates s' t" "weave_lane (task s' t) = 0"
proof -
  have nr: "next_ready L = Some (0, t)" using assms(5) by (simp add: next_ready_def upt_rec)
  have rq: "L(0 := ts @ [c]) = requeue_lanes True s c (L(0 := tl (L 0)))"
    using assms(3-5) by (simp add: requeue_lanes_def woven_def)
  show thesis
    by (rule weave_rotate_rep[OF assms(1,2) nr rq]) (rule that; simp add: sched_yield_def rotates_def)
qed

lemma yields_lane0:
  assumes "sched_rep L G s" "running c L G s" "rotates s c" "weave_lane (task s c) = 0" "L 0 = ts" "ts \<noteq> []"
  shows "\<exists>s' L'. yields n s = Some s' \<and> sched_rep L' G s' \<and> running (hd (rotate n (c # ts))) L' G s' \<and>
    L' = L(0 := tl (rotate n (c # ts)))"
  using assms
proof (induction n arbitrary: s c ts L)
  case 0
  then have "L(0 := tl (rotate 0 (c # ts))) = L" by auto
  then show ?case using 0 by (intro exI[of _ s] exI[of _ L]) simp
next
  case (Suc n)
  then obtain t us where ts: "L 0 = t # us" "ts = t # us" by (cases ts) auto
  obtain s1 where s1: "sched_yield s = Some s1" "sched_rep (L(0 := us @ [c])) G s1"
    "running t (L(0 := us @ [c])) G s1" "rotates s1 t" "weave_lane (task s1 t) = 0"
    by (rule yield_lane0[OF Suc.prems(1-4) ts(1)])
  have rot: "rotate (Suc n) (c # ts) = rotate n (t # us @ [c])" using ts(2) by (simp add: rotate1_rotate_swap)
  obtain s2 L2 where s2: "yields n s1 = Some s2" "sched_rep L2 G s2" "running (hd (rotate n (t # us @ [c]))) L2 G s2"
    "L2 = (L(0 := us @ [c]))(0 := tl (rotate n (t # us @ [c])))"
    using Suc.IH[OF s1(2-5) fun_upd_same] by blast
  moreover from s2(4) have "L2 = L(0 := tl (rotate n (t # us @ [c])))" by (simp only: fun_upd_upd)
  moreover have "yields (Suc n) s = Some s2" using s1(1) s2(1) by simp
  ultimately show ?case unfolding rot by blast
qed

text \<open>C25: Round robin and starvation: while the running task and the tasks of lane 0 only yield, they run in
  turn, the n-th yield handing the CPU to the n-th of them cyclically, and the tasks of the higher lanes
  stay where they are and never run.\<close>

theorem yield_round_robin:
  assumes "sched_reach s" "weave_current s = Some c" "rotates s c" "weave_lane (task s c) = 0"
    "lane s 0 = ts" "ts \<noteq> []"
  shows "\<exists>s'. yields n s = Some s' \<and> weave_current s' = Some ((c # ts) ! (n mod length (c # ts))) \<and>
    lane s' 0 = tl (rotate n (c # ts)) \<and> (\<forall>l. 0 < l \<and> l < WEAVE_NLANES \<longrightarrow> lane s' l = lane s l)"
proof -
  obtain L G c' where rep: "sched_rep L G s" "running c' L G s" by (rule sched_reach_rep[OF assms(1)])
  with assms(2) have run: "running c L G s" by (simp add: running_def)
  note lane = sched_rep_lane(1)[OF rep(1)]
  have "L 0 = ts" using lane[of 0] assms(5) by simp
  from yields_lane0[OF rep(1) run assms(3,4) this assms(6), of n] obtain s' where s': "yields n s = Some s'"
    "sched_rep (L(0 := tl (rotate n (c # ts)))) G s'"
    "running (hd (rotate n (c # ts))) (L(0 := tl (rotate n (c # ts)))) G s'" by blast
  have "hd (rotate n (c # ts)) = (c # ts) ! (n mod length (c # ts))" by (rule hd_rotate_conv_nth) simp
  then show ?thesis
    using s'(1,3) sched_rep_lane(1)[OF s'(2)] lane by (auto simp: running_def)
qed

theorem yield_round_robin_witness:
  "\<exists>s s'. sched_reach s \<and> lane s 0 = [7, 8] \<and> yields 4 s = Some s' \<and> weave_current s' = Some 7"
proof -
  obtain s where s: "sched_reach s" "weave_current s = Some 0" "lane s 0 = [7, 8]" "rotates s 0"
    "weave_lane (task s 0) = 0" by (rule sched_demo)
  from yield_round_robin[OF s(1,2,4,5,3), of 4] s(1,3) show ?thesis by auto
qed

text \<open>A task that is neither running nor on a lane never runs again, whatever is called afterwards: only
  the running task and new tasks are ever put on a lane.\<close>

lemma off_rotation_forever:
  assumes "sched_reach s" "t \<in> set (all_tasks s)" "weave_current s \<noteq> Some t"
    "\<forall>l < WEAVE_NLANES. t \<notin> set (lane s l)" "sched_leads s s'"
  shows "weave_current s' \<noteq> Some t \<and> (\<forall>l < WEAVE_NLANES. t \<notin> set (lane s' l))"
proof -
  obtain L G c where rep: "sched_rep L G s" "running c L G s" by (rule sched_reach_rep[OF assms(1)])
  from sched_leads_rep[OF assms(5) rep] obtain L' G' c' where r: "sched_rep L' G' s'" "running c' L' G' s'"
    "set G \<subseteq> set G'" "insert c' (queued L') \<subseteq> insert c (queued L) \<union> (set G' - set G)" by blast
  have "0 \<notin> set G'" using r(1) by (simp add: sched_rep_def)
  moreover have "t = 0 \<or> t \<in> set G" using assms(2) sched_rep_lane(2)[OF rep(1)] by auto
  moreover have "t \<notin> queued L" using assms(4) sched_rep_lane(1)[OF rep(1)] by (auto elim!: queuedE)
  moreover have "t \<noteq> c" using assms(3) rep(2) by (auto simp: running_def)
  ultimately have "t \<notin> insert c' (queued L')" using r(4) by auto
  then show ?thesis using r(2) sched_rep_lane(1)[OF r(1)] queuedI[of _ t L'] by (auto simp: running_def)
qed

text \<open>A timer interrupt: the tick, then the tail of the interrupt.\<close>

definition timer_irq :: "sched \<Rightarrow> sched option" where
  "timer_irq s = sched_preempt_on_return (sched_tick s)"

primrec timer_irqs :: "nat \<Rightarrow> sched \<Rightarrow> sched option" where
  "timer_irqs 0 s = Some s"
| "timer_irqs (Suc n) s = do { s \<leftarrow> timer_irq s; timer_irqs n s }"

lemma preempt_disabled_no_switch:
  assumes "weave_preempt_depth s \<noteq> 0"
  shows "\<exists>s'. timer_irqs n s = Some s' \<and> weave_current s' = weave_current s \<and> weave_switches s' = weave_switches s"
  using assms
proof (induction n arbitrary: s)
  case (Suc n)
  let ?s = "sched_tick s"
  have "weave_preempt_depth ?s = weave_preempt_depth s" "weave_current ?s = weave_current s"
    "weave_switches ?s = weave_switches s"
    by (auto simp: sched_tick_def Let_def split: option.splits)
  moreover from this(1) have "timer_irq s = Some ?s"
    using Suc.prems by (simp add: timer_irq_def sched_preempt_on_return_def)
  ultimately show ?case using Suc.IH[of ?s] Suc.prems by simp
qed simp

lemma timer_irq_charges:
  assumes "sched_rep L G s" "running c L G s" "pid (task s c) \<noteq> 0" "weave_preempt s" "weave_preempt_depth s = 0"
    "next_ready L = Some (l, t)"
  shows "\<exists>s'. timer_irq s = Some s' \<and>
    (weave_current s' = Some t \<or>
     sched_rep L G s' \<and> running c L G s' \<and> pid (task s' c) = pid (task s c) \<and> weave_preempt s' \<and>
     weave_preempt_depth s' = 0 \<and> 1 < weave_credit (task s c) \<and> weave_credit (task s' c) = weave_credit (task s c) - 1)"
proof -
  have cur: "weave_current s = Some c" using assms(2) by (simp add: running_def)
  define s1 where "s1 = sched_tick s"
  have c1: "weave_current s1 = Some c" "weave_preempt s1" "weave_preempt_depth s1 = 0"
    "pid (task s1 c) = pid (task s c)" "weave_credit (task s1 c) = weave_credit (task s c) - 1"
    using assms(3-5) cur by (auto simp: s1_def sched_tick_def Let_def)
  have nr: "1 < weave_credit (task s c)" if "\<not> weave_need_resched s1"
  proof (rule ccontr)
    assume "\<not> ?thesis"
    then have "weave_need_resched s1"
      using assms(3-5) cur by (cases "weave_credit (task s c) = 0") (auto simp: s1_def sched_tick_def Let_def)
    with that show False by simp
  qed
  define s0 where "s0 = (if 0 < weave_credit (task s c)
      then upd_task c (\<lambda>k. k\<lparr>weave_credit := weave_credit k - 1\<rparr>) s else s)"
  have s0: "sched_rep L G s0" "running c L G s0"
    using upd_current_rep[OF assms(1,2), of "\<lambda>k. k\<lparr>weave_credit := weave_credit k - 1\<rparr>"] assms(1,2)
    by (auto simp: s0_def)
  have "s1 = s0 \<or> s1 = s0\<lparr>weave_need_resched := True\<rparr>"
    using assms(3) cur by (auto simp: s1_def sched_tick_def s0_def Let_def)
  then have rep1: "sched_rep L G s1" "running c L G s1" using s0 by (auto simp: running_def)
  show ?thesis
  proof (cases "weave_need_resched s1")
    case False
    then have "timer_irq s = Some s1" by (simp add: timer_irq_def s1_def sched_preempt_on_return_def)
    then show ?thesis using rep1 c1 nr[OF False] by auto
  next
    case True
    let ?s = "upd_task c (\<lambda>k. k\<lparr>saved_before := Some (weave_switches s1)\<rparr>) (s1\<lparr>weave_need_resched := False\<rparr>)"
    have "sched_rep L G (s1\<lparr>weave_need_resched := False\<rparr>)" "running c L G (s1\<lparr>weave_need_resched := False\<rparr>)"
      using rep1 by (simp_all add: running_def)
    then have rep2: "sched_rep L G ?s" "running c L G ?s" by (rule upd_current_rep; simp)+
    obtain s2 where s2: "weave_rotate False ?s = Some s2" "running t (requeue_lanes False ?s c (L(l := tl (L l)))) G s2"
      by (rule weave_rotate_rep[OF rep2 assms(6) refl, of False]) blast
    have "\<exists>s'. timer_irq s = Some s' \<and> weave_current s' = Some t"
      using True c1 assms(3) s2
      by (auto simp: timer_irq_def s1_def[symmetric] sched_preempt_on_return_def sched_schedule_def running_def)
    then show ?thesis by blast
  qed
qed

lemma replaced_within_quantum:
  assumes "sched_reach s" "weave_current s = Some c" "pid (task s c) \<noteq> 0" "weave_preempt s"
    "weave_preempt_depth s = 0" "next_ready (lane s) = Some (l, t)"
  shows "\<exists>n s'. n \<le> max 1 (weave_credit (task s c)) \<and> timer_irqs n s = Some s' \<and> weave_current s' = Some t"
proof -
  obtain L G c' where rep: "sched_rep L G s" "running c' L G s" by (rule sched_reach_rep[OF assms(1)])
  with assms(2) have run: "running c L G s" by (simp add: running_def)
  have nr: "next_ready L = Some (l, t)"
    using assms(6) next_ready_cong[of "lane s" L] sched_rep_lane(1)[OF rep(1)] by simp
  show ?thesis using rep(1) run assms(3-5)
  proof (induction "weave_credit (task s c)" arbitrary: s rule: less_induct)
    case less
    from timer_irq_charges[OF less.prems nr] obtain s1 where s1: "timer_irq s = Some s1"
      "weave_current s1 = Some t \<or> sched_rep L G s1 \<and> running c L G s1 \<and> pid (task s1 c) = pid (task s c) \<and>
       weave_preempt s1 \<and> weave_preempt_depth s1 = 0 \<and> 1 < weave_credit (task s c) \<and>
       weave_credit (task s1 c) = weave_credit (task s c) - 1" by blast
    show ?case
    proof (cases "weave_current s1 = Some t")
      case True
      then show ?thesis using s1(1) by (intro exI[of _ 1] exI[of _ s1]) simp
    next
      case False
      with s1(2) have "weave_credit (task s1 c) < weave_credit (task s c)" "1 < weave_credit (task s c)"
        "weave_credit (task s1 c) = weave_credit (task s c) - 1" by auto
      moreover from False s1(2) less.prems less.hyps[of s1] this(1) obtain n s2 where
        "n \<le> max 1 (weave_credit (task s1 c))" "timer_irqs n s1 = Some s2" "weave_current s2 = Some t" by auto
      ultimately show ?thesis using s1(1) by (intro exI[of _ "Suc n"] exI[of _ s2]) auto
    qed
  qed
qed

abbreviation same_flags :: "sched \<Rightarrow> sched \<Rightarrow> bool" where
  "same_flags s s' \<equiv> weave_preempt s' = weave_preempt s \<and> weave_preempt_depth s' = weave_preempt_depth s"

lemma step_flags:
  "weave_take t s = Some s' \<Longrightarrow> same_flags s s'" "weave_requeue v t s = Some s' \<Longrightarrow> same_flags s s'"
  "weave_switch_to t s = Some s' \<Longrightarrow> same_flags s s'"
  by (auto simp: weave_take_def weave_requeue_def weave_enqueue_def weave_switch_to_def
      task_set_current_def Let_def bind_eq_Some_conv split: if_splits)

lemma weave_rotate_flags:
  assumes "weave_rotate v s = Some s'"
  shows "same_flags s s'"
proof (cases "weave_pick s = Some None")
  case True
  then show ?thesis using assms by (simp add: weave_rotate_def)
next
  case False
  with assms obtain t where "weave_pick s = Some (Some t)" by (auto simp: weave_rotate_def bind_eq_Some_conv)
  with assms obtain s1 s2 where "weave_take t s = Some s1"
    "(case weave_current s1 of Some c \<Rightarrow> weave_requeue v c s1 | None \<Rightarrow> Some s1) = Some s2"
    "weave_switch_to t (upd_task t (\<lambda>k. k\<lparr>weave_credit := weave_quantum (weave_lane k)\<rparr>) s2) = Some s'"
    by (auto simp: weave_rotate_def bind_eq_Some_conv)
  moreover from this(2) have "same_flags s1 s2" using step_flags(2) by (cases "weave_current s1") auto
  ultimately show ?thesis using step_flags(1)[of t s s1] step_flags(3)[of t _ s'] by fastforce
qed

lemma sched_yield_flags:
  "sched_yield s = Some s' \<Longrightarrow> same_flags s s'"
  unfolding sched_yield_def by (rule weave_rotate_flags)

text \<open>C16: A task other than the boot thread cannot keep the CPU: with preemption armed and enabled and some task
  ready, a running task whose pid is not 0 is replaced by the first ready task after at most as many timer
  interrupts as it has credit left, and after one if it has none. (The code exempts pid 0 from preemption.)
  And while the preemption-disable count is not zero, no number of timer interrupts switches tasks.\<close>

theorem preempted_within_quantum:
  "(sched_reach s \<and> weave_current s = Some c \<and> pid (task s c) \<noteq> 0 \<and> weave_preempt s \<and>
    weave_preempt_depth s = 0 \<and> next_ready (lane s) = Some (l, t) \<longrightarrow>
      (\<exists>n s'. n \<le> max 1 (weave_credit (task s c)) \<and> timer_irqs n s = Some s' \<and> weave_current s' = Some t)) \<and>
   (weave_preempt_depth s \<noteq> 0 \<longrightarrow>
      (\<exists>s'. timer_irqs k s = Some s' \<and> weave_current s' = weave_current s \<and> weave_switches s' = weave_switches s))"
  using replaced_within_quantum[of s c l t] preempt_disabled_no_switch[of s k] by blast

theorem preempted_within_quantum_witness:
  "(\<exists>s n s'. sched_reach s \<and> weave_current s = Some 7 \<and> next_ready (lane s) = Some (0, 8) \<and>
      timer_irqs n s = Some s' \<and> weave_current s' = Some 8) \<and>
   (\<exists>s s'. sched_reach s \<and> weave_preempt_depth s = 1 \<and> timer_irqs 100 s = Some s' \<and> weave_current s' = weave_current s)"
proof -
  obtain s0 where s0: "sched_reach s0" "weave_current s0 = Some 0" "lane s0 0 = [7, 8]" "rotates s0 0"
    "weave_lane (task s0 0) = 0" "all_tasks s0 = [0, 7, 8]" "weave_preempt_depth s0 = 0"
    by (rule sched_demo)
  define s1 where "s1 = sched_set_preempt True s0"
  have r1: "sched_reach s1" unfolding s1_def by (rule sched_reach_step[OF s0(1), of "Set_Preempt True"]) simp_all
  obtain L G c where rep: "sched_rep L G s0" "running c L G s0" by (rule sched_reach_rep[OF s0(1)])
  have rep1: "sched_rep L G s1" "running 0 L G s1" using rep s0(2) by (auto simp: s1_def sched_set_preempt_def running_def)
  have L0: "L 0 = [7, 8]" "G = [7, 8]" using s0(3,6) sched_rep_lane[OF rep(1)] by auto
  have rot: "rotates s1 0" "weave_lane (task s1 0) = 0"
    using s0(4,5) by (auto simp: s1_def sched_set_preempt_def rotates_def)
  obtain s2 where s2: "sched_yield s1 = Some s2" "sched_rep (L(0 := [8] @ [0])) G s2"
    "running 7 (L(0 := [8] @ [0])) G s2" by (rule yield_lane0[OF rep1 rot L0(1)])
  have r2: "sched_reach s2" by (rule sched_reach_step[OF r1, of Yield]) (simp_all add: s2(1))
  have "weave_preempt s2 = weave_preempt s1 \<and> weave_preempt_depth s2 = weave_preempt_depth s1"
    using s2(1) by (rule sched_yield_flags)
  then have fl: "weave_preempt s2" "weave_preempt_depth s2 = 0"
    using s0(7) by (simp_all add: s1_def sched_set_preempt_def)
  have "next_ready (L(0 := [8] @ [0])) = Some (0, 8)" by (simp add: next_ready_def upt_rec)
  then have nr: "next_ready (lane s2) = Some (0, 8)"
    using next_ready_cong[of "lane s2" "L(0 := [8] @ [0])"] sched_rep_lane(1)[OF s2(2)] by simp
  have "pid (task s2 7) \<noteq> 0" using s2(2) L0(2) by (auto simp: sched_rep_def)
  moreover have cur: "weave_current s2 = Some 7" using s2(3) by (simp add: running_def)
  ultimately have armed: "\<exists>s n s'. sched_reach s \<and> weave_current s = Some 7 \<and> next_ready (lane s) = Some (0, 8) \<and>
      timer_irqs n s = Some s' \<and> weave_current s' = Some 8"
    using preempted_within_quantum[of s2 7 0 8] r2 nr fl by blast
  let ?s = "sched_preempt_disable (sched_init sched_boot)"
  have r: "sched_reach ?s" by (rule sched_reach_step[OF sched_reach_init, of Preempt_Disable]) simp_all
  have d: "weave_preempt_depth ?s = 1"
    by (simp add: sched_preempt_disable_def sched_init_def task_init_idle_def sched_boot_def Let_def)
  then have "weave_preempt_depth ?s \<noteq> 0" by simp
  then show ?thesis using preempted_within_quantum[of ?s _ _ _ 100] armed r d by blast
qed

end
