(* ===== verification/Wait.thy ===== *)
theory Wait
  imports SchedProps
begin

text \<open>
  \<open>kernel/wait.c\<close>: wait queues and completions. A queue is a list of entries from a static pool; a
  sleeper marks its task blocked and yields until a waker has set its entry's flag. The loops that
  sleep are split at each \<open>sched_yield\<close>: \<open>wait_prepare\<close> starts a wait and \<open>wait_poll\<close> is one turn of
  the loop, so that any other task may run in between.
\<close>

section \<open>State\<close>

abbreviation WAIT_MAX_SLEEPERS :: nat where "WAIT_MAX_SLEEPERS \<equiv> 32"
abbreviation WAIT_TRACKED_QUEUES :: nat where "WAIT_TRACKED_QUEUES \<equiv> 16"

datatype wnode = QueueHead nat | EntryNode nat

record wait_entry =
  e_task :: "nat option"
  woken :: bool

record wait_queue =
  wq_name :: string
  wakeups :: nat
  sleeps :: nat
  nr_waiting :: nat

record waits =
  scheduler :: sched
  entry_pool :: "nat \<Rightarrow> wait_entry"
  entry_used :: "bool list"
  wlinks :: "wnode lstore"
  queue :: "nat \<Rightarrow> wait_queue"
  tracked :: "nat list"

definition upd_queue :: "nat \<Rightarrow> (wait_queue \<Rightarrow> wait_queue) \<Rightarrow> waits \<Rightarrow> waits" where
  "upd_queue q f w = w\<lparr>queue := (queue w)(q := f (queue w q))\<rparr>"

definition upd_entry :: "nat \<Rightarrow> (wait_entry \<Rightarrow> wait_entry) \<Rightarrow> waits \<Rightarrow> waits" where
  "upd_entry e f w = w\<lparr>entry_pool := (entry_pool w)(e := f (entry_pool w e))\<rparr>"

definition task_becomes :: "task_state \<Rightarrow> nat option \<Rightarrow> waits \<Rightarrow> waits" where
  "task_becomes st t w = (case t of Some t \<Rightarrow> w\<lparr>scheduler := set_state st t (scheduler w)\<rparr> | None \<Rightarrow> w)"

section \<open>The entry pool\<close>

definition entry_alloc :: "waits \<Rightarrow> (nat \<times> waits) option" where
  "entry_alloc w =
     (case find_slot Not (entry_used w) of
        None \<Rightarrow> None
      | Some i \<Rightarrow>
          Some (i, w\<lparr>entry_used := (entry_used w)[i := True],
                     entry_pool := (entry_pool w)(i := \<lparr>e_task = None, woken = False\<rparr>),
                     wlinks := (wlinks w)(EntryNode i := \<lparr>lh_next = None, lh_prev = None\<rparr>)\<rparr>))"

definition entry_free :: "nat \<Rightarrow> waits \<Rightarrow> waits" where
  "entry_free e w =
     (if WAIT_MAX_SLEEPERS \<le> e then w else w\<lparr>entry_used := (entry_used w)[e := False]\<rparr>)"

section \<open>Wait queues\<close>

definition wait_queue_init :: "nat \<Rightarrow> string option \<Rightarrow> waits \<Rightarrow> waits" where
  "wait_queue_init q nm w =
     (let w = upd_queue q (\<lambda>_. \<lparr>wq_name = cstr_ncopy 24 (case nm of Some n \<Rightarrow> n | None \<Rightarrow> ''wq''),
                 wakeups = 0, sleeps = 0, nr_waiting = 0\<rparr>) w;
          w = w\<lparr>wlinks := INIT_LIST_HEAD (QueueHead q) (wlinks w)\<rparr>
      in if length (tracked w) < WAIT_TRACKED_QUEUES then w\<lparr>tracked := tracked w @ [q]\<rparr> else w)"

text \<open>The outer option is a NULL dereference; the inner one the entry, or NULL when the pool is dry.\<close>

definition wait_prepare :: "nat \<Rightarrow> waits \<Rightarrow> (nat option \<times> waits) option" where
  "wait_prepare q w =
     (case entry_alloc w of
        None \<Rightarrow> Some (None, w)
      | Some (e, w) \<Rightarrow>
          let t = current_task (scheduler w);
              w = upd_entry e (\<lambda>_. \<lparr>e_task = t, woken = False\<rparr>) w
          in do { h \<leftarrow> list_add_tail (EntryNode e) (QueueHead q) (wlinks w);
                  let w = upd_queue q (\<lambda>k. k\<lparr>nr_waiting := nr_waiting k + 1, sleeps := sleeps k + 1\<rparr>)
                            (w\<lparr>wlinks := h\<rparr>);
                  Some (Some e, task_becomes TASK_STATE_BLOCKED t w) })"

definition wait_finish :: "nat \<Rightarrow> nat \<Rightarrow> waits \<Rightarrow> waits option" where
  "wait_finish q e w =
     do { w \<leftarrow> (if lh_next (wlinks w (EntryNode e)) \<noteq> None
                then do { h \<leftarrow> list_del (EntryNode e) (wlinks w);
                          Some (upd_queue q (\<lambda>k. k\<lparr>nr_waiting := (if 0 < nr_waiting k then nr_waiting k - 1 else nr_waiting k)\<rparr>)
                                 (w\<lparr>wlinks := h\<rparr>)) }
                else Some w);
          Some (entry_free e (task_becomes TASK_STATE_READY (e_task (entry_pool w e)) w)) }"

text \<open>
  One turn of the loops of \<open>wait_event\<close> (no deadline) and \<open>wait_event_timeout\<close>: the result is returned,
  or the task has yielded and will test again when it next runs.
\<close>

definition wait_poll :: "nat option \<Rightarrow> nat \<Rightarrow> nat \<Rightarrow> nat \<Rightarrow> waits \<Rightarrow> (int option \<times> waits) option" where
  "wait_poll deadline now q e w =
     (if woken (entry_pool w e) then do { w \<leftarrow> wait_finish q e w; Some (Some 0, w) }
      else if deadline \<noteq> None \<and> the deadline \<le> now then do { w \<leftarrow> wait_finish q e w; Some (Some 1, w) }
      else do { s \<leftarrow> sched_yield (scheduler w); Some (None, w\<lparr>scheduler := s\<rparr>) })"

definition wait_event :: "nat \<Rightarrow> waits \<Rightarrow> (int option \<times> nat option \<times> waits) option" where
  "wait_event q w =
     do { r \<leftarrow> wait_prepare q w;
          case r of
            (None, w) \<Rightarrow> Some (Some (- 1), None, w)
          | (Some e, w) \<Rightarrow> do { (res, w) \<leftarrow> wait_poll None 0 q e w; Some (res, Some e, w) } }"

definition wait_event_timeout ::
    "nat \<Rightarrow> nat \<Rightarrow> nat \<Rightarrow> waits \<Rightarrow> (int option \<times> (nat \<times> nat) option \<times> waits) option" where
  "wait_event_timeout now timeout_ticks q w =
     do { r \<leftarrow> wait_prepare q w;
          case r of
            (None, w) \<Rightarrow> Some (Some (- 1), None, w)
          | (Some e, w) \<Rightarrow>
              let deadline = wrap64 (now + timeout_ticks)
              in do { (res, w) \<leftarrow> wait_poll (Some deadline) now q e w; Some (res, Some (e, deadline), w) } }"

text \<open>\<open>list_for_each_safe\<close> with its early exit; \<open>n\<close> counts the entries woken so far.\<close>

fun wake_walk :: "nat \<Rightarrow> nat \<Rightarrow> wnode list \<Rightarrow> nat \<Rightarrow> waits \<Rightarrow> nat \<times> waits" where
  "wake_walk q mx [] n w = (n, w)"
| "wake_walk q mx (QueueHead k # ns) n w = (n, w)"
| "wake_walk q mx (EntryNode e # ns) n w =
     (if 0 < mx \<and> mx \<le> n then (n, w)
      else if woken (entry_pool w e) then wake_walk q mx ns n w
      else (let w = upd_entry e (\<lambda>k. k\<lparr>woken := True\<rparr>) w;
                w = task_becomes TASK_STATE_READY (e_task (entry_pool w e)) w
            in wake_walk q mx ns (n + 1) (upd_queue q (\<lambda>k. k\<lparr>wakeups := wakeups k + 1\<rparr>) w)))"

definition wake_up_nr :: "nat \<Rightarrow> nat \<Rightarrow> waits \<Rightarrow> (nat \<times> waits) option" where
  "wake_up_nr q mx w =
     do { ns \<leftarrow> list_for_each (wlinks w) (QueueHead q); Some (wake_walk q mx ns 0 w) }"

definition wake_up :: "nat \<Rightarrow> waits \<Rightarrow> (nat \<times> waits) option" where
  "wake_up q w = wake_up_nr q 1 w"

definition wake_up_all :: "nat \<Rightarrow> waits \<Rightarrow> (nat \<times> waits) option" where
  "wake_up_all q w = wake_up_nr q 0 w"

definition wait_queue_waiters :: "nat \<Rightarrow> waits \<Rightarrow> nat" where
  "wait_queue_waiters q w = nr_waiting (queue w q)"

definition wait_subsystem_init :: "waits \<Rightarrow> waits" where
  "wait_subsystem_init w = w\<lparr>entry_used := replicate WAIT_MAX_SLEEPERS False, tracked := []\<rparr>"

section \<open>Completions\<close>

record completion =
  c_wq :: nat
  c_done :: bool

definition completion_init :: "completion \<Rightarrow> string option \<Rightarrow> waits \<Rightarrow> completion \<times> waits" where
  "completion_init c nm w =
     (c\<lparr>c_done := False\<rparr>, wait_queue_init (c_wq c) (Some (case nm of Some n \<Rightarrow> n | None \<Rightarrow> ''completion'')) w)"

definition complete :: "completion \<Rightarrow> waits \<Rightarrow> (completion \<times> waits) option" where
  "complete c w = do { (n, w) \<leftarrow> wake_up (c_wq c) w; Some (c\<lparr>c_done := True\<rparr>, w) }"

definition complete_all :: "completion \<Rightarrow> waits \<Rightarrow> (completion \<times> waits) option" where
  "complete_all c w = do { (n, w) \<leftarrow> wake_up_all (c_wq c) w; Some (c\<lparr>c_done := True\<rparr>, w) }"

text \<open>
  One turn of the waiting loops, up to the next yield: finished (with the result, for the timed variant),
  or waiting on an entry until a deadline, or about to test again.
\<close>

datatype turn = Finished int | Waiting nat nat | Again

definition wait_for_completion_turn :: "nat \<Rightarrow> completion \<Rightarrow> waits \<Rightarrow> (turn \<times> waits) option" where
  "wait_for_completion_turn now c w =
     (if c_done c then Some (Finished 0, w)
      else do { (res, st, w) \<leftarrow> wait_event_timeout now 100 (c_wq c) w;
                case st of
                  None \<Rightarrow> do { s \<leftarrow> sched_yield (scheduler w); Some (Again, w\<lparr>scheduler := s\<rparr>) }
                | Some (e, dl) \<Rightarrow> Some (if res = None then Waiting e dl else Again, w) })"

definition wait_for_completion_timeout_turn :: "nat \<Rightarrow> nat \<Rightarrow> completion \<Rightarrow> waits \<Rightarrow> (turn \<times> waits) option" where
  "wait_for_completion_timeout_turn deadline now c w =
     (if c_done c then Some (Finished 0, w)
      else if deadline \<le> now then Some (Finished 1, w)
      else do { (res, st, w) \<leftarrow> wait_event_timeout now 10 (c_wq c) w;
                case st of
                  None \<Rightarrow> Some (Again, w)
                | Some (e, dl) \<Rightarrow> Some (if res = None then Waiting e dl else Again, w) })"

section \<open>Well-formed queues\<close>

definition waits_rep :: "nat set \<Rightarrow> (nat \<Rightarrow> nat list) \<Rightarrow> waits \<Rightarrow> bool" where
  "waits_rep I Q w \<longleftrightarrow>
     length (entry_used w) = WAIT_MAX_SLEEPERS \<and>
     (\<forall>q \<in> I. dlist (wlinks w) (QueueHead q) (map EntryNode (Q q)) \<and> nr_waiting (queue w q) = length (Q q) \<and>
        (\<forall>e \<in> set (Q q). e < WAIT_MAX_SLEEPERS \<and> entry_used w ! e)) \<and>
     (\<forall>q \<in> I. \<forall>r \<in> I. q \<noteq> r \<longrightarrow> set (Q q) \<inter> set (Q r) = {})"

lemma waits_repD:
  assumes "waits_rep I Q w" "q \<in> I"
  shows "dlist (wlinks w) (QueueHead q) (map EntryNode (Q q))" "nr_waiting (queue w q) = length (Q q)"
    "\<And>e. e \<in> set (Q q) \<Longrightarrow> e < WAIT_MAX_SLEEPERS \<and> entry_used w ! e"
    "\<And>r. r \<in> I \<Longrightarrow> r \<noteq> q \<Longrightarrow> set (Q q) \<inter> set (Q r) = {}" "length (entry_used w) = WAIT_MAX_SLEEPERS"
  using assms by (auto simp: waits_rep_def)

lemma upd_simps [simp]:
  "scheduler (upd_queue q f w) = scheduler w" "entry_pool (upd_queue q f w) = entry_pool w"
  "entry_used (upd_queue q f w) = entry_used w" "wlinks (upd_queue q f w) = wlinks w"
  "queue (upd_queue q f w) r = (if r = q then f (queue w q) else queue w r)"
  "scheduler (upd_entry e g w) = scheduler w" "entry_used (upd_entry e g w) = entry_used w"
  "entry_pool (upd_entry e g w) d = (if d = e then g (entry_pool w e) else entry_pool w d)"
  "wlinks (upd_entry e g w) = wlinks w" "queue (upd_entry e g w) = queue w"
  "entry_pool (task_becomes st t w) = entry_pool w" "entry_used (task_becomes st t w) = entry_used w"
  "wlinks (task_becomes st t w) = wlinks w" "queue (task_becomes st t w) = queue w"
  by (auto simp: upd_queue_def upd_entry_def task_becomes_def split: option.splits)

lemma waits_rep_cong:
  assumes "entry_used w' = entry_used w" "wlinks w' = wlinks w"
    "\<And>q. nr_waiting (queue w' q) = nr_waiting (queue w q)"
  shows "waits_rep I Q w' = waits_rep I Q w"
  unfolding waits_rep_def assms ..

text \<open>Entries outside every queue may be linked anywhere, and the other queues do not notice.\<close>

lemma waits_rep_relink:
  assumes "waits_rep I Q w" "q \<in> I" "dlist h (QueueHead q) (map EntryNode xs)" "nr_waiting (queue w' q) = length xs"
    "wlinks w' = h" "length (entry_used w') = WAIT_MAX_SLEEPERS"
    "\<And>r. r \<in> I \<Longrightarrow> r \<noteq> q \<Longrightarrow> nr_waiting (queue w' r) = nr_waiting (queue w r)"
    "\<And>r e. r \<in> I \<Longrightarrow> r \<noteq> q \<Longrightarrow> e \<in> set (Q r) \<Longrightarrow> entry_used w' ! e \<and> e \<notin> set xs"
    "\<And>e. e \<in> set xs \<Longrightarrow> e < WAIT_MAX_SLEEPERS \<and> entry_used w' ! e"
    "\<And>r m. r \<in> I \<Longrightarrow> r \<noteq> q \<Longrightarrow> m \<in> set (QueueHead r # map EntryNode (Q r)) \<Longrightarrow> h m = wlinks w m"
  shows "waits_rep I (Q(q := xs)) w'"
proof -
  have "dlist h (QueueHead r) (map EntryNode (Q r))" if "r \<in> I" "r \<noteq> q" for r
    using waits_repD(1)[OF assms(1) that(1)] dlist_cong[of "QueueHead r" "map EntryNode (Q r)" h "wlinks w"]
      assms(10)[OF that] by blast
  moreover have "set (Q r) \<inter> set (Q r') = {}" if "r \<in> I" "r' \<in> I" "r \<noteq> r'" for r r'
    using assms(1) that by (simp add: waits_rep_def)
  moreover have "e < WAIT_MAX_SLEEPERS" if "r \<in> I" "e \<in> set (Q r)" for r e
    using waits_repD(3)[OF assms(1) that] by simp
  ultimately show ?thesis
    unfolding waits_rep_def using assms waits_repD(2)[OF assms(1)] by (auto simp: fun_upd_apply)
qed

lemma wait_prepare_rep:
  assumes "waits_rep I Q w" "q \<in> I" "\<not> entry_used w ! i" "i < WAIT_MAX_SLEEPERS"
  obtains e w' where "wait_prepare q w = Some (Some e, w')" "waits_rep I (Q(q := Q q @ [e])) w'"
    "e < WAIT_MAX_SLEEPERS" "\<not> entry_used w ! e"
    "entry_pool w' = (entry_pool w)(e := \<lparr>e_task = current_task (scheduler w), woken = False\<rparr>)"
    "scheduler w' = (case current_task (scheduler w) of Some c \<Rightarrow> set_state TASK_STATE_BLOCKED c (scheduler w)
       | None \<Rightarrow> scheduler w)"
proof -
  have len: "length (entry_used w) = WAIT_MAX_SLEEPERS" using waits_repD(5)[OF assms(1,2)] .
  obtain e where e: "find_slot Not (entry_used w) = Some e" using find_slot_ex[of i "entry_used w" Not] assms(3,4) len by auto
  then have ef: "e < WAIT_MAX_SLEEPERS" "\<not> entry_used w ! e" using find_slot_SomeD[OF e] len by auto
  have notin: "e \<notin> set (Q r)" if "r \<in> I" for r using waits_repD(3)[OF assms(1) that] ef(2) by blast
  let ?h0 = "(wlinks w)(EntryNode e := \<lparr>lh_next = None, lh_prev = None\<rparr>)"
  have d0: "dlist ?h0 (QueueHead q) (map EntryNode (Q q))"
    by (rule dlist_frame[OF waits_repD(1)[OF assms(1,2)], of "{EntryNode e}"]) (use notin[OF assms(2)] in auto)
  have new: "EntryNode e \<notin> set (QueueHead q # map EntryNode (Q q))" using notin[OF assms(2)] by auto
  from dlist_add_tail[OF d0 new] obtain h where h: "list_add_tail (EntryNode e) (QueueHead q) ?h0 = Some h"
    "dlist h (QueueHead q) (map EntryNode (Q q) @ [EntryNode e])"
    "\<And>m. m \<notin> set (EntryNode e # QueueHead q # map EntryNode (Q q)) \<Longrightarrow> h m = ?h0 m" by blast
  define w1 where "w1 = (w\<lparr>entry_used := (entry_used w)[e := True],
      entry_pool := (entry_pool w)(e := \<lparr>e_task = None, woken = False\<rparr>), wlinks := ?h0\<rparr>)"
  define w' where "w' = task_becomes TASK_STATE_BLOCKED (current_task (scheduler w))
      (upd_queue q (\<lambda>k. k\<lparr>nr_waiting := nr_waiting k + 1, sleeps := sleeps k + 1\<rparr>)
        ((upd_entry e (\<lambda>_. \<lparr>e_task = current_task (scheduler w), woken = False\<rparr>) w1)\<lparr>wlinks := h\<rparr>))"
  have run: "wait_prepare q w = Some (Some e, w')"
    using e h(1) by (simp add: wait_prepare_def entry_alloc_def Let_def w'_def w1_def)
  have "waits_rep I (Q(q := Q q @ [e])) w'"
  proof (rule waits_rep_relink[OF assms(1,2)])
    show "dlist h (QueueHead q) (map EntryNode (Q q @ [e]))" using h(2) by simp
    show "nr_waiting (queue w' q) = length (Q q @ [e])"
      using waits_repD(2)[OF assms(1,2)] by (simp add: w'_def w1_def)
    show "h m = wlinks w m" if "r \<in> I" "r \<noteq> q" "m \<in> set (QueueHead r # map EntryNode (Q r))" for r m
      using that notin[OF that(1)] waits_repD(4)[OF assms(1,2) that(1)] by (subst h(3)) auto
    show "entry_used w' ! d \<and> d \<notin> set (Q q @ [e])" if "r \<in> I" "r \<noteq> q" "d \<in> set (Q r)" for r d
      using waits_repD(3)[OF assms(1) that(1,3)] waits_repD(4)[OF assms(1,2) that(1,2)] that(3) notin[OF that(1)] len
      by (cases "d = e") (auto simp: w'_def w1_def)
    show "d < WAIT_MAX_SLEEPERS \<and> entry_used w' ! d" if "d \<in> set (Q q @ [e])" for d
      using that waits_repD(3)[OF assms(1,2), of d] ef len by (auto simp: w'_def w1_def nth_list_update)
  qed (use len in \<open>auto simp: w'_def w1_def\<close>)
  moreover have "entry_pool w' = (entry_pool w)(e := \<lparr>e_task = current_task (scheduler w), woken = False\<rparr>)"
    by (rule ext) (simp add: w'_def w1_def)
  moreover have "scheduler w' = (case current_task (scheduler w) of
      Some c \<Rightarrow> set_state TASK_STATE_BLOCKED c (scheduler w) | None \<Rightarrow> scheduler w)"
    by (auto simp: w'_def w1_def task_becomes_def split: option.splits)
  ultimately show thesis using run ef by (intro that)
qed

lemma wait_finish_rep:
  assumes "waits_rep I Q w" "q \<in> I" "Q q = xs @ e # ys"
  obtains w' where "wait_finish q e w = Some w'" "waits_rep I (Q(q := xs @ ys)) w'" "\<not> entry_used w' ! e"
    "entry_pool w' = entry_pool w"
proof -
  have len: "length (entry_used w) = WAIT_MAX_SLEEPERS" using waits_repD(5)[OF assms(1,2)] .
  have e: "e < WAIT_MAX_SLEEPERS" using waits_repD(3)[OF assms(1,2), of e] assms(3) by simp
  have d0: "dlist (wlinks w) (QueueHead q) (map EntryNode xs @ EntryNode e # map EntryNode ys)"
    using waits_repD(1)[OF assms(1,2)] assms(3) by simp
  have "distinct (map EntryNode (xs @ e # ys))" using dlistD(1)[OF d0] by simp
  then have dist: "distinct (xs @ e # ys)" by (simp only: distinct_map)
  from dlist_del[OF d0] obtain h where h: "list_del (EntryNode e) (wlinks w) = Some h"
    "dlist h (QueueHead q) (map EntryNode xs @ map EntryNode ys)"
    "\<And>m. m \<notin> set (EntryNode e # QueueHead q # map EntryNode xs @ map EntryNode ys) \<Longrightarrow> h m = wlinks w m" by blast
  have lk: "lh_next (wlinks w (EntryNode e)) \<noteq> None" using dlist_node_next[OF d0] by simp
  define w' where "w' = entry_free e (task_becomes TASK_STATE_READY (e_task (entry_pool w e))
      (upd_queue q (\<lambda>k. k\<lparr>nr_waiting := (if 0 < nr_waiting k then nr_waiting k - 1 else nr_waiting k)\<rparr>) (w\<lparr>wlinks := h\<rparr>)))"
  have run: "wait_finish q e w = Some w'" using lk h(1) by (simp add: wait_finish_def w'_def)
  have used: "entry_used w' = (entry_used w)[e := False]" using e by (simp add: w'_def entry_free_def)
  have "waits_rep I (Q(q := xs @ ys)) w'"
  proof (rule waits_rep_relink[OF assms(1,2)])
    show "dlist h (QueueHead q) (map EntryNode (xs @ ys))" using h(2) by simp
    show "nr_waiting (queue w' q) = length (xs @ ys)"
      using waits_repD(2)[OF assms(1,2)] assms(3) by (simp add: w'_def entry_free_def)
    show "h m = wlinks w m" if "r \<in> I" "r \<noteq> q" "m \<in> set (QueueHead r # map EntryNode (Q r))" for r m
      using that waits_repD(4)[OF assms(1,2) that(1,2)] assms(3) by (intro h(3)) auto
    show "entry_used w' ! d \<and> d \<notin> set (xs @ ys)" if "r \<in> I" "r \<noteq> q" "d \<in> set (Q r)" for r d
      using waits_repD(3)[OF assms(1) that(1,3)] waits_repD(4)[OF assms(1,2) that(1,2)] that(3) assms(3) len
      unfolding used by (cases "d = e") auto
    show "d < WAIT_MAX_SLEEPERS \<and> entry_used w' ! d" if "d \<in> set (xs @ ys)" for d
      using that waits_repD(3)[OF assms(1,2), of d] assms(3) dist len unfolding used by (cases "d = e") auto
  qed (use len used in \<open>auto simp: w'_def entry_free_def\<close>)
  moreover have "\<not> entry_used w' ! e" using used e len by simp
  moreover have "entry_pool w' = entry_pool w" by (simp add: w'_def entry_free_def)
  ultimately show thesis using run by (intro that)
qed

section \<open>Waking\<close>

definition sleepers :: "waits \<Rightarrow> nat list \<Rightarrow> nat list" where
  "sleepers w es = filter (\<lambda>e. \<not> woken (entry_pool w e)) es"

definition wake_one :: "nat \<Rightarrow> nat \<Rightarrow> waits \<Rightarrow> waits" where
  "wake_one q e w =
     upd_queue q (\<lambda>k. k\<lparr>wakeups := wakeups k + 1\<rparr>)
       (task_becomes TASK_STATE_READY (e_task (entry_pool w e)) (upd_entry e (\<lambda>k. k\<lparr>woken := True\<rparr>) w))"

lemma wake_one_simps [simp]:
  "wlinks (wake_one q e w) = wlinks w" "entry_used (wake_one q e w) = entry_used w"
  "nr_waiting (queue (wake_one q e w) r) = nr_waiting (queue w r)"
  "woken (entry_pool (wake_one q e w) d) \<longleftrightarrow> d = e \<or> woken (entry_pool w d)"
  "e_task (entry_pool (wake_one q e w) d) = e_task (entry_pool w d)"
  "wakeups (queue (wake_one q e w) q) = wakeups (queue w q) + 1"
  by (auto simp: wake_one_def)

text \<open>The walk wakes the sleepers in queue order, as many as the limit allows (0 is no limit).\<close>

lemma wake_walk_fold:
  assumes "distinct es"
  shows "wake_walk q mx (map EntryNode es) n w =
     (let ps = (if mx = 0 then sleepers w es else take (mx - n) (sleepers w es))
      in (n + length ps, fold (wake_one q) ps w))"
  using assms
proof (induction es arbitrary: n w)
  case Nil
  then show ?case by (simp add: sleepers_def)
next
  case (Cons e es)
  have same: "sleepers (wake_one q e w) es = sleepers w es"
    using Cons.prems by (auto simp: sleepers_def intro!: filter_cong)
  show ?case
  proof (cases "0 < mx \<and> mx \<le> n \<or> woken (entry_pool w e)")
    case True
    then show ?thesis using Cons.IH[of n w] Cons.prems by (auto simp: sleepers_def Let_def)
  next
    case False
    have "wake_walk q mx (map EntryNode (e # es)) n w = wake_walk q mx (map EntryNode es) (n + 1) (wake_one q e w)"
      using False by (auto simp: wake_one_def Let_def)
    moreover have "take (mx - n) (sleepers w (e # es)) = e # take (mx - (n + 1)) (sleepers w es)" if "mx \<noteq> 0"
    proof -
      from that False have "mx - n = Suc (mx - (n + 1))" by arith
      then show ?thesis using False by (simp add: sleepers_def)
    qed
    ultimately show ?thesis
      using Cons.IH[of "n + 1" "wake_one q e w"] Cons.prems False same by (auto simp: sleepers_def Let_def)
  qed
qed

lemma fold_wake_one [simp]:
  "wlinks (fold (wake_one q) ps w) = wlinks w" "entry_used (fold (wake_one q) ps w) = entry_used w"
  "nr_waiting (queue (fold (wake_one q) ps w) r) = nr_waiting (queue w r)"
  "woken (entry_pool (fold (wake_one q) ps w) d) \<longleftrightarrow> d \<in> set ps \<or> woken (entry_pool w d)"
  "e_task (entry_pool (fold (wake_one q) ps w) d) = e_task (entry_pool w d)"
  "wakeups (queue (fold (wake_one q) ps w) q) = wakeups (queue w q) + length ps"
  by (induction ps arbitrary: w) auto

lemma set_state_apply [simp]: "task (set_state st t s) u = (if u = t then (task s t)\<lparr>tstate := st\<rparr> else task s u)"
  by (simp add: set_state_def)

lemma wake_one_ready:
  "tstate (task (scheduler (wake_one q e w)) t) =
     (if e_task (entry_pool w e) = Some t then TASK_STATE_READY else tstate (task (scheduler w) t))"
  by (auto simp: wake_one_def task_becomes_def split: option.splits)

lemma fold_wake_ready:
  "tstate (task (scheduler (fold (wake_one q) ps w)) t) =
     (if \<exists>e \<in> set ps. e_task (entry_pool w e) = Some t then TASK_STATE_READY else tstate (task (scheduler w) t))"
  by (induction ps arbitrary: w) (auto simp: wake_one_ready)

lemma wake_up_nr_rep:
  assumes "waits_rep I Q w" "q \<in> I"
    "ps = (if mx = 0 then sleepers w (Q q) else take mx (sleepers w (Q q)))"
  shows "wake_up_nr q mx w = Some (length ps, fold (wake_one q) ps w)"
    "waits_rep I Q (fold (wake_one q) ps w)"
proof -
  note d = waits_repD(1)[OF assms(1,2)]
  then have "distinct (Q q)" using dlistD(1)[OF d] by (simp add: distinct_map)
  then show "wake_up_nr q mx w = Some (length ps, fold (wake_one q) ps w)"
    using wake_walk_fold[of "Q q" q mx 0 w] dlist_for_each[OF d] assms(3) by (simp add: wake_up_nr_def Let_def)
  show "waits_rep I Q (fold (wake_one q) ps w)" using assms(1) waits_rep_cong[of "fold (wake_one q) ps w" w I Q] by simp
qed

section \<open>Runs\<close>

text \<open>
  What callers do with a wait queue, with the FIFO list each queue should be. A queue is initialised once,
  and a sleeper finishes the entry it prepared. In between, the scheduler may do anything.
\<close>

inductive wait_reach :: "nat set \<Rightarrow> (nat \<Rightarrow> nat list) \<Rightarrow> waits \<Rightarrow> bool" where
  w_init: "wait_reach {} Q (wait_subsystem_init w)"
| w_opened: "wait_reach I Q w \<Longrightarrow> q \<notin> I \<Longrightarrow> wait_reach (insert q I) (Q(q := [])) (wait_queue_init q nm w)"
| w_slept: "wait_reach I Q w \<Longrightarrow> q \<in> I \<Longrightarrow> wait_prepare q w = Some (Some e, w') \<Longrightarrow> wait_reach I (Q(q := Q q @ [e])) w'"
| w_refused: "wait_reach I Q w \<Longrightarrow> q \<in> I \<Longrightarrow> wait_prepare q w = Some (None, w') \<Longrightarrow> wait_reach I Q w'"
| w_finished: "wait_reach I Q w \<Longrightarrow> q \<in> I \<Longrightarrow> e \<in> set (Q q) \<Longrightarrow> wait_finish q e w = Some w' \<Longrightarrow>
    wait_reach I (Q(q := remove1 e (Q q))) w'"
| w_waked: "wait_reach I Q w \<Longrightarrow> q \<in> I \<Longrightarrow> wake_up_nr q mx w = Some (n, w') \<Longrightarrow> wait_reach I Q w'"
| w_ran: "wait_reach I Q w \<Longrightarrow> wait_reach I Q (w\<lparr>scheduler := s\<rparr>)"

lemma wait_prepare_cases:
  assumes "waits_rep I Q w" "q \<in> I" "wait_prepare q w = Some (r, w')"
  shows "case r of None \<Rightarrow> w' = w | Some e \<Rightarrow> waits_rep I (Q(q := Q q @ [e])) w'"
proof (cases "\<exists>i < WAIT_MAX_SLEEPERS. \<not> entry_used w ! i")
  case True
  then obtain i where i: "i < WAIT_MAX_SLEEPERS" "\<not> entry_used w ! i" by blast
  show ?thesis by (rule wait_prepare_rep[OF assms(1,2) i(2,1)]) (use assms(3) in auto)
next
  case False
  then have "find_slot Not (entry_used w) = None"
    using waits_repD(5)[OF assms(1,2)] by (simp add: find_slot_None)
  then show ?thesis using assms(3) by (auto simp: wait_prepare_def entry_alloc_def)
qed

lemma wait_queue_init_rep:
  assumes "waits_rep I Q w" "q \<notin> I"
  shows "waits_rep (insert q I) (Q(q := [])) (wait_queue_init q nm w)"
proof -
  let ?w = "wait_queue_init q nm w"
  have f: "entry_used ?w = entry_used w" "wlinks ?w = INIT_LIST_HEAD (QueueHead q) (wlinks w)"
    "nr_waiting (queue ?w q) = 0" "r \<noteq> q \<Longrightarrow> queue ?w r = queue w r" for r
    by (auto simp: wait_queue_init_def Let_def)
  have "dlist (wlinks ?w) (QueueHead r) (map EntryNode (Q r))" if "r \<in> I" for r
    unfolding f(2)
    by (rule dlist_frame[OF waits_repD(1)[OF assms(1) that], of "{QueueHead q}"]) (use that assms(2) in auto)
  then show ?thesis using assms f unfolding waits_rep_def by (auto simp: fun_upd_apply)
qed

lemma wait_reach_rep: "wait_reach I Q w \<Longrightarrow> waits_rep I Q w"
proof (induction rule: wait_reach.induct)
  case (w_init Q w)
  then show ?case by (simp add: waits_rep_def wait_subsystem_init_def)
next
  case (w_opened I Q w q nm)
  then show ?case by (intro wait_queue_init_rep)
next
  case (w_slept I Q w q e w')
  then show ?case using wait_prepare_cases[of I Q w q "Some e" w'] by (simp add: fun_upd_def)
next
  case (w_refused I Q w q w')
  then show ?case using wait_prepare_cases[of I Q w q None w'] by simp
next
  case (w_finished I Q w q e w')
  then obtain xs ys where xy: "Q q = xs @ e # ys" "e \<notin> set xs" by (meson split_list_first)
  then have rm: "remove1 e (Q q) = xs @ ys" by (simp add: remove1_append)
  show ?case unfolding rm
    by (rule wait_finish_rep[where Q = Q, OF w_finished.IH w_finished.hyps(2) xy(1)]) (use w_finished.hyps(4) in \<open>auto simp: fun_upd_def\<close>)
next
  case (w_waked I Q w q mx n w')
  then show ?case using wake_up_nr_rep[OF w_waked.IH w_waked.hyps(2) refl, of mx] by auto
next
  case (w_ran I Q w s)
  then show ?case using waits_rep_cong[of "w\<lparr>scheduler := s\<rparr>" w I Q] by simp
qed

section \<open>Properties\<close>

text \<open>C22: Whatever the callers do, a wait queue is the FIFO list of the entries prepared and not yet finished on
  it: they are distinct and taken from the pool, the waiter count is their number, no operation faults, and
  a wait is refused exactly when the pool of 32 entries is used up.\<close>

theorem wait_queue_fifo:
  assumes "wait_reach I Q w" "q \<in> I"
  shows "list_for_each (wlinks w) (QueueHead q) = Some (map EntryNode (Q q)) \<and> distinct (Q q) \<and>
    wait_queue_waiters q w = length (Q q) \<and> (\<forall>e \<in> set (Q q). e < WAIT_MAX_SLEEPERS \<and> entry_used w ! e) \<and>
    (\<forall>e \<in> set (Q q). \<exists>w'. wait_finish q e w = Some w') \<and>
    (\<exists>r w'. wait_prepare q w = Some (r, w') \<and> (r = None \<longleftrightarrow> (\<forall>i < WAIT_MAX_SLEEPERS. entry_used w ! i)))"
proof -
  have rep: "waits_rep I Q w" by (rule wait_reach_rep[OF assms(1)])
  note d = waits_repD[OF rep assms(2)]
  have "\<exists>w'. wait_finish q e w = Some w'" if "e \<in> set (Q q)" for e
  proof -
    from that obtain xs ys where xy: "Q q = xs @ e # ys" by (meson split_list)
    show ?thesis by (rule wait_finish_rep[where Q = Q, OF rep assms(2) xy]) blast
  qed
  moreover have "\<exists>r w'. wait_prepare q w = Some (r, w') \<and> (r = None \<longleftrightarrow> (\<forall>i < WAIT_MAX_SLEEPERS. entry_used w ! i))"
  proof (cases "\<forall>i < WAIT_MAX_SLEEPERS. entry_used w ! i")
    case True
    then have "find_slot Not (entry_used w) = None" using d(5) by (simp add: find_slot_None)
    then show ?thesis using True by (simp add: wait_prepare_def entry_alloc_def)
  next
    case False
    then obtain i where i: "\<not> entry_used w ! i" "i < WAIT_MAX_SLEEPERS" by blast
    show ?thesis by (rule wait_prepare_rep[OF rep assms(2) i]) (use False in auto)
  qed
  moreover have "distinct (Q q)" using dlistD(1)[OF d(1)] by (simp add: distinct_map)
  ultimately show ?thesis using dlist_for_each[OF d(1)] d(2,3) by (auto simp: wait_queue_waiters_def)
qed

definition wait_demo :: waits where
  "wait_demo = wait_queue_init 0 None (wait_subsystem_init
     \<lparr>scheduler = sched_init sched_boot, entry_pool = (\<lambda>_. \<lparr>e_task = None, woken = False\<rparr>), entry_used = [],
      wlinks = (\<lambda>_. \<lparr>lh_next = None, lh_prev = None\<rparr>),
      queue = (\<lambda>_. \<lparr>wq_name = [], wakeups = 0, sleeps = 0, nr_waiting = 0\<rparr>), tracked = []\<rparr>)"

lemma wait_demo_reach: "wait_reach {0} ((\<lambda>_. [])(0 := [])) wait_demo"
  unfolding wait_demo_def using w_opened[OF w_init[of "\<lambda>_. []"], of 0 None] by simp

lemma wait_demo_free: "\<not> entry_used wait_demo ! 0"
  by (simp add: wait_demo_def wait_queue_init_def wait_subsystem_init_def Let_def)

text \<open>One task asleep on the queue.\<close>

lemma wait_demo_asleep:
  obtains e w Q where "wait_prepare 0 wait_demo = Some (Some e, w)" "wait_reach {0} Q w" "Q 0 = [e]" "\<not> woken (entry_pool w e)"
proof -
  have "(0::nat) \<in> {0}" "(0::nat) < WAIT_MAX_SLEEPERS" by simp_all
  from wait_prepare_rep[OF wait_reach_rep[OF wait_demo_reach] this(1) wait_demo_free this(2)]
  obtain e w where w: "wait_prepare 0 wait_demo = Some (Some e, w)"
    "entry_pool w = (entry_pool wait_demo)(e := \<lparr>e_task = current_task (scheduler wait_demo), woken = False\<rparr>)" by blast
  show thesis by (rule that[OF w(1) w_slept[OF wait_demo_reach singletonI w(1)]]) (simp_all add: w(2))
qed

theorem wait_queue_fifo_witness:
  "\<exists>e w. wait_prepare 0 wait_demo = Some (Some e, w) \<and>
     list_for_each (wlinks w) (QueueHead 0) = Some [EntryNode e] \<and> wait_queue_waiters 0 w = 1"
proof -
  obtain e w Q where w: "wait_prepare 0 wait_demo = Some (Some e, w)" "wait_reach {0} Q w" "Q 0 = [e]" by (rule wait_demo_asleep)
  then show ?thesis using wait_queue_fifo[OF w(2), of 0] by auto
qed

text \<open>C23: \<open>wake_up\<close> wakes exactly the longest-waiting sleeper that has not been woken yet, \<open>wake_up_all\<close> every
  one of them; their tasks become ready and nobody else is touched.\<close>

theorem wake_up_order:
  assumes "wait_reach I Q w" "q \<in> I"
    "ps = (if all then sleepers w (Q q) else take 1 (sleepers w (Q q)))"
  shows "\<exists>w'. (if all then wake_up_all q w else wake_up q w) = Some (length ps, w') \<and>
    (\<forall>e. woken (entry_pool w' e) \<longleftrightarrow> e \<in> set ps \<or> woken (entry_pool w e)) \<and>
    (\<forall>t. tstate (task (scheduler w') t) =
      (if \<exists>e \<in> set ps. e_task (entry_pool w e) = Some t then TASK_STATE_READY else tstate (task (scheduler w) t))) \<and>
    wakeups (queue w' q) = wakeups (queue w q) + length ps"
proof -
  have "ps = (if (if all then 0 else 1 :: nat) = 0 then sleepers w (Q q) else take (if all then 0 else 1) (sleepers w (Q q)))"
    using assms(3) by (auto split: if_splits)
  from wake_up_nr_rep(1)[OF wait_reach_rep[OF assms(1)] assms(2) this]
  have "(if all then wake_up_all q w else wake_up q w) = Some (length ps, fold (wake_one q) ps w)"
    by (auto simp: wake_up_def wake_up_all_def)
  then show ?thesis by (intro exI[of _ "fold (wake_one q) ps w"]) (auto simp: fold_wake_ready)
qed

theorem wake_up_order_witness:
  "\<exists>e w w'. wait_prepare 0 wait_demo = Some (Some e, w) \<and> \<not> woken (entry_pool w e) \<and>
     wake_up 0 w = Some (1, w') \<and> woken (entry_pool w' e)"
proof -
  obtain e w Q where w: "wait_prepare 0 wait_demo = Some (Some e, w)" "wait_reach {0} Q w" "Q 0 = [e]" "\<not> woken (entry_pool w e)"
    by (rule wait_demo_asleep)
  have "[e] = (if False then sleepers w (Q 0) else take 1 (sleepers w (Q 0)))" using w(3,4) by (simp add: sleepers_def)
  from wake_up_order[OF w(2) singletonI this] show ?thesis using w(1,4) by auto
qed

text \<open>C24: Lost wake-up: if another task is ready when a task calls \<open>wait_event\<close>, the sleeper is switched out while
  blocked, is on no lane, and never runs again, whatever the others do afterwards; waking it only
  changes its state.\<close>

theorem wait_event_never_returns:
  assumes "wait_reach I Q w" "q \<in> I" "i < WAIT_MAX_SLEEPERS" "\<not> entry_used w ! i"
    "sched_reach (scheduler w)" "weave_current (scheduler w) = Some c" "next_ready (lane (scheduler w)) = Some (l, t)"
  shows "\<exists>e w'. wait_event q w = Some (None, Some e, w') \<and> weave_current (scheduler w') = Some t \<and>
    (\<forall>s. sched_leads (scheduler w') s \<longrightarrow> weave_current s \<noteq> Some c)"
proof -
  let ?s = "scheduler w"
  obtain L G c' where "sched_rep L G ?s" "running c' L G ?s" by (rule sched_reach_rep[OF assms(5)])
  with assms(6) have rep: "sched_rep L G ?s" "running c L G ?s" by (simp_all add: running_def)
  have cur: "current_task ?s = Some c" using rep(2) by (simp add: running_def)
  let ?b = "set_state TASK_STATE_BLOCKED c ?s"
  have repb: "sched_rep L G ?b" "running c L G ?b"
    unfolding set_state_def by (rule upd_current_rep[OF rep]; simp)+
  have reachb: "sched_reach ?b" by (rule sched_reach_step[OF assms(5), of Block]) (simp_all add: cur)
  have nr: "next_ready L = Some (l, t)"
    using assms(7) next_ready_cong[of "lane ?s" L] sched_rep_lane(1)[OF rep(1)] by simp
  have "\<not> rotates ?b c" by (simp add: rotates_def)
  then have rq: "L(l := tl (L l)) = requeue_lanes True ?b c (L(l := tl (L l)))" by (simp add: requeue_lanes_def)
  obtain s2 where s2: "weave_rotate True ?b = Some s2" "sched_rep (L(l := tl (L l))) G s2"
    "running t (L(l := tl (L l))) G s2" "insert t (queued (L(l := tl (L l)))) \<subseteq> insert c (queued L)"
    by (rule weave_rotate_rep[OF repb nr rq]) blast
  have r2: "sched_reach s2" by (rule sched_reach_step[OF reachb, of Yield]) (simp_all add: s2(1) sched_yield_def)
  obtain e w1 where w1: "wait_prepare q w = Some (Some e, w1)" "scheduler w1 = ?b"
    "entry_pool w1 = (entry_pool w)(e := \<lparr>e_task = current_task ?s, woken = False\<rparr>)"
    by (rule wait_prepare_rep[OF wait_reach_rep[OF assms(1)] assms(2,4,3)]) (use cur in simp)
  have ev: "wait_event q w = Some (None, Some e, w1\<lparr>scheduler := s2\<rparr>)"
    using w1 s2(1) by (simp add: wait_event_def wait_poll_def sched_yield_def)
  note ready = next_ready_Some[OF nr]
  have tq: "t \<in> queued L" using queuedI[OF ready(1), of t L] ready(2) by (metis list.set_intros(1))
  have cq: "c \<notin> queued L" "c \<in> insert 0 (set G)" using rep(2) by (auto simp: running_def)
  have "set (tl (L l)) \<subseteq> set (L l)" by (metis ready(2) set_subset_Cons)
  then have "c \<notin> set (lane s2 k)" if "k < WEAVE_NLANES" for k
    using sched_rep_lane(1)[OF s2(2) that] queuedI[OF that, of c L] queuedI[OF ready(1), of c L] cq(1) by auto
  moreover have "weave_current s2 = Some t" using s2(3) by (simp add: running_def)
  moreover have "c \<in> set (all_tasks s2)" using sched_rep_lane(2)[OF s2(2)] cq(2) by simp
  ultimately have "\<forall>s. sched_leads s2 s \<longrightarrow> weave_current s \<noteq> Some c"
    using off_rotation_forever[OF r2, of c] tq cq(1) by auto
  then show ?thesis using ev \<open>weave_current s2 = Some t\<close> by auto
qed

theorem wait_event_never_returns_witness:
  "\<exists>w e w'. weave_current (scheduler w) = Some 0 \<and> wait_event 0 w = Some (None, Some e, w') \<and>
     (\<forall>s. sched_leads (scheduler w') s \<longrightarrow> weave_current s \<noteq> Some 0)"
proof -
  obtain s where s: "sched_reach s" "weave_current s = Some 0" "lane s 0 = [7, 8]" by (rule sched_demo)
  let ?w = "wait_demo\<lparr>scheduler := s\<rparr>"
  have r: "wait_reach {0} ((\<lambda>_. [])(0 := [])) ?w" by (rule w_ran[OF wait_demo_reach])
  have "next_ready (lane s) = Some (0, 7)" using s(3) by (simp add: next_ready_def upt_rec)
  then have "\<exists>e w'. wait_event 0 ?w = Some (None, Some e, w') \<and> weave_current (scheduler w') = Some 7 \<and>
      (\<forall>s. sched_leads (scheduler w') s \<longrightarrow> weave_current s \<noteq> Some 0)"
    using wait_event_never_returns[OF r, of 0 0 0 0 7] wait_demo_free s by simp
  then show ?thesis using s(2) by (intro exI[of _ ?w]) auto
qed

end
