(* ===== verification/Crc32.thy ===== *)
theory Crc32
  imports Prelude
begin

unbundle bit_operations_syntax

text \<open>
  \<open>crypto/crc32.c\<close>: the table-driven CRC-32, with its lazily computed table. It is shown equal to the bit-serial
  division by the generator polynomial of IEEE 802.3, given by its exponents.
\<close>

section \<open>The code\<close>

definition crc_bit :: "u32 \<Rightarrow> u32" where
  "crc_bit c = (if c AND 1 \<noteq> 0 then 0xEDB88320 XOR drop_bit 1 c else drop_bit 1 c)"

definition make_crc32_table :: "u32 list" where
  "make_crc32_table = map (\<lambda>n. (crc_bit ^^ 8) (of_nat n)) [0 ..< 256]"

record crc_state =
  crc32_table :: "u32 list"
  table_computed :: bool

definition crc_byte :: "u32 list \<Rightarrow> u8 \<Rightarrow> u32 \<Rightarrow> u32" where
  "crc_byte tbl p crc = tbl ! unat ((crc XOR ucast p) AND 0xFF) XOR drop_bit 8 crc"

definition crc32 :: "u32 \<Rightarrow> u8 list \<Rightarrow> crc_state \<Rightarrow> u32 \<times> crc_state" where
  "crc32 crc buf s =
     (let s = (if table_computed s then s else s\<lparr>crc32_table := make_crc32_table, table_computed := True\<rparr>)
      in (fold (crc_byte (crc32_table s)) buf (crc XOR 0xFFFFFFFF) XOR 0xFFFFFFFF, s))"

section \<open>The polynomial division\<close>

text \<open>
  The generator is x^32 + x^26 + x^23 + x^22 + x^16 + x^12 + x^11 + x^10 + x^8 + x^7 + x^5 + x^4 + x^2 + x + 1. The
  remainder register is reflected: bit \<open>i\<close> is the coefficient of x^(31 - i). A message bit is added to the leading
  coefficient, the remainder is multiplied by x, and the generator is subtracted when x^32 appears. Bytes are fed
  least significant bit first, the register starts complemented and the result is complemented.
\<close>

definition crc_exponents :: "nat list" where
  "crc_exponents = [26, 23, 22, 16, 12, 11, 10, 8, 7, 5, 4, 2, 1, 0]"

definition crc_generator :: u32 where
  "crc_generator = foldr (\<lambda>e g. g + 2 ^ (31 - e)) crc_exponents 0"

definition crc_feed :: "bool \<Rightarrow> u32 \<Rightarrow> u32" where
  "crc_feed b r = (if bit r 0 \<noteq> b then r div 2 XOR crc_generator else r div 2)"

definition message_bits :: "u8 list \<Rightarrow> bool list" where
  "message_bits buf = concat (map (\<lambda>p. map (bit p) [0 ..< 8]) buf)"

definition crc_reference :: "u32 \<Rightarrow> u8 list \<Rightarrow> u32" where
  "crc_reference crc buf = NOT (fold crc_feed (message_bits buf) (NOT crc))"

lemma crc_generator_value: "crc_generator = 0xEDB88320"
  by (simp add: crc_generator_def crc_exponents_def)

lemma crc_bit_alt: "crc_bit c = (if bit c 0 then 0xEDB88320 else 0) XOR drop_bit 1 c"
  by (auto simp: crc_bit_def and_one_eq bit_0 even_iff_mod_2_eq_zero)

lemma crc_bit_xor: "crc_bit (a XOR b) = crc_bit a XOR crc_bit b"
proof -
  have "P XOR x XOR (P XOR y) = x XOR y" for P x y :: u32
    by (simp add: xor.assoc xor.left_commute)
  then show ?thesis
    by (simp add: crc_bit_alt bit_xor_iff ac_simps)
qed

lemma crc_bits_xor: "(crc_bit ^^ n) (a XOR b) = (crc_bit ^^ n) a XOR (crc_bit ^^ n) b"
  by (induction n) (simp_all add: crc_bit_xor)

lemma crc_bits_high: "take_bit n a = 0 \<Longrightarrow> (crc_bit ^^ n) a = drop_bit n a"
proof (induction n arbitrary: a)
  case (Suc n)
  have "\<not> bit a 0" using Suc.prems by (metis bit_take_bit_iff bit_0_eq bot_apply bot_bool_def zero_less_Suc)
  then have c: "crc_bit a = drop_bit 1 a" by (simp add: crc_bit_alt)
  have "take_bit n (drop_bit 1 a) = 0"
    using Suc.prems by (simp add: take_bit_drop_bit)
  then have "(crc_bit ^^ n) (drop_bit 1 a) = drop_bit n (drop_bit 1 a)" by (rule Suc.IH)
  then show ?case using c by (simp add: funpow_Suc_right del: funpow.simps)
qed simp

lemma crc_byte_reference:
  "crc_byte make_crc32_table p c = (crc_bit ^^ 8) (c XOR ucast p)"
proof -
  let ?x = "c XOR ucast p"
  let ?lo = "?x AND 0xFF"
  have m: "(0xFF :: u32) = mask 8" by (simp add: mask_eq_exp_minus_1)
  have lo: "?lo = take_bit 8 ?x" unfolding m by (simp add: take_bit_eq_mask)
  have small: "unat ?lo < 256"
    unfolding lo unsigned_take_bit_eq using take_bit_nat_less_exp[of 8 "unat ?x"] by simp
  let ?hi = "?x XOR ?lo"
  have hi0: "take_bit 8 ?hi = 0" unfolding lo by (simp add: take_bit_xor)
  have "drop_bit 8 ?hi = drop_bit 8 ?x XOR drop_bit 8 ?lo" by (simp add: drop_bit_xor)
  also have "drop_bit 8 ?lo = 0" unfolding lo by (simp add: drop_bit_take_bit)
  also have "drop_bit 8 ?x = drop_bit 8 c XOR drop_bit 8 (ucast p :: u32)" by (simp add: drop_bit_xor)
  also have "drop_bit 8 (ucast p :: u32) = 0"
    by (rule bit_eqI) (auto simp: bit_simps dest: bit_imp_le_length)
  finally have hi: "drop_bit 8 ?hi = drop_bit 8 c" by simp
  have "?x = ?lo XOR ?hi" by (simp add: xor.left_commute)
  then have "(crc_bit ^^ 8) ?x = (crc_bit ^^ 8) ?lo XOR (crc_bit ^^ 8) ?hi" using crc_bits_xor by metis
  also have "(crc_bit ^^ 8) ?hi = drop_bit 8 c" using crc_bits_high[OF hi0] hi by simp
  also have "(crc_bit ^^ 8) ?lo = make_crc32_table ! unat ?lo"
    using small by (simp add: make_crc32_table_def del: upt_rec_numeral)
  finally show ?thesis by (simp add: crc_byte_def)
qed

lemma crc_feed_bit: "crc_feed b r = crc_bit (r XOR of_bool b)"
proof -
  have "drop_bit 1 (r XOR of_bool b) = drop_bit 1 r" by (rule bit_eqI) (auto simp: bit_simps)
  then show ?thesis
    by (auto simp: crc_feed_def crc_bit_alt crc_generator_value bit_simps drop_bit_eq_div xor.commute)
qed

text \<open>Feeding the bits of a byte one by one is adding them all and then shifting.\<close>

lemma crc_feed_byte:
  "n \<le> 8 \<Longrightarrow> fold crc_feed (map (bit (p :: u8)) [0 ..< n]) r = (crc_bit ^^ n) (r XOR ucast (take_bit n p))"
proof (induction n)
  case (Suc n)
  let ?b = "push_bit n (of_bool (bit p n)) :: u32"
  have split: "(ucast (take_bit (Suc n) p) :: u32) = ucast (take_bit n p) XOR ?b"
    using Suc.prems by (intro bit_eqI) (auto simp: bit_simps less_Suc_eq)
  have "take_bit n ?b = 0" by (rule bit_eqI) (auto simp: bit_simps)
  moreover have "drop_bit n ?b = of_bool (bit p n)" using Suc.prems by (intro bit_eqI) (auto simp: bit_simps)
  ultimately have "(crc_bit ^^ n) ?b = of_bool (bit p n)" using crc_bits_high[of n ?b] by simp
  then have "(crc_bit ^^ n) (r XOR ucast (take_bit (Suc n) p)) = (crc_bit ^^ n) (r XOR ucast (take_bit n p)) XOR of_bool (bit p n)"
    unfolding split xor.assoc[symmetric] crc_bits_xor[of n "r XOR ucast (take_bit n p)"] by simp
  then show ?case using Suc by (simp add: crc_feed_bit)
qed simp

lemma crc_feed_message:
  "fold crc_feed (message_bits buf) r = fold (\<lambda>p c. (crc_bit ^^ 8) (c XOR ucast p)) buf r"
proof (induction buf arbitrary: r)
  case (Cons p buf)
  have "take_bit 8 p = p" by (rule bit_eqI) (auto simp: bit_simps)
  then have "fold crc_feed (map (bit p) [0 ..< 8]) r = (crc_bit ^^ 8) (r XOR ucast p)" using crc_feed_byte[of 8 p r] by simp
  then show ?case using Cons by (simp add: message_bits_def del: upt_rec_numeral)
qed (simp add: message_bits_def)

text \<open>A CRC state is good when its table, once marked computed, is the right one.\<close>

definition crc_ok :: "crc_state \<Rightarrow> bool" where
  "crc_ok s \<longleftrightarrow> (table_computed s \<longrightarrow> crc32_table s = make_crc32_table)"

lemma crc32_result:
  assumes "crc_ok s"
  shows "crc32 crc buf s = (crc_reference crc buf, snd (crc32 crc buf s))" "crc_ok (snd (crc32 crc buf s))"
proof -
  have n: "x XOR 0xFFFFFFFF = NOT x" for x :: u32
  proof -
    have "(0xFFFFFFFF :: u32) = - 1" by simp
    then show ?thesis by (metis bit.xor_one_right)
  qed
  have b: "crc_byte make_crc32_table = (\<lambda>p c. (crc_bit ^^ 8) (c XOR ucast p))"
    by (intro ext) (rule crc_byte_reference)
  show "crc32 crc buf s = (crc_reference crc buf, snd (crc32 crc buf s))"
    using assms by (auto simp: crc32_def crc_ok_def crc_reference_def crc_feed_message n b Let_def)
  show "crc_ok (snd (crc32 crc buf s))" using assms by (auto simp: crc32_def crc_ok_def Let_def)
qed

lemma crc_reference_append: "crc_reference (crc_reference crc xs) ys = crc_reference crc (xs @ ys)"
  by (simp add: crc_reference_def crc_feed_message)

primrec crc32_chunks :: "u32 \<Rightarrow> u8 list list \<Rightarrow> crc_state \<Rightarrow> u32 \<times> crc_state" where
  "crc32_chunks crc [] s = (crc, s)"
| "crc32_chunks crc (b # bs) s = (let (c, s) = crc32 crc b s in crc32_chunks c bs s)"

lemma crc32_chunks_reference:
  assumes "crc_ok s" "crc = crc_reference 0 xs"
  shows "fst (crc32_chunks crc bs s) = crc_reference 0 (xs @ concat bs)"
  using assms
proof (induction bs arbitrary: crc s xs)
  case (Cons b bs)
  have "fst (crc32_chunks (crc_reference crc b) bs (snd (crc32 crc b s))) = crc_reference 0 ((xs @ b) @ concat bs)"
    using Cons.prems crc32_result(2)[OF Cons.prems(1)] by (intro Cons.IH) (simp_all add: crc_reference_append)
  then show ?case using crc32_result(1)[OF Cons.prems(1), of crc b] by (metis (no_types, lifting) append_assoc
        case_prod_conv concat.simps(2) crc32_chunks.simps(2))
qed simp

text \<open>C40: From boot on, the table-driven CRC-32 equals the bit-serial division of the message by the CRC-32 generator
  polynomial, for any way of feeding the bytes in pieces.\<close>

theorem crc32_equals_division:
  "fst (crc32_chunks 0 bs \<lparr>crc32_table = replicate 256 0, table_computed = False\<rparr>) = crc_reference 0 (concat bs)"
proof -
  have "crc_reference 0 [] = 0" by (simp add: crc_reference_def message_bits_def)
  then show ?thesis
    using crc32_chunks_reference[of _ 0 "[]" bs] by (simp add: crc_ok_def)
qed

end
