(* ===== verification/BlockHash.thy ===== *)
theory BlockHash
  imports Prelude
begin

text \<open>
  What the iterated hashes of \<open>crypto/\<close> share: a message is cut into blocks of fixed width, the tail
  that does not fill a block is kept in the context, and it does not matter how the caller splits the
  message over \<open>update\<close> calls.
\<close>

section \<open>Cutting into blocks\<close>

function blocks_of :: "nat \<Rightarrow> 'a list \<Rightarrow> 'a list list" where
  "blocks_of n xs = (if n = 0 \<or> length xs < n then [] else take n xs # blocks_of n (drop n xs))"
  by pat_completeness auto
termination
  by (relation "measure (\<lambda>(n, xs). length xs)") auto

declare blocks_of.simps [simp del]

definition tail_of :: "nat \<Rightarrow> 'a list \<Rightarrow> 'a list" where
  "tail_of n xs = drop (n * (length xs div n)) xs"

lemma blocks_of_short [simp]: "length xs < n \<Longrightarrow> blocks_of n xs = []"
  by (subst blocks_of.simps) simp

lemma tail_of_short [simp]: "length xs < n \<Longrightarrow> tail_of n xs = xs"
  by (simp add: tail_of_def)

lemma blocks_of_step:
  assumes "length b = n" "0 < n"
  shows "blocks_of n (b @ xs) = b # blocks_of n xs" "tail_of n (b @ xs) = tail_of n xs"
proof -
  show "blocks_of n (b @ xs) = b # blocks_of n xs" using assms by (subst blocks_of.simps) simp
  have "(n + length xs) div n = Suc (length xs div n)" using assms div_add_self1[of n "length xs"] by simp
  then show "tail_of n (b @ xs) = tail_of n xs" using assms by (simp add: tail_of_def)
qed

lemma length_tail_of: "length (tail_of n xs) = length xs mod n"
  by (simp add: tail_of_def minus_mult_div_eq_mod)

lemma length_tail_of_less [simp]: "0 < n \<Longrightarrow> length (tail_of n xs) < n"
  by (simp add: length_tail_of)

lemma blocks_of_append:
  assumes "0 < n"
  shows "blocks_of n (xs @ ys) = blocks_of n xs @ blocks_of n (tail_of n xs @ ys) \<and>
    tail_of n (xs @ ys) = tail_of n (tail_of n xs @ ys)"
  using assms
proof (induction n xs rule: blocks_of.induct)
  case (1 n xs)
  show ?case
  proof (cases "length xs < n")
    case False
    let ?b = "take n xs" and ?r = "drop n xs"
    have l: "length ?b = n" using False by simp
    note step = blocks_of_step[OF l "1.prems"]
    have IH: "blocks_of n (?r @ ys) = blocks_of n ?r @ blocks_of n (tail_of n ?r @ ys)"
        "tail_of n (?r @ ys) = tail_of n (tail_of n ?r @ ys)"
      using "1.IH" False "1.prems" by auto
    have xs: "xs @ ys = ?b @ ?r @ ys" by simp
    have t: "blocks_of n xs = ?b # blocks_of n ?r" "tail_of n xs = tail_of n ?r" using step[of ?r] by simp_all
    show ?thesis unfolding xs step[of "?r @ ys"] IH t by simp
  qed simp
qed

lemmas tail_of_append = blocks_of_append[THEN conjunct2]

abbreviation blocks64 :: "'a list \<Rightarrow> 'a list list" where
  "blocks64 \<equiv> blocks_of 64"

abbreviation tail64 :: "'a list \<Rightarrow> 'a list" where
  "tail64 \<equiv> tail_of 64"

lemma blocks64_step:
  assumes "length b = 64"
  shows "blocks64 (b @ xs) = b # blocks64 xs" "tail64 (b @ xs) = tail64 xs"
  using blocks_of_step[OF assms] by simp_all

lemma blocks64_append:
  "blocks64 (xs @ ys) = blocks64 xs @ blocks64 (tail64 xs @ ys)" "tail64 (xs @ ys) = tail64 (tail64 xs @ ys)"
  using blocks_of_append[of 64 xs ys] by simp_all

section \<open>The contract of a streaming hash\<close>

locale stream_hash =
  fixes width :: nat
    and absorb :: "u8 list \<Rightarrow> 'c \<Rightarrow> 'c"
    and chain :: "'c \<Rightarrow> 's"
    and pending :: "'c \<Rightarrow> u8 list"
    and compress :: "'s \<Rightarrow> u8 list \<Rightarrow> 's"
    and wf :: "'c \<Rightarrow> bool"
    and fits :: "u8 list \<Rightarrow> bool"
  assumes absorb_law: "wf c \<Longrightarrow> fits xs \<Longrightarrow>
      wf (absorb xs c) \<and> chain (absorb xs c) = foldl compress (chain c) (blocks_of width (pending c @ xs)) \<and>
      pending (absorb xs c) = tail_of width (pending c @ xs)"
    and pending_short: "wf c \<Longrightarrow> length (pending c) < width"
    and width_pos: "0 < width"
begin

text \<open>However the message is split, the context depends only on the bytes.\<close>

lemma absorb_all:
  assumes "wf c" "\<forall>xs \<in> set css. fits xs"
  shows "wf (fold absorb css c) \<and>
    chain (fold absorb css c) = foldl compress (chain c) (blocks_of width (pending c @ concat css)) \<and>
    pending (fold absorb css c) = tail_of width (pending c @ concat css)"
  using assms
proof (induction css arbitrary: c)
  case Nil
  then show ?case using pending_short by simp
next
  case (Cons xs css)
  note step = absorb_law[OF Cons.prems(1), of xs]
  have "wf (fold absorb css (absorb xs c)) \<and>
    chain (fold absorb css (absorb xs c)) =
      foldl compress (chain (absorb xs c)) (blocks_of width (pending (absorb xs c) @ concat css)) \<and>
    pending (fold absorb css (absorb xs c)) = tail_of width (pending (absorb xs c) @ concat css)"
    using Cons.IH step Cons.prems(2) by simp
  then show ?case
    using step Cons.prems(2) blocks_of_append[of width "pending c @ xs" "concat css"] width_pos by simp
qed

end

end
