(* ===== verification/Sha256Spec.thy ===== *)
theory Sha256Spec
  imports BlockHash
begin

unbundle bit_operations_syntax

text \<open>
  SHA-256 and HMAC as their standards state them (FIPS 180-4, RFC 2104), without reference to the code: the
  constants are the leading fraction bits of the square and cube roots of the first primes, the message
  schedule is a recurrence, words and bytes are related by positional notation. \<open>crypto/sha256.c\<close> and
  \<open>crypto/hkdf.c\<close> are proved against these definitions.
\<close>

section \<open>Roots\<close>

text \<open>The \<open>k\<close>-th root of \<open>n\<close> rounded down, found bit by bit.\<close>

fun root_bits :: "nat \<Rightarrow> int \<Rightarrow> nat \<Rightarrow> int \<Rightarrow> int" where
  "root_bits k n 0 r = r"
| "root_bits k n (Suc b) r = root_bits k n b (if (r + 2 ^ b) ^ k \<le> n then r + 2 ^ b else r)"

definition int_root :: "nat \<Rightarrow> int \<Rightarrow> int" where
  "int_root k n = root_bits k n 36 0"

lemma root_bits_bounds:
  "r ^ k \<le> n \<Longrightarrow> n < (r + 2 ^ b) ^ k \<Longrightarrow> root_bits k n b r ^ k \<le> n \<and> n < (root_bits k n b r + 1) ^ k"
  by (induction b arbitrary: r) (auto simp: algebra_simps)

lemma int_root_bounds:
  assumes "0 < k" "0 \<le> n" "n < 2 ^ (36 * k)"
  shows "int_root k n ^ k \<le> n" "n < (int_root k n + 1) ^ k"
  using root_bits_bounds[of 0 k n 36] assms by (simp_all add: int_root_def power_mult zero_power)

definition first_primes :: "int list" where
  "first_primes =
     [2, 3, 5, 7, 11, 13, 17, 19, 23, 29, 31, 37, 41, 43, 47, 53, 59, 61, 67, 71, 73, 79, 83, 89, 97, 101, 103, 107,
      109, 113, 127, 131, 137, 139, 149, 151, 157, 163, 167, 173, 179, 181, 191, 193, 197, 199, 211, 223, 227, 229,
      233, 239, 241, 251, 257, 263, 269, 271, 277, 281, 283, 293, 307, 311]"

text \<open>The first 32 bits of the fraction of a root: the integer part vanishes in the conversion to 32 bits.\<close>

definition root_fraction :: "nat \<Rightarrow> int \<Rightarrow> u32" where
  "root_fraction k p = word_of_int (int_root k (p * 2 ^ (32 * k)))"

definition std_K :: "u32 list" where
  "std_K = map (root_fraction 3) first_primes"

definition std_H0 :: "u32 list" where
  "std_H0 = map (root_fraction 2) (take 8 first_primes)"

section \<open>The compression function\<close>

definition std_Sigma0 :: "u32 \<Rightarrow> u32" where
  "std_Sigma0 x = word_rotr 2 x XOR word_rotr 13 x XOR word_rotr 22 x"

definition std_Sigma1 :: "u32 \<Rightarrow> u32" where
  "std_Sigma1 x = word_rotr 6 x XOR word_rotr 11 x XOR word_rotr 25 x"

definition std_sigma0 :: "u32 \<Rightarrow> u32" where
  "std_sigma0 x = word_rotr 7 x XOR word_rotr 18 x XOR x div 2 ^ 3"

definition std_sigma1 :: "u32 \<Rightarrow> u32" where
  "std_sigma1 x = word_rotr 17 x XOR word_rotr 19 x XOR x div 2 ^ 10"

text \<open>Choice and majority, bit by bit: \<open>x\<close> chooses between \<open>y\<close> and \<open>z\<close>; two of three.\<close>

definition std_Ch :: "u32 \<Rightarrow> u32 \<Rightarrow> u32 \<Rightarrow> u32" where
  "std_Ch x y z = (x AND y) OR (NOT x AND z)"

definition std_Maj :: "u32 \<Rightarrow> u32 \<Rightarrow> u32 \<Rightarrow> u32" where
  "std_Maj x y z = (x AND y) OR (x AND z) OR (y AND z)"

function std_W :: "(nat \<Rightarrow> u32) \<Rightarrow> nat \<Rightarrow> u32" where
  "std_W M t =
     (if t < 16 then M t
      else std_sigma1 (std_W M (t - 2)) + std_W M (t - 7) + std_sigma0 (std_W M (t - 15)) + std_W M (t - 16))"
  by pat_completeness auto
termination
  by (relation "measure snd") auto

declare std_W.simps [simp del]

type_synonym hash8 = "u32 \<times> u32 \<times> u32 \<times> u32 \<times> u32 \<times> u32 \<times> u32 \<times> u32"

fun std_round :: "u32 \<Rightarrow> u32 \<Rightarrow> hash8 \<Rightarrow> hash8" where
  "std_round k w (a, b, c, d, e, f, g, h) =
     (let T1 = h + std_Sigma1 e + std_Ch e f g + k + w;
          T2 = std_Sigma0 a + std_Maj a b c
      in (T1 + T2, a, b, c, d + T1, e, f, g))"

primrec std_rounds :: "(nat \<Rightarrow> u32) \<Rightarrow> nat \<Rightarrow> hash8 \<Rightarrow> hash8" where
  "std_rounds W 0 s = s"
| "std_rounds W (Suc t) s = std_round (std_K ! t) (W t) (std_rounds W t s)"

fun words_of :: "hash8 \<Rightarrow> u32 list" where
  "words_of (a, b, c, d, e, f, g, h) = [a, b, c, d, e, f, g, h]"

fun hash_add :: "hash8 \<Rightarrow> hash8 \<Rightarrow> hash8" where
  "hash_add (a, b, c, d, e, f, g, h) (a', b', c', d', e', f', g', h') =
     (a + a', b + b', c + c', d + d', e + e', f + f', g + g', h + h')"

text \<open>Big-endian numerals.\<close>

definition be_num :: "u8 list \<Rightarrow> nat" where
  "be_num bs = foldl (\<lambda>n b. 256 * n + unat b) 0 bs"

definition be_bytes :: "nat \<Rightarrow> nat \<Rightarrow> u8 list" where
  "be_bytes k n = map (\<lambda>i. of_nat (n div 256 ^ (k - 1 - i))) [0 ..< k]"

definition block_word :: "u8 list \<Rightarrow> nat \<Rightarrow> u32" where
  "block_word block t = of_nat (be_num (take 4 (drop (4 * t) block)))"

definition std_compress :: "hash8 \<Rightarrow> u8 list \<Rightarrow> hash8" where
  "std_compress H block = hash_add H (std_rounds (std_W (block_word block)) 64 H)"

section \<open>The hash function\<close>

text \<open>A one bit, then the fewest zero bits that leave room for the 64-bit length at the end of a block.\<close>

definition std_pad :: "u8 list \<Rightarrow> u8 list" where
  "std_pad m = m @ [0x80] @ replicate ((119 - length m mod 64) mod 64) 0 @ be_bytes 8 (8 * length m)"

definition std_start :: hash8 where
  "std_start = (std_H0 ! 0, std_H0 ! 1, std_H0 ! 2, std_H0 ! 3, std_H0 ! 4, std_H0 ! 5, std_H0 ! 6, std_H0 ! 7)"

definition std_sha256 :: "u8 list \<Rightarrow> u8 list" where
  "std_sha256 m =
     concat (map (\<lambda>w. be_bytes 4 (unat w)) (words_of (foldl std_compress std_start (blocks64 (std_pad m)))))"

lemma pad_count: "r < 64 \<Longrightarrow> \<exists>k. r + 9 + (119 - r) mod 64 = 64 * (k :: nat)"
proof -
  assume r: "r < 64"
  show ?thesis
  proof (cases "r \<le> 55")
    case True
    then have "(119 - r) mod 64 = 55 - r" by (simp add: le_mod_geq)
    then show ?thesis using True by (intro exI[of _ 1]) simp
  next
    case False
    then show ?thesis using r by (intro exI[of _ 2]) simp
  qed
qed

lemma std_pad_fills: "64 dvd length (std_pad m)"
proof -
  obtain q r where m: "length m = 64 * q + r" "r < 64" by (metis mult_div_mod_eq mod_less_divisor zero_less_numeral)
  have "length (std_pad m) = length m + 9 + (119 - length m mod 64) mod 64"
    by (simp add: std_pad_def be_bytes_def del: upt_rec_numeral)
  also have "\<dots> = 64 * q + (r + 9 + (119 - r) mod 64)" using m by simp
  also obtain k where "r + 9 + (119 - r) mod 64 = 64 * k" using pad_count[OF m(2)] by blast
  finally show ?thesis by simp
qed

section \<open>HMAC\<close>

text \<open>The key is brought to the block size, by hashing it when it is longer.\<close>

definition std_hmac_key :: "u8 list \<Rightarrow> u8 list" where
  "std_hmac_key key = (let k = (if length key \<le> 64 then key else std_sha256 key) in k @ replicate (64 - length k) 0)"

definition std_hmac :: "u8 list \<Rightarrow> u8 list \<Rightarrow> u8 list" where
  "std_hmac key text =
     std_sha256 (map2 (XOR) (std_hmac_key key) (replicate 64 0x5c) @
       std_sha256 (map2 (XOR) (std_hmac_key key) (replicate 64 0x36) @ text))"

end
