(* ===== verification/Sha256.thy ===== *)
theory Sha256
  imports Sha256Spec
begin

unbundle bit_operations_syntax

text \<open>
  \<open>crypto/sha256.c\<close>: SHA-256 with its byte-wise \<open>update\<close> and its in-place padding. The streaming interface is
  shown to pad the whole message and compress it block by block, and the compression function with its constant
  tables is shown to be that of \<open>Sha256Spec\<close>, so the digest is the one FIPS 180-4 defines.
\<close>

section \<open>The compression function\<close>

definition ROTRIGHT :: "u32 \<Rightarrow> nat \<Rightarrow> u32" where
  "ROTRIGHT a b = drop_bit b a OR push_bit (32 - b) a"

definition CH :: "u32 \<Rightarrow> u32 \<Rightarrow> u32 \<Rightarrow> u32" where
  "CH x y z = (x AND y) XOR (NOT x AND z)"

definition MAJ :: "u32 \<Rightarrow> u32 \<Rightarrow> u32 \<Rightarrow> u32" where
  "MAJ x y z = (x AND y) XOR (x AND z) XOR (y AND z)"

definition EP0 :: "u32 \<Rightarrow> u32" where "EP0 x = ROTRIGHT x 2 XOR ROTRIGHT x 13 XOR ROTRIGHT x 22"
definition EP1 :: "u32 \<Rightarrow> u32" where "EP1 x = ROTRIGHT x 6 XOR ROTRIGHT x 11 XOR ROTRIGHT x 25"
definition SIG0 :: "u32 \<Rightarrow> u32" where "SIG0 x = ROTRIGHT x 7 XOR ROTRIGHT x 18 XOR drop_bit 3 x"
definition SIG1 :: "u32 \<Rightarrow> u32" where "SIG1 x = ROTRIGHT x 17 XOR ROTRIGHT x 19 XOR drop_bit 10 x"

text \<open>The constant table of the C file, one list per line of its initialiser.\<close>

definition sha_k :: "u32 list" where
  "sha_k = concat [
    [0x428a2f98,0x71374491,0xb5c0fbcf,0xe9b5dba5,0x3956c25b,0x59f111f1,0x923f82a4,0xab1c5ed5],
    [0xd807aa98,0x12835b01,0x243185be,0x550c7dc3,0x72be5d74,0x80deb1fe,0x9bdc06a7,0xc19bf174],
    [0xe49b69c1,0xefbe4786,0x0fc19dc6,0x240ca1cc,0x2de92c6f,0x4a7484aa,0x5cb0a9dc,0x76f988da],
    [0x983e5152,0xa831c66d,0xb00327c8,0xbf597fc7,0xc6e00bf3,0xd5a79147,0x06ca6351,0x14292967],
    [0x27b70a85,0x2e1b2138,0x4d2c6dfc,0x53380d13,0x650a7354,0x766a0abb,0x81c2c92e,0x92722c85],
    [0xa2bfe8a1,0xa81a664b,0xc24b8b70,0xc76c51a3,0xd192e819,0xd6990624,0xf40e3585,0x106aa070],
    [0x19a4c116,0x1e376c08,0x2748774c,0x34b0bcb5,0x391c0cb3,0x4ed8aa4a,0x5b9cca4f,0x682e6ff3],
    [0x748f82ee,0x78a5636f,0x84c87814,0x8cc70208,0x90befffa,0xa4506ceb,0xbef9a3f7,0xc67178f2]]"

definition be_word :: "u8 list \<Rightarrow> nat \<Rightarrow> u32" where
  "be_word d j = push_bit 24 (ucast (d ! j)) OR push_bit 16 (ucast (d ! (j + 1))) OR
     push_bit 8 (ucast (d ! (j + 2))) OR ucast (d ! (j + 3))"

primrec schedule :: "nat \<Rightarrow> u32 list \<Rightarrow> u32 list" where
  "schedule 0 m = m"
| "schedule (Suc n) m =
     (let i = length m
      in schedule n (m @ [SIG1 (m ! (i - 2)) + m ! (i - 7) + SIG0 (m ! (i - 15)) + m ! (i - 16)]))"

fun sha_round :: "u32 list \<Rightarrow> nat \<Rightarrow> u32 list \<Rightarrow> u32 list" where
  "sha_round m i [a, b, c, d, e, f, g, h] =
     (let t1 = h + EP1 e + CH e f g + sha_k ! i + m ! i;
          t2 = EP0 a + MAJ a b c
      in [t1 + t2, a, b, c, d + t1, e, f, g])"
| "sha_round m i st = st"

definition sha256_transform :: "u32 list \<Rightarrow> u8 list \<Rightarrow> u32 list" where
  "sha256_transform st block =
     (let m = schedule 48 (map (\<lambda>i. be_word block (4 * i)) [0 ..< 16])
      in map2 (+) st (fold (sha_round m) [0 ..< 64] st))"

section \<open>The streaming interface\<close>

record sha256_ctx =
  s_state :: "u32 list"
  s_bitlen :: u64
  s_buffer :: "u8 list"
  s_datalen :: nat

definition sha256_iv :: "u32 list" where
  "sha256_iv = [0x6a09e667, 0xbb67ae85, 0x3c6ef372, 0xa54ff53a, 0x510e527f, 0x9b05688c, 0x1f83d9ab, 0x5be0cd19]"

definition sha256_init :: "sha256_ctx \<Rightarrow> sha256_ctx" where
  "sha256_init c = c\<lparr>s_datalen := 0, s_bitlen := 0, s_state := sha256_iv\<rparr>"

definition sha256_byte :: "u8 \<Rightarrow> sha256_ctx \<Rightarrow> sha256_ctx" where
  "sha256_byte p c =
     (let c = c\<lparr>s_buffer := (s_buffer c)[s_datalen c := p], s_datalen := s_datalen c + 1\<rparr>
      in if s_datalen c = 64
         then c\<lparr>s_state := sha256_transform (s_state c) (s_buffer c), s_bitlen := s_bitlen c + 512, s_datalen := 0\<rparr>
         else c)"

definition sha256_update :: "u8 list \<Rightarrow> sha256_ctx \<Rightarrow> sha256_ctx" where
  "sha256_update data c = fold sha256_byte data c"

text \<open>\<open>buffer[i++] = v\<close> up to index \<open>n\<close>.\<close>

primrec fill_zero :: "nat \<Rightarrow> nat \<Rightarrow> u8 list \<Rightarrow> u8 list" where
  "fill_zero 0 i b = b"
| "fill_zero (Suc n) i b = fill_zero n (i + 1) (b[i := 0])"

definition put_length :: "u64 \<Rightarrow> u8 list \<Rightarrow> u8 list" where
  "put_length n b =
     b[63 := ucast n, 62 := ucast (drop_bit 8 n), 61 := ucast (drop_bit 16 n), 60 := ucast (drop_bit 24 n),
       59 := ucast (drop_bit 32 n), 58 := ucast (drop_bit 40 n), 57 := ucast (drop_bit 48 n), 56 := ucast (drop_bit 56 n)]"

definition digest_bytes :: "u32 list \<Rightarrow> u8 list" where
  "digest_bytes st = concat (map (\<lambda>w. map (\<lambda>i. ucast (drop_bit (24 - i * 8) w AND 0xFF)) [0 ..< 4]) (take 8 st))"

definition sha256_final :: "sha256_ctx \<Rightarrow> u8 list \<times> sha256_ctx" where
  "sha256_final c =
     (let i = s_datalen c;
          c = (if i < 56
               then c\<lparr>s_buffer := fill_zero (56 - (i + 1)) (i + 1) ((s_buffer c)[i := 0x80])\<rparr>
               else (let b = fill_zero (64 - (i + 1)) (i + 1) ((s_buffer c)[i := 0x80])
                     in c\<lparr>s_state := sha256_transform (s_state c) b, s_buffer := fill_zero 56 0 b\<rparr>));
          c = c\<lparr>s_bitlen := s_bitlen c + of_nat (i * 8)\<rparr>;
          c = c\<lparr>s_buffer := put_length (s_bitlen c) (s_buffer c)\<rparr>;
          c = c\<lparr>s_state := sha256_transform (s_state c) (s_buffer c)\<rparr>
      in (digest_bytes (s_state c), c))"

definition sha256_ctx0 :: sha256_ctx where
  "sha256_ctx0 = \<lparr>s_state = replicate 8 0, s_bitlen = 0, s_buffer = replicate 64 0, s_datalen = 0\<rparr>"

definition sha256 :: "u8 list \<Rightarrow> u8 list" where
  "sha256 data = fst (sha256_final (sha256_update data (sha256_init sha256_ctx0)))"

section \<open>One pass over the padded message\<close>

definition be64 :: "u64 \<Rightarrow> u8 list" where
  "be64 n = [ucast (drop_bit 56 n), ucast (drop_bit 48 n), ucast (drop_bit 40 n), ucast (drop_bit 32 n),
     ucast (drop_bit 24 n), ucast (drop_bit 16 n), ucast (drop_bit 8 n), ucast n]"

definition sha_pad :: "u8 list \<Rightarrow> u8 list" where
  "sha_pad m = m @ [0x80] @ replicate ((119 - length m mod 64) mod 64) 0 @ be64 (of_nat (8 * length m))"

definition sha256_oneshot :: "u8 list \<Rightarrow> u8 list" where
  "sha256_oneshot m = digest_bytes (foldl sha256_transform sha256_iv (blocks64 (sha_pad m)))"

section \<open>Streaming\<close>

definition sha_wf :: "sha256_ctx \<Rightarrow> bool" where
  "sha_wf c \<longleftrightarrow> length (s_buffer c) = 64 \<and> s_datalen c < 64"

definition sha_pending :: "sha256_ctx \<Rightarrow> u8 list" where
  "sha_pending c = take (s_datalen c) (s_buffer c)"

lemma sha256_byte_law:
  assumes "sha_wf c"
  shows "sha_wf (sha256_byte p c)"
    "s_state (sha256_byte p c) = foldl sha256_transform (s_state c) (blocks64 (sha_pending c @ [p]))"
    "sha_pending (sha256_byte p c) = tail64 (sha_pending c @ [p])"
    "s_bitlen (sha256_byte p c) + of_nat (8 * s_datalen (sha256_byte p c)) = s_bitlen c + of_nat (8 * (s_datalen c + 1))"
proof -
  let ?n = "s_datalen c"
  have len: "length (s_buffer c) = 64" "?n < 64" using assms by (auto simp: sha_wf_def)
  then have pl: "length (sha_pending c) = ?n" by (simp add: sha_pending_def)
  have app: "take (?n + 1) ((s_buffer c)[?n := p]) = sha_pending c @ [p]"
    using len by (simp add: sha_pending_def take_Suc_conv_app_nth)
  have full: "(s_buffer c)[?n := p] = sha_pending c @ [p]" if "?n + 1 = 64"
    using app that len by simp
  have b64: "blocks64 (sha_pending c @ [p]) = [sha_pending c @ [p]]" "tail64 (sha_pending c @ [p]) = []" if "?n + 1 = 64"
    using blocks64_step[of "sha_pending c @ [p]" "[]"] pl that by simp_all
  show "sha_wf (sha256_byte p c)" using len by (auto simp: sha_wf_def sha256_byte_def Let_def)
  show "s_state (sha256_byte p c) = foldl sha256_transform (s_state c) (blocks64 (sha_pending c @ [p]))"
    using full b64 pl len by (cases "?n + 1 = 64") (auto simp: sha256_byte_def Let_def)
  show "sha_pending (sha256_byte p c) = tail64 (sha_pending c @ [p])"
    using b64 pl len app by (cases "?n + 1 = 64") (auto simp: sha256_byte_def Let_def sha_pending_def)
  show "s_bitlen (sha256_byte p c) + of_nat (8 * s_datalen (sha256_byte p c)) = s_bitlen c + of_nat (8 * (s_datalen c + 1))"
  proof (cases "?n + 1 = 64")
    case True
    then have "?n = 63" by simp
    then show ?thesis by (simp add: sha256_byte_def Let_def)
  next
    case False
    then show ?thesis by (simp add: sha256_byte_def Let_def)
  qed
qed

lemma sha256_update_all:
  assumes "sha_wf c"
  shows "sha_wf (sha256_update xs c) \<and>
    s_state (sha256_update xs c) = foldl sha256_transform (s_state c) (blocks64 (sha_pending c @ xs)) \<and>
    sha_pending (sha256_update xs c) = tail64 (sha_pending c @ xs) \<and>
    s_bitlen (sha256_update xs c) + of_nat (8 * s_datalen (sha256_update xs c)) =
      s_bitlen c + of_nat (8 * (s_datalen c + length xs))"
  using assms
proof (induction xs arbitrary: c)
  case Nil
  then have "length (sha_pending c) < 64" by (auto simp: sha_pending_def sha_wf_def)
  then show ?case using Nil by (simp add: sha256_update_def)
next
  case (Cons x xs)
  note byte = sha256_byte_law[OF Cons.prems, of x]
  have u: "sha256_update (x # xs) c = sha256_update xs (sha256_byte x c)" by (simp add: sha256_update_def)
  have "s_bitlen (sha256_byte x c) + of_nat (8 * (s_datalen (sha256_byte x c) + length xs)) =
      s_bitlen c + of_nat (8 * (s_datalen c + length (x # xs)))"
    using byte(4) by (simp add: algebra_simps)
  then show ?case
    using Cons.IH[OF byte(1)] byte(2,3) blocks64_append[of "sha_pending c @ [x]" xs] unfolding u by simp
qed

lemmas sha256_update_law =
  sha256_update_all[THEN conjunct1] sha256_update_all[THEN conjunct2, THEN conjunct1]
  sha256_update_all[THEN conjunct2, THEN conjunct2, THEN conjunct1]
  sha256_update_all[THEN conjunct2, THEN conjunct2, THEN conjunct2]

interpretation sh: stream_hash 64 sha256_update s_state sha_pending sha256_transform sha_wf "\<lambda>_. True"
  by unfold_locales (auto simp: sha256_update_law, auto simp: sha_wf_def sha_pending_def)

lemma sha_bitlen_all:
  assumes "sha_wf c"
  shows "s_bitlen (fold sha256_update css c) + of_nat (8 * s_datalen (fold sha256_update css c)) =
    s_bitlen c + of_nat (8 * (s_datalen c + length (concat css)))"
  using assms
proof (induction css arbitrary: c)
  case (Cons xs css)
  then show ?case using sha256_update_law(1,4)[OF Cons.prems, of xs] by (simp add: algebra_simps)
qed simp

section \<open>Padding\<close>

lemma fill_zero_eq:
  "i + n \<le> length b \<Longrightarrow> fill_zero n i b = take i b @ replicate n 0 @ drop (i + n) b"
proof (induction n arbitrary: i b)
  case (Suc n)
  then have "fill_zero (Suc n) i b = take (i + 1) (b[i := 0]) @ replicate n 0 @ drop (i + 1 + n) (b[i := 0])"
    by simp
  also have "take (i + 1) (b[i := 0]) = take i b @ [0]" using Suc.prems by (simp add: take_Suc_conv_app_nth)
  finally show ?case using Suc.prems by simp
qed simp

lemma put_length_eq:
  assumes "length b = 64"
  shows "put_length n b = take 56 b @ be64 n"
proof (rule nth_equalityI)
  show "length (put_length n b) = length (take 56 b @ be64 n)" using assms by (simp add: put_length_def be64_def)
  fix i assume "i < length (put_length n b)"
  then have i: "i < 64" using assms by (simp add: put_length_def)
  show "put_length n b ! i = (take 56 b @ be64 n) ! i"
  proof (cases "i < 56")
    case True
    then show ?thesis using assms by (simp add: put_length_def nth_append)
  next
    case False
    with i have "i \<in> {56, 57, 58, 59, 60, 61, 62, 63}" by auto
    then show ?thesis using assms by (auto simp: put_length_def nth_append be64_def)
  qed
qed

lemma sha256_final_blocks:
  assumes "sha_wf c" "n = s_bitlen c + of_nat (8 * s_datalen c)"
  shows "fst (sha256_final c) = digest_bytes (foldl sha256_transform (s_state c)
    (blocks64 (sha_pending c @ [0x80] @ replicate ((119 - s_datalen c) mod 64) 0 @ be64 n)))"
proof -
  let ?i = "s_datalen c" and ?t = "sha_pending c"
  have len: "length (s_buffer c) = 64" "?i < 64" using assms(1) by (auto simp: sha_wf_def)
  then have tl: "length ?t = ?i" by (simp add: sha_pending_def)
  have put: "take (?i + 1) ((s_buffer c)[?i := 0x80]) = ?t @ [0x80]"
    using len by (simp add: sha_pending_def take_Suc_conv_app_nth)
  have bits: "s_bitlen c + of_nat (?i * 8) = n" using assms(2) by (simp add: mult.commute)
  have be: "length (be64 n) = 8" by (simp add: be64_def)
  show ?thesis
  proof (cases "?i < 56")
    case True
    let ?b = "fill_zero (56 - (?i + 1)) (?i + 1) ((s_buffer c)[?i := 0x80])"
    define A where "A = ?t @ [0x80] @ replicate (55 - ?i) (0::u8)"
    have lA: "length A = 56" using tl True by (simp add: A_def)
    have b: "?b = A @ drop 56 ((s_buffer c)[?i := 0x80])"
      using fill_zero_eq[of "?i + 1" "56 - (?i + 1)" "(s_buffer c)[?i := 0x80]"] put True len by (simp add: A_def)
    have lb: "length ?b = 64" using b lA len by simp
    have "take 56 ?b = A" unfolding b using lA by simp
    then have "put_length n ?b = ?t @ [0x80] @ replicate (55 - ?i) 0 @ be64 n"
      unfolding put_length_eq[OF lb] by (simp add: A_def)
    moreover have "(119 - ?i) mod 64 = 55 - ?i" using True by (simp add: mod_if)
    moreover have "blocks64 (?t @ [0x80] @ replicate (55 - ?i) 0 @ be64 n) = [?t @ [0x80] @ replicate (55 - ?i) 0 @ be64 n]"
      using blocks64_step(1)[of "?t @ [0x80] @ replicate (55 - ?i) 0 @ be64 n" "[]"] tl be True by simp
    ultimately show ?thesis using True bits by (simp add: sha256_final_def Let_def)
  next
    case False
    let ?b = "fill_zero (64 - (?i + 1)) (?i + 1) ((s_buffer c)[?i := 0x80])"
    have b: "?b = ?t @ [0x80] @ replicate (63 - ?i) 0"
      using fill_zero_eq[of "?i + 1" "64 - (?i + 1)" "(s_buffer c)[?i := 0x80]"] put False len by simp
    have lb: "length ?b = 64" using b tl False len by simp
    let ?z = "fill_zero 56 0 ?b"
    have z: "?z = replicate 56 0 @ drop 56 ?b" using fill_zero_eq[of 0 56 ?b] lb by simp
    have "put_length n ?z = replicate 56 0 @ be64 n"
      using put_length_eq[of ?z n] z lb by simp
    moreover have "replicate ((119 - ?i) mod 64) 0 = replicate (63 - ?i) (0::u8) @ replicate 56 0"
      using False len by (simp add: mod_if replicate_add[symmetric])
    moreover have "blocks64 (?t @ [0x80] @ (replicate (63 - ?i) 0 @ replicate 56 0) @ be64 n) =
        [?b, replicate 56 0 @ be64 n]"
      using blocks64_step(1)[of "?b" "replicate 56 0 @ be64 n"] blocks64_step(1)[of "replicate 56 0 @ be64 n" "[]"]
        lb b be by simp
    ultimately show ?thesis using False bits by (simp add: sha256_final_def Let_def)
  qed
qed

lemma sha256_stream_oneshot:
  assumes "length (s_buffer c) = 64"
  shows "fst (sha256_final (fold sha256_update css (sha256_init c))) = sha256_oneshot (concat css)"
proof -
  let ?init = "sha256_init c" and ?m = "concat css"
  let ?k = "fold sha256_update css ?init"
  have w0: "sha_wf ?init" "sha_pending ?init = []" "s_state ?init = sha256_iv" "s_bitlen ?init = 0" "s_datalen ?init = 0"
    using assms by (simp_all add: sha_wf_def sha256_init_def sha_pending_def)
  have all: "sha_wf ?k" "s_state ?k = foldl sha256_transform sha256_iv (blocks64 ?m)" "sha_pending ?k = tail64 ?m"
    using sh.absorb_all[OF w0(1), of css] w0(2,3) by auto
  have "length (sha_pending ?k) = s_datalen ?k" using all(1) by (auto simp: sha_pending_def sha_wf_def)
  then have dl: "s_datalen ?k = length ?m mod 64" using all(3) length_tail_of[of 64 ?m] by metis
  have n: "of_nat (8 * length ?m) = s_bitlen ?k + of_nat (8 * s_datalen ?k)"
    using sha_bitlen_all[OF w0(1), of css] w0(4,5) by simp
  have "blocks64 (sha_pad ?m) = blocks64 ?m @
      blocks64 (tail64 ?m @ [0x80] @ replicate ((119 - length ?m mod 64) mod 64) 0 @ be64 (of_nat (8 * length ?m)))"
    unfolding sha_pad_def by (rule blocks64_append(1))
  then show ?thesis
    using sha256_final_blocks[OF all(1) n] all(2,3) dl by (simp add: sha256_oneshot_def)
qed

section \<open>The standard\<close>

lemma sha_k_std: "sha_k = std_K"
  by code_simp

lemma sha256_iv_std: "sha256_iv = std_H0"
  by code_simp

lemma ROTRIGHT_rotr:
  assumes "0 < n" "n < 32"
  shows "ROTRIGHT x n = word_rotr n x"
proof (rule bit_eqI)
  fix i assume "possible_bit TYPE(u32) i"
  then have i: "i < 32" by (simp add: possible_bit_word)
  show "bit (ROTRIGHT x n) i = bit (word_rotr n x) i"
  proof (cases "i + n < 32")
    case True
    then have "\<not> 32 - n \<le> i" by simp
    then show ?thesis using True assms i by (simp add: ROTRIGHT_def bit_word_rotr_iff bit_simps add.commute)
  next
    case False
    then have "(i + n) mod 32 = i + n - 32" using assms i by (simp add: mod_if)
    then show ?thesis using assms i False
      by (auto simp: ROTRIGHT_def bit_word_rotr_iff bit_simps add.commute dest: bit_imp_le_length)
  qed
qed

lemma CH_std: "CH x y z = std_Ch x y z"
  by (rule bit_eqI) (auto simp: CH_def std_Ch_def bit_simps)

lemma MAJ_std: "MAJ x y z = std_Maj x y z"
  by (rule bit_eqI) (auto simp: MAJ_def std_Maj_def bit_simps)

lemma sigmas_std: "EP0 x = std_Sigma0 x" "EP1 x = std_Sigma1 x" "SIG0 x = std_sigma0 x" "SIG1 x = std_sigma1 x"
  by (simp_all add: EP0_def EP1_def SIG0_def SIG1_def std_Sigma0_def std_Sigma1_def std_sigma0_def std_sigma1_def
      ROTRIGHT_rotr drop_bit_eq_div)

lemma schedule_std:
  assumes "16 \<le> length m" "\<forall>t < length m. m ! t = std_W M t"
  shows "length (schedule n m) = length m + n \<and> (\<forall>t < length m + n. schedule n m ! t = std_W M t)"
  using assms
proof (induction n arbitrary: m)
  case (Suc n)
  let ?i = "length m"
  let ?m = "m @ [SIG1 (m ! (?i - 2)) + m ! (?i - 7) + SIG0 (m ! (?i - 15)) + m ! (?i - 16)]"
  have "?m ! t = std_W M t" if "t < length ?m" for t
  proof (cases "t < ?i")
    case True
    then show ?thesis using Suc.prems(2) by (simp add: nth_append)
  next
    case False
    then have t: "t = ?i" using that by simp
    have "std_W M ?i = std_sigma1 (std_W M (?i - 2)) + std_W M (?i - 7) + std_sigma0 (std_W M (?i - 15)) + std_W M (?i - 16)"
      using Suc.prems(1) by (subst std_W.simps) simp
    then show ?thesis using Suc.prems by (simp add: t sigmas_std)
  qed
  then show ?case using Suc.IH[of ?m] Suc.prems(1) by (simp add: Let_def)
qed simp

lemma rounds_std:
  assumes "n \<le> 64" "\<forall>t < 64. m ! t = W t"
  shows "fold (sha_round m) [0 ..< n] (words_of s) = words_of (std_rounds W n s)"
  using assms(1)
proof (induction n)
  case (Suc n)
  obtain a b c d e f g h where r: "std_rounds W n s = (a, b, c, d, e, f, g, h)" by (cases "std_rounds W n s" rule: words_of.cases) auto
  have "fold (sha_round m) [0 ..< n] (words_of s) = [a, b, c, d, e, f, g, h]" using Suc r by simp
  then show ?case
    using Suc.prems assms(2) r by (simp add: sha_k_std sigmas_std CH_std MAJ_std Let_def)
qed simp

lemma shl8_or: "push_bit 8 x OR (ucast (y :: u8) :: u32) = 256 * x + ucast y"
proof -
  have "push_bit 8 x AND (ucast y :: u32) = 0"
    by (rule bit_eqI) (auto simp: bit_simps dest: bit_imp_le_length)
  then have "push_bit 8 x + ucast y = push_bit 8 x OR (ucast y :: u32)" by (rule disjunctive_add_eq_or)
  then show ?thesis by (simp add: push_bit_eq_mult mult.commute)
qed

lemma be_word_num: "4 * t + 4 \<le> length d \<Longrightarrow> be_word d (4 * t) = block_word d t"
proof -
  assume l: "4 * t + 4 \<le> length d"
  let ?a = "d ! (4 * t)" and ?b = "d ! (4 * t + 1)" and ?c = "d ! (4 * t + 2)" and ?e = "d ! (4 * t + 3)"
  have "take 4 (drop (4 * t) d) = [?a, ?b, ?c, ?e]"
    using l by (intro nth_equalityI) (auto simp: less_Suc_eq numeral_eq_Suc nth_Cons')
  then have r: "block_word d t = of_nat (256 * (256 * (256 * unat ?a + unat ?b) + unat ?c) + unat ?e)"
    by (simp add: block_word_def be_num_def)
  have "be_word d (4 * t) = push_bit 8 (push_bit 8 (push_bit 8 (ucast ?a) OR ucast ?b) OR ucast ?c) OR ucast ?e"
    by (simp add: be_word_def push_bit_or push_bit_push_bit or.assoc)
  also have "\<dots> = 256 * (256 * (256 * ucast ?a + ucast ?b) + ucast ?c) + ucast ?e" by (simp only: shl8_or)
  finally show ?thesis unfolding r by (simp only: of_nat_add of_nat_mult of_nat_unat of_nat_numeral)
qed

lemma transform_std:
  assumes "length block = 64"
  shows "sha256_transform (words_of H) block = words_of (std_compress H block)"
proof -
  let ?M = "block_word block"
  let ?m = "map (\<lambda>i. be_word block (4 * i)) [0 ..< 16]"
  have "\<forall>t < length ?m. ?m ! t = std_W ?M t"
    using assms be_word_num[of _ block] by (auto simp: std_W.simps simp del: upt_rec_numeral)
  then have "\<forall>t < 64. schedule 48 ?m ! t = std_W ?M t" using schedule_std[of ?m ?M 48] by (simp del: upt_rec_numeral)
  from rounds_std[OF _ this, of 64 H] have "fold (sha_round (schedule 48 ?m)) [0 ..< 64] (words_of H) = words_of (std_rounds (std_W ?M) 64 H)"
    by simp
  moreover have "map2 (+) (words_of x) (words_of y) = words_of (hash_add x y)" for x y by (cases x; cases y) auto
  ultimately show ?thesis unfolding sha256_transform_def Let_def std_compress_def by (simp only:)
qed

lemma transforms_std:
  "\<forall>b \<in> set bs. length b = 64 \<Longrightarrow> foldl sha256_transform (words_of H) bs = words_of (foldl std_compress H bs)"
  by (induction bs arbitrary: H) (simp_all add: transform_std)

lemma blocks_length: "b \<in> set (blocks_of n xs) \<Longrightarrow> length b = n"
proof (induction n xs rule: blocks_of.induct)
  case (1 n xs)
  then show ?case by (subst (asm) (2) blocks_of.simps) (auto split: if_splits)
qed

lemma ucast_drop_bit: "ucast (drop_bit k (w :: 'a::len word)) = (of_nat (unat w div 2 ^ k) :: u8)"
  unfolding drop_bit_eq_div[symmetric] unat_drop_bit_eq[symmetric] by (rule of_nat_unat[symmetric])

lemma digest_bytes_std: "digest_bytes (words_of H) = concat (map (\<lambda>w. be_bytes 4 (unat w)) (words_of H))"
proof -
  have f: "ucast (x AND 0xFF :: u32) = (ucast x :: u8)" for x
  proof -
    have m: "(0xFF :: u32) = mask 8" by (simp add: mask_eq_exp_minus_1)
    show ?thesis unfolding m by (intro bit_eqI) (auto simp: bit_simps)
  qed
  have p256: "(256 :: nat) ^ k = 2 ^ (k * 8)" for k by (subst mult.commute) (simp add: power_mult)
  have "map (\<lambda>i. ucast (drop_bit (24 - i * 8) w AND 0xFF)) [0 ..< 4] = be_bytes 4 (unat w)" for w :: u32
    unfolding be_bytes_def f ucast_drop_bit p256 by (simp add: diff_mult_distrib)
  then show ?thesis by (cases H rule: words_of.cases) (simp add: digest_bytes_def)
qed

lemma be64_std: "be64 (of_nat n) = be_bytes 8 n"
proof -
  have "(ucast (drop_bit k (of_nat n :: u64)) :: u8) = of_nat (n div 2 ^ k)" if "k \<le> 56" for k
    using that by (intro bit_eqI) (auto simp: bit_simps drop_bit_eq_div[symmetric])
  then show ?thesis by (simp add: be64_def be_bytes_def upt_rec) (metis drop_bit_0 div_by_1 id_apply power_0 zero_le)
qed

lemma sha256_oneshot_std: "sha256_oneshot m = std_sha256 m"
proof -
  have p: "sha_pad m = std_pad m" by (simp only: sha_pad_def std_pad_def be64_std)
  have s: "sha256_iv = words_of std_start" unfolding sha256_iv_std std_start_def by (simp add: std_H0_def first_primes_def)
  show ?thesis
    unfolding sha256_oneshot_def std_sha256_def p s
    by (subst transforms_std) (auto simp: blocks_length digest_bytes_std)
qed

lemma sha256_stream_std:
  "length (s_buffer c) = 64 \<Longrightarrow> fst (sha256_final (fold sha256_update css (sha256_init c))) = std_sha256 (concat css)"
  using sha256_stream_oneshot by (simp add: sha256_oneshot_std)

section \<open>Properties\<close>

text \<open>C38: However a message is split over \<open>sha256_update\<close> calls, and whatever the context held before
  \<open>sha256_init\<close>, \<open>sha256_final\<close> returns the SHA-256 digest of the message as FIPS 180-4 defines it (padding,
  message schedule, 64 rounds with the constants taken from the roots of the first primes, big-endian output).\<close>

theorem sha256_streaming:
  assumes "length (s_buffer c) = 64"
  shows "fst (sha256_final (fold sha256_update css (sha256_init c))) = std_sha256 (concat css)"
  by (rule sha256_stream_std[OF assms])

theorem sha256_streaming_witness:
  "fst (sha256_final (fold sha256_update [[97], [98, 99]] (sha256_init sha256_ctx0))) = std_sha256 [97, 98, 99]"
  using sha256_streaming[of sha256_ctx0 "[[97], [98, 99]]"] by (simp add: sha256_ctx0_def)

end
