(* ===== verification/Hkdf.thy ===== *)
theory Hkdf
  imports Sha256
begin

unbundle bit_operations_syntax

text \<open>
  \<open>crypto/hkdf.c\<close>: HMAC-SHA256, HKDF and the TLS 1.3 label expansion, on top of the streaming SHA-256, proved
  against HMAC as RFC 2104 states it over the SHA-256 of \<open>Sha256Spec\<close>, and HKDF as RFC 5869 states it over that.
\<close>

section \<open>The code\<close>

definition hmac_key :: "u8 list \<Rightarrow> u8 list" where
  "hmac_key key = (if 64 < length key then sha256 key @ replicate 32 0 else key @ replicate (64 - length key) 0)"

definition hmac_sha256 :: "u8 list \<Rightarrow> u8 list \<Rightarrow> u8 list" where
  "hmac_sha256 key msg =
     (let k = hmac_key key;
          ipad = map (\<lambda>b. b XOR 0x36) k;
          opad = map (\<lambda>b. b XOR 0x5c) k;
          (inner, c) = sha256_final (sha256_update msg (sha256_update ipad (sha256_init sha256_ctx0)))
      in fst (sha256_final (sha256_update inner (sha256_update opad (sha256_init c)))))"

definition hkdf_extract :: "u8 list option \<Rightarrow> u8 list \<Rightarrow> u8 list" where
  "hkdf_extract salt ikm =
     (let s = (case salt of None \<Rightarrow> replicate 32 0 | Some s \<Rightarrow> if s = [] then replicate 32 0 else s)
      in hmac_sha256 s ikm)"

text \<open>The loop of \<open>hkdf_expand\<close>; \<open>fin\<close> counts the bytes written and \<open>t\<close> is empty before the first turn. The key is
  the first 32 bytes at \<open>prk\<close>.\<close>

function hkdf_loop :: "u8 list \<Rightarrow> u8 list \<Rightarrow> nat \<Rightarrow> nat \<Rightarrow> u8 list \<Rightarrow> u8 \<Rightarrow> u8 list \<Rightarrow> u8 list" where
  "hkdf_loop prk info out_len fin t counter out =
     (if fin < out_len then
        (let t = hmac_sha256 (take 32 prk) (t @ take 512 info @ [counter]);
             n = (if out_len - fin < 32 then out_len - fin else 32)
         in hkdf_loop prk info out_len (fin + n) t (counter + 1) (out @ take n t))
      else out)"
  by pat_completeness auto
termination
  by (relation "measure (\<lambda>(prk, info, out_len, fin, t, counter, out). out_len - fin)") (auto simp: Let_def)

declare hkdf_loop.simps [simp del]

definition hkdf_expand :: "u8 list \<Rightarrow> u8 list \<Rightarrow> nat \<Rightarrow> u8 list" where
  "hkdf_expand prk info out_len = hkdf_loop prk info out_len 0 [] 1 []"

definition tls13_expand_label :: "u8 list \<Rightarrow> u8 list \<Rightarrow> u8 list \<Rightarrow> nat \<Rightarrow> u8 list" where
  "tls13_expand_label secret label ctx out_len =
     (let full_label = take 63 ([116, 108, 115, 49, 51, 32] @ label);
          info = [of_nat (out_len div 256), of_nat out_len, of_nat (length full_label)] @ full_label @
                 [of_nat (length ctx)] @ ctx
      in hkdf_expand secret info out_len)"

definition tls13_derive_secret :: "u8 list \<Rightarrow> u8 list \<Rightarrow> u8 list \<Rightarrow> u8 list" where
  "tls13_derive_secret secret label transcript_hash = tls13_expand_label secret label transcript_hash 32"

section \<open>HMAC\<close>

lemma length_fill_zero [simp]: "length (fill_zero n i b) = length b"
  by (induction n arbitrary: i b) auto

lemma sha256_final_buffer: "length (s_buffer (snd (sha256_final c))) = length (s_buffer c)"
  by (simp add: sha256_final_def Let_def put_length_def)

lemma sha256_update_buffer: "length (s_buffer (sha256_update xs c)) = length (s_buffer c)"
proof (induction xs arbitrary: c)
  case (Cons x xs)
  have "length (s_buffer (sha256_byte x c)) = length (s_buffer c)" by (simp add: sha256_byte_def Let_def)
  then show ?case using Cons[of "sha256_byte x c"] by (simp add: sha256_update_def)
qed (simp add: sha256_update_def)

lemma sha256_std: "sha256 m = std_sha256 m"
  using sha256_stream_std[of sha256_ctx0 "[m]"] by (simp add: sha256_def sha256_ctx0_def)

lemma length_std_sha256 [simp]: "length (std_sha256 m) = 32"
proof -
  have "length (concat (map (\<lambda>w. be_bytes 4 (unat w)) (words_of H))) = 32" for H
    by (cases H rule: words_of.cases) (simp add: be_bytes_def)
  then show ?thesis unfolding std_sha256_def .
qed

lemma hmac_key_std: "hmac_key key = std_hmac_key key"
  by (simp add: hmac_key_def std_hmac_key_def sha256_std)

lemma hmac_std: "hmac_sha256 key msg = std_hmac key msg"
proof -
  let ?ip = "map (\<lambda>b. b XOR 0x36) (hmac_key key)" and ?op = "map (\<lambda>b. b XOR 0x5c) (hmac_key key)"
  define c where "c = sha256_update msg (sha256_update ?ip (sha256_init sha256_ctx0))"
  have inner: "fst (sha256_final c) = std_sha256 (?ip @ msg)"
    using sha256_stream_std[of sha256_ctx0 "[?ip, msg]"] by (simp add: c_def sha256_ctx0_def)
  have "length (s_buffer (snd (sha256_final c))) = 64"
    by (simp add: sha256_final_buffer sha256_update_buffer c_def sha256_init_def sha256_ctx0_def)
  from sha256_stream_std[OF this, of "[?op, fst (sha256_final c)]"] inner
  have "hmac_sha256 key msg = std_sha256 (?op @ std_sha256 (?ip @ msg))"
    by (simp add: hmac_sha256_def Let_def c_def[symmetric] split_def)
  moreover have "length (std_hmac_key key) = 64" by (simp add: std_hmac_key_def Let_def)
  then have "map (\<lambda>b. b XOR x) (std_hmac_key key) = map2 (XOR) (std_hmac_key key) (replicate 64 x)" for x
    by (intro nth_equalityI) simp_all
  ultimately show ?thesis by (simp add: std_hmac_def hmac_key_std)
qed

lemma length_std_hmac [simp]: "length (std_hmac key msg) = 32"
  by (simp add: std_hmac_def)

section \<open>HKDF\<close>

text \<open>
  RFC 5869, section 2: \<open>T(0)\<close> is empty, \<open>T(i)\<close> ends in the single byte \<open>i\<close>, and the output is cut from
  \<open>T(1) | T(2) | ...\<close>; more than 255 blocks are not defined. An absent salt is 32 zero bytes.
\<close>

primrec rfc5869_T :: "u8 list \<Rightarrow> u8 list \<Rightarrow> nat \<Rightarrow> u8 list" where
  "rfc5869_T prk info 0 = []"
| "rfc5869_T prk info (Suc i) = std_hmac prk (rfc5869_T prk info i @ info @ [of_nat (Suc i)])"

definition rfc5869_expand :: "u8 list \<Rightarrow> u8 list \<Rightarrow> nat \<Rightarrow> u8 list option" where
  "rfc5869_expand prk info L =
     (if 255 * 32 < L then None
      else Some (take L (concat (map (rfc5869_T prk info) [1 ..< Suc ((L + 31) div 32)]))))"

definition rfc5869_extract :: "u8 list option \<Rightarrow> u8 list \<Rightarrow> u8 list" where
  "rfc5869_extract salt ikm = std_hmac (case salt of None \<Rightarrow> replicate 32 0 | Some s \<Rightarrow> s) ikm"

lemma hkdf_loop_blocks:
  assumes "fin = 32 * k" "fin \<le> out_len + 31" "length info \<le> 512" "length prk = 32"
  shows "hkdf_loop prk info out_len (min fin out_len) (rfc5869_T prk info k) (of_nat (Suc k)) out =
    out @ take (out_len - fin) (concat (map (rfc5869_T prk info) [Suc k ..< Suc ((out_len + 31) div 32)]))"
  using assms
proof (induction "out_len - fin" arbitrary: fin k out rule: less_induct)
  case less
  show ?case
  proof (cases "fin < out_len")
    case False
    then show ?thesis by (subst hkdf_loop.simps) simp
  next
    case True
    let ?t = "rfc5869_T prk info (Suc k)" and ?n = "min 32 (out_len - fin)"
    have lt: "length ?t = 32" by simp
    have k: "Suc k < Suc ((out_len + 31) div 32)"
      using True less.prems(1) by (simp add: less_Suc_eq_le less_eq_div_iff_mult_less_eq del: less_Suc_eq)
    have step: "hkdf_loop prk info out_len (min fin out_len) (rfc5869_T prk info k) (of_nat (Suc k)) out =
        hkdf_loop prk info out_len (fin + ?n) ?t (of_nat (Suc (Suc k))) (out @ take ?n ?t)"
      using True less.prems(3,4) by (subst hkdf_loop.simps) (simp add: Let_def min_def add.commute hmac_std)
    have eq: "fin + ?n = min (fin + 32) out_len" using True by auto
    have "out_len - (fin + 32) < out_len - fin" "fin + 32 = 32 * Suc k" "fin + 32 \<le> out_len + 31"
      using True less.prems(1) by auto
    note IH = less.hyps[OF this less.prems(3,4), of "out @ take ?n ?t"]
    then have "hkdf_loop prk info out_len (fin + ?n) ?t (of_nat (Suc (Suc k))) (out @ take ?n ?t) =
        (out @ take ?n ?t) @ take (out_len - (fin + 32))
          (concat (map (rfc5869_T prk info) [Suc (Suc k) ..< Suc ((out_len + 31) div 32)]))"
      unfolding eq .
    moreover have "[Suc k ..< Suc ((out_len + 31) div 32)] = Suc k # [Suc (Suc k) ..< Suc ((out_len + 31) div 32)]"
      by (rule upt_conv_Cons[OF k])
    moreover have "take (out_len - fin) (?t @ xs) = take ?n ?t @ take (out_len - (fin + 32)) xs" for xs
      using lt by (simp add: min_def)
    ultimately show ?thesis unfolding step by (simp only: list.map concat.simps append_assoc)
  qed
qed

section \<open>Properties\<close>

text \<open>C39: \<open>hmac_sha256\<close> is HMAC with SHA-256 as RFC 2104 and FIPS 180-4 define them, for every key and message.
  \<open>hkdf_extract\<close> is HKDF-Extract of RFC 5869, an empty salt counting as an absent one. For a pseudorandom key of 32
  bytes, an info of at most 512 bytes (the code cuts longer ones) and an output of at most 255 * 32 bytes (the RFC
  defines no longer ones), \<open>hkdf_expand\<close> produces exactly the output of HKDF-Expand.\<close>

theorem hkdf_rfc:
  assumes "length prk = 32" "length info \<le> 512" "out_len \<le> 255 * 32"
  shows "rfc5869_expand prk info out_len = Some (hkdf_expand prk info out_len) \<and>
    hmac_sha256 key msg = std_hmac key msg \<and>
    hkdf_extract salt ikm = rfc5869_extract (if salt = Some [] then None else salt) ikm"
  using hkdf_loop_blocks[of 0 0 out_len info prk "[]"] assms
  by (auto simp: hkdf_expand_def rfc5869_expand_def hmac_std hkdf_extract_def rfc5869_extract_def Let_def split: option.splits)

theorem hkdf_rfc_witness:
  "rfc5869_expand (replicate 32 1) [3] 40 = Some (hkdf_expand (replicate 32 1) [3] 40)"
  using hkdf_rfc[of "replicate 32 1" "[3]" 40 "[]" "[]" None "[]"] by simp

end
