(* ===== verification/Md5.thy ===== *)
theory Md5
  imports BlockHash
begin

unbundle bit_operations_syntax

text \<open>
  \<open>crypto/md5.c\<close>: MD5. \<open>md5_update\<close> copies whole blocks straight from the input; its block loop runs
  on a 32-bit index, so it is a partial function. The streaming interface computes the standard's
  one-shot definition for pieces below 4 GiB.
\<close>

section \<open>The compression function\<close>

definition ROTATE_LEFT :: "u32 \<Rightarrow> nat \<Rightarrow> u32" where
  "ROTATE_LEFT x n = push_bit n x OR drop_bit (32 - n) x"

definition md5_F :: "u32 \<Rightarrow> u32 \<Rightarrow> u32 \<Rightarrow> u32" where "md5_F x y z = (x AND y) OR (NOT x AND z)"
definition md5_G :: "u32 \<Rightarrow> u32 \<Rightarrow> u32 \<Rightarrow> u32" where "md5_G x y z = (x AND z) OR (y AND NOT z)"
definition md5_H :: "u32 \<Rightarrow> u32 \<Rightarrow> u32 \<Rightarrow> u32" where "md5_H x y z = x XOR y XOR z"
definition md5_I :: "u32 \<Rightarrow> u32 \<Rightarrow> u32 \<Rightarrow> u32" where "md5_I x y z = y XOR (x OR NOT z)"

text \<open>
  The 64 steps: the word they read, their rotation and their constant. Step \<open>i\<close> uses the function of its
  round and updates \<open>a, d, c, b\<close> in turn.
\<close>

definition md5_steps :: "(nat \<times> nat \<times> u32) list" where
  "md5_steps = [
    (0, 7, 0xd76aa478), (1, 12, 0xe8c7b756), (2, 17, 0x242070db), (3, 22, 0xc1bdceee),
    (4, 7, 0xf57c0faf), (5, 12, 0x4787c62a), (6, 17, 0xa8304613), (7, 22, 0xfd469501),
    (8, 7, 0x698098d8), (9, 12, 0x8b44f7af), (10, 17, 0xffff5bb1), (11, 22, 0x895cd7be),
    (12, 7, 0x6b901122), (13, 12, 0xfd987193), (14, 17, 0xa679438e), (15, 22, 0x49b40821),
    (1, 5, 0xf61e2562), (6, 9, 0xc040b340), (11, 14, 0x265e5a51), (0, 20, 0xe9b6c7aa),
    (5, 5, 0xd62f105d), (10, 9, 0x02441453), (15, 14, 0xd8a1e681), (4, 20, 0xe7d3fbc8),
    (9, 5, 0x21e1cde6), (14, 9, 0xc33707d6), (3, 14, 0xf4d50d87), (8, 20, 0x455a14ed),
    (13, 5, 0xa9e3e905), (2, 9, 0xfcefa3f8), (7, 14, 0x676f02d9), (12, 20, 0x8d2a4c8a),
    (5, 4, 0xfffa3942), (8, 11, 0x8771f681), (11, 16, 0x6d9d6122), (14, 23, 0xfde5380c),
    (1, 4, 0xa4beea44), (4, 11, 0x4bdecfa9), (7, 16, 0xf6bb4b60), (10, 23, 0xbebfbc70),
    (13, 4, 0x289b7ec6), (0, 11, 0xeaa127fa), (3, 16, 0xd4ef3085), (6, 23, 0x04881d05),
    (9, 4, 0xd9d4d039), (12, 11, 0xe6db99e5), (15, 16, 0x1fa27cf8), (2, 23, 0xc4ac5665),
    (0, 6, 0xf4292244), (7, 10, 0x432aff97), (14, 15, 0xab9423a7), (5, 21, 0xfc93a039),
    (12, 6, 0x655b59c3), (3, 10, 0x8f0ccc92), (10, 15, 0xffeff47d), (1, 21, 0x85845dd1),
    (8, 6, 0x6fa87e4f), (15, 10, 0xfe2ce6e0), (6, 15, 0xa3014314), (13, 21, 0x4e0811a1),
    (4, 6, 0xf7537e82), (11, 10, 0xbd3af235), (2, 15, 0x2ad7d2bb), (9, 21, 0xeb86d391)]"

definition md5_step :: "u32 list \<Rightarrow> nat \<Rightarrow> u32 list \<Rightarrow> u32 list" where
  "md5_step x i st =
     (let (k, s, ac) = md5_steps ! i;
          f = [md5_F, md5_G, md5_H, md5_I] ! (i div 16);
          p = (4 - i mod 4) mod 4;
          a = st ! p; b = st ! ((p + 1) mod 4); c = st ! ((p + 2) mod 4); d = st ! ((p + 3) mod 4)
      in st[p := ROTATE_LEFT (a + (f b c d + x ! k + ac)) s + b])"

definition le_word :: "u8 list \<Rightarrow> nat \<Rightarrow> u32" where
  "le_word d j = ucast (d ! j) OR push_bit 8 (ucast (d ! (j + 1))) OR
     push_bit 16 (ucast (d ! (j + 2))) OR push_bit 24 (ucast (d ! (j + 3)))"

definition md5_transform :: "u32 list \<Rightarrow> u8 list \<Rightarrow> u32 list" where
  "md5_transform st block =
     (let x = map (\<lambda>i. le_word block (4 * i)) [0 ..< 16]
      in map2 (+) st (fold (md5_step x) [0 ..< 64] st))"

section \<open>The streaming interface\<close>

record md5_ctx =
  m_state :: "u32 list"
  m_count0 :: u32
  m_count1 :: u32
  m_buffer :: "u8 list"

definition md5_iv :: "u32 list" where
  "md5_iv = [0x67452301, 0xefcdab89, 0x98badcfe, 0x10325476]"

definition md5_init :: "md5_ctx \<Rightarrow> md5_ctx" where
  "md5_init c = c\<lparr>m_count0 := 0, m_count1 := 0, m_state := md5_iv\<rparr>"

definition md5_index :: "md5_ctx \<Rightarrow> nat" where
  "md5_index c = unat (drop_bit 3 (m_count0 c) AND 0x3F)"

partial_function (option) md5_blocks :: "u8 list \<Rightarrow> nat \<Rightarrow> u32 list \<Rightarrow> (nat \<times> u32 list) option" where
  "md5_blocks buf i st =
     (if (i + 63) mod 2 ^ 32 < length buf
      then md5_blocks buf ((i + 64) mod 2 ^ 32) (md5_transform st (take 64 (drop i buf)))
      else Some (i, st))"

definition md5_count :: "nat \<Rightarrow> md5_ctx \<Rightarrow> md5_ctx" where
  "md5_count n c =
     (let bits = push_bit 3 (of_nat n :: u32);
          c0 = m_count0 c + bits;
          c1 = (if c0 < bits then m_count1 c + 1 else m_count1 c)
      in c\<lparr>m_count0 := c0, m_count1 := c1 + drop_bit 29 (of_nat n)\<rparr>)"

definition md5_update :: "u8 list \<Rightarrow> md5_ctx \<Rightarrow> md5_ctx option" where
  "md5_update buf c =
     (let index = md5_index c;
          c = md5_count (length buf) c;
          part_len = 64 - index
      in if part_len \<le> length buf
         then (let b = take index (m_buffer c) @ take part_len buf
               in case md5_blocks buf part_len (md5_transform (m_state c) b) of
                    None \<Rightarrow> None
                  | Some (i, st) \<Rightarrow>
                      Some (c\<lparr>m_state := st, m_buffer := drop i buf @ drop (length buf - i) b\<rparr>))
         else Some (c\<lparr>m_buffer := take index (m_buffer c) @ buf @ drop (index + length buf) (m_buffer c)\<rparr>))"

definition le32 :: "u32 \<Rightarrow> u8 list" where
  "le32 w = map (\<lambda>i. ucast (drop_bit (i * 8) w AND 0xFF)) [0 ..< 4]"

definition md5_final :: "md5_ctx \<Rightarrow> (u8 list \<times> md5_ctx) option" where
  "md5_final c =
     (let bits = le32 (m_count0 c) @ le32 (m_count1 c);
          index = md5_index c;
          pad_len = (if index < 56 then 56 - index else 120 - index)
      in case md5_update (take pad_len (0x80 # replicate 63 0)) c of
           None \<Rightarrow> None
         | Some c \<Rightarrow>
             (case md5_update bits c of
                None \<Rightarrow> None
              | Some c \<Rightarrow> Some (concat (map le32 (take 4 (m_state c))), c)))"

section \<open>The standard's definition\<close>

definition md5_pad :: "u8 list \<Rightarrow> u8 list" where
  "md5_pad m = m @ [0x80] @ replicate ((119 - length m mod 64) mod 64) 0 @
     le32 (of_nat (8 * length m)) @ le32 (of_nat (8 * length m div 2 ^ 32))"

definition md5_reference :: "u8 list \<Rightarrow> u8 list" where
  "md5_reference m = concat (map le32 (take 4 (foldl md5_transform md5_iv (blocks64 (md5_pad m)))))"

section \<open>The bit counter\<close>

definition count64 :: "md5_ctx \<Rightarrow> nat" where
  "count64 c = unat (m_count1 c) * 2 ^ 32 + unat (m_count0 c)"

lemma carry_add:
  fixes a b n :: nat
  assumes "a < 2 ^ 32" "n < 2 ^ 32"
  shows "((b + (if (a + 8 * n mod 2 ^ 32) mod 2 ^ 32 < 8 * n mod 2 ^ 32 then 1 else 0) + n div 2 ^ 29) mod 2 ^ 32) * 2 ^ 32
      + (a + 8 * n mod 2 ^ 32) mod 2 ^ 32 = (b * 2 ^ 32 + a + 8 * n) mod 2 ^ 64"
proof -
  let ?B = "8 * n mod 2 ^ 32" and ?D = "n div 2 ^ 29"
  let ?k = "if (a + ?B) mod 2 ^ 32 < ?B then 1 else 0 :: nat"
  have D: "8 * n div 2 ^ 32 = ?D" using div_mult2_eq[of "8 * n" 8 "2 ^ 29"] by simp
  have n: "8 * n = ?D * 2 ^ 32 + ?B" using div_mult_mod_eq[of "8 * n" "2 ^ 32"] unfolding D by simp
  have B: "?B < 2 ^ 32" by simp
  have k: "a + ?B = ?k * 2 ^ 32 + (a + ?B) mod 2 ^ 32"
  proof (cases "a + ?B < 2 ^ 32")
    case True
    then show ?thesis by simp
  next
    case False
    then have "(a + ?B) mod 2 ^ 32 = a + ?B - 2 ^ 32" using assms(1) B by (simp add: le_mod_geq)
    then have "(a + ?B) mod 2 ^ 32 < ?B" "(a + ?B) mod 2 ^ 32 + 2 ^ 32 = a + ?B"
      using False assms(1) by linarith+
    then show ?thesis by simp
  qed
  have m: "(x mod 2 ^ 32) * 2 ^ 32 + y = (x * 2 ^ 32 + y) mod 2 ^ 64" if "y < 2 ^ 32" for x y :: nat
  proof -
    have "(x * 2 ^ 32 + y) mod (2 ^ 32 * 2 ^ 32) = 2 ^ 32 * ((x * 2 ^ 32 + y) div 2 ^ 32 mod 2 ^ 32) + (x * 2 ^ 32 + y) mod 2 ^ 32"
      by (rule mod_mult2_eq)
    then show ?thesis using that by simp
  qed
  have "b * 2 ^ 32 + a + 8 * n = (b + ?k + ?D) * 2 ^ 32 + (a + ?B) mod 2 ^ 32"
    using n k by (simp add: algebra_simps)
  moreover have "(a + ?B) mod 2 ^ 32 < 2 ^ 32" by simp
  ultimately show ?thesis using m[of "(a + ?B) mod 2 ^ 32" "b + ?k + ?D"] by (simp only:)
qed

lemma count64_update:
  assumes "n < 2 ^ 32"
  shows "count64 (md5_count n c) = (count64 c + 8 * n) mod 2 ^ 64"
proof -
  have bits: "unat (push_bit 3 (of_nat n :: u32)) = 8 * n mod 2 ^ 32"
  proof -
    have "push_bit 3 (of_nat n :: u32) = of_nat (8 * n)" by (simp add: push_bit_eq_mult mult.commute)
    then show ?thesis by (simp only: unat_of_nat) simp
  qed
  have top: "unat (drop_bit 29 (of_nat n :: u32)) = n div 2 ^ 29"
  proof -
    have "unat (of_nat n :: u32) = n" using assms by (simp add: unat_of_nat take_bit_eq_mod)
    then show ?thesis using assms unfolding unsigned_drop_bit_eq by (simp add: take_bit_eq_mod drop_bit_eq_div)
  qed
  have lt: "unat (m_count0 c) < 2 ^ 32" using unsigned_less[of "m_count0 c"] by simp
  have c0: "unat (m_count0 (md5_count n c)) = (unat (m_count0 c) + 8 * n mod 2 ^ 32) mod 2 ^ 32"
    using bits by (simp add: md5_count_def Let_def unat_word_ariths)
  have c1: "unat (m_count1 (md5_count n c)) = (unat (m_count1 c) +
      (if (unat (m_count0 c) + 8 * n mod 2 ^ 32) mod 2 ^ 32 < 8 * n mod 2 ^ 32 then 1 else 0) + n div 2 ^ 29) mod 2 ^ 32"
    using bits top by (simp add: md5_count_def Let_def unat_word_ariths word_less_nat_alt mod_add_left_eq)
  show ?thesis using carry_add[OF lt assms, of "unat (m_count1 c)"] c0 c1 by (simp add: count64_def add.assoc)
qed

lemma md5_index_eq: "md5_index c = count64 c div 8 mod 64"
proof -
  have "(0x3F :: u32) = mask 6" by (simp add: mask_eq_exp_minus_1)
  moreover have "unat (m_count0 c) < 2 ^ 32" using unsigned_less[of "m_count0 c"] by simp
  ultimately have "md5_index c = take_bit 6 (drop_bit 3 (unat (m_count0 c)))"
    by (simp only: md5_index_def take_bit_eq_mask[symmetric] unsigned_drop_bit_eq unsigned_take_bit_eq)
      (simp add: take_bit_eq_mod drop_bit_eq_div)
  then have "md5_index c = unat (m_count0 c) div 8 mod 64" by (simp add: take_bit_eq_mod drop_bit_eq_div)
  moreover have "count64 c div 8 = unat (m_count1 c) * 2 ^ 29 + unat (m_count0 c) div 8"
    using div_mult_self3[of 8 "unat (m_count1 c) * 2 ^ 29" "unat (m_count0 c)"]
    by (simp add: count64_def)
  moreover have "unat (m_count1 c) * 2 ^ 29 = 64 * (unat (m_count1 c) * 2 ^ 23)" by simp
  ultimately show ?thesis by (metis mod_mult_self4)
qed

section \<open>One update\<close>

definition md5_fits :: "u8 list \<Rightarrow> bool" where
  "md5_fits xs = (length xs \<le> 2 ^ 32 - 64)"

definition md5_wf :: "md5_ctx \<Rightarrow> bool" where
  "md5_wf c = (length (m_buffer c) = 64)"

definition md5_pending :: "md5_ctx \<Rightarrow> u8 list" where
  "md5_pending c = take (md5_index c) (m_buffer c)"

definition md5_absorb :: "u8 list \<Rightarrow> md5_ctx \<Rightarrow> md5_ctx" where
  "md5_absorb xs c = (case md5_update xs c of Some c' \<Rightarrow> c' | None \<Rightarrow> c)"

lemma md5_blocks_eq:
  assumes "md5_fits buf" "i \<le> length buf"
  shows "\<exists>j \<le> length buf. md5_blocks buf i st = Some (j, foldl md5_transform st (blocks64 (drop i buf))) \<and>
    drop j buf = tail64 (drop i buf)"
  using assms(2)
proof (induction "length buf - i" arbitrary: i st rule: less_induct)
  case less
  have small: "(i + 63) mod 2 ^ 32 = i + 63" using assms(1) less.prems by (simp add: md5_fits_def)
  show ?case
  proof (cases "i + 63 < length buf")
    case True
    then have "(i + 64) mod 2 ^ 32 = i + 64" using assms(1) by (simp add: md5_fits_def)
    then have u: "md5_blocks buf i st = md5_blocks buf (i + 64) (md5_transform st (take 64 (drop i buf)))"
      using small True by (subst md5_blocks.simps) simp
    have b: "drop i buf = take 64 (drop i buf) @ drop (i + 64) buf"
      by (metis add.commute append_take_drop_id drop_drop)
    have l: "length (take 64 (drop i buf)) = 64" using True by simp
    have b2: "blocks64 (drop i buf) = take 64 (drop i buf) # blocks64 (drop (i + 64) buf)"
        "tail64 (drop i buf) = tail64 (drop (i + 64) buf)"
      using blocks64_step[OF l, of "drop (i + 64) buf"] b by simp_all
    show ?thesis using less.hyps[of "i + 64" "md5_transform st (take 64 (drop i buf))"] True u b2 by simp
  next
    case False
    then have "md5_blocks buf i st = Some (i, st)" using small by (subst md5_blocks.simps) simp
    moreover have "length (drop i buf) < 64" using False by simp
    ultimately show ?thesis using less.prems by auto
  qed
qed

lemma md5_count_simps [simp]:
  "m_state (md5_count n c) = m_state c" "m_buffer (md5_count n c) = m_buffer c"
  by (simp_all add: md5_count_def Let_def)

lemma count64_parts [simp]:
  "count64 (c\<lparr>m_state := st\<rparr>) = count64 c" "count64 (c\<lparr>m_buffer := b\<rparr>) = count64 c"
  by (simp_all add: count64_def)

lemma md5_index_less [simp]: "md5_index c < 64"
  by (simp add: md5_index_eq)

lemma index_update:
  assumes "n < 2 ^ 32" "count64 c' = count64 (md5_count n c)"
  shows "md5_index c' = (md5_index c + n) mod 64"
proof -
  have "count64 c' div 8 = (count64 c + 8 * n) mod 2 ^ 64 div 8" using assms count64_update by simp
  also have "\<dots> = (count64 c + 8 * n) div 8 mod 2 ^ 61"
    using div_exp_mod_exp_eq[of "count64 c + 8 * n" 3 61] by simp
  also have "\<dots> = (count64 c div 8 + n) mod 2 ^ 61" by (simp add: add.commute)
  finally have "md5_index c' = (count64 c div 8 + n) mod 2 ^ 61 mod 64" by (simp only: md5_index_eq)
  also have "\<dots> = (count64 c div 8 + n) mod 64" by (rule mod_mod_cancel) simp
  finally show ?thesis by (simp add: md5_index_eq mod_add_left_eq)
qed

lemma md5_update_total:
  assumes "md5_wf c" "md5_fits xs"
  shows "\<exists>c'. md5_update xs c = Some c' \<and> md5_wf c' \<and>
    m_state c' = foldl md5_transform (m_state c) (blocks64 (md5_pending c @ xs)) \<and>
    md5_pending c' = tail64 (md5_pending c @ xs) \<and> count64 c' = count64 (md5_count (length xs) c)"
proof -
  let ?i = "md5_index c" and ?n = "length xs" and ?p = "md5_pending c"
  have lp: "length ?p = ?i" 
    using assms(1) less_imp_le[OF md5_index_less[of c]] by (simp add: md5_pending_def md5_wf_def)
  have n32: "?n < 2 ^ 32" using assms(2) by (simp add: md5_fits_def)
  have pend: "md5_pending c' = take ((?i + ?n) mod 64) (m_buffer c')" if "count64 c' = count64 (md5_count ?n c)" for c'
    using index_update[OF n32 that] by (simp add: md5_pending_def)
  show ?thesis
  proof (cases "64 - ?i \<le> ?n")
    case True
    let ?b = "?p @ take (64 - ?i) xs" and ?st = "m_state c"
    have lb: "length ?b = 64" using lp True by (simp add: less_imp_le)
    obtain j where j: "j \<le> ?n" "md5_blocks xs (64 - ?i) (md5_transform ?st ?b) =
        Some (j, foldl md5_transform (md5_transform ?st ?b) (blocks64 (drop (64 - ?i) xs)))"
        "drop j xs = tail64 (drop (64 - ?i) xs)"
      using md5_blocks_eq[OF assms(2) True] by blast
    have split: "?p @ xs = ?b @ drop (64 - ?i) xs" by simp
    have bl: "blocks64 (?p @ xs) = ?b # blocks64 (drop (64 - ?i) xs)" "tail64 (?p @ xs) = drop j xs"
      unfolding split by (rule blocks64_step(1)[OF lb]) (simp only: blocks64_step(2)[OF lb] j(3))
    have lt: "length (drop j xs) = (?i + ?n) mod 64" using length_tail_of[of 64 "?p @ xs"] bl(2) lp by simp
    have "?n - j < 64" using lt by (metis length_drop mod_less_divisor zero_less_numeral)
    then have len: "length (drop j xs @ drop (?n - j) ?b) = 64"
      using lb unfolding length_append[of "drop j xs"] length_drop by linarith
    let ?new = "(md5_count ?n c)\<lparr>m_state := foldl md5_transform (md5_transform ?st ?b) (blocks64 (drop (64 - ?i) xs)),
        m_buffer := drop j xs @ drop (?n - j) ?b\<rparr>"
    have "md5_update xs c = Some ?new"
      using True j(2) by (simp add: md5_update_def Let_def md5_pending_def)
    moreover have "take ((?i + ?n) mod 64) (m_buffer ?new) = drop j xs" unfolding lt[symmetric] by simp
    then have "md5_pending ?new = drop j xs" by (subst pend) simp_all
    ultimately show ?thesis using len bl by (simp add: md5_wf_def)
  next
    case False
    let ?b = "?p @ xs @ drop (?i + ?n) (m_buffer c)"
    let ?new = "(md5_count ?n c)\<lparr>m_buffer := ?b\<rparr>"
    have s: "length (?p @ xs) < 64" "(?i + ?n) mod 64 = ?i + ?n" using False lp by simp_all
    have "md5_update xs c = Some ?new" using False by (simp add: md5_update_def Let_def md5_pending_def)
    moreover have "length ?b = 64" using False assms(1) lp by (simp add: md5_wf_def)
    moreover have "md5_pending ?new = ?p @ xs" using pend[of ?new] s lp by simp
    ultimately show ?thesis using s by (simp add: md5_wf_def)
  qed
qed

lemma md5_update_absorb:
  assumes "md5_wf c" "md5_fits xs"
  shows "md5_update xs c = Some (md5_absorb xs c)"
  using md5_update_total[OF assms] by (auto simp: md5_absorb_def)

lemma md5_absorb_law:
  assumes "md5_wf c" "md5_fits xs"
  shows "md5_wf (md5_absorb xs c) \<and>
    m_state (md5_absorb xs c) = foldl md5_transform (m_state c) (blocks64 (md5_pending c @ xs)) \<and>
    md5_pending (md5_absorb xs c) = tail64 (md5_pending c @ xs) \<and>
    count64 (md5_absorb xs c) = (count64 c + 8 * length xs) mod 2 ^ 64"
proof -
  have "length xs < 2 ^ 32" using assms(2) by (simp add: md5_fits_def)
  then show ?thesis using md5_update_total[OF assms] md5_update_absorb[OF assms] count64_update by auto
qed

interpretation mh: stream_hash 64 md5_absorb m_state md5_pending md5_transform md5_wf md5_fits
proof unfold_locales
  fix c xs
  show "md5_wf c \<Longrightarrow> md5_fits xs \<Longrightarrow> md5_wf (md5_absorb xs c) \<and>
      m_state (md5_absorb xs c) = foldl md5_transform (m_state c) (blocks64 (md5_pending c @ xs)) \<and>
      md5_pending (md5_absorb xs c) = tail64 (md5_pending c @ xs)"
    using md5_absorb_law by blast
  show "md5_wf c \<Longrightarrow> length (md5_pending c) < 64"
    by (simp add: md5_pending_def md5_wf_def)
qed simp

section \<open>Padding\<close>

primrec md5_updates :: "u8 list list \<Rightarrow> md5_ctx \<Rightarrow> md5_ctx option" where
  "md5_updates [] c = Some c"
| "md5_updates (xs # css) c = Option.bind (md5_update xs c) (md5_updates css)"

lemma md5_updates_absorb:
  assumes "md5_wf c" "\<forall>xs \<in> set css. md5_fits xs"
  shows "md5_updates css c = Some (fold md5_absorb css c) \<and>
    count64 (fold md5_absorb css c) mod 2 ^ 64 = (count64 c + 8 * length (concat css)) mod 2 ^ 64"
  using assms
proof (induction css arbitrary: c)
  case (Cons xs css)
  have f: "md5_fits xs" "\<forall>xs \<in> set css. md5_fits xs" using Cons.prems by simp_all
  note law = md5_absorb_law[OF Cons.prems(1) f(1)]
  have "(count64 (md5_absorb xs c) + 8 * length (concat css)) mod 2 ^ 64 =
      (count64 c + 8 * length (concat (xs # css))) mod 2 ^ 64"
    using law mod_add_left_eq[of "count64 c + 8 * length xs" "2 ^ 64" "8 * length (concat css)"]
    by (simp add: algebra_simps)
  then show ?case using Cons.IH[of "md5_absorb xs c"] law f md5_update_absorb[OF Cons.prems(1) f(1)] by simp
qed simp

lemma count_words:
  assumes "count64 c mod 2 ^ 64 = n mod 2 ^ 64"
  shows "m_count0 c = of_nat n" "m_count1 c = of_nat (n div 2 ^ 32)"
proof -
  have l: "unat (m_count0 c) < 2 ^ 32" "unat (m_count1 c) < 2 ^ 32"
    using unsigned_less[of "m_count0 c"] unsigned_less[of "m_count1 c"] by simp_all
  have "count64 c < 2 ^ 64" using l by (simp add: count64_def)
  then have n: "count64 c = n mod 2 ^ 64" using assms by simp
  have "unat (m_count0 c) = count64 c mod 2 ^ 32" using l by (simp add: count64_def)
  then have "unat (m_count0 c) = n mod 2 ^ 64 mod 2 ^ 32" using n by simp
  also have "\<dots> = n mod 2 ^ 32" by (rule mod_mod_cancel) simp
  finally have "unat (m_count0 c) = unat (of_nat n :: u32)" by (simp add: unat_of_nat take_bit_eq_mod)
  then show "m_count0 c = of_nat n" by (simp only: unsigned_word_eqI)
  have "unat (m_count1 c) = count64 c div 2 ^ 32" using l by (simp add: count64_def)
  then have "unat (m_count1 c) = n mod 2 ^ 64 div 2 ^ 32" using n by simp
  also have "\<dots> = n div 2 ^ 32 mod 2 ^ 32" using div_exp_mod_exp_eq[of n 32 32] by simp
  finally have "unat (m_count1 c) = unat (of_nat (n div 2 ^ 32) :: u32)" by (simp add: unat_of_nat take_bit_eq_mod)
  then show "m_count1 c = of_nat (n div 2 ^ 32)" by (simp only: unsigned_word_eqI)
qed

lemma padding_bytes:
  assumes "i < 64"
  shows "take (if i < 56 then 56 - i else 120 - i) (0x80 # replicate 63 (0::u8)) =
    [0x80] @ replicate ((119 - i) mod 64) 0"
proof (cases "i < 56")
  case True
  then have "(119 - i) mod 64 = 55 - i" "56 - i = Suc (55 - i)" by (simp_all add: mod_if)
  then show ?thesis using True by (simp add: take_Cons')
next
  case False
  then have "(119 - i) mod 64 = 119 - i" "120 - i = Suc (119 - i)" using assms by simp_all
  then show ?thesis using False by (simp add: take_Cons')
qed

lemma md5_stream_reference:
  assumes "length (m_buffer c) = 64" "\<forall>xs \<in> set css. md5_fits xs"
  shows "\<exists>c'. Option.bind (md5_updates css (md5_init c)) md5_final = Some (md5_reference (concat css), c')"
proof -
  let ?init = "md5_init c" and ?m = "concat css"
  let ?k = "fold md5_absorb css ?init"
  have w0: "md5_wf ?init" "count64 ?init = 0" "m_state ?init = md5_iv"
    using assms(1) by (simp_all add: md5_wf_def md5_init_def count64_def)
  then have p0: "md5_pending ?init = []" by (simp add: md5_pending_def md5_index_eq)
  have k: "md5_wf ?k" "m_state ?k = foldl md5_transform md5_iv (blocks64 ?m)" "md5_pending ?k = tail64 ?m"
    using mh.absorb_all[OF w0(1) assms(2)] w0(3) p0 by auto
  have run: "md5_updates css ?init = Some ?k" "count64 ?k mod 2 ^ 64 = 8 * length ?m mod 2 ^ 64"
    using md5_updates_absorb[OF w0(1) assms(2)] w0(2) by auto
  have "length (md5_pending ?k) = md5_index ?k"
    using k(1) less_imp_le[OF md5_index_less[of ?k]] by (simp add: md5_pending_def md5_wf_def)
  then have ix: "md5_index ?k = length ?m mod 64" using k(3) length_tail_of[of 64 ?m] by metis
  let ?pad = "[0x80] @ replicate ((119 - length ?m mod 64) mod 64) (0::u8)"
  let ?bits = "le32 (of_nat (8 * length ?m)) @ le32 (of_nat (8 * length ?m div 2 ^ 32))"
  have "(119 - length ?m mod 64) mod 64 < (64::nat)" by simp
  then have "length ?pad \<le> 64" by (simp only: length_append length_replicate list.size)
  moreover have "length ?bits = 8" by (simp add: le32_def)
  ultimately have fits: "md5_fits ?pad" "md5_fits ?bits" by (simp_all add: md5_fits_def)
  let ?fin = "md5_absorb ?bits (md5_absorb ?pad ?k)"
  have "md5_wf (md5_absorb ?pad ?k)" using md5_absorb_law[OF k(1) fits(1)] by blast
  then have upd: "md5_update ?pad ?k = Some (md5_absorb ?pad ?k)" "md5_update ?bits (md5_absorb ?pad ?k) = Some ?fin"
    using md5_update_absorb k(1) fits by blast+
  have "m_state ?fin = foldl md5_transform (m_state ?k) (blocks64 (md5_pending ?k @ concat [?pad, ?bits]))"
    using mh.absorb_all[OF k(1), of "[?pad, ?bits]"] fits by simp
  also have "\<dots> = foldl md5_transform md5_iv (blocks64 (?m @ ?pad @ ?bits))"
    using blocks64_append(1)[of ?m "?pad @ ?bits"] k(2,3) by simp
  finally have st: "concat (map le32 (take 4 (m_state ?fin))) = md5_reference ?m"
    by (simp add: md5_reference_def md5_pad_def)
  have i64: "length ?m mod 64 < 64" by simp
  have "md5_final ?k = Some (md5_reference ?m, ?fin)"
    unfolding md5_final_def Let_def ix padding_bytes[OF i64] count_words[OF run(2)] by (simp only: upd option.case st)
  then show ?thesis using run(1) by simp
qed

section \<open>Properties\<close>

text \<open>However a message is split over \<open>md5_update\<close> calls, provided no single call is within 64 bytes
  of 4 GiB, every call returns and \<open>md5_final\<close> yields the digest of RFC 1321: the padded message
  with its 64-bit bit count, compressed block by block.\<close>

theorem md5_streaming:
  assumes "length (m_buffer c) = 64" "\<forall>xs \<in> set css. length xs \<le> 2 ^ 32 - 64"
  shows "\<exists>c'. Option.bind (md5_updates css (md5_init c)) md5_final = Some (md5_reference (concat css), c')"
  using md5_stream_reference[OF assms(1)] assms(2) by (simp add: md5_fits_def)

theorem md5_streaming_witness:
  "\<exists>c'. Option.bind (md5_updates [[97], [98, 99]] (md5_init \<lparr>m_state = [], m_count0 = 0, m_count1 = 0, m_buffer = replicate 64 0\<rparr>))
     md5_final = Some (md5_reference [97, 98, 99], c')"
  using md5_streaming[of "\<lparr>m_state = [], m_count0 = 0, m_count1 = 0, m_buffer = replicate 64 0\<rparr>" "[[97], [98, 99]]"]
  by simp

end
