(* ===== verification/ChaCha20.thy ===== *)
theory ChaCha20
  imports Prelude
begin

unbundle bit_operations_syntax

text \<open>
  The stream cipher half of \<open>crypto/chacha20poly1305.c\<close>: the quarter round, the block function, and
  \<open>chacha20_xor\<close>, whose loop is shown to be the exclusive or with a key stream.
\<close>

section \<open>The code\<close>

definition rotl32 :: "u32 \<Rightarrow> nat \<Rightarrow> u32" where
  "rotl32 x n = push_bit n x OR drop_bit (32 - n) x"

definition load32_le :: "u8 list \<Rightarrow> u32" where
  "load32_le p = ucast (p ! 0) OR push_bit 8 (ucast (p ! 1)) OR
     push_bit 16 (ucast (p ! 2)) OR push_bit 24 (ucast (p ! 3))"

definition store32_le :: "u32 \<Rightarrow> u8 list" where
  "store32_le v = [ucast v, ucast (drop_bit 8 v), ucast (drop_bit 16 v), ucast (drop_bit 24 v)]"

definition QR :: "nat \<Rightarrow> nat \<Rightarrow> nat \<Rightarrow> nat \<Rightarrow> u32 list \<Rightarrow> u32 list" where
  "QR ja jb jc jd x =
     (let a = x ! ja; b = x ! jb; c = x ! jc; d = x ! jd;
          a = a + b; d = d XOR a; d = rotl32 d 16;
          c = c + d; b = b XOR c; b = rotl32 b 12;
          a = a + b; d = d XOR a; d = rotl32 d 8;
          c = c + d; b = b XOR c; b = rotl32 b 7
      in x[ja := a, jb := b, jc := c, jd := d])"

definition double_round :: "u32 list \<Rightarrow> u32 list" where
  "double_round x =
     (let x = QR 0 4 8 12 x;
          x = QR 1 5 9 13 x;
          x = QR 2 6 10 14 x;
          x = QR 3 7 11 15 x;
          x = QR 0 5 10 15 x;
          x = QR 1 6 11 12 x;
          x = QR 2 7 8 13 x
      in QR 3 4 9 14 x)"

definition chacha20_block :: "u32 list \<Rightarrow> u8 list" where
  "chacha20_block inp =
     (let x = (double_round ^^ 10) inp
      in concat (map (\<lambda>i. store32_le (x ! i + inp ! i)) [0 ..< 16]))"

definition chacha20_init :: "u8 list \<Rightarrow> u32 \<Rightarrow> u8 list \<Rightarrow> u32 list" where
  "chacha20_init key counter nonce =
     [0x61707865, 0x3320646e, 0x79622d32, 0x6b206574] @
     map (\<lambda>i. load32_le (drop (4 * i) key)) [0 ..< 8] @
     [counter, load32_le (drop 0 nonce), load32_le (drop 4 nonce), load32_le (drop 8 nonce)]"

text \<open>The loop of \<open>chacha20_xor\<close>, on the bytes of \<open>src\<close> from \<open>off\<close> on; it returns what is written to
  \<open>dst\<close> from there. Each byte is read before it is written, so \<open>dst\<close> may be \<open>src\<close>.\<close>

function chacha20_loop :: "u32 list \<Rightarrow> u8 list \<Rightarrow> u8 list" where
  "chacha20_loop state src =
     (if 0 < length src then
        (let block = chacha20_block state;
             state = state[12 := state ! 12 + 1];
             n = (if length src < 64 then length src else 64)
         in map (\<lambda>i. src ! i XOR block ! i) [0 ..< n] @ chacha20_loop state (drop n src))
      else [])"
  by pat_completeness auto
termination
  by (relation "measure (\<lambda>(state, src). length src)") auto

declare chacha20_loop.simps [simp del]

definition chacha20_xor :: "u8 list \<Rightarrow> u8 list \<Rightarrow> u32 \<Rightarrow> u8 list \<Rightarrow> u8 list" where
  "chacha20_xor src key counter nonce = chacha20_loop (chacha20_init key counter nonce) src"

section \<open>The key stream\<close>

text \<open>Block \<open>k\<close> of the stream is the block function at the initial counter plus \<open>k\<close>, modulo 2 to the 32.\<close>

definition keystream :: "u8 list \<Rightarrow> u32 \<Rightarrow> u8 list \<Rightarrow> nat \<Rightarrow> u8" where
  "keystream key counter nonce i =
     chacha20_block (chacha20_init key (counter + of_nat (i div 64)) nonce) ! (i mod 64)"

lemma chacha20_init_counter:
  "(chacha20_init key counter nonce)[12 := counter'] = chacha20_init key counter' nonce"
  "chacha20_init key counter nonce ! 12 = counter"
  by (simp_all add: chacha20_init_def list_update_append nth_append)

lemma chacha20_loop_nth:
  "length (chacha20_loop (chacha20_init key counter nonce) src) = length src \<and>
   (\<forall>i < length src. chacha20_loop (chacha20_init key counter nonce) src ! i = src ! i XOR keystream key counter nonce i)"
proof (induction "length src" arbitrary: src counter rule: less_induct)
  case less
  let ?init = "chacha20_init key counter nonce"
  define n where "n = min (length src) 64"
  show ?case
  proof (cases "src = []")
    case False
    then have n: "0 < n" "n \<le> 64" "n \<le> length src" by (auto simp: n_def)
    let ?rest = "chacha20_loop (chacha20_init key (counter + 1) nonce) (drop n src)"
    have "chacha20_loop ?init src = map (\<lambda>i. src ! i XOR chacha20_block ?init ! i) [0 ..< n] @ ?rest"
      using False by (subst chacha20_loop.simps) (simp add: chacha20_init_counter Let_def n_def min_def)
    moreover have IH: "length ?rest = length src - n"
        "\<And>i. i < length src - n \<Longrightarrow> ?rest ! i = drop n src ! i XOR keystream key (counter + 1) nonce i"
      using less[of "drop n src" "counter + 1"] n by simp_all
    moreover have "src ! i XOR chacha20_block ?init ! i = src ! i XOR keystream key counter nonce i" if "i < n" for i
      using that n by (simp add: keystream_def)
    moreover have "keystream key (counter + 1) nonce (i - n) = keystream key counter nonce i"
      if "\<not> i < n" "i < length src" for i
    proof -
      have "n = 64" using that by (simp add: n_def)
      then have "i div 64 = Suc ((i - n) div 64)" "(i - n) mod 64 = i mod 64"
        using that by (simp_all add: le_div_geq le_mod_geq)
      then show ?thesis by (simp add: keystream_def add.assoc)
    qed
    ultimately show ?thesis using n by (auto simp: nth_append)
  qed (simp add: chacha20_loop.simps)
qed

lemma length_chacha20_xor [simp]: "length (chacha20_xor src key counter nonce) = length src"
  using chacha20_loop_nth by (simp add: chacha20_xor_def)

lemma chacha20_xor_nth:
  "i < length src \<Longrightarrow> chacha20_xor src key counter nonce ! i = src ! i XOR keystream key counter nonce i"
  using chacha20_loop_nth by (simp add: chacha20_xor_def)

lemma chacha20_xor_twice:
  "chacha20_xor (chacha20_xor src key counter nonce) key counter nonce = src"
  by (rule nth_equalityI) (simp_all add: chacha20_xor_nth xor.assoc)

lemma length_chacha20_block [simp]: "length (chacha20_block inp) = 64"
  by (simp add: chacha20_block_def store32_le_def length_concat Let_def comp_def sum_list_triv)

end
