(* ===== verification/Poly1305.thy ===== *)
theory Poly1305
  imports ChaCha20 BlockHash ByteQueue
begin

unbundle bit_operations_syntax

text \<open>
  The authenticator half of \<open>crypto/chacha20poly1305.c\<close>: Poly1305 in five 26-bit limbs held in 32-bit
  words with 64-bit products. The theory shows that no intermediate product or carry overflows and that
  the tag is the one of RFC 8439: the message polynomial evaluated at the clamped key modulo
  \<open>2\<^sup>130 - 5\<close>, plus the pad modulo \<open>2\<^sup>128\<close>.
\<close>

section \<open>The code\<close>

type_synonym limbs = "u32 \<times> u32 \<times> u32 \<times> u32 \<times> u32"

record poly1305_ctx =
  p_r :: limbs
  p_h :: limbs
  p_pad :: "u32 list"
  p_leftover :: nat
  p_buffer :: "u8 list"
  p_final :: u8

definition poly1305_init :: "u8 list \<Rightarrow> poly1305_ctx \<Rightarrow> poly1305_ctx" where
  "poly1305_init key st = st\<lparr>
     p_r := (load32_le (drop 0 key) AND 0x3ffffff,
             drop_bit 2 (load32_le (drop 3 key)) AND 0x3ffff03,
             drop_bit 4 (load32_le (drop 6 key)) AND 0x3ffc0ff,
             drop_bit 6 (load32_le (drop 9 key)) AND 0x3f03fff,
             drop_bit 8 (load32_le (drop 12 key)) AND 0x00fffff),
     p_h := (0, 0, 0, 0, 0),
     p_pad := [load32_le (drop 16 key), load32_le (drop 20 key), load32_le (drop 24 key), load32_le (drop 28 key)],
     p_leftover := 0,
     p_final := 0\<rparr>"

definition prod :: "u32 \<Rightarrow> u32 \<Rightarrow> u64" where
  "prod a b = ucast a * ucast b"

text \<open>The three stages of one turn of the loop of \<open>poly1305_blocks\<close>: add the block, multiply by \<open>r\<close>,
  propagate the carries.\<close>

fun add_block :: "u32 \<Rightarrow> limbs \<Rightarrow> u8 list \<Rightarrow> limbs" where
  "add_block hibit (h0, h1, h2, h3, h4) m =
     (h0 + (load32_le (drop 0 m) AND 0x3ffffff),
      h1 + (drop_bit 2 (load32_le (drop 3 m)) AND 0x3ffffff),
      h2 + (drop_bit 4 (load32_le (drop 6 m)) AND 0x3ffffff),
      h3 + (drop_bit 6 (load32_le (drop 9 m)) AND 0x3ffffff),
      h4 + (drop_bit 8 (load32_le (drop 12 m)) OR hibit))"

fun mul_limbs :: "limbs \<Rightarrow> limbs \<Rightarrow> u64 \<times> u64 \<times> u64 \<times> u64 \<times> u64" where
  "mul_limbs (r0, r1, r2, r3, r4) (h0, h1, h2, h3, h4) =
     (let s1 = r1 * 5; s2 = r2 * 5; s3 = r3 * 5; s4 = r4 * 5
      in (prod h0 r0 + prod h1 s4 + prod h2 s3 + prod h3 s2 + prod h4 s1,
          prod h0 r1 + prod h1 r0 + prod h2 s4 + prod h3 s3 + prod h4 s2,
          prod h0 r2 + prod h1 r1 + prod h2 r0 + prod h3 s4 + prod h4 s3,
          prod h0 r3 + prod h1 r2 + prod h2 r1 + prod h3 r0 + prod h4 s4,
          prod h0 r4 + prod h1 r3 + prod h2 r2 + prod h3 r1 + prod h4 r0))"

definition carry_limbs :: "u64 \<times> u64 \<times> u64 \<times> u64 \<times> u64 \<Rightarrow> limbs" where
  "carry_limbs h = (case h of (d0, d1, d2, d3, d4) \<Rightarrow>
     (let c = ucast (drop_bit 26 d0) :: u32; h0 = ucast d0 AND 0x3ffffff;
          d1 = d1 + ucast c; c = ucast (drop_bit 26 d1) :: u32; h1 = ucast d1 AND 0x3ffffff;
          d2 = d2 + ucast c; c = ucast (drop_bit 26 d2) :: u32; h2 = ucast d2 AND 0x3ffffff;
          d3 = d3 + ucast c; c = ucast (drop_bit 26 d3) :: u32; h3 = ucast d3 AND 0x3ffffff;
          d4 = d4 + ucast c; c = ucast (drop_bit 26 d4) :: u32; h4 = ucast d4 AND 0x3ffffff;
          h0 = h0 + c * 5; c = drop_bit 26 h0; h0 = h0 AND 0x3ffffff;
          h1 = h1 + c
      in (h0, h1, h2, h3, h4)))"

definition poly_step :: "limbs \<Rightarrow> u32 \<Rightarrow> limbs \<Rightarrow> u8 list \<Rightarrow> limbs" where
  "poly_step r hibit h m = carry_limbs (mul_limbs r (add_block hibit h m))"

function poly_loop :: "limbs \<Rightarrow> u32 \<Rightarrow> limbs \<Rightarrow> u8 list \<Rightarrow> limbs" where
  "poly_loop r hibit h m =
     (if 16 \<le> length m then poly_loop r hibit (poly_step r hibit h m) (drop 16 m) else h)"
  by pat_completeness auto
termination
  by (relation "measure (\<lambda>(r, hibit, h, m). length m)") auto

declare poly_loop.simps [simp del]

definition poly1305_blocks :: "u8 list \<Rightarrow> poly1305_ctx \<Rightarrow> poly1305_ctx" where
  "poly1305_blocks m st =
     (let hibit = (if p_final st \<noteq> 0 then 0 else 0x1000000)
      in st\<lparr>p_h := poly_loop (p_r st) hibit (p_h st) m\<rparr>)"

definition poly1305_rest :: "u8 list \<Rightarrow> poly1305_ctx \<Rightarrow> poly1305_ctx" where
  "poly1305_rest m st =
     (let want = 16 * (length m div 16);
          st = (if 16 \<le> length m then poly1305_blocks (take want m) st else st);
          m = (if 16 \<le> length m then drop want m else m)
      in st\<lparr>p_buffer := memcpy_at (p_buffer st) (p_leftover st) m (length m),
            p_leftover := p_leftover st + length m\<rparr>)"

definition poly1305_update :: "u8 list \<Rightarrow> poly1305_ctx \<Rightarrow> poly1305_ctx" where
  "poly1305_update m st =
     (if p_leftover st \<noteq> 0 then
        (let want = min (16 - p_leftover st) (length m);
             st = st\<lparr>p_buffer := memcpy_at (p_buffer st) (p_leftover st) m want,
                     p_leftover := p_leftover st + want\<rparr>
         in if p_leftover st < 16 then st
            else poly1305_rest (drop want m) ((poly1305_blocks (p_buffer st) st)\<lparr>p_leftover := 0\<rparr>))
      else poly1305_rest m st)"

text \<open>The stages of \<open>poly1305_finish\<close>: the last carries, the conditional subtraction of the modulus, the
  packing into four words, and the addition of the pad.\<close>

definition full_carry :: "limbs \<Rightarrow> limbs" where
  "full_carry h = (case h of (h0, h1, h2, h3, h4) \<Rightarrow>
     (let c = drop_bit 26 h1; h1 = h1 AND 0x3ffffff;
          h2 = h2 + c; c = drop_bit 26 h2; h2 = h2 AND 0x3ffffff;
          h3 = h3 + c; c = drop_bit 26 h3; h3 = h3 AND 0x3ffffff;
          h4 = h4 + c; c = drop_bit 26 h4; h4 = h4 AND 0x3ffffff;
          h0 = h0 + c * 5; c = drop_bit 26 h0; h0 = h0 AND 0x3ffffff;
          h1 = h1 + c
      in (h0, h1, h2, h3, h4)))"

definition select_reduced :: "limbs \<Rightarrow> limbs" where
  "select_reduced h = (case h of (h0, h1, h2, h3, h4) \<Rightarrow>
     (let g0 = h0 + 5; c = drop_bit 26 g0; g0 = g0 AND 0x3ffffff;
          g1 = h1 + c; c = drop_bit 26 g1; g1 = g1 AND 0x3ffffff;
          g2 = h2 + c; c = drop_bit 26 g2; g2 = g2 AND 0x3ffffff;
          g3 = h3 + c; c = drop_bit 26 g3; g3 = g3 AND 0x3ffffff;
          g4 = h4 + c - 0x4000000;
          msk = drop_bit 31 g4 - 1;
          g0 = g0 AND msk; g1 = g1 AND msk; g2 = g2 AND msk; g3 = g3 AND msk; g4 = g4 AND msk;
          msk = NOT msk
      in ((h0 AND msk) OR g0, (h1 AND msk) OR g1, (h2 AND msk) OR g2, (h3 AND msk) OR g3, (h4 AND msk) OR g4)))"

fun pack_limbs :: "limbs \<Rightarrow> u32 list" where
  "pack_limbs (h0, h1, h2, h3, h4) =
     [h0 OR push_bit 26 h1,
      drop_bit 6 h1 OR push_bit 20 h2,
      drop_bit 12 h2 OR push_bit 14 h3,
      drop_bit 18 h3 OR push_bit 8 h4]"

definition add_pad :: "u32 list \<Rightarrow> u32 list \<Rightarrow> u32 list" where
  "add_pad h pad =
     (let f0 = (ucast (h ! 0) :: u64) + ucast (pad ! 0);
          f1 = ucast (h ! 1) + ucast (pad ! 1) + drop_bit 32 f0;
          f2 = ucast (h ! 2) + ucast (pad ! 2) + drop_bit 32 f1;
          f3 = ucast (h ! 3) + ucast (pad ! 3) + drop_bit 32 f2
      in [ucast f0, ucast f1, ucast f2, ucast f3])"

definition poly1305_finish :: "poly1305_ctx \<Rightarrow> u8 list" where
  "poly1305_finish st =
     (let st = (if p_leftover st \<noteq> 0
                then (let i = p_leftover st;
                          b = take i (p_buffer st) @ [1] @ replicate (15 - i) 0
                      in poly1305_blocks b (st\<lparr>p_buffer := b, p_final := 1\<rparr>))
                else st);
          h = pack_limbs (select_reduced (full_carry (p_h st)))
      in concat (map store32_le (add_pad h (p_pad st))))"

section \<open>Little-endian numbers\<close>

primrec le_num :: "u8 list \<Rightarrow> nat" where
  "le_num [] = 0"
| "le_num (b # bs) = unat b + 256 * le_num bs"

primrec le_bytes :: "nat \<Rightarrow> nat \<Rightarrow> u8 list" where
  "le_bytes 0 v = []"
| "le_bytes (Suc n) v = of_nat v # le_bytes n (v div 256)"

lemma unat_u8_less: "unat (b :: u8) < 256"
  using unsigned_less[of b] by simp

lemma le_num_less: "le_num xs < 256 ^ length xs"
proof (induction xs)
  case (Cons b xs)
  then show ?case using unat_u8_less[of b] by simp
qed simp

lemma le_num_append: "le_num (xs @ ys) = le_num xs + 256 ^ length xs * le_num ys"
  by (induction xs) (simp_all add: algebra_simps)

lemma le_num_zeros [simp]: "le_num (replicate n 0) = 0"
  by (induction n) simp_all

lemma le_num_drop: "le_num (drop k xs) = le_num xs div 256 ^ k"
proof (cases "k \<le> length xs")
  case True
  have "le_num xs = le_num (take k xs) + 256 ^ k * le_num (drop k xs)"
    using le_num_append[of "take k xs" "drop k xs"] True by simp
  moreover have "le_num (take k xs) < 256 ^ k" using le_num_less[of "take k xs"] True by simp
  ultimately show ?thesis by simp
next
  case False
  then have "le_num xs < 256 ^ k"
    using less_le_trans[OF le_num_less[of xs] power_increasing[of "length xs" k "256::nat"]] by simp
  then show ?thesis using False by simp
qed

lemma le_num_take: "k \<le> length xs \<Longrightarrow> le_num (take k xs) = le_num xs mod 256 ^ k"
  using le_num_append[of "take k xs" "drop k xs"] le_num_less[of "take k xs"] by simp

lemma or_shift_add:
  fixes a b :: nat
  assumes "a < 2 ^ n"
  shows "a OR push_bit n b = a + 2 ^ n * b"
proof -
  have "take_bit n a = a" using assms by (rule take_bit_nat_eq_self)
  then have "bit a i \<Longrightarrow> i < n" for i by (metis bit_take_bit_iff)
  then have "a AND push_bit n b = 0"
    by (intro bit_eqI) (fastforce simp: bit_and_iff bit_push_bit_iff_nat)
  then have "a + push_bit n b = a OR push_bit n b" by (rule disjunctive_add_eq_or)
  then show ?thesis by (simp add: push_bit_eq_mult mult.commute)
qed

lemma unat_u32_less: "unat (w :: u32) < 2 ^ 32"
  using unsigned_less[of w] by simp

lemma unat_ucast_u8: "unat (ucast (b :: u8) :: u32) = unat b"
  using unat_u8_less[of b] by (simp add: unsigned_ucast_eq take_bit_eq_mod)

lemma load32_le_num:
  assumes "4 \<le> length p"
  shows "unat (load32_le p) = le_num p mod 2 ^ 32"
proof -
  obtain a b c d rest where p: "p = a # b # c # d # rest"
    using assms by (auto simp: numeral_eq_Suc Suc_le_length_iff)
  have l: "unat a < 2 ^ 8" "unat b < 2 ^ 8" "unat c < 2 ^ 8" "unat d < 2 ^ 8" using unat_u8_less by simp_all
  have sh: "unat (push_bit k (ucast x :: u32)) = push_bit k (unat x)" if "k \<le> 24" for k and x :: u8
  proof -
    have "unat x * 2 ^ k < 2 ^ 8 * 2 ^ k" using unat_u8_less[of x] by simp
    also have "\<dots> \<le> 2 ^ 8 * 2 ^ 24" using power_increasing[OF that, of "2::nat"] by simp
    finally show ?thesis
      unfolding unsigned_push_bit_eq unat_ucast_u8 by (simp add: push_bit_eq_mult take_bit_eq_mod)
  qed
  have cd: "unat c + 2 ^ 8 * unat d < 2 ^ 16" using l by simp
  have bcd: "unat b + 2 ^ 8 * (unat c + 2 ^ 8 * unat d) < 2 ^ 24" using l by simp
  have "unat (load32_le p) = unat a OR push_bit 8 (unat b OR push_bit 8 (unat c OR push_bit 8 (unat d)))"
    unfolding load32_le_def p by (simp add: unsigned_or_eq sh unat_ucast_u8 push_bit_or or.assoc push_bit_push_bit)
  also have "\<dots> = unat a + 2 ^ 8 * (unat b + 2 ^ 8 * (unat c + 2 ^ 8 * unat d))"
    by (simp only: or_shift_add l)
  also have "\<dots> = le_num (take 4 p)" by (simp add: p)
  also have "\<dots> = le_num p mod 2 ^ 32" using le_num_take[OF assms] by simp
  finally show ?thesis .
qed

lemma store32_le_bytes: "store32_le v = le_bytes 4 (unat v)"
proof -
  have "ucast (drop_bit k v) = (of_nat (unat v div 2 ^ k) :: u8)" for k
    unfolding drop_bit_eq_div[symmetric] unat_drop_bit_eq[symmetric] by (rule of_nat_unat[symmetric])
  note this[of 0] this[of 8] this[of 16] this[of 24]
  moreover have "le_bytes 4 (unat v) = le_bytes (Suc (Suc (Suc (Suc 0)))) (unat v)" by (simp only: numeral_eq_Suc pred_numeral_simps BitM.simps)
  ultimately show ?thesis by (simp add: store32_le_def flip: div_mult2_eq)
qed

lemma le_bytes_append: "le_bytes (m + n) v = le_bytes m v @ le_bytes n (v div 256 ^ m)"
  by (induction m arbitrary: v) (simp_all add: div_mult2_eq)

lemma le_bytes_mod: "le_bytes n (v mod 256 ^ n) = le_bytes n v"
proof (induction n arbitrary: v)
  case (Suc n)
  have "v mod 256 ^ Suc n = 256 * (v div 256 mod 256 ^ n) + v mod 256"
    using mod_mult2_eq[of v 256 "256 ^ n"] by simp
  then have "v mod 256 ^ Suc n div 256 = v div 256 mod 256 ^ n" "v mod 256 ^ Suc n mod 256 = v mod 256"
    by simp_all
  moreover have "(of_nat (x mod 256) :: u8) = of_nat x" for x by (simp add: word_of_nat_eq_iff take_bit_eq_mod)
  ultimately show ?case using Suc by (metis le_bytes.simps(2))
qed simp

section \<open>Limbs\<close>

fun limb_val :: "limbs \<Rightarrow> nat" where
  "limb_val (h0, h1, h2, h3, h4) =
     unat h0 + 2 ^ 26 * unat h1 + 2 ^ 52 * unat h2 + 2 ^ 78 * unat h3 + 2 ^ 104 * unat h4"

fun limbs_below :: "nat \<Rightarrow> limbs \<Rightarrow> bool" where
  "limbs_below B (h0, h1, h2, h3, h4) =
     (unat h0 < B \<and> unat h1 < B \<and> unat h2 < B \<and> unat h3 < B \<and> unat h4 < B)"

fun h_ok :: "limbs \<Rightarrow> bool" where
  "h_ok (h0, h1, h2, h3, h4) =
     (unat h0 < 2 ^ 26 \<and> unat h1 < 2 ^ 26 + 64 \<and> unat h2 < 2 ^ 26 \<and> unat h3 < 2 ^ 26 \<and> unat h4 < 2 ^ 26)"

definition p1305 :: nat where
  "p1305 = 2 ^ 130 - 5"

lemma telescope26:
  fixes n :: nat
  assumes "n = 2 ^ 26 * x1 + r0" "x1 = 2 ^ 26 * x2 + r1" "x2 = 2 ^ 26 * x3 + r2" "x3 = 2 ^ 26 * x4 + r3"
  shows "n = r0 + 2 ^ 26 * r1 + 2 ^ 52 * r2 + 2 ^ 78 * r3 + 2 ^ 104 * x4"
  using assms by simp

lemma split26:
  fixes N :: nat
  shows "N = N mod 2 ^ 26 + 2 ^ 26 * (N div 2 ^ 26 mod 2 ^ 26) + 2 ^ 52 * (N div 2 ^ 52 mod 2 ^ 26)
    + 2 ^ 78 * (N div 2 ^ 78 mod 2 ^ 26) + 2 ^ 104 * (N div 2 ^ 104)"
proof -
  have d: "N div 2 ^ 52 = N div 2 ^ 26 div 2 ^ 26" "N div 2 ^ 78 = N div 2 ^ 52 div 2 ^ 26" "N div 2 ^ 104 = N div 2 ^ 78 div 2 ^ 26"
    by (simp_all add: div_mult2_eq[symmetric])
  show ?thesis by (rule telescope26[of _ "N div 2 ^ 26" _ "N div 2 ^ 52" _ "N div 2 ^ 78"]) (simp_all only: d mult_div_mod_eq)
qed

lemma unat_and26: "unat (w AND 0x3ffffff :: u32) = unat w mod 2 ^ 26"
proof -
  have "(0x3ffffff :: u32) = mask 26" by (simp add: mask_eq_exp_minus_1)
  then have "unat (w AND 0x3ffffff) = take_bit 26 (unat w)"
    by (simp only: take_bit_eq_mask[symmetric]) (simp add: unsigned_take_bit_eq)
  then show ?thesis by (simp add: take_bit_eq_mod)
qed

lemma load_at:
  assumes "k + 4 \<le> length m"
  shows "unat (drop_bit s (load32_le (drop k m))) = take_bit (32 - s) (drop_bit (8 * k + s) (le_num m))"
proof -
  have "unat (load32_le (drop k m)) = take_bit 32 (drop_bit (8 * k) (le_num m))"
    using load32_le_num[of "drop k m"] assms
    by (simp add: le_num_drop take_bit_eq_mod drop_bit_eq_div power_mult)
  then show ?thesis by (simp add: unat_drop_bit_eq drop_bit_take_bit drop_bit_drop_bit add.commute)
qed

lemma limb_at:
  assumes "k + 4 \<le> length m" "s \<le> 6" "n = 8 * k + s"
  shows "unat (drop_bit s (load32_le (drop k m)) AND 0x3ffffff) = le_num m div 2 ^ n mod 2 ^ 26"
proof -
  have "unat (drop_bit s (load32_le (drop k m)) AND 0x3ffffff) = take_bit 26 (take_bit (32 - s) (drop_bit n (le_num m)))"
    unfolding unat_and26 load_at[OF assms(1)] assms(3) by (simp add: take_bit_eq_mod)
  also have "\<dots> = take_bit 26 (drop_bit n (le_num m))" using assms(2) by simp
  finally show ?thesis by (simp add: take_bit_eq_mod drop_bit_eq_div)
qed

lemma unat_add_small: "unat (a :: 'a::len word) + unat b < 2 ^ LENGTH('a) \<Longrightarrow> unat (a + b) = unat a + unat b"
  by (simp add: unat_word_ariths)

lemma add_limb:
  assumes "unat (h :: u32) < 2 ^ 27" "unat x = v" "v < 2 ^ 27"
  shows "unat (h + x) = unat h + v"
  using assms by (subst unat_add_small) simp_all

lemma add_limb_mod:
  assumes "unat (h :: u32) < 2 ^ 26 + 64" "unat x = v mod 2 ^ 26"
  shows "unat (h + x) = unat h + v mod 2 ^ 26" "unat h + v mod 2 ^ 26 < 2 ^ 27 + 64"
proof -
  have v: "v mod 2 ^ 26 < 2 ^ 26" by simp
  show "unat h + v mod 2 ^ 26 < 2 ^ 27 + 64" using add_less_mono[OF assms(1) v] by simp
  have "unat h < 2 ^ 27" "v mod 2 ^ 26 < 2 ^ 27" using assms(1) less_trans[OF v, of "2 ^ 27"] by simp_all
  then show "unat (h + x) = unat h + v mod 2 ^ 26" using add_limb assms(2) by blast
qed

lemma sum_limbs:
  fixes a0 a1 a2 a3 a4 x0 x1 x2 x3 x4 y :: nat
  shows "(a0 + x0) + 2 ^ 26 * (a1 + x1) + 2 ^ 52 * (a2 + x2) + 2 ^ 78 * (a3 + x3) + 2 ^ 104 * (a4 + (x4 + y)) =
    (a0 + 2 ^ 26 * a1 + 2 ^ 52 * a2 + 2 ^ 78 * a3 + 2 ^ 104 * a4) +
    (x0 + 2 ^ 26 * x1 + 2 ^ 52 * x2 + 2 ^ 78 * x3 + 2 ^ 104 * x4) + 2 ^ 104 * y"
  by simp

lemma add_block_val:
  assumes "h_ok h" "length m = 16" "hibit = 0 \<or> hibit = 0x1000000"
  shows "limbs_below (2 ^ 27 + 64) (add_block hibit h m)"
    "limb_val (add_block hibit h m) = limb_val h + le_num m + 2 ^ 104 * unat hibit"
proof -
  obtain h0 h1 h2 h3 h4 where h: "h = (h0, h1, h2, h3, h4)" by (cases h)
  let ?N = "le_num m"
  have hb: "unat h0 < 2 ^ 26 + 64" "unat h1 < 2 ^ 26 + 64" "unat h2 < 2 ^ 26 + 64" "unat h3 < 2 ^ 26 + 64" "unat h4 < 2 ^ 26"
    using assms(1) h by simp_all
  have m0: "unat (load32_le m AND 0x3ffffff) = ?N mod 2 ^ 26" using limb_at[of 0 m 0 0] assms(2) by simp
  have m1: "unat (drop_bit 2 (load32_le (drop 3 m)) AND 0x3ffffff) = ?N div 2 ^ 26 mod 2 ^ 26"
    using limb_at[of 3 m 2 26] assms(2) by simp
  have m2: "unat (drop_bit 4 (load32_le (drop 6 m)) AND 0x3ffffff) = ?N div 2 ^ 52 mod 2 ^ 26"
    using limb_at[of 6 m 4 52] assms(2) by simp
  have m3: "unat (drop_bit 6 (load32_le (drop 9 m)) AND 0x3ffffff) = ?N div 2 ^ 78 mod 2 ^ 26"
    using limb_at[of 9 m 6 78] assms(2) by simp
  have N: "?N < 2 ^ 128" using le_num_less[of m] assms(2) by simp
  then have top: "?N div 2 ^ 104 < 2 ^ 24" by (simp add: less_mult_imp_div_less)
  then have "unat (drop_bit 8 (load32_le (drop 12 m))) = ?N div 2 ^ 104"
    using load_at[of 12 m 8] assms(2) by (simp add: take_bit_eq_mod drop_bit_eq_div)
  then have m4: "unat (drop_bit 8 (load32_le (drop 12 m)) OR hibit) = ?N div 2 ^ 104 + unat hibit"
    using assms(3) or_shift_add[OF top, of 1] by (auto simp: unsigned_or_eq push_bit_eq_mult)
  have hi: "unat hibit \<le> 2 ^ 24" using assms(3) by auto
  note a = add_limb_mod[OF hb(1) m0] add_limb_mod[OF hb(2) m1] add_limb_mod[OF hb(3) m2] add_limb_mod[OF hb(4) m3]
  have a4: "unat (h4 + (drop_bit 8 (load32_le (drop 12 m)) OR hibit)) = unat h4 + (?N div 2 ^ 104 + unat hibit)"
    by (rule add_limb[OF _ m4], use hb in simp, use top hi in simp)
  have "unat h4 + (?N div 2 ^ 104 + unat hibit) < 2 ^ 27 + 64"
    using less_le_trans[OF add_less_mono[OF hb(5) add_less_le_mono[OF top hi]], of "2 ^ 27 + 64"] by simp
  then show "limbs_below (2 ^ 27 + 64) (add_block hibit h m)" unfolding h by (simp only: add_block.simps limbs_below.simps drop_0 a a4)
  show "limb_val (add_block hibit h m) = limb_val h + ?N + 2 ^ 104 * unat hibit"
    unfolding h by (simp only: add_block.simps limb_val.simps drop_0 a a4 sum_limbs split26[of ?N, symmetric])
qed

section \<open>Multiplication and carries\<close>

lemma unat_prod: "unat (prod a b) = unat a * unat b"
proof -
  have u: "unat (ucast x :: u64) = unat x" for x :: u32
    using unat_u32_less[of x] by (simp add: unsigned_ucast_eq take_bit_eq_mod)
  have "unat a * unat b < 2 ^ 32 * 2 ^ 32" by (rule mult_strict_mono) (use unat_u32_less in auto)
  then show ?thesis by (simp add: prod_def unat_word_ariths u)
qed

lemma dot5:
  assumes "unat a0 < A" "unat a1 < A" "unat a2 < A" "unat a3 < A" "unat a4 < A"
    "unat b0 < B" "unat b1 < B" "unat b2 < B" "unat b3 < B" "unat b4 < B" "5 * (A * B) \<le> 2 ^ 63"
  shows "unat (prod a0 b0 + prod a1 b1 + prod a2 b2 + prod a3 b3 + prod a4 b4) =
      unat a0 * unat b0 + unat a1 * unat b1 + unat a2 * unat b2 + unat a3 * unat b3 + unat a4 * unat b4"
    "unat a0 * unat b0 + unat a1 * unat b1 + unat a2 * unat b2 + unat a3 * unat b3 + unat a4 * unat b4 < 5 * (A * B)"
proof -
  have lt: "unat x * unat y < A * B" if "unat x < A" "unat y < B" for x y :: u32
    using that by (intro mult_strict_mono) auto
  note l = lt[OF assms(1,6)] lt[OF assms(2,7)] lt[OF assms(3,8)] lt[OF assms(4,9)] lt[OF assms(5,10)]
  show "unat (prod a0 b0 + prod a1 b1 + prod a2 b2 + prod a3 b3 + prod a4 b4) =
      unat a0 * unat b0 + unat a1 * unat b1 + unat a2 * unat b2 + unat a3 * unat b3 + unat a4 * unat b4"
    using l assms(11) by (simp add: unat_add_small unat_prod)
  show "unat a0 * unat b0 + unat a1 * unat b1 + unat a2 * unat b2 + unat a3 * unat b3 + unat a4 * unat b4 < 5 * (A * B)"
    using l by linarith
qed

lemma mul_five:
  assumes "unat (r :: u32) < 2 ^ 26"
  shows "unat (r * 5) = 5 * unat r" "unat (r * 5) < 5 * 2 ^ 26"
proof -
  show "unat (r * 5) = 5 * unat r" using assms by (simp add: unat_word_ariths)
  then show "unat (r * 5) < 5 * 2 ^ 26" using assms by simp
qed

lemma product_mod:
  fixes h0 h1 h2 h3 h4 r0 r1 r2 r3 r4 :: nat
  shows "((h0 + 2 ^ 26 * h1 + 2 ^ 52 * h2 + 2 ^ 78 * h3 + 2 ^ 104 * h4) *
      (r0 + 2 ^ 26 * r1 + 2 ^ 52 * r2 + 2 ^ 78 * r3 + 2 ^ 104 * r4)) mod p1305 =
    ((h0 * r0 + h1 * (5 * r4) + h2 * (5 * r3) + h3 * (5 * r2) + h4 * (5 * r1)) +
     2 ^ 26 * (h0 * r1 + h1 * r0 + h2 * (5 * r4) + h3 * (5 * r3) + h4 * (5 * r2)) +
     2 ^ 52 * (h0 * r2 + h1 * r1 + h2 * r0 + h3 * (5 * r4) + h4 * (5 * r3)) +
     2 ^ 78 * (h0 * r3 + h1 * r2 + h2 * r1 + h3 * r0 + h4 * (5 * r4)) +
     2 ^ 104 * (h0 * r4 + h1 * r3 + h2 * r2 + h3 * r1 + h4 * r0)) mod p1305" (is "?P mod _ = ?D mod _")
proof -
  define k where "k = (h1 * r4 + h2 * r3 + h3 * r2 + h4 * r1) + 2 ^ 26 * (h2 * r4 + h3 * r3 + h4 * r2) +
    2 ^ 52 * (h3 * r4 + h4 * r3) + 2 ^ 78 * (h4 * r4)"
  have "?P + 5 * k = ?D + 2 ^ 130 * k" by (simp add: k_def algebra_simps)
  then have "?P = ?D + p1305 * k" by (simp add: p1305_def)
  then show ?thesis by simp
qed

fun wide_val :: "u64 \<times> u64 \<times> u64 \<times> u64 \<times> u64 \<Rightarrow> nat" where
  "wide_val (d0, d1, d2, d3, d4) =
     unat d0 + 2 ^ 26 * unat d1 + 2 ^ 52 * unat d2 + 2 ^ 78 * unat d3 + 2 ^ 104 * unat d4"

fun wide_ok :: "u64 \<times> u64 \<times> u64 \<times> u64 \<times> u64 \<Rightarrow> bool" where
  "wide_ok (d0, d1, d2, d3, d4) =
     (unat d0 < 2 ^ 58 - 2 ^ 32 \<and> unat d1 < 2 ^ 58 - 2 ^ 32 \<and> unat d2 < 2 ^ 58 - 2 ^ 32 \<and> unat d3 < 2 ^ 58 - 2 ^ 32 \<and>
      unat d4 < 5 * (2 ^ 53 + 2 ^ 32))"

lemma mul_limbs_val:
  assumes "limbs_below (2 ^ 27 + 64) h" "limbs_below (2 ^ 26) r"
  shows "wide_ok (mul_limbs r h)" "wide_val (mul_limbs r h) mod p1305 = limb_val h * limb_val r mod p1305"
proof -
  obtain h0 h1 h2 h3 h4 where h: "h = (h0, h1, h2, h3, h4)" by (cases h)
  obtain r0 r1 r2 r3 r4 where r: "r = (r0, r1, r2, r3, r4)" by (cases r)
  have hb: "unat h0 < 2 ^ 27 + 64" "unat h1 < 2 ^ 27 + 64" "unat h2 < 2 ^ 27 + 64" "unat h3 < 2 ^ 27 + 64" "unat h4 < 2 ^ 27 + 64"
    and rb: "unat r0 < 2 ^ 26" "unat r1 < 2 ^ 26" "unat r2 < 2 ^ 26" "unat r3 < 2 ^ 26" "unat r4 < 2 ^ 26"
    using assms h r by simp_all
  have rw: "unat r0 < 5 * 2 ^ 26" "unat r1 < 5 * 2 ^ 26" "unat r2 < 5 * 2 ^ 26" "unat r3 < 5 * 2 ^ 26" using rb by simp_all
  note s = mul_five(2)[OF rb(2)] mul_five(2)[OF rb(3)] mul_five(2)[OF rb(4)] mul_five(2)[OF rb(5)]
  note s5 = mul_five(1)[OF rb(2)] mul_five(1)[OF rb(3)] mul_five(1)[OF rb(4)] mul_five(1)[OF rb(5)]
  have big: "5 * ((2 ^ 27 + 64) * (5 * 2 ^ 26)) \<le> (2::nat) ^ 63" "5 * ((2 ^ 27 + 64) * 2 ^ 26) \<le> (2::nat) ^ 63" by simp_all
  note d = dot5[OF hb rw(1) s(4,3,2,1) big(1)] dot5[OF hb rw(2,1) s(4,3,2) big(1)]
    dot5[OF hb rw(3,2,1) s(4,3) big(1)] dot5[OF hb rw(4,3,2,1) s(4) big(1)] dot5[OF hb rb(5,4,3,2,1) big(2)]
  have lim: "5 * ((2 ^ 27 + 64) * (5 * 2 ^ 26)) < 2 ^ 58 - (2::nat) ^ 32" "5 * ((2 ^ 27 + 64) * 2 ^ 26) = 5 * (2 ^ 53 + (2::nat) ^ 32)"
    by simp_all
  note lt = less_trans[OF d(2) lim(1)] less_trans[OF d(4) lim(1)] less_trans[OF d(6) lim(1)] less_trans[OF d(8) lim(1)]
    d(10)[unfolded lim(2)]
  show "wide_ok (mul_limbs r h)"
    unfolding h r mul_limbs.simps Let_def wide_ok.simps d(1,3,5,7,9) by (intro conjI lt)
  show "wide_val (mul_limbs r h) mod p1305 = limb_val h * limb_val r mod p1305"
    unfolding h r mul_limbs.simps Let_def wide_val.simps limb_val.simps d(1,3,5,7,9) s5 by (rule product_mod[symmetric])
qed

lemma carry_word:
  assumes "unat (d :: u64) < 2 ^ 58"
  shows "unat (ucast (drop_bit 26 d) :: u32) = unat d div 2 ^ 26" "unat (ucast d AND 0x3ffffff :: u32) = unat d mod 2 ^ 26"
proof -
  have "unat d div 2 ^ 26 < 2 ^ 32" using assms by (simp add: less_mult_imp_div_less)
  then show "unat (ucast (drop_bit 26 d) :: u32) = unat d div 2 ^ 26"
    by (simp only: unsigned_ucast_eq unat_drop_bit_eq) (simp add: take_bit_eq_mod drop_bit_eq_div)
  have "unat (ucast d :: u32) mod 2 ^ 26 = take_bit 26 (take_bit 32 (unat d))"
    by (simp add: unsigned_ucast_eq take_bit_eq_mod)
  then show "unat (ucast d AND 0x3ffffff :: u32) = unat d mod 2 ^ 26"
    by (simp only: unat_and26 take_bit_take_bit) (simp add: take_bit_eq_mod)
qed

lemma add_carry:
  assumes "unat (d :: u64) < 2 ^ 58 - 2 ^ 32"
  shows "unat (d + ucast (c :: u32)) = unat d + unat c" "unat d + unat c < 2 ^ 58"
proof -
  have c: "unat (ucast c :: u64) = unat c" using unat_u32_less[of c] by (simp add: unsigned_ucast_eq take_bit_eq_mod)
  show "unat d + unat c < 2 ^ 58" using assms unat_u32_less[of c] by simp
  then show "unat (d + ucast c) = unat d + unat c" by (subst unat_add_small) (simp_all add: c)
qed

lemma carry_chain:
  fixes d0 d1 d2 d3 d4 :: nat
  assumes "d0 = 2 ^ 26 * c0 + e0" "d1 + c0 = 2 ^ 26 * c1 + e1" "d2 + c1 = 2 ^ 26 * c2 + e2"
    "d3 + c2 = 2 ^ 26 * c3 + e3" "d4 + c3 = 2 ^ 26 * c4 + e4" "e0 + 5 * c4 = 2 ^ 26 * c5 + f0"
  shows "(f0 + 2 ^ 26 * (e1 + c5) + 2 ^ 52 * e2 + 2 ^ 78 * e3 + 2 ^ 104 * e4) mod p1305 =
    (d0 + 2 ^ 26 * d1 + 2 ^ 52 * d2 + 2 ^ 78 * d3 + 2 ^ 104 * d4) mod p1305" (is "?V mod _ = ?D mod _")
proof -
  have "?V + 2 ^ 130 * c4 = ?D + 5 * c4" using assms by simp
  then have "?D = ?V + p1305 * c4" by (simp add: p1305_def)
  then show ?thesis by simp
qed

lemma unat_shift: "unat (drop_bit n w) = unat w div 2 ^ n"
  unfolding unat_drop_bit_eq by (rule drop_bit_eq_div)

lemma carry_limbs_val:
  assumes "wide_ok d"
  shows "h_ok (carry_limbs d)" "limb_val (carry_limbs d) mod p1305 = wide_val d mod p1305"
proof -
  obtain d0 d1 d2 d3 d4 where d: "d = (d0, d1, d2, d3, d4)" by (cases d)
  have b: "unat d0 < 2 ^ 58" "unat d1 < 2 ^ 58 - 2 ^ 32" "unat d2 < 2 ^ 58 - 2 ^ 32" "unat d3 < 2 ^ 58 - 2 ^ 32"
      "unat d4 < 5 * (2 ^ 53 + 2 ^ 32)" "unat d4 < 2 ^ 58 - 2 ^ 32"
    using assms d by simp_all
  define c0 where "c0 = (ucast (drop_bit 26 d0) :: u32)"
  define x1 where "x1 = d1 + ucast c0"
  define c1 where "c1 = (ucast (drop_bit 26 x1) :: u32)"
  define x2 where "x2 = d2 + ucast c1"
  define c2 where "c2 = (ucast (drop_bit 26 x2) :: u32)"
  define x3 where "x3 = d3 + ucast c2"
  define c3 where "c3 = (ucast (drop_bit 26 x3) :: u32)"
  define x4 where "x4 = d4 + ucast c3"
  define c4 where "c4 = (ucast (drop_bit 26 x4) :: u32)"
  define y where "y = (ucast d0 AND 0x3ffffff) + c4 * 5"
  have r: "carry_limbs d = (y AND 0x3ffffff, (ucast x1 AND 0x3ffffff) + drop_bit 26 y, ucast x2 AND 0x3ffffff,
      ucast x3 AND 0x3ffffff, ucast x4 AND 0x3ffffff)"
    unfolding d carry_limbs_def Let_def prod.case y_def c4_def x4_def c3_def x3_def c2_def x2_def c1_def x1_def c0_def by (rule refl)
  have x: "unat x1 = unat d1 + unat c0" "unat x1 < 2 ^ 58" "unat x2 = unat d2 + unat c1" "unat x2 < 2 ^ 58"
      "unat x3 = unat d3 + unat c2" "unat x3 < 2 ^ 58" "unat x4 = unat d4 + unat c3" "unat x4 < 2 ^ 58"
    using add_carry[OF b(2), of c0] add_carry[OF b(3), of c1] add_carry[OF b(4), of c2] add_carry[OF b(6), of c3]
    by (simp_all only: x1_def x2_def x3_def x4_def)
  note w0 = carry_word[OF b(1), folded c0_def] and w1 = carry_word[OF x(2), folded c1_def]
    and w2 = carry_word[OF x(4), folded c2_def] and w3 = carry_word[OF x(6), folded c3_def] and w4 = carry_word[OF x(8), folded c4_def]
  have "unat x4 < 5 * 2 ^ 53 + 6 * 2 ^ 32" using b(5) unat_u32_less[of c3] x(7) by simp
  then have c4: "unat c4 < 5 * 2 ^ 27 + 6 * 2 ^ 6" unfolding w4(1) by (simp add: less_mult_imp_div_less)
  have e0: "unat d0 mod 2 ^ 26 < 2 ^ 26" by simp
  have "unat (c4 * 5) = 5 * unat c4" using c4 by (simp add: unat_word_ariths)
  then have y: "unat y = unat d0 mod 2 ^ 26 + 5 * unat c4"
    unfolding y_def using c4 e0 by (subst unat_add_small) (simp_all only: w0, simp)
  have "unat y div 2 ^ 26 < 64" using y c4 e0 by (simp add: less_mult_imp_div_less)
  then have c5: "unat (drop_bit 26 y) < 64" by (simp only: unat_shift)
  have e1: "unat x1 mod 2 ^ 26 < 2 ^ 26" by simp
  have h1: "unat ((ucast x1 AND 0x3ffffff) + drop_bit 26 y) = unat x1 mod 2 ^ 26 + unat (drop_bit 26 y)"
    using c5 e1 by (subst unat_add_small) (simp_all only: w1, simp)
  have e: "unat d0 = 2 ^ 26 * unat c0 + unat d0 mod 2 ^ 26"
      "unat d1 + unat c0 = 2 ^ 26 * unat c1 + unat x1 mod 2 ^ 26" "unat d2 + unat c1 = 2 ^ 26 * unat c2 + unat x2 mod 2 ^ 26"
      "unat d3 + unat c2 = 2 ^ 26 * unat c3 + unat x3 mod 2 ^ 26" "unat d4 + unat c3 = 2 ^ 26 * unat c4 + unat x4 mod 2 ^ 26"
      "unat d0 mod 2 ^ 26 + 5 * unat c4 = 2 ^ 26 * unat (drop_bit 26 y) + unat y mod 2 ^ 26"
    unfolding x(1,3,5,7)[symmetric] y[symmetric] unfolding unat_shift w0(1) w1(1) w2(1) w3(1) w4(1) by (simp_all only: mult_div_mod_eq)
  show "h_ok (carry_limbs d)"
    unfolding r h_ok.simps h1 w2(2) w3(2) w4(2) unat_and26 using c5 e1 by simp
  show "limb_val (carry_limbs d) mod p1305 = wide_val d mod p1305"
    unfolding r limb_val.simps h1 w2(2) w3(2) w4(2) unfolding unat_and26 d wide_val.simps by (rule carry_chain[OF e])
qed

lemma poly_step_val:
  assumes "h_ok h" "limbs_below (2 ^ 26) r" "length m = 16" "hibit = 0 \<or> hibit = 0x1000000"
  shows "h_ok (poly_step r hibit h m)"
    "limb_val (poly_step r hibit h m) mod p1305 = (limb_val h + le_num m + 2 ^ 104 * unat hibit) * limb_val r mod p1305"
  using carry_limbs_val[OF mul_limbs_val(1)] mul_limbs_val(2) add_block_val[OF assms(1,3,4)] assms(2)
  by (simp_all add: poly_step_def)

section \<open>The last stages\<close>

lemma carry_one:
  assumes "unat (h :: u32) < 2 ^ 26" "unat c \<le> 1"
  shows "unat (h + c) = unat h + unat c" "unat (drop_bit 26 (h + c)) \<le> 1" "unat c = 0 \<Longrightarrow> unat (drop_bit 26 (h + c)) = 0"
proof -
  show s: "unat (h + c) = unat h + unat c" using assms by (subst unat_add_small) simp_all
  have "unat (h + c) < 2 * 2 ^ 26" using s assms by simp
  then have "unat (h + c) div 2 ^ 26 < 2" by (rule less_mult_imp_div_less)
  then show "unat (drop_bit 26 (h + c)) \<le> 1" by (simp add: unat_shift)
  show "unat c = 0 \<Longrightarrow> unat (drop_bit 26 (h + c)) = 0" using s assms by (simp add: unat_shift)
qed

lemma full_carry_val:
  assumes "h_ok h"
  shows "limbs_below (2 ^ 26) (full_carry h)" "limb_val (full_carry h) mod p1305 = limb_val h mod p1305"
proof -
  obtain h0 h1 h2 h3 h4 where h: "h = (h0, h1, h2, h3, h4)" by (cases h)
  have b: "unat h0 < 2 ^ 26" "unat h1 < 2 ^ 26 + 64" "unat h2 < 2 ^ 26" "unat h3 < 2 ^ 26" "unat h4 < 2 ^ 26"
    using assms h by simp_all
  define x2 where "x2 = h2 + drop_bit 26 h1"
  define x3 where "x3 = h3 + drop_bit 26 x2"
  define x4 where "x4 = h4 + drop_bit 26 x3"
  define y where "y = h0 + drop_bit 26 x4 * 5"
  have r: "full_carry h = (y AND 0x3ffffff, (h1 AND 0x3ffffff) + drop_bit 26 y, x2 AND 0x3ffffff, x3 AND 0x3ffffff, x4 AND 0x3ffffff)"
    unfolding h full_carry_def Let_def prod.case y_def x4_def x3_def x2_def by (rule refl)
  have "unat h1 div 2 ^ 26 < 2" using b(2) by (simp add: less_mult_imp_div_less)
  then have c1: "unat (drop_bit 26 h1) \<le> 1" by (simp add: unat_shift)
  note c2 = carry_one[OF b(3) c1, folded x2_def]
  note c3 = carry_one[OF b(4) c2(2), folded x3_def]
  note c4 = carry_one[OF b(5) c3(2), folded x4_def]
  have "unat (drop_bit 26 x4 * 5) = 5 * unat (drop_bit 26 x4)" using c4(2) by (simp only: unat_word_ariths) simp
  then have y: "unat y = unat h0 + 5 * unat (drop_bit 26 x4)"
    using b(1) c4(2) unfolding y_def by (subst unat_add_small) simp_all
  have "unat y < 2 * 2 ^ 26" using y b(1) c4(2) by simp
  then have "unat y div 2 ^ 26 < 2" by (rule less_mult_imp_div_less)
  then have c5: "unat (drop_bit 26 y) \<le> 1" by (simp add: unat_shift)
  have h1: "unat ((h1 AND 0x3ffffff) + drop_bit 26 y) = unat h1 mod 2 ^ 26 + unat (drop_bit 26 y)"
    using carry_one(1)[of "h1 AND 0x3ffffff", OF _ c5] by (simp only: unat_and26) simp
  have top: "unat h1 mod 2 ^ 26 + unat (drop_bit 26 y) < 2 ^ 26"
  proof (cases "unat h1 < 2 ^ 26")
    case True
    then have "unat (drop_bit 26 h1) = 0" by (simp add: unat_shift)
    then have "unat (drop_bit 26 x4) = 0" using c2(3) c3(3) c4(3) by simp
    then have "unat (drop_bit 26 y) = 0" using y b(1) by (simp add: unat_shift)
    then show ?thesis by simp
  next
    case False
    then have "unat h1 mod 2 ^ 26 < 64" using b(2) by (simp add: le_mod_geq)
    then show ?thesis using c5 by simp
  qed
  have e: "unat h0 = 2 ^ 26 * 0 + unat h0" "unat h1 + 0 = 2 ^ 26 * unat (drop_bit 26 h1) + unat h1 mod 2 ^ 26"
      "unat h2 + unat (drop_bit 26 h1) = 2 ^ 26 * unat (drop_bit 26 x2) + unat x2 mod 2 ^ 26"
      "unat h3 + unat (drop_bit 26 x2) = 2 ^ 26 * unat (drop_bit 26 x3) + unat x3 mod 2 ^ 26"
      "unat h4 + unat (drop_bit 26 x3) = 2 ^ 26 * unat (drop_bit 26 x4) + unat x4 mod 2 ^ 26"
      "unat h0 + 5 * unat (drop_bit 26 x4) = 2 ^ 26 * unat (drop_bit 26 y) + unat y mod 2 ^ 26"
    unfolding c2(1)[symmetric] c3(1)[symmetric] c4(1)[symmetric] y[symmetric] unfolding unat_shift
    by (simp_all only: mult_div_mod_eq mult_0_right add_0_left add_0_right)
  show "limbs_below (2 ^ 26) (full_carry h)"
    unfolding r limbs_below.simps h1 unat_and26 using top by simp
  show "limb_val (full_carry h) mod p1305 = limb_val h mod p1305"
    unfolding r limb_val.simps h1 unat_and26 unfolding h limb_val.simps by (rule carry_chain[OF e])
qed

lemma limb_val_less:
  assumes "limbs_below (2 ^ 26) h"
  shows "limb_val h < 2 ^ 130"
proof -
  obtain h0 h1 h2 h3 h4 where h: "h = (h0, h1, h2, h3, h4)" by (cases h)
  show ?thesis using assms unfolding h by simp
qed

lemma four_limbs_less:
  fixes a b c d :: nat
  shows "a < 2 ^ 26 \<Longrightarrow> b < 2 ^ 26 \<Longrightarrow> c < 2 ^ 26 \<Longrightarrow> d < 2 ^ 26 \<Longrightarrow> a + 2 ^ 26 * b + 2 ^ 52 * c + 2 ^ 78 * d < 2 ^ 104"
  by simp

lemma select_reduced_all:
  assumes "limbs_below (2 ^ 26) h"
  shows "limbs_below (2 ^ 26) (select_reduced h) \<and> limb_val (select_reduced h) = limb_val h mod p1305"
proof -
  obtain h0 h1 h2 h3 h4 where h: "h = (h0, h1, h2, h3, h4)" by (cases h)
  have b: "unat h0 < 2 ^ 26" "unat h1 < 2 ^ 26" "unat h2 < 2 ^ 26" "unat h3 < 2 ^ 26" "unat h4 < 2 ^ 26"
    using assms h by simp_all
  define g0 where "g0 = h0 + 5"
  define g1 where "g1 = h1 + drop_bit 26 g0"
  define g2 where "g2 = h2 + drop_bit 26 g1"
  define g3 where "g3 = h3 + drop_bit 26 g2"
  define g4 where "g4 = h4 + drop_bit 26 g3"
  have g0: "unat g0 = unat h0 + 5" using b(1) unfolding g0_def by (subst unat_add_small) simp_all
  then have "unat g0 < 2 * 2 ^ 26" using b(1) by simp
  then have "unat g0 div 2 ^ 26 < 2" by (rule less_mult_imp_div_less)
  then have c0: "unat (drop_bit 26 g0) \<le> 1" by (simp add: unat_shift)
  note c1 = carry_one[OF b(2) c0, folded g1_def]
  note c2 = carry_one[OF b(3) c1(2), folded g2_def]
  note c3 = carry_one[OF b(4) c2(2), folded g3_def]
  note c4 = carry_one[OF b(5) c3(2), folded g4_def]
  have le: "unat g4 \<le> 2 ^ 26" using c4(1) b(5) c3(2) by simp
  have e: "unat h0 + 5 = 2 ^ 26 * unat (drop_bit 26 g0) + unat g0 mod 2 ^ 26"
      "unat h1 + unat (drop_bit 26 g0) = 2 ^ 26 * unat (drop_bit 26 g1) + unat g1 mod 2 ^ 26"
      "unat h2 + unat (drop_bit 26 g1) = 2 ^ 26 * unat (drop_bit 26 g2) + unat g2 mod 2 ^ 26"
      "unat h3 + unat (drop_bit 26 g2) = 2 ^ 26 * unat (drop_bit 26 g3) + unat g3 mod 2 ^ 26"
    unfolding c1(1)[symmetric] c2(1)[symmetric] c3(1)[symmetric] g0[symmetric] unfolding unat_shift
    by (simp_all only: mult_div_mod_eq)
  have total: "limb_val h + 5 = unat g0 mod 2 ^ 26 + 2 ^ 26 * (unat g1 mod 2 ^ 26) + 2 ^ 52 * (unat g2 mod 2 ^ 26) +
      2 ^ 78 * (unat g3 mod 2 ^ 26) + 2 ^ 104 * unat g4"
    unfolding h limb_val.simps c4(1) using e by simp
  let ?rest = "unat g0 mod 2 ^ 26 + 2 ^ 26 * (unat g1 mod 2 ^ 26) + 2 ^ 52 * (unat g2 mod 2 ^ 26) + 2 ^ 78 * (unat g3 mod 2 ^ 26)"
  have rest: "?rest < 2 ^ 104" by (rule four_limbs_less) simp_all
  have r: "select_reduced h = (let m = drop_bit 31 (g4 - 0x4000000) - 1 in
     ((h0 AND NOT m) OR (g0 AND 0x3ffffff AND m), (h1 AND NOT m) OR (g1 AND 0x3ffffff AND m),
      (h2 AND NOT m) OR (g2 AND 0x3ffffff AND m), (h3 AND NOT m) OR (g3 AND 0x3ffffff AND m),
      (h4 AND NOT m) OR ((g4 - 0x4000000) AND m)))"
    unfolding h select_reduced_def Let_def prod.case g4_def g3_def g2_def g1_def g0_def by (simp only: and.assoc)
  show ?thesis
  proof (cases "unat g4 = 2 ^ 26")
    case True
    then have g4: "g4 = 0x4000000" by (simp add: word_unat_eq_iff)
    have m: "drop_bit 31 (g4 - 0x4000000) - 1 = NOT (0 :: u32)" using g4 by simp
    have s: "select_reduced h = (g0 AND 0x3ffffff, g1 AND 0x3ffffff, g2 AND 0x3ffffff, g3 AND 0x3ffffff, 0)"
      unfolding r Let_def m using g4 by simp
    have v: "limb_val (select_reduced h) = ?rest" unfolding s limb_val.simps unat_and26 by simp
    have "limb_val h = p1305 + ?rest" using total True by (simp add: p1305_def)
    moreover have "?rest < p1305" using rest by (simp add: p1305_def)
    ultimately have "limb_val h mod p1305 = ?rest" by (simp only: mod_add_self1 mod_less)
    moreover have "limbs_below (2 ^ 26) (select_reduced h)" unfolding s limbs_below.simps unat_and26 by simp
    ultimately show ?thesis using v by (simp only: simp_thms)
  next
    case False
    then have lt: "unat g4 < 2 ^ 26" using le by simp
    have "unat (g4 + 0xFC000000) = unat g4 + 0xFC000000" using lt by (subst unat_add_small) simp_all
    moreover have "g4 - 0x4000000 = g4 + 0xFC000000" by simp
    ultimately have "unat (g4 - 0x4000000) = unat g4 + 0xFC000000" by (simp only:)
    then have "unat (drop_bit 31 (g4 - 0x4000000)) = 1" using lt by (simp add: unat_shift)
    then have m: "drop_bit 31 (g4 - 0x4000000) - 1 = (0 :: u32)" by (metis diff_self word_unat_eq_iff unat_1)
    have s: "select_reduced h = h" unfolding r Let_def m unfolding h by simp
    have "limb_val h + 5 < 2 ^ 130" using total lt rest by simp
    then have "limb_val h < p1305" by (simp add: p1305_def)
    then show ?thesis using assms s by simp
  qed
qed

lemmas select_reduced_val = select_reduced_all[THEN conjunct1] select_reduced_all[THEN conjunct2]

definition words_val :: "u32 list \<Rightarrow> nat" where
  "words_val w = unat (w ! 0) + 2 ^ 32 * unat (w ! 1) + 2 ^ 64 * unat (w ! 2) + 2 ^ 96 * unat (w ! 3)"

lemma merge_words:
  assumes "unat (a :: u32) < 2 ^ n" "n + k = 32"
  shows "unat (a OR push_bit n b) = unat a + 2 ^ n * (unat b mod 2 ^ k)"
proof -
  have "take_bit 32 (unat a) = unat a" using unat_u32_less[of a] by (rule take_bit_nat_eq_self)
  then have "unat (a OR push_bit n b) = take_bit 32 (unat a OR push_bit n (unat b))"
    by (simp add: unsigned_or_eq unsigned_push_bit_eq take_bit_or)
  also have "\<dots> = (unat a + 2 ^ n * unat b) mod (2 ^ n * 2 ^ k)"
    unfolding or_shift_add[OF assms(1)] take_bit_eq_mod power_add[symmetric] assms(2) by (rule refl)
  also have "\<dots> = unat a + 2 ^ n * (unat b mod 2 ^ k)" unfolding mod_mult2_eq using assms(1) by simp
  finally show ?thesis .
qed

lemma shift_split: "unat w = 2 ^ n * unat (drop_bit n w) + unat w mod 2 ^ n"
  by (simp only: unat_shift mult_div_mod_eq)

lemma pack_limbs_val:
  assumes "limbs_below (2 ^ 26) h"
  shows "\<exists>t. limb_val h = words_val (pack_limbs h) + 2 ^ 128 * t"
proof -
  obtain h0 h1 h2 h3 h4 where h: "h = (h0, h1, h2, h3, h4)" by (cases h)
  have b: "unat h0 < 2 ^ 26" "unat h1 < 2 ^ 26" "unat h2 < 2 ^ 26" "unat h3 < 2 ^ 26" "unat h4 < 2 ^ 26"
    using assms h by simp_all
  have "unat (drop_bit 6 h1) < 2 ^ 20" "unat (drop_bit 12 h2) < 2 ^ 14" "unat (drop_bit 18 h3) < 2 ^ 8"
    unfolding unat_shift using b by (simp_all add: less_mult_imp_div_less)
  note w = merge_words[OF b(1), of 6 h1] merge_words[OF this(1), of 12 h2] merge_words[OF this(2), of 18 h3]
    merge_words[OF this(3), of 24 h4]
  show ?thesis
    unfolding h pack_limbs.simps words_val_def limb_val.simps
    using w shift_split[of h1 6] shift_split[of h2 12] shift_split[of h3 18] shift_split[of h4 24]
    by (intro exI[of _ "unat (drop_bit 24 h4)"]) simp
qed

lemma add_pad_val:
  "\<exists>t. words_val h + words_val pad = words_val (add_pad h pad) + 2 ^ 128 * t"
proof -
  define f0 where "f0 = (ucast (h ! 0) :: u64) + ucast (pad ! 0)"
  define f1 where "f1 = ucast (h ! 1) + ucast (pad ! 1) + drop_bit 32 f0"
  define f2 where "f2 = ucast (h ! 2) + ucast (pad ! 2) + drop_bit 32 f1"
  define f3 where "f3 = ucast (h ! 3) + ucast (pad ! 3) + drop_bit 32 f2"
  have u: "unat (ucast x :: u64) = unat x" for x :: u32
    using unat_u32_less[of x] by (simp add: unsigned_ucast_eq take_bit_eq_mod)
  have l: "unat (ucast f :: u32) = unat f mod 2 ^ 32" for f :: u64
    by (simp add: unsigned_ucast_eq take_bit_eq_mod)
  have two: "unat (ucast x + ucast y :: u64) = unat x + unat y" for x y :: u32
    using unat_u32_less[of x] unat_u32_less[of y] by (subst unat_add_small) (simp_all add: u)
  have step: "unat (ucast x + ucast y + drop_bit 32 f :: u64) = unat x + unat y + unat (drop_bit 32 f)" for x y :: u32 and f :: u64
  proof -
    have "unat f < 2 ^ 32 * 2 ^ 32" using unsigned_less[of f] by simp
    then have "unat (drop_bit 32 f) < 2 ^ 32" unfolding unat_shift by (rule less_mult_imp_div_less)
    then show ?thesis using unat_u32_less[of x] unat_u32_less[of y] by (subst unat_add_small) (simp_all add: two)
  qed
  note f = two[of "h ! 0" "pad ! 0", folded f0_def] step[of "h ! 1" "pad ! 1" f0, folded f1_def]
    step[of "h ! 2" "pad ! 2" f1, folded f2_def] step[of "h ! 3" "pad ! 3" f2, folded f3_def]
  have r: "add_pad h pad = [ucast f0, ucast f1, ucast f2, ucast f3]"
    unfolding add_pad_def Let_def f3_def f2_def f1_def f0_def by (rule refl)
  show ?thesis
    unfolding r words_val_def using f l shift_split[of f0 32] shift_split[of f1 32] shift_split[of f2 32] shift_split[of f3 32]
    by (intro exI[of _ "unat (drop_bit 32 f3)"]) simp
qed

lemma store_words_bytes:
  "concat (map store32_le [a, b, c, d]) = le_bytes 16 (words_val [a, b, c, d])"
proof -
  let ?V = "words_val [a, b, c, d]"
  have l: "unat a < 2 ^ 32" "unat b < 2 ^ 32" "unat c < 2 ^ 32" "unat d < 2 ^ 32" using unat_u32_less by auto
  have v: "?V = unat a + 2 ^ 32 * (unat b + 2 ^ 32 * (unat c + 2 ^ 32 * unat d))" by (simp add: words_val_def)
  have sp: "(x + 2 ^ 32 * y) div 2 ^ 32 = y \<and> (x + 2 ^ 32 * y) mod 2 ^ 32 = x" if "x < 2 ^ 32" for x y :: nat
    using that by simp
  have by4: "le_bytes 4 (x + 2 ^ 32 * y) = le_bytes 4 x" if "x < 2 ^ 32" for x y :: nat
    using le_bytes_mod[of 4 "x + 2 ^ 32 * y"] sp[OF that] by simp
  have ap: "le_bytes (4 + n) (x + 2 ^ 32 * y) = le_bytes 4 x @ le_bytes n y" if "x < 2 ^ 32" for n x y
    using le_bytes_append[of 4 n "x + 2 ^ 32 * y"] by4[OF that] sp[OF that] by simp
  have "le_bytes (4 + (4 + (4 + 4))) ?V = le_bytes 4 (unat a) @ le_bytes 4 (unat b) @ le_bytes 4 (unat c) @ le_bytes 4 (unat d)"
    unfolding v by (simp only: ap l)
  then show ?thesis by (simp add: store32_le_bytes)
qed

lemma tag_bytes:
  assumes "limbs_below (2 ^ 26) h"
  shows "concat (map store32_le (add_pad (pack_limbs h) pad)) = le_bytes 16 (limb_val h + words_val pad)"
proof -
  obtain t u where t: "limb_val h = words_val (pack_limbs h) + 2 ^ 128 * t"
      "words_val (pack_limbs h) + words_val pad = words_val (add_pad (pack_limbs h) pad) + 2 ^ 128 * u"
    using pack_limbs_val[OF assms] add_pad_val by blast
  let ?w = "add_pad (pack_limbs h) pad"
  have "concat (map store32_le ?w) = le_bytes 16 (words_val ?w)"
    unfolding add_pad_def Let_def by (rule store_words_bytes)
  also have "\<dots> = le_bytes 16 ((words_val ?w + 256 ^ 16 * (t + u)) mod 256 ^ 16)"
    by (simp only: mod_mult_self2 le_bytes_mod)
  also have "words_val ?w + 256 ^ 16 * (t + u) = limb_val h + words_val pad" using t by simp
  finally show ?thesis using le_bytes_mod[of 16 "limb_val h + words_val pad"] by simp
qed

section \<open>The key\<close>

definition poly_clamp :: nat where
  "poly_clamp = 0x0ffffffc0ffffffc0ffffffc0fffffff"

lemma load32_le_take: "k + 4 \<le> n \<Longrightarrow> n \<le> length m \<Longrightarrow> load32_le (drop k (take n m)) = load32_le (drop k m)"
  by (simp add: load32_le_def)

lemma unat_and_limb:
  assumes "C < 2 ^ 26" "unat (c :: u32) = C"
  shows "unat (w AND c) = unat (w AND 0x3ffffff) AND C"
proof -
  have "(0x3ffffff AND C) = C" using take_bit_nat_eq_self[OF assms(1)]
    by (simp add: take_bit_eq_mask and.commute mask_eq_exp_minus_1)
  then show ?thesis by (simp add: unsigned_and_eq assms(2) and.assoc)
qed

lemma clamp_limb:
  "(N AND poly_clamp) div 2 ^ n mod 2 ^ 26 = (N div 2 ^ n mod 2 ^ 26) AND (poly_clamp div 2 ^ n mod 2 ^ 26)"
  by (simp only: take_bit_eq_mod[symmetric] drop_bit_eq_div[symmetric] drop_bit_and take_bit_and)

lemma init_r:
  assumes "16 \<le> length key"
  shows "limb_val (p_r (poly1305_init key st)) = le_num (take 16 key) AND poly_clamp"
    "limbs_below (2 ^ 26) (p_r (poly1305_init key st))"
proof -
  let ?N = "le_num (take 16 key)"
  let ?w = "\<lambda>s k. drop_bit s (load32_le (drop k key))"
  have r: "p_r (poly1305_init key st) =
      (?w 0 0 AND 0x3ffffff, ?w 2 3 AND 0x3ffff03, ?w 4 6 AND 0x3ffc0ff, ?w 6 9 AND 0x3f03fff, ?w 8 12 AND 0x00fffff)"
    by (simp add: poly1305_init_def)
  have lt: "?N < 2 ^ 128" using le_num_less[of "take 16 key"] assms by simp
  have at: "unat (drop_bit s (load32_le (drop k key)) AND c) = (?N div 2 ^ n mod 2 ^ 26) AND C"
    if "k \<le> 12" "s \<le> 6" "n = 8 * k + s" "C < 2 ^ 26" "unat c = C" for k s n c C
    using limb_at[of k "take 16 key" s n] that assms load32_le_take[of k 16 key] unat_and_limb[OF that(4,5)] by simp
  have v: "unat (?w 0 0 AND 0x3ffffff) = (?N mod 2 ^ 26) AND 0x3ffffff" using at[of 0 0 0 "0x3ffffff" "0x3ffffff"] by simp
  have v1: "unat (?w 2 3 AND 0x3ffff03) = (?N div 2 ^ 26 mod 2 ^ 26) AND 0x3ffff03" by (rule at) simp_all
  have v2: "unat (?w 4 6 AND 0x3ffc0ff) = (?N div 2 ^ 52 mod 2 ^ 26) AND 0x3ffc0ff" by (rule at) simp_all
  have v3: "unat (?w 6 9 AND 0x3f03fff) = (?N div 2 ^ 78 mod 2 ^ 26) AND 0x3f03fff" by (rule at) simp_all
  have "?N div 2 ^ 104 < 2 ^ 24" using lt by (simp add: less_mult_imp_div_less)
  then have "unat (?w 8 12) = ?N div 2 ^ 104"
    using load_at[of 12 "take 16 key" 8] assms load32_le_take[of 12 16 key] by (simp add: take_bit_eq_mod drop_bit_eq_div)
  then have v4: "unat (?w 8 12 AND 0x00fffff) = ?N div 2 ^ 104 AND 0x00fffff" by (simp add: unsigned_and_eq)
  have c: "poly_clamp mod 2 ^ 26 = 0x3ffffff" "poly_clamp div 2 ^ 26 mod 2 ^ 26 = 0x3ffff03" "poly_clamp div 2 ^ 52 mod 2 ^ 26 = 0x3ffc0ff"
      "poly_clamp div 2 ^ 78 mod 2 ^ 26 = 0x3f03fff" "poly_clamp div 2 ^ 104 = 0x00fffff"
    by (simp_all add: poly_clamp_def)
  have t: "(?N AND poly_clamp) div 2 ^ 104 = ?N div 2 ^ 104 AND 0x00fffff"
    unfolding c(5)[symmetric] by (simp only: drop_bit_eq_div[symmetric] drop_bit_and)
  note l = clamp_limb[of ?N 26] clamp_limb[of ?N 52] clamp_limb[of ?N 78]
  have l0: "(?N AND poly_clamp) mod 2 ^ 26 = ?N mod 2 ^ 26 AND 0x3ffffff" using clamp_limb[of ?N 0] c(1) by simp
  show "limb_val (p_r (poly1305_init key st)) = ?N AND poly_clamp"
    unfolding r limb_val.simps v v1 v2 v3 v4 by (rule split26[of "?N AND poly_clamp", unfolded l l0 t c, symmetric])
  have "x AND y < 2 ^ 26" if "y < 2 ^ 26" for x y :: nat
    using take_bit_nat_less_exp[of 26 "x AND y"] take_bit_nat_eq_self[OF that] by (metis and.assoc take_bit_eq_mask)
  then show "limbs_below (2 ^ 26) (p_r (poly1305_init key st))" unfolding r limbs_below.simps v v1 v2 v3 v4 by simp
qed

lemma init_pad:
  assumes "32 \<le> length key"
  shows "words_val (p_pad (poly1305_init key st)) = le_num (take 16 (drop 16 key))"
proof -
  let ?k = "drop 16 key"
  have "take 16 ?k = take 4 ?k @ take 4 (drop 4 ?k) @ take 4 (drop 8 ?k) @ take 4 (drop 12 ?k)"
    using take_add[of 4 12 ?k] take_add[of 4 8 "drop 4 ?k"] take_add[of 4 4 "drop 8 ?k"] by simp
  moreover have "unat (load32_le p) = le_num (take 4 p)" if "4 \<le> length p" for p
    using load32_le_num[OF that] le_num_take[OF that] by simp
  ultimately show ?thesis using assms by (simp add: poly1305_init_def words_val_def le_num_append)
qed

section \<open>Streaming\<close>

definition poly_wf :: "poly1305_ctx \<Rightarrow> bool" where
  "poly_wf st = (p_leftover st < 16 \<and> length (p_buffer st) = 16 \<and> p_final st = 0)"

definition poly_pending :: "poly1305_ctx \<Rightarrow> u8 list" where
  "poly_pending st = take (p_leftover st) (p_buffer st)"

definition poly_chain :: "poly1305_ctx \<Rightarrow> limbs \<times> limbs \<times> u32 list" where
  "poly_chain st = (p_r st, p_h st, p_pad st)"

definition poly_compress :: "limbs \<times> limbs \<times> u32 list \<Rightarrow> u8 list \<Rightarrow> limbs \<times> limbs \<times> u32 list" where
  "poly_compress c b = (case c of (r, h, pad) \<Rightarrow> (r, poly_step r 0x1000000 h b, pad))"

lemma poly_step_take: "16 \<le> length m \<Longrightarrow> poly_step r hibit h (take 16 m) = poly_step r hibit h m"
  using load32_le_take[of _ 16 m] load32_le_take[of 0 16 m] by (cases h) (simp add: poly_step_def)

lemma poly_loop_blocks: "poly_loop r hibit h m = foldl (poly_step r hibit) h (blocks_of 16 m)"
proof (induction "length m" arbitrary: m h rule: less_induct)
  case less
  show ?case
  proof (cases "16 \<le> length m")
    case True
    have "blocks_of 16 m = take 16 m # blocks_of 16 (drop 16 m)" using True by (subst blocks_of.simps) simp
    then show ?thesis
      using less[of "drop 16 m"] True by (subst poly_loop.simps) (simp add: poly_step_take)
  qed (simp add: poly_loop.simps)
qed

lemma foldl_compress:
  "foldl poly_compress (r, h, pad) bs = (r, foldl (poly_step r 0x1000000) h bs, pad)"
  by (induction bs arbitrary: h) (simp_all add: poly_compress_def)

lemma blocks_of_whole: "0 < n \<Longrightarrow> blocks_of n (take (n * (length m div n)) m) = blocks_of n m"
proof (induction n m rule: blocks_of.induct)
  case (1 n m)
  show ?case
  proof (cases "length m < n")
    case False
    then have d: "length m div n = Suc (length (drop n m) div n)" using 1(2) by (simp add: le_div_geq)
    have "take (n * (length m div n)) m = take n m @ take (n * (length (drop n m) div n)) (drop n m)"
      unfolding d using take_add[of n "n * (length (drop n m) div n)" m] by simp
    moreover have "blocks_of n m = take n m # blocks_of n (drop n m)" using False 1(2) by (subst blocks_of.simps) simp
    ultimately show ?thesis using blocks_of_step(1)[of "take n m" n] 1 False by simp
  qed simp
qed

lemma poly1305_rest_law:
  assumes "poly_wf st" "p_leftover st = 0"
  shows "poly_wf (poly1305_rest m st) \<and> poly_chain (poly1305_rest m st) = foldl poly_compress (poly_chain st) (blocks_of 16 m) \<and>
    poly_pending (poly1305_rest m st) = tail_of 16 m"
proof -
  have t: "length (tail_of 16 m) < 16" by simp
  have "poly1305_rest m st = (if 16 \<le> length m then poly1305_blocks (take (16 * (length m div 16)) m) st else st)
      \<lparr>p_buffer := memcpy_at (p_buffer st) 0 (tail_of 16 m) (length (tail_of 16 m)), p_leftover := length (tail_of 16 m)\<rparr>"
    using assms(2) by (simp add: poly1305_rest_def poly1305_blocks_def tail_of_def Let_def)
  moreover have "length (memcpy_at (p_buffer st) 0 (tail_of 16 m) (length (tail_of 16 m))) = 16"
    using assms(1) less_imp_le[OF t] by (subst length_memcpy_at) (simp_all add: poly_wf_def)
  moreover have "take (length (tail_of 16 m)) (memcpy_at (p_buffer st) 0 (tail_of 16 m) (length (tail_of 16 m))) = tail_of 16 m"
    by (simp add: memcpy_at_def)
  ultimately show ?thesis
    using assms t by (auto simp: poly_wf_def poly_chain_def poly_pending_def poly1305_blocks_def poly_loop_blocks
        blocks_of_whole foldl_compress)
qed

lemma poly1305_update_law:
  assumes "poly_wf st"
  shows "poly_wf (poly1305_update m st) \<and>
    poly_chain (poly1305_update m st) = foldl poly_compress (poly_chain st) (blocks_of 16 (poly_pending st @ m)) \<and>
    poly_pending (poly1305_update m st) = tail_of 16 (poly_pending st @ m)"
proof (cases "p_leftover st = 0")
  case True
  then show ?thesis using poly1305_rest_law[OF assms True, of m] by (simp add: poly1305_update_def poly_pending_def)
next
  case False
  let ?l = "p_leftover st" and ?p = "poly_pending st"
  have lp: "length ?p = ?l" "?l < 16" "length (p_buffer st) = 16" "p_final st = 0"
    using assms by (auto simp: poly_pending_def poly_wf_def)
  define want where "want = min (16 - ?l) (length m)"
  let ?b = "memcpy_at (p_buffer st) ?l m want"
  have lb: "length ?b = 16" using lp by (subst length_memcpy_at) (simp_all add: want_def)
  have tb: "take (?l + want) ?b = ?p @ take want m"
    using lp by (simp add: memcpy_at_def poly_pending_def want_def)
  show ?thesis
  proof (cases "?l + want < 16")
    case True
    then have w: "want = length m" by (simp add: want_def)
    have u: "poly1305_update m st = st\<lparr>p_buffer := ?b, p_leftover := ?l + want\<rparr>"
      using False True by (simp add: poly1305_update_def Let_def want_def)
    have "length (?p @ m) < 16" using True w lp by simp
    then show ?thesis using u tb w lb lp True by (simp add: poly_wf_def poly_chain_def poly_pending_def)
  next
    case full: False
    then have w: "?l + want = 16" using lp(2) by (simp add: want_def)
    let ?mid = "(poly1305_blocks ?b (st\<lparr>p_buffer := ?b, p_leftover := ?l + want\<rparr>))\<lparr>p_leftover := 0\<rparr>"
    have u: "poly1305_update m st = poly1305_rest (drop want m) ?mid"
      using False full by (simp add: poly1305_update_def Let_def want_def)
    have b: "?b = ?p @ take want m" using tb lb w by simp
    have one: "blocks_of 16 (?p @ m) = ?b # blocks_of 16 (drop want m)" "tail_of 16 (?p @ m) = tail_of 16 (drop want m)"
      using blocks_of_step[of ?b 16 "drop want m"] lb b by simp_all
    have "poly_wf ?mid" "p_leftover ?mid = 0" using lb lp by (simp_all add: poly_wf_def poly1305_blocks_def)
    moreover have "blocks_of 16 ?b = [?b]" using blocks_of_step(1)[of ?b 16 "[]"] lb by simp
    then have "poly_chain ?mid = poly_compress (poly_chain st) ?b"
      using lp by (simp add: poly_chain_def poly1305_blocks_def poly_compress_def poly_loop_blocks)
    ultimately show ?thesis using poly1305_rest_law[of ?mid "drop want m"] u one by simp
  qed
qed

interpretation ph: stream_hash 16 poly1305_update poly_chain poly_pending poly_compress poly_wf "\<lambda>_. True"
  by unfold_locales (auto simp: poly1305_update_law, auto simp: poly_wf_def poly_pending_def)

section \<open>The standard's definition\<close>

definition poly_chunks :: "u8 list \<Rightarrow> u8 list list" where
  "poly_chunks m = blocks_of 16 m @ (if tail_of 16 m = [] then [] else [tail_of 16 m])"

definition poly1305_reference :: "u8 list \<Rightarrow> u8 list \<Rightarrow> u8 list" where
  "poly1305_reference key m =
     (let r = le_num (take 16 key) AND poly_clamp;
          s = le_num (take 16 (drop 16 key));
          acc = foldl (\<lambda>a chunk. (a + le_num (chunk @ [1])) * r mod p1305) 0 (poly_chunks m)
      in le_bytes 16 (acc + s))"

lemma step_reference:
  assumes "h_ok h" "limbs_below (2 ^ 26) r" "limb_val h mod p1305 = a mod p1305" "length m = 16" "hibit = 0 \<or> hibit = 0x1000000"
    "le_num m + 2 ^ 104 * unat hibit = le_num (chunk @ [1])"
  shows "h_ok (poly_step r hibit h m) \<and> limb_val (poly_step r hibit h m) mod p1305 =
    (a + le_num (chunk @ [1])) * limb_val r mod p1305"
proof -
  have "limb_val (poly_step r hibit h m) mod p1305 = (limb_val h + le_num (chunk @ [1])) * limb_val r mod p1305"
    using poly_step_val(2)[OF assms(1,2,4,5)] assms(6) by (simp add: add.assoc)
  also have "\<dots> = (a + le_num (chunk @ [1])) * limb_val r mod p1305"
    using assms(3) by (metis mod_add_left_eq mod_mult_left_eq)
  finally show ?thesis using poly_step_val(1)[OF assms(1,2,4,5)] by blast
qed

lemma steps_reference:
  assumes "h_ok h" "limbs_below (2 ^ 26) r" "limb_val h mod p1305 = a mod p1305" "\<forall>b \<in> set bs. length b = 16"
  shows "h_ok (foldl (poly_step r 0x1000000) h bs) \<and> limb_val (foldl (poly_step r 0x1000000) h bs) mod p1305 =
    foldl (\<lambda>a chunk. (a + le_num (chunk @ [1])) * limb_val r mod p1305) a bs mod p1305"
  using assms
proof (induction bs arbitrary: h a)
  case (Cons b bs)
  have "le_num b + 2 ^ 104 * unat (0x1000000 :: u32) = le_num (b @ [1])"
    using Cons.prems(4) by (simp add: le_num_append)
  then show ?case
    using step_reference[OF Cons.prems(1,2,3), of b "0x1000000" b] 
      Cons.IH[of "poly_step r 0x1000000 h b" "(a + le_num (b @ [1])) * limb_val r mod p1305"] Cons.prems by simp
qed simp

lemma blocks_of_length: "b \<in> set (blocks_of n m) \<Longrightarrow> length b = n"
proof (induction n m rule: blocks_of.induct)
  case (1 n m)
  from "1.prems" have "\<not> (n = 0 \<or> length m < n)" "b = take n m \<or> b \<in> set (blocks_of n (drop n m))"
    by (subst (asm) blocks_of.simps, simp split: if_splits)+
  then show ?case using "1.IH" by auto
qed

lemma finish_reference:
  assumes "poly_wf st" "h_ok (p_h st)" "limbs_below (2 ^ 26) (p_r st)" "limb_val (p_h st) mod p1305 = a mod p1305"
  shows "poly1305_finish st = le_bytes 16
    ((if poly_pending st = [] then a else (a + le_num (poly_pending st @ [1])) * limb_val (p_r st)) mod p1305 + words_val (p_pad st))"
proof -
  let ?i = "p_leftover st" and ?p = "poly_pending st"
  let ?b = "?p @ [1] @ replicate (15 - ?i) 0"
  define h where "h = (if ?p = [] then p_h st else poly_step (p_r st) 0 (p_h st) ?b)"
  have lp: "length ?p = ?i" "?i < 16" using assms(1) by (auto simp: poly_pending_def poly_wf_def)
  have lb: "length ?b = 16" using lp by simp
  have "blocks_of 16 ?b = [?b]" using blocks_of_step(1)[of ?b 16 "[]"] lb by simp
  then have fin: "poly1305_finish st = concat (map store32_le (add_pad (pack_limbs (select_reduced (full_carry h))) (p_pad st)))"
    using lp by (auto simp: poly1305_finish_def Let_def h_def poly1305_blocks_def poly_loop_blocks poly_pending_def)
  have "le_num ?b + 2 ^ 104 * unat (0 :: u32) = le_num (?p @ [1])" by (simp add: le_num_append)
  then have h: "h_ok h" "limb_val h mod p1305 = (if ?p = [] then a else (a + le_num (?p @ [1])) * limb_val (p_r st)) mod p1305"
    using step_reference[OF assms(2,3,4) lb, of 0 ?p] assms(2,4) by (simp_all add: h_def)
  show ?thesis
    unfolding fin tag_bytes[OF select_reduced_val(1)[OF full_carry_val(1)[OF h(1)]]]
      select_reduced_val(2)[OF full_carry_val(1)[OF h(1)]] full_carry_val(2)[OF h(1)] h(2) ..
qed

lemma poly1305_stream_reference:
  assumes "length (p_buffer st) = 16" "32 \<le> length key"
  shows "poly1305_finish (fold poly1305_update css (poly1305_init key st)) = poly1305_reference key (concat css)"
proof -
  let ?init = "poly1305_init key st" and ?m = "concat css"
  let ?k = "fold poly1305_update css ?init" and ?r = "p_r (poly1305_init key st)"
  have w0: "poly_wf ?init" "poly_pending ?init = []" "p_h ?init = (0, 0, 0, 0, 0)"
    using assms(1) by (simp_all add: poly_wf_def poly_pending_def poly1305_init_def)
  have all: "poly_wf ?k" "poly_chain ?k = foldl poly_compress (poly_chain ?init) (blocks_of 16 ?m)" "poly_pending ?k = tail_of 16 ?m"
    using ph.absorb_all[OF w0(1), of css] w0(2) by auto
  then have k: "p_r ?k = ?r" "p_pad ?k = p_pad ?init" "p_h ?k = foldl (poly_step ?r 0x1000000) (0, 0, 0, 0, 0) (blocks_of 16 ?m)"
    by (simp_all add: poly_chain_def foldl_compress w0(3))
  have r: "limb_val ?r = le_num (take 16 key) AND poly_clamp" "limbs_below (2 ^ 26) ?r"
    using init_r[of key st] assms(2) by simp_all
  let ?f = "\<lambda>a chunk. (a + le_num (chunk @ [1])) * limb_val ?r mod p1305"
  have h: "h_ok (p_h ?k)" "limb_val (p_h ?k) mod p1305 = foldl ?f 0 (blocks_of 16 ?m) mod p1305"
    using steps_reference[of "(0, 0, 0, 0, 0)" ?r 0 "blocks_of 16 ?m"] r(2) blocks_of_length[of _ 16 ?m] by (auto simp: k)
  have red: "foldl ?f 0 bs mod p1305 = foldl ?f 0 bs" for bs by (cases bs rule: rev_cases) (simp_all add: p1305_def)
  have pad: "words_val (p_pad ?init) = le_num (take 16 (drop 16 key))" by (rule init_pad[OF assms(2)])
  show ?thesis
    using finish_reference[OF all(1) h(1) _ h(2)] r all(3) k(1,2) pad red[of "blocks_of 16 ?m"]
    by (simp add: poly1305_reference_def Let_def poly_chunks_def)
qed

section \<open>Properties\<close>

text \<open>C26: However a message is split over \<open>poly1305_update\<close> calls, the limb arithmetic never overflows into a
  wrong tag: \<open>poly1305_finish\<close> returns the tag of RFC 8439, computed over the integers modulo \<open>2\<^sup>130 - 5\<close>.\<close>

theorem poly1305_streaming:
  assumes "length (p_buffer st) = 16" "32 \<le> length key"
  shows "poly1305_finish (fold poly1305_update css (poly1305_init key st)) = poly1305_reference key (concat css)"
  by (rule poly1305_stream_reference[OF assms])

theorem poly1305_streaming_witness:
  "poly1305_finish (fold poly1305_update [[97], [98, 99]] (poly1305_init (replicate 32 7)
     \<lparr>p_r = (0, 0, 0, 0, 0), p_h = (0, 0, 0, 0, 0), p_pad = [], p_leftover = 0, p_buffer = replicate 16 0, p_final = 0\<rparr>)) =
   poly1305_reference (replicate 32 7) [97, 98, 99]"
  using poly1305_streaming[of "\<lparr>p_r = (0, 0, 0, 0, 0), p_h = (0, 0, 0, 0, 0), p_pad = [], p_leftover = 0,
      p_buffer = replicate 16 0, p_final = 0\<rparr>" "replicate 32 7" "[[97], [98, 99]]"]
  by simp

end
