(* ===== verification/ChaChaSpec.thy ===== *)
theory ChaChaSpec
  imports Poly1305
begin

unbundle bit_operations_syntax

text \<open>
  The ChaCha20 block function as RFC 8439 describes it, without reference to the code: the state is four rows, a
  round works on the columns of the state or, after rotating the rows, on its diagonals, and words are
  little-endian numerals. The code's \<open>chacha20_block\<close> on the state \<open>chacha20_init\<close> builds is shown to be this function.
\<close>

section \<open>RFC 8439\<close>

fun rfc_quarter :: "u32 \<times> u32 \<times> u32 \<times> u32 \<Rightarrow> u32 \<times> u32 \<times> u32 \<times> u32" where
  "rfc_quarter (a, b, c, d) =
     (let a = a + b; d = word_rotl 16 (d XOR a);
          c = c + d; b = word_rotl 12 (b XOR c);
          a = a + b; d = word_rotl 8 (d XOR a);
          c = c + d; b = word_rotl 7 (b XOR c)
      in (a, b, c, d))"

declare rfc_quarter.simps [simp del]

type_synonym rows = "u32 list \<times> u32 list \<times> u32 list \<times> u32 list"

fun rfc_columns :: "rows \<Rightarrow> rows" where
  "rfc_columns (r0, r1, r2, r3) =
     (let q = map (\<lambda>j. rfc_quarter (r0 ! j, r1 ! j, r2 ! j, r3 ! j)) [0, 1, 2, 3]
      in (map fst q, map (fst \<circ> snd) q, map (fst \<circ> snd \<circ> snd) q, map (snd \<circ> snd \<circ> snd) q))"

fun rotate_rows :: "nat \<Rightarrow> nat \<Rightarrow> nat \<Rightarrow> rows \<Rightarrow> rows" where
  "rotate_rows i j k (r0, r1, r2, r3) = (r0, rotate i r1, rotate j r2, rotate k r3)"

definition rfc_diagonals :: "rows \<Rightarrow> rows" where
  "rfc_diagonals s = rotate_rows 3 2 1 (rfc_columns (rotate_rows 1 2 3 s))"

definition rfc_word :: "u8 list \<Rightarrow> nat \<Rightarrow> u32" where
  "rfc_word p i = of_nat (le_num (map ((!) (drop (4 * i) p)) [0, 1, 2, 3]))"

definition rfc_state :: "u8 list \<Rightarrow> u32 \<Rightarrow> u8 list \<Rightarrow> rows" where
  "rfc_state key counter nonce =
     (map (rfc_word (map of_char ''expand 32-byte k'')) [0, 1, 2, 3], map (rfc_word key) [0, 1, 2, 3],
      map (rfc_word key) [4, 5, 6, 7], counter # map (rfc_word nonce) [0, 1, 2])"

fun all_words :: "rows \<Rightarrow> u32 list" where
  "all_words (r0, r1, r2, r3) = r0 @ r1 @ r2 @ r3"

definition rfc_block :: "u8 list \<Rightarrow> u32 \<Rightarrow> u8 list \<Rightarrow> u8 list" where
  "rfc_block key counter nonce =
     (let s = rfc_state key counter nonce
      in concat (map (\<lambda>w. le_bytes 4 (unat w))
           (map2 (+) (all_words (((rfc_diagonals \<circ> rfc_columns) ^^ 10) s)) (all_words s))))"

text \<open>The key stream: block \<open>counter + k\<close> for the bytes from \<open>64 * k\<close> on.\<close>

definition rfc_keystream :: "u8 list \<Rightarrow> u32 \<Rightarrow> u8 list \<Rightarrow> nat \<Rightarrow> u8" where
  "rfc_keystream key counter nonce i = rfc_block key (counter + of_nat (i div 64)) nonce ! (i mod 64)"

section \<open>The code computes it\<close>

lemma rotl32_rotl:
  assumes "0 < n" "n < 32"
  shows "rotl32 x n = word_rotl n x"
proof (rule bit_eqI)
  fix i assume "possible_bit TYPE(u32) i"
  then have i: "i < 32" by (simp add: possible_bit_word)
  obtain m where m: "32 - n = m" by simp
  have l: "bit (rotl32 x n) i \<longleftrightarrow> n \<le> i \<and> bit x (i - n) \<or> bit x (m + i)"
    using i by (auto simp: rotl32_def m bit_simps)
  have r: "bit (word_rotl n x) i \<longleftrightarrow> bit x ((i + m) mod 32)"
    using i assms by (simp add: bit_word_rotl_iff m)
  show "bit (rotl32 x n) i = bit (word_rotl n x) i"
  proof (cases "n \<le> i")
    case True
    then have "i + m = (i - n) + 32" using m assms by simp
    then have "(i + m) mod 32 = i - n" "32 \<le> m + i" using i by simp_all
    then show ?thesis unfolding l r using True bit_imp_le_length[of x "m + i"] by auto
  next
    case False
    then have "(i + m) mod 32 = m + i" using m assms by auto
    then show ?thesis unfolding l r using False by simp
  qed
qed

lemma QR_quarter:
  assumes "rfc_quarter (x ! i, x ! j, x ! k, x ! l) = (a, b, c, d)"
  shows "QR i j k l x = x[i := a, j := b, k := c, l := d]"
proof -
  have "QR i j k l x = (case rfc_quarter (x ! i, x ! j, x ! k, x ! l) of (a, b, c, d) \<Rightarrow> x[i := a, j := b, k := c, l := d])"
    by (simp add: QR_def rotl32_rotl Let_def rfc_quarter.simps)
  then show ?thesis using assms by simp
qed

text \<open>The code's indices are those of the columns and of the diagonals of the four rows.\<close>

lemma columns_code:
  "QR 3 7 11 15 (QR 2 6 10 14 (QR 1 5 9 13 (QR 0 4 8 12
     (all_words ([a0, a1, a2, a3], [b0, b1, b2, b3], [c0, c1, c2, c3], [d0, d1, d2, d3]))))) =
   all_words (rfc_columns ([a0, a1, a2, a3], [b0, b1, b2, b3], [c0, c1, c2, c3], [d0, d1, d2, d3]))"
proof -
  obtain x0 y0 z0 w0 where q0: "rfc_quarter (a0, b0, c0, d0) = (x0, y0, z0, w0)" by (metis prod_cases4)
  obtain x1 y1 z1 w1 where q1: "rfc_quarter (a1, b1, c1, d1) = (x1, y1, z1, w1)" by (metis prod_cases4)
  obtain x2 y2 z2 w2 where q2: "rfc_quarter (a2, b2, c2, d2) = (x2, y2, z2, w2)" by (metis prod_cases4)
  obtain x3 y3 z3 w3 where q3: "rfc_quarter (a3, b3, c3, d3) = (x3, y3, z3, w3)" by (metis prod_cases4)
  show ?thesis
    by (simp add: QR_quarter[where a = x0 and b = y0 and c = z0 and d = w0] QR_quarter[where a = x1 and b = y1 and c = z1 and d = w1]
        QR_quarter[where a = x2 and b = y2 and c = z2 and d = w2] QR_quarter[where a = x3 and b = y3 and c = z3 and d = w3] q0 q1 q2 q3)
qed

lemma diagonals_code:
  "QR 3 4 9 14 (QR 2 7 8 13 (QR 1 6 11 12 (QR 0 5 10 15
     (all_words ([a0, a1, a2, a3], [b0, b1, b2, b3], [c0, c1, c2, c3], [d0, d1, d2, d3]))))) =
   all_words (rfc_diagonals ([a0, a1, a2, a3], [b0, b1, b2, b3], [c0, c1, c2, c3], [d0, d1, d2, d3]))"
proof -
  obtain x0 y0 z0 w0 where q0: "rfc_quarter (a0, b1, c2, d3) = (x0, y0, z0, w0)" by (metis prod_cases4)
  obtain x1 y1 z1 w1 where q1: "rfc_quarter (a1, b2, c3, d0) = (x1, y1, z1, w1)" by (metis prod_cases4)
  obtain x2 y2 z2 w2 where q2: "rfc_quarter (a2, b3, c0, d1) = (x2, y2, z2, w2)" by (metis prod_cases4)
  obtain x3 y3 z3 w3 where q3: "rfc_quarter (a3, b0, c1, d2) = (x3, y3, z3, w3)" by (metis prod_cases4)
  have rot: "rotate 1 [e, f, g, h] = [f, g, h, e]" "rotate 2 [e, f, g, h] = [g, h, e, f]" "rotate 3 [e, f, g, h] = [h, e, f, g]"
    for e f g h :: u32 by (simp_all add: numeral_eq_Suc)
  show ?thesis
    unfolding rfc_diagonals_def rotate_rows.simps rot
    by (simp add: QR_quarter[where a = x0 and b = y0 and c = z0 and d = w0] QR_quarter[where a = x1 and b = y1 and c = z1 and d = w1]
        QR_quarter[where a = x2 and b = y2 and c = z2 and d = w2] QR_quarter[where a = x3 and b = y3 and c = z3 and d = w3]
        q0 q1 q2 q3 rot[unfolded One_nat_def] del: rotate_Suc)
qed

definition four_rows :: "rows \<Rightarrow> bool" where
  "four_rows s = (case s of (r0, r1, r2, r3) \<Rightarrow> length r0 = 4 \<and> length r1 = 4 \<and> length r2 = 4 \<and> length r3 = 4)"

lemma length4: "length (xs :: 'a list) = 4 \<longleftrightarrow> (\<exists>a b c d. xs = [a, b, c, d])"
  by (auto simp: numeral_eq_Suc length_Suc_conv)

lemma four_rows_step: "four_rows s \<Longrightarrow> four_rows (rfc_columns s)" "four_rows s \<Longrightarrow> four_rows (rfc_diagonals s)"
  by (cases s; simp add: four_rows_def rfc_diagonals_def)+

lemma double_round_code:
  assumes "four_rows s"
  shows "double_round (all_words s) = all_words (rfc_diagonals (rfc_columns s))"
proof -
  have c: "all_words (rfc_columns s) = QR 3 7 11 15 (QR 2 6 10 14 (QR 1 5 9 13 (QR 0 4 8 12 (all_words s))))"
    using assms by (cases s) (auto simp: four_rows_def length4 columns_code simp del: all_words.simps rfc_columns.simps One_nat_def)
  have "all_words (rfc_diagonals t) = QR 3 4 9 14 (QR 2 7 8 13 (QR 1 6 11 12 (QR 0 5 10 15 (all_words t))))" if "four_rows t" for t
    using that by (cases t) (auto simp: four_rows_def length4 diagonals_code simp del: all_words.simps rfc_columns.simps One_nat_def)
  from this[OF four_rows_step(1)[OF assms]] show ?thesis unfolding c double_round_def Let_def by simp
qed

lemma double_rounds_code:
  "four_rows s \<Longrightarrow> (double_round ^^ n) (all_words s) = all_words (((rfc_diagonals \<circ> rfc_columns) ^^ n) s) \<and>
     four_rows (((rfc_diagonals \<circ> rfc_columns) ^^ n) s)"
  by (induction n) (simp_all add: double_round_code four_rows_step)

lemma load32_rfc_word: "load32_le (drop (4 * i) p) = rfc_word p i"
proof -
  let ?q = "map ((!) (drop (4 * i) p)) [0, 1, 2, 3]"
  have "load32_le (drop (4 * i) p) = load32_le ?q" by (simp add: load32_le_def numeral_eq_Suc)
  moreover have "unat (load32_le ?q) = le_num ?q"
    using load32_le_num[of ?q] le_num_less[of ?q] by simp
  then have "load32_le ?q = of_nat (le_num ?q)" by (metis of_nat_unat ucast_id)
  ultimately show ?thesis by (simp only: rfc_word_def)
qed

lemma init_code: "chacha20_init key counter nonce = all_words (rfc_state key counter nonce)"
proof -
  have "map (rfc_word (map of_char ''expand 32-byte k'')) [0, 1, 2, 3] = [0x61707865, 0x3320646e, 0x79622d32, 0x6b206574]"
    by (simp add: rfc_word_def of_char_def)
  moreover have "[0 ..< 8] = [0, 1, 2, 3, 4, 5, 6, 7 :: nat]" by code_simp
  ultimately show ?thesis
    using load32_rfc_word[of 0 nonce] load32_rfc_word[of 1 nonce] load32_rfc_word[of 2 nonce]
    by (simp add: chacha20_init_def rfc_state_def load32_rfc_word)
qed

lemma block_code: "chacha20_block (chacha20_init key counter nonce) = rfc_block key counter nonce"
proof -
  let ?s = "rfc_state key counter nonce"
  have r: "four_rows ?s" by (simp add: four_rows_def rfc_state_def)
  let ?x = "all_words (((rfc_diagonals \<circ> rfc_columns) ^^ 10) ?s)"
  have "length ?x = 16" using double_rounds_code[OF r, of 10] by (auto simp: four_rows_def)
  moreover have "length (all_words ?s) = 16" by (simp add: rfc_state_def)
  ultimately have m: "map2 (+) ?x (all_words ?s) = map (\<lambda>i. ?x ! i + all_words ?s ! i) [0 ..< 16]"
    by (intro nth_equalityI) simp_all
  have d: "(double_round ^^ 10) (all_words ?s) = ?x" using double_rounds_code[OF r, of 10] by blast
  show ?thesis
    unfolding chacha20_block_def rfc_block_def Let_def init_code d m
    by (simp add: store32_le_bytes comp_def del: upt_rec_numeral)
qed

lemma length_rfc_block [simp]: "length (rfc_block key counter nonce) = 64"
  by (simp flip: block_code)

lemma keystream_rfc: "keystream key counter nonce i = rfc_keystream key counter nonce i"
  by (simp add: keystream_def rfc_keystream_def block_code)

end
