(* ===== verification/Aead.thy ===== *)
theory Aead
  imports ChaChaSpec
begin

unbundle bit_operations_syntax

text \<open>
  The AEAD construction of \<open>crypto/chacha20poly1305.c\<close>, built from the stream cipher and the authenticator.
  Decryption returns \<open>None\<close> where the C function returns false; the plaintext buffer is then untouched.
\<close>

section \<open>The code\<close>

definition poly1305_key_gen :: "u8 list \<Rightarrow> u8 list \<Rightarrow> u8 list" where
  "poly1305_key_gen key nonce = take 32 (chacha20_block (chacha20_init key 0 nonce))"

definition poly_ctx0 :: poly1305_ctx where
  "poly_ctx0 = \<lparr>p_r = (0, 0, 0, 0, 0), p_h = (0, 0, 0, 0, 0), p_pad = [0, 0, 0, 0], p_leftover = 0,
     p_buffer = replicate 16 0, p_final = 0\<rparr>"

definition length_bytes :: "nat \<Rightarrow> u8 list" where
  "length_bytes len = map (\<lambda>i. of_nat (len div 2 ^ (8 * i))) [0 ..< 8]"

definition aead_mac :: "u8 list \<Rightarrow> u8 list \<Rightarrow> u8 list \<Rightarrow> u8 list" where
  "aead_mac poly_key aad ct =
     (let poly_zeros = replicate 16 0;
          st = poly1305_init poly_key poly_ctx0;
          st = poly1305_update aad st;
          st = (if length aad mod 16 \<noteq> 0 then poly1305_update (take (16 - length aad mod 16) poly_zeros) st else st);
          st = poly1305_update ct st;
          st = (if length ct mod 16 \<noteq> 0 then poly1305_update (take (16 - length ct mod 16) poly_zeros) st else st);
          st = poly1305_update (length_bytes (length aad) @ length_bytes (length ct)) st
      in poly1305_finish st)"

definition chacha20poly1305_encrypt :: "u8 list \<Rightarrow> u8 list \<Rightarrow> u8 list \<Rightarrow> u8 list \<Rightarrow> u8 list \<times> u8 list" where
  "chacha20poly1305_encrypt key nonce aad pt =
     (let poly_key = poly1305_key_gen key nonce;
          ct = chacha20_xor pt key 1 nonce
      in (ct, aead_mac poly_key aad ct))"

definition tag_diff :: "u8 list \<Rightarrow> u8 list \<Rightarrow> u8" where
  "tag_diff expect tag = fold (\<lambda>i diff. diff OR (expect ! i XOR tag ! i)) [0 ..< 16] 0"

definition chacha20poly1305_decrypt :: "u8 list \<Rightarrow> u8 list \<Rightarrow> u8 list \<Rightarrow> u8 list \<Rightarrow> u8 list \<Rightarrow> u8 list option" where
  "chacha20poly1305_decrypt key nonce aad ct tag =
     (let poly_key = poly1305_key_gen key nonce;
          expect = aead_mac poly_key aad ct
      in if tag_diff expect tag \<noteq> 0 then None else Some (chacha20_xor ct key 1 nonce))"

section \<open>The standard's construction\<close>

definition pad16 :: "u8 list \<Rightarrow> u8 list" where
  "pad16 xs = xs @ replicate ((16 - length xs mod 16) mod 16) 0"

definition aead_tag :: "u8 list \<Rightarrow> u8 list \<Rightarrow> u8 list \<Rightarrow> u8 list \<Rightarrow> u8 list" where
  "aead_tag key nonce aad ct =
     poly1305_reference (take 32 (rfc_block key 0 nonce))
       (pad16 aad @ pad16 ct @ le_bytes 8 (length aad) @ le_bytes 8 (length ct))"

section \<open>Correctness\<close>

lemma length_bytes_le: "length_bytes n = le_bytes 8 n"
proof -
  have "le_bytes k n = map (\<lambda>i. of_nat (n div 2 ^ (8 * i))) [0 ..< k]" for k
  proof (induction k arbitrary: n)
    case (Suc k)
    have "n div 256 div 2 ^ (8 * i) = n div 2 ^ (8 * Suc i)" for i by (simp add: div_mult2_eq[symmetric] power_add)
    then show ?case using Suc[of "n div 256"] by (simp only: le_bytes.simps upt_conv_Cons map_Suc_upt[symmetric] list.map zero_less_Suc) simp
  qed simp
  then show ?thesis by (simp add: length_bytes_def)
qed

lemma aead_mac_reference:
  assumes "32 \<le> length k"
  shows "aead_mac k aad ct =
    poly1305_reference k (pad16 aad @ pad16 ct @ le_bytes 8 (length aad) @ le_bytes 8 (length ct))"
proof -
  let ?z = "\<lambda>xs. if length xs mod 16 \<noteq> 0 then [replicate (16 - length xs mod 16) 0] else []"
  let ?css = "[aad] @ ?z aad @ [ct] @ ?z ct @ [length_bytes (length aad) @ length_bytes (length ct)]"
  have "aead_mac k aad ct = poly1305_finish (fold poly1305_update ?css (poly1305_init k poly_ctx0))"
    by (simp add: aead_mac_def Let_def min_def)
  also have "\<dots> = poly1305_reference k (concat ?css)"
    using poly1305_stream_reference[of poly_ctx0 k ?css] assms by (simp add: poly_ctx0_def)
  also have "concat ?css = pad16 aad @ pad16 ct @ le_bytes 8 (length aad) @ le_bytes 8 (length ct)"
    by (simp add: pad16_def length_bytes_le)
  finally show ?thesis .
qed

lemma tag_diff_zero: "tag_diff e t = 0 \<longleftrightarrow> (\<forall>i < 16. e ! i = t ! i)"
proof -
  have x: "a XOR b = 0 \<longleftrightarrow> a = b" for a b :: u8
  proof
    assume "a XOR b = 0"
    then have "(a XOR b) XOR b = 0 XOR b" by (rule arg_cong)
    then show "a = b" by (simp add: xor.assoc)
  qed simp
  have "fold (\<lambda>i diff. diff OR (e ! i XOR t ! i)) xs d = 0 \<longleftrightarrow> d = 0 \<and> (\<forall>i \<in> set xs. e ! i = t ! i)" for xs d
    by (induction xs arbitrary: d) (auto simp: or_eq_0_iff x)
  then show ?thesis by (auto simp: tag_diff_def)
qed

lemma length_le_bytes [simp]: "length (le_bytes n v) = n"
  by (induction n arbitrary: v) simp_all

lemma length_poly1305_reference [simp]: "length (poly1305_reference k m) = 16"
  by (simp add: poly1305_reference_def Let_def)

lemma mac_is_tag: "aead_mac (poly1305_key_gen key nonce) aad ct = aead_tag key nonce aad ct"
  using aead_mac_reference[of "poly1305_key_gen key nonce" aad ct] by (simp add: aead_tag_def poly1305_key_gen_def block_code)

lemma decrypt_cases:
  assumes "length tag = 16"
  shows "chacha20poly1305_decrypt key nonce aad ct tag =
    (if tag = aead_tag key nonce aad ct then Some (chacha20_xor ct key 1 nonce) else None)"
proof -
  have "length (aead_tag key nonce aad ct) = 16" by (simp add: aead_tag_def)
  then have "tag_diff (aead_tag key nonce aad ct) tag = 0 \<longleftrightarrow> tag = aead_tag key nonce aad ct"
    using assms by (auto simp: tag_diff_zero list_eq_iff_nth_eq)
  then show ?thesis by (simp add: chacha20poly1305_decrypt_def Let_def mac_is_tag)
qed

section \<open>Properties\<close>

text \<open>C27: Decrypting what \<open>chacha20poly1305_encrypt\<close> produced, with the same key, nonce and additional data,
  gives the plaintext back; the ciphertext has the length of the plaintext and the tag 16 bytes.\<close>

theorem aead_roundtrip:
  "chacha20poly1305_decrypt key nonce aad (fst (chacha20poly1305_encrypt key nonce aad pt))
     (snd (chacha20poly1305_encrypt key nonce aad pt)) = Some pt \<and>
   length (fst (chacha20poly1305_encrypt key nonce aad pt)) = length pt \<and>
   length (snd (chacha20poly1305_encrypt key nonce aad pt)) = 16"
proof -
  let ?ct = "chacha20_xor pt key 1 nonce"
  have "length (aead_tag key nonce aad ?ct) = 16" by (simp add: aead_tag_def)
  then show ?thesis
    using decrypt_cases[of "aead_tag key nonce aad ?ct" key nonce aad ?ct]
    by (simp add: chacha20poly1305_encrypt_def Let_def mac_is_tag chacha20_xor_twice)
qed

text \<open>C28: \<open>chacha20poly1305_decrypt\<close> accepts a 16-byte tag exactly when it is the RFC 8439 tag of the padded
  additional data, padded ciphertext and lengths under the one-time key of block 0, and then returns the
  ciphertext combined with the key stream from block 1 on; every other tag is refused.\<close>

theorem aead_decrypt_authentic:
  assumes "length tag = 16"
  shows "(chacha20poly1305_decrypt key nonce aad ct tag \<noteq> None) = (tag = aead_tag key nonce aad ct) \<and>
    (case chacha20poly1305_decrypt key nonce aad ct tag of
       None \<Rightarrow> True
     | Some pt \<Rightarrow> length pt = length ct \<and> (\<forall>i < length ct. pt ! i = ct ! i XOR rfc_keystream key 1 nonce i))"
  using decrypt_cases[OF assms, of key nonce aad ct] by (simp add: chacha20_xor_nth keystream_rfc)

theorem aead_decrypt_authentic_witness:
  "(chacha20poly1305_decrypt (replicate 32 1) (replicate 12 2) [] [5] (replicate 16 9) \<noteq> None) =
   (replicate 16 9 = aead_tag (replicate 32 1) (replicate 12 2) [] [5])"
  using aead_decrypt_authentic[of "replicate 16 9" "replicate 32 1" "replicate 12 2" "[]" "[5]"] by simp

end
