(* ===== verification/X25519.thy ===== *)
theory X25519
  imports Prelude
begin

text \<open>
  The X25519 key exchange of \<open>crypto/x25519.c\<close>. A field element \<open>gf\<close> is a list of sixteen 64-bit
  words (\<open>i64\<close>) on which addition, subtraction and multiplication wrap and \<open>>>\<close> is the arithmetic shift,
  as on the target; the functions are those of the C file with their output returned. The lemmas move
  from words to integers: as long as the limbs are small enough no operation wraps, a multiplication
  of limbs up to \<open>2 ^ 18\<close> gives limbs up to \<open>2 ^ 17\<close>, and its value is the product modulo \<open>2 ^ 255 - 19\<close>.
\<close>

section \<open>Field arithmetic\<close>

type_synonym i64 = "64 word"
type_synonym gf = "i64 list"

definition gf_121665 :: gf where
  "gf_121665 = [0xDB41, 1] @ replicate 14 0"

definition car_step :: "nat \<Rightarrow> gf \<Rightarrow> gf" where
  "car_step i v =
     (let v = v[i := v ! i + push_bit 16 1];
          c = signed_drop_bit 16 (v ! i);
          j = (i + 1) * of_bool (i < 15);
          v = v[j := v ! j + (c - 1 + 37 * (c - 1) * of_bool (i = 15))]
      in v[i := v ! i - push_bit 16 c])"

definition car25519 :: "gf \<Rightarrow> gf" where
  "car25519 v = fold car_step [0..<16] v"

definition sel25519 :: "gf \<Rightarrow> gf \<Rightarrow> i64 \<Rightarrow> gf \<times> gf" where
  "sel25519 p q b =
     (let c = NOT (b - 1);
          t = map2 (\<lambda>x y. c AND (x XOR y)) p q
      in (map2 (XOR) p t, map2 (XOR) q t))"

definition gf_A :: "gf \<Rightarrow> gf \<Rightarrow> gf" where
  "gf_A a b = map2 (+) a b"

definition gf_Z :: "gf \<Rightarrow> gf \<Rightarrow> gf" where
  "gf_Z a b = map2 (-) a b"

text \<open>The sixteen by sixteen products, added up in the 31 words of \<open>t\<close>.\<close>

definition mul_rows :: "gf \<Rightarrow> gf \<Rightarrow> i64 list" where
  "mul_rows a b =
     fold (\<lambda>i t. fold (\<lambda>j t. t[i + j := t ! (i + j) + a ! i * b ! j]) [0..<16] t) [0..<16] (replicate 31 0)"

definition gf_M :: "gf \<Rightarrow> gf \<Rightarrow> gf" where
  "gf_M a b =
     (let t = mul_rows a b;
          t = fold (\<lambda>i t. t[i := t ! i + 38 * t ! (i + 16)]) [0..<15] t
      in car25519 (car25519 (take 16 t)))"

definition gf_S :: "gf \<Rightarrow> gf" where
  "gf_S a = gf_M a a"

definition inv_step :: "gf \<Rightarrow> nat \<Rightarrow> gf \<Rightarrow> gf" where
  "inv_step i a c = (let c = gf_S c in if a \<noteq> 2 \<and> a \<noteq> 4 then gf_M c i else c)"

definition inv25519 :: "gf \<Rightarrow> gf" where
  "inv25519 i = fold (inv_step i) (rev [0..<254]) i"

section \<open>Packing\<close>

definition pack_sub_step :: "gf \<Rightarrow> nat \<Rightarrow> gf \<Rightarrow> gf" where
  "pack_sub_step t i m =
     (let m = m[i := t ! i - 0xffff - (signed_drop_bit 16 (m ! (i - 1)) AND 1)]
      in m[i - 1 := m ! (i - 1) AND 0xffff])"

text \<open>
  One round of the loop over \<open>j\<close>: \<open>m = t - p\<close> limb by limb with its borrow, then \<open>t\<close> and \<open>m\<close> change
  places unless the subtraction borrowed.
\<close>

definition pack_round :: "gf \<Rightarrow> gf" where
  "pack_round t =
     (let m = fold (pack_sub_step t) [1..<15] ((replicate 16 0)[0 := t ! 0 - 0xffed]);
          m = m[15 := t ! 15 - 0x7fff - (signed_drop_bit 16 (m ! 14) AND 1)];
          b = signed_drop_bit 16 (m ! 15) AND 1;
          m = m[14 := m ! 14 AND 0xffff]
      in fst (sel25519 t m (1 - b)))"

definition pack25519 :: "gf \<Rightarrow> u8 list" where
  "pack25519 n =
     (let t = car25519 (car25519 (car25519 n));
          t = pack_round (pack_round t)
      in concat (map (\<lambda>x. [ucast (x AND 0xff), ucast (signed_drop_bit 8 x)]) t))"

definition unpack25519 :: "u8 list \<Rightarrow> gf" where
  "unpack25519 n =
     (let v = map (\<lambda>i. ucast (n ! (2 * i)) + push_bit 8 (ucast (n ! (2 * i + 1)))) [0..<16]
      in v[15 := v ! 15 AND 0x7fff])"

section \<open>The ladder\<close>

type_synonym ladder_state = "gf \<times> gf \<times> gf \<times> gf"

text \<open>The arithmetic of one round, between the two pairs of selections.\<close>

definition ladder_core :: "gf \<Rightarrow> ladder_state \<Rightarrow> ladder_state" where
  "ladder_core x s =
     (let (a, b, c, d) = s;
          e = gf_A a c;
          a = gf_Z a c;
          c = gf_A b d;
          b = gf_Z b d;
          d = gf_S e;
          f = gf_S a;
          a = gf_M c a;
          c = gf_M b e;
          e = gf_A a c;
          a = gf_Z a c;
          b = gf_S a;
          c = gf_Z d f;
          a = gf_M c gf_121665;
          a = gf_A a d;
          c = gf_M c a;
          a = gf_M d f;
          d = gf_M b x;
          b = gf_S e
      in (a, b, c, d))"

definition sel_pairs :: "i64 \<Rightarrow> ladder_state \<Rightarrow> ladder_state" where
  "sel_pairs r s =
     (let (a, b, c, d) = s;
          (a, b) = sel25519 a b r;
          (c, d) = sel25519 c d r
      in (a, b, c, d))"

definition ladder_step :: "gf \<Rightarrow> i64 \<Rightarrow> ladder_state \<Rightarrow> ladder_state" where
  "ladder_step x r s = sel_pairs r (ladder_core x (sel_pairs r s))"

definition clamp :: "u8 list \<Rightarrow> u8 list" where
  "clamp n =
     (let z = (take 32 n)[31 := (n ! 31 AND 127) OR 64]
      in z[0 := z ! 0 AND 248])"

definition scalar_bit :: "u8 list \<Rightarrow> nat \<Rightarrow> i64" where
  "scalar_bit z i = ucast (drop_bit (i mod 8) (z ! (i div 8)) AND 1)"

definition crypto_scalarmult :: "u8 list \<Rightarrow> u8 list \<Rightarrow> u8 list" where
  "crypto_scalarmult n p =
     (let z = clamp n;
          x = unpack25519 p;
          one = 1 # replicate 15 0;
          (a, b, c, d) = fold (\<lambda>i. ladder_step x (scalar_bit z i)) (rev [0..<255]) (one, x, replicate 16 0, one);
          c = inv25519 c;
          a = gf_M a c
      in pack25519 a)"

definition x25519_basepoint :: "u8 list" where
  "x25519_basepoint = 9 # replicate 31 0"

definition x25519_base :: "u8 list \<Rightarrow> u8 list" where
  "x25519_base priv = crypto_scalarmult priv x25519_basepoint"

definition x25519 :: "u8 list \<Rightarrow> u8 list \<Rightarrow> u8 list" where
  "x25519 priv peer_pub = crypto_scalarmult priv peer_pub"

section \<open>Limbs as integers\<close>

definition W :: "int list \<Rightarrow> gf" where
  "W xs = map of_int xs"

text \<open>The number a list of limbs stands for.\<close>

fun gval :: "int list \<Rightarrow> int" where
  "gval [] = 0"
| "gval (x # xs) = x + 2 ^ 16 * gval xs"

definition limbs_le :: "int \<Rightarrow> int list \<Rightarrow> bool" where
  "limbs_le b xs \<longleftrightarrow> length xs = 16 \<and> (\<forall>x \<in> set xs. \<bar>x\<bar> \<le> b)"

definition p25519 :: int where
  "p25519 = 2 ^ 255 - 19"

lemma length_W [simp]: "length (W xs) = length xs"
  by (simp add: W_def)

lemma W_nth [simp]: "i < length xs \<Longrightarrow> W xs ! i = of_int (xs ! i)"
  by (simp add: W_def)

lemma W_update: "(W xs)[i := of_int x] = W (xs[i := x])"
  by (simp add: W_def map_update)

lemma W_append: "W (xs @ ys) = W xs @ W ys"
  by (simp add: W_def)

lemma gval_append: "gval (xs @ ys) = gval xs + 2 ^ (16 * length xs) * gval ys"
  by (induction xs) (simp_all add: algebra_simps power_add)

lemma gval_update:
  "i < length xs \<Longrightarrow> gval (xs[i := v]) = gval xs + (v - xs ! i) * 2 ^ (16 * i)"
proof (induction xs arbitrary: i)
  case (Cons x xs)
  show ?case
  proof (cases i)
    case (Suc j)
    then have IH: "gval (xs[j := v]) = gval xs + (v - xs ! j) * 2 ^ (16 * j)" using Cons by simp
    show ?thesis unfolding Suc list_update.simps nat.case gval.simps IH nth_Cons_Suc
      by (simp add: algebra_simps power_add)
  qed simp
qed simp

lemma gval_replicate_0 [simp]: "gval (replicate n 0) = 0"
  by (induction n) simp_all

lemma limbs_leD: "limbs_le b xs \<Longrightarrow> i < 16 \<Longrightarrow> \<bar>xs ! i\<bar> \<le> b"
  by (simp add: limbs_le_def)

lemma limbs_le_mono: "limbs_le b xs \<Longrightarrow> b \<le> c \<Longrightarrow> limbs_le c xs"
  by (auto simp: limbs_le_def)

text \<open>The congruence of the field.\<close>

definition feq :: "int \<Rightarrow> int \<Rightarrow> bool" where
  "feq a b \<longleftrightarrow> a mod p25519 = b mod p25519"

lemma feq_refl [simp]: "feq a a"
  by (simp add: feq_def)

lemma feq_sym: "feq a b \<Longrightarrow> feq b a"
  by (simp add: feq_def)

lemma feq_trans [trans]: "feq a b \<Longrightarrow> feq b c \<Longrightarrow> feq a c"
  by (simp add: feq_def)

lemma feq_add: "feq a b \<Longrightarrow> feq c d \<Longrightarrow> feq (a + c) (b + d)"
  unfolding feq_def by (rule mod_add_cong)

lemma feq_diff: "feq a b \<Longrightarrow> feq c d \<Longrightarrow> feq (a - c) (b - d)"
  unfolding feq_def by (rule mod_diff_cong)

lemma feq_mult: "feq a b \<Longrightarrow> feq c d \<Longrightarrow> feq (a * c) (b * d)"
  unfolding feq_def by (rule mod_mult_cong)

lemma feq_38: "feq (a + 2 ^ 256 * q) (a + 38 * q)"
proof -
  have "a + 2 ^ 256 * q = a + 38 * q + p25519 * (2 * q)" by (simp add: p25519_def algebra_simps)
  then show ?thesis by (simp only: feq_def mod_mult_self2)
qed

section \<open>Carrying\<close>

fun carry :: "int list \<Rightarrow> int list" where
  "carry [] = []"
| "carry [x] = [x]"
| "carry (x # y # xs) = (x mod 2 ^ 16) # carry ((y + x div 2 ^ 16) # xs)"

definition car_int :: "int list \<Rightarrow> int list" where
  "car_int xs =
     (let ys = carry xs; q = last ys div 2 ^ 16
      in (ys[15 := last ys mod 2 ^ 16])[0 := ys ! 0 + 38 * q])"

lemma length_carry [simp]: "length (carry xs) = length xs"
  by (induction xs rule: carry.induct) auto

lemma carry_nonempty [simp]: "carry xs = [] \<longleftrightarrow> xs = []"
  by (metis length_0_conv length_carry)

lemma carry_last_nth: "length v = 16 \<Longrightarrow> last (carry v) = carry v ! 15"
  by (subst last_conv_nth) auto

lemma gval_carry: "gval (carry xs) = gval xs"
proof (induction xs rule: carry.induct)
  case (3 x y xs)
  then show ?case using mult_div_mod_eq[of "2 ^ 16" x] by (simp add: algebra_simps)
qed auto

lemma carry_range: "i + 1 < length xs \<Longrightarrow> 0 \<le> carry xs ! i \<and> carry xs ! i < 2 ^ 16"
proof (induction xs arbitrary: i rule: carry.induct)
  case (3 x y xs)
  then show ?case by (cases i) auto
qed auto

lemma div_bound: "\<bar>x\<bar> \<le> 2 ^ 16 * q \<Longrightarrow> \<bar>x div 2 ^ 16 :: int\<bar> \<le> q"
proof -
  assume x: "\<bar>x\<bar> \<le> 2 ^ 16 * q"
  have "x div 2 ^ 16 \<le> (2 ^ 16 * q) div 2 ^ 16" using x by (intro zdiv_mono1) auto
  moreover have "(2 ^ 16 * (- q)) div 2 ^ 16 \<le> x div 2 ^ 16" using x by (intro zdiv_mono1) auto
  ultimately show ?thesis by simp
qed

lemma carry_last:
  assumes "\<bar>x\<bar> \<le> 2 ^ 16 * q" "\<forall>y \<in> set xs. \<bar>y\<bar> \<le> b" "b + q \<le> 2 ^ 16 * q" "xs \<noteq> []"
  shows "\<bar>last (carry (x # xs))\<bar> \<le> b + q"
  using assms
proof (induction xs arbitrary: x)
  case (Cons y xs)
  have y: "\<bar>y + x div 2 ^ 16\<bar> \<le> b + q" using div_bound[OF Cons.prems(1)] Cons.prems(2) by auto
  show ?case
  proof (cases "xs = []")
    case False
    then show ?thesis using Cons.IH[of "y + x div 2 ^ 16"] Cons.prems y by simp
  qed (use y in simp)
qed simp

text \<open>The words follow the integers while the limbs stay below \<open>2 ^ 47\<close>.\<close>

lemma sint_of_int: "- (2 ^ 63) \<le> x \<Longrightarrow> x < 2 ^ 63 \<Longrightarrow> sint (of_int x :: i64) = x"
  by (simp add: signed_of_int signed_take_bit_int_eq_self)

lemma signed_drop_of_int:
  assumes "- (2 ^ 63) \<le> x" "x < 2 ^ 63"
  shows "signed_drop_bit n (of_int x :: i64) = of_int (x div 2 ^ n)"
proof -
  have "signed_drop_bit n (of_int x :: i64) = of_int (sint (signed_drop_bit n (of_int x :: i64)))" by simp
  also have "sint (signed_drop_bit n (of_int x :: i64)) = drop_bit n (sint (of_int x :: i64))"
    by (simp add: sint_signed_drop_bit_eq)
  finally show ?thesis using assms by (simp add: sint_of_int drop_bit_eq_div)
qed

lemma push_bit_of_int: "push_bit n (of_int x :: i64) = of_int (x * 2 ^ n)"
  by (simp add: push_bit_eq_mult)

lemma car_step_W:
  assumes "length xs = 16" "i < 16" "\<bar>xs ! i\<bar> \<le> 2 ^ 47"
  shows "car_step i (W xs) =
    (if i < 15 then W (xs[i := xs ! i mod 2 ^ 16, Suc i := xs ! Suc i + xs ! i div 2 ^ 16])
     else W (xs[15 := xs ! 15 mod 2 ^ 16, 0 := xs ! 0 + 38 * (xs ! 15 div 2 ^ 16)]))"
proof -
  let ?x = "xs ! i"
  have add: "W xs ! i + push_bit 16 1 = of_int (?x + 2 ^ 16)" using assms by (simp add: push_bit_eq_mult)
  have "(?x + 2 ^ 16) div 2 ^ 16 = ?x div 2 ^ 16 + 1" by (rule div_add_self2) simp
  then have shift: "signed_drop_bit 16 (of_int (?x + 2 ^ 16) :: i64) = of_int (?x div 2 ^ 16 + 1)"
    using assms(3) signed_drop_of_int[of "?x + 2 ^ 16" 16] by auto
  have low: "(of_int (?x + 2 ^ 16) :: i64) - push_bit 16 (of_int (?x div 2 ^ 16 + 1)) = of_int (?x mod 2 ^ 16)"
  proof -
    have "?x + 2 ^ 16 - (?x div 2 ^ 16 + 1) * 2 ^ 16 = ?x mod 2 ^ 16"
      using mult_div_mod_eq[of "2 ^ 16" ?x] by (simp add: algebra_simps)
    then show ?thesis unfolding push_bit_of_int by (metis of_int_diff)
  qed
  show ?thesis
  proof (cases "i < 15")
    case True
    then show ?thesis
      using assms add shift low by (simp add: car_step_def Let_def W_def map_update list_update_swap[of i "Suc i"] nth_list_update)
  next
    case False
    then have "i = 15" using assms(2) by simp
    then show ?thesis
      using assms add shift low by (simp add: car_step_def Let_def W_def map_update list_update_swap[of 15 0] nth_list_update)
  qed
qed

lemma fold_car_step:
  assumes "length pre + length xs = 15" "\<bar>x\<bar> \<le> 2 ^ 47" "\<forall>y \<in> set xs. \<bar>y\<bar> \<le> 2 ^ 46"
  shows "fold car_step [length pre..<15] (W (pre @ x # xs)) = W (pre @ carry (x # xs))"
  using assms
proof (induction xs arbitrary: pre x)
  case (Cons y xs)
  have len: "length pre < 15" "length (pre @ x # y # xs) = 16" using Cons.prems(1) by simp_all
  have "car_step (length pre) (W (pre @ x # y # xs)) = W ((pre @ [x mod 2 ^ 16]) @ (y + x div 2 ^ 16) # xs)"
    using car_step_W[OF len(2), of "length pre"] len(1) Cons.prems(2) by (simp add: nth_append list_update_append)
  moreover have "\<bar>x\<bar> \<le> 2 ^ 16 * 2 ^ 31" using Cons.prems(2) by simp
  then have "\<bar>y + x div 2 ^ 16\<bar> \<le> 2 ^ 47" using div_bound[of x "2 ^ 31"] Cons.prems(3) by fastforce
  then have "fold car_step [length (pre @ [x mod 2 ^ 16])..<15] (W ((pre @ [x mod 2 ^ 16]) @ (y + x div 2 ^ 16) # xs)) =
      W ((pre @ [x mod 2 ^ 16]) @ carry ((y + x div 2 ^ 16) # xs))"
    using Cons.IH[of "pre @ [x mod 2 ^ 16]" "y + x div 2 ^ 16"] Cons.prems by simp
  ultimately show ?case using len(1) by (simp add: upt_conv_Cons)
qed simp

lemma limbs_le_Cons: "limbs_le b v \<Longrightarrow> \<exists>x xs. v = x # xs \<and> length xs = 15 \<and> \<bar>x\<bar> \<le> b \<and> (\<forall>y \<in> set xs. \<bar>y\<bar> \<le> b)"
  by (cases v) (auto simp: limbs_le_def)

lemma car25519_W:
  assumes "limbs_le (2 ^ 46) v"
  shows "car25519 (W v) = W (car_int v)"
proof -
  obtain x xs where v: "v = x # xs" "length xs = 15" "\<bar>x\<bar> \<le> 2 ^ 46" "\<forall>y \<in> set xs. \<bar>y\<bar> \<le> 2 ^ 46"
    using limbs_le_Cons[OF assms] by blast
  have len: "length (carry v) = 16" using v by simp
  then have last: "last (carry v) = carry v ! 15" by (intro carry_last_nth) simp
  have "\<bar>last (carry (x # xs))\<bar> \<le> 2 ^ 46 + 2 ^ 31" using v by (intro carry_last) auto
  then have "\<bar>carry v ! 15\<bar> \<le> 2 ^ 47" using v(1) last by simp
  moreover have "fold car_step [0..<15] (W v) = W (carry v)" using fold_car_step[of "[]" xs x] v by auto
  moreover have "[0..<16] = [0..<15] @ [15 :: nat]" by (simp add: upt_conv_Cons)
  ultimately have "fold car_step [0..<16] (W v) = W ((carry v)[15 := carry v ! 15 mod 2 ^ 16, 0 := carry v ! 0 + 38 * (carry v ! 15 div 2 ^ 16)])"
    using car_step_W[OF len, of 15] by simp
  then show ?thesis unfolding car25519_def car_int_def Let_def last .
qed

lemma car_int_props:
  assumes "length v = 16"
  shows "length (car_int v) = 16" "feq (gval (car_int v)) (gval v)"
    "\<And>i. 0 < i \<Longrightarrow> i < 16 \<Longrightarrow> 0 \<le> car_int v ! i \<and> car_int v ! i < 2 ^ 16"
    "car_int v ! 0 = carry v ! 0 + 38 * (last (carry v) div 2 ^ 16)" "0 \<le> carry v ! 0" "carry v ! 0 < 2 ^ 16"
proof -
  have len: "length (carry v) = 16" using assms by simp
  then have last: "last (carry v) = carry v ! 15" by (intro carry_last_nth) simp
  let ?q = "carry v ! 15 div 2 ^ 16"
  show "length (car_int v) = 16" using len by (simp add: car_int_def Let_def)
  have "gval (car_int v) = gval ((carry v)[15 := carry v ! 15 mod 2 ^ 16]) + 38 * ?q"
    unfolding car_int_def Let_def last using len by (subst gval_update) simp_all
  also have "gval ((carry v)[15 := carry v ! 15 mod 2 ^ 16]) = gval v + (carry v ! 15 mod 2 ^ 16 - carry v ! 15) * 2 ^ 240"
    using len by (subst gval_update) (simp_all add: gval_carry)
  also have "carry v ! 15 mod 2 ^ 16 - carry v ! 15 = - (2 ^ 16 * ?q)" by (simp add: minus_mult_div_eq_mod [symmetric])
  finally have "gval (car_int v) = gval v + 2 ^ 256 * (- ?q) + 38 * ?q" by simp
  moreover have "feq (gval v + 2 ^ 256 * (- ?q)) (gval v + 38 * (- ?q))" by (rule feq_38)
  ultimately show "feq (gval (car_int v)) (gval v)" using feq_add[of _ _ "38 * ?q" "38 * ?q"] by fastforce
  show "0 \<le> car_int v ! i \<and> car_int v ! i < 2 ^ 16" if "0 < i" "i < 16" for i
    using that carry_range[of i v] len assms by (cases "i = 15") (auto simp: car_int_def Let_def last nth_list_update)
  show "car_int v ! 0 = carry v ! 0 + 38 * (last (carry v) div 2 ^ 16)"
    using len by (simp add: car_int_def Let_def)
  show "0 \<le> carry v ! 0" "carry v ! 0 < 2 ^ 16" using carry_range[of 0 v] assms by simp_all
qed

lemma limbs_leI:
  assumes "length v = 16" "\<bar>v ! 0\<bar> \<le> b" "\<And>i. 0 < i \<Longrightarrow> i < 16 \<Longrightarrow> \<bar>v ! i\<bar> \<le> b"
  shows "limbs_le b v"
  unfolding limbs_le_def using assms by (metis in_set_conv_nth neq0_conv)

lemma car_int_last:
  assumes "length v = 16" "\<bar>v ! 0\<bar> \<le> 2 ^ 16 * q" "\<And>i. 0 < i \<Longrightarrow> i < 16 \<Longrightarrow> \<bar>v ! i\<bar> \<le> b" "b + q \<le> 2 ^ 16 * k" "b + q \<le> 2 ^ 16 * q"
  shows "\<bar>last (carry v) div 2 ^ 16\<bar> \<le> k"
proof -
  obtain x xs where v: "v = x # xs" "length xs = 15" using assms(1) by (cases v) auto
  have "\<bar>xs ! j\<bar> \<le> b" if "j < 15" for j using assms(3)[of "Suc j"] v that by simp
  then have "\<forall>y \<in> set xs. \<bar>y\<bar> \<le> b" using v(2) by (auto simp: in_set_conv_nth)
  then have "\<bar>last (carry (x # xs))\<bar> \<le> b + q" using v assms(2,5) by (intro carry_last) auto
  then show ?thesis using div_bound[of "last (carry v)" k] assms(4) v(1) by simp
qed

text \<open>Two rounds of carrying bring any limbs below \<open>2 ^ 46\<close> down to \<open>2 ^ 17\<close>.\<close>

lemma car_int_twice:
  assumes "limbs_le (2 ^ 46) v"
  shows "limbs_le (2 ^ 37) (car_int v)" "limbs_le (2 ^ 17) (car_int (car_int v))"
proof -
  have len: "length v = 16" using assms by (simp add: limbs_le_def)
  note c1 = car_int_props[OF len]
  note c2 = car_int_props[OF c1(1)]
  have "\<bar>v ! 0\<bar> \<le> 2 ^ 16 * 2 ^ 31" using limbs_leD[OF assms, of 0] by simp
  moreover have "\<And>i. 0 < i \<Longrightarrow> i < 16 \<Longrightarrow> \<bar>v ! i\<bar> \<le> 2 ^ 46" using limbs_leD[OF assms] by simp
  ultimately have "\<bar>last (carry v) div 2 ^ 16\<bar> \<le> 2 ^ 31" by (rule car_int_last[OF len]) simp_all
  then have l0: "\<bar>car_int v ! 0\<bar> \<le> 2 ^ 37" using c1(4-6) by (simp add: abs_le_iff)
  have l1: "\<bar>car_int v ! i\<bar> \<le> 2 ^ 16" if "0 < i" "i < 16" for i using c1(3)[OF that] by simp
  have "\<bar>car_int v ! i\<bar> \<le> 2 ^ 37" if "0 < i" "i < 16" for i using c1(3)[OF that] by simp
  then show "limbs_le (2 ^ 37) (car_int v)" by (rule limbs_leI[OF c1(1) l0])
  have "\<bar>car_int v ! 0\<bar> \<le> 2 ^ 16 * 2 ^ 21" using l0 by simp
  then have "\<bar>last (carry (car_int v)) div 2 ^ 16\<bar> \<le> 33" using l1 by (rule car_int_last[OF c1(1)]) simp_all
  then have m0: "\<bar>car_int (car_int v) ! 0\<bar> \<le> 2 ^ 17" using c2(4-6) by (simp add: abs_le_iff)
  have "\<bar>car_int (car_int v) ! i\<bar> \<le> 2 ^ 17" if "0 < i" "i < 16" for i using c2(3)[OF that] by simp
  then show "limbs_le (2 ^ 17) (car_int (car_int v))" by (rule limbs_leI[OF c2(1) m0])
qed

section \<open>Multiplication\<close>

lemma map2_W: "map2 (+) (W xs) (W ys) = W (map2 (+) xs ys)" "map2 (-) (W xs) (W ys) = W (map2 (-) xs ys)"
  by (simp_all add: W_def map2_map_map zip_map_map list_eq_iff_nth_eq)

lemma gval_map2:
  "length xs = length ys \<Longrightarrow> gval (map2 (+) xs ys) = gval xs + gval ys"
  "length xs = length ys \<Longrightarrow> gval (map2 (-) xs ys) = gval xs - gval ys"
  by (induction xs ys rule: list_induct2) (simp_all add: algebra_simps)

lemma limbs_map2:
  assumes "limbs_le b xs" "limbs_le c ys"
  shows "limbs_le (b + c) (map2 (+) xs ys)" "limbs_le (b + c) (map2 (-) xs ys)"
proof -
  have "\<bar>x + y\<bar> \<le> b + c" "\<bar>x - y\<bar> \<le> b + c" if "(x, y) \<in> set (zip xs ys)" for x y
  proof -
    have "\<bar>x\<bar> \<le> b" "\<bar>y\<bar> \<le> c" using assms set_zip_leftD[OF that] set_zip_rightD[OF that] by (auto simp: limbs_le_def)
    then show "\<bar>x + y\<bar> \<le> b + c" "\<bar>x - y\<bar> \<le> b + c" by linarith+
  qed
  then show "limbs_le (b + c) (map2 (+) xs ys)" "limbs_le (b + c) (map2 (-) xs ys)"
    using assms by (auto simp: limbs_le_def)
qed

definition row_int :: "int list \<Rightarrow> int list \<Rightarrow> nat \<Rightarrow> int list \<Rightarrow> int list" where
  "row_int a b i t = fold (\<lambda>j t. t[i + j := t ! (i + j) + a ! i * b ! j]) [0..<16] t"

definition rows_int :: "int list \<Rightarrow> int list \<Rightarrow> int list" where
  "rows_int a b = fold (row_int a b) [0..<16] (replicate 31 0)"

lemma row_int_props:
  fixes a b :: "int list"
  assumes "length b = 16" "i < 16" "length t = 31" "n \<le> 16"
  defines "t' \<equiv> fold (\<lambda>j t. t[i + j := t ! (i + j) + a ! i * b ! j]) [0..<n] t"
  shows "length t' = 31" "gval t' = gval t + 2 ^ (16 * i) * (a ! i * gval (take n b))"
    "\<And>k. k < 31 \<Longrightarrow> t' ! k = t ! k + (if i \<le> k \<and> k < i + n then a ! i * b ! (k - i) else 0)"
proof -
  let ?t = "\<lambda>n. fold (\<lambda>j t. t[i + j := t ! (i + j) + a ! i * b ! j]) [0..<n] t"
  have "length (?t n) = 31 \<and> gval (?t n) = gval t + 2 ^ (16 * i) * (a ! i * gval (take n b)) \<and>
      (\<forall>k < 31. ?t n ! k = t ! k + (if i \<le> k \<and> k < i + n then a ! i * b ! (k - i) else 0))"
    using assms(4)
  proof (induction n)
    case 0
    then show ?case using assms(3) by simp
  next
    case (Suc n)
    then have IH: "length (?t n) = 31" "gval (?t n) = gval t + 2 ^ (16 * i) * (a ! i * gval (take n b))"
      "\<forall>k < 31. ?t n ! k = t ! k + (if i \<le> k \<and> k < i + n then a ! i * b ! (k - i) else 0)" by auto
    have "gval (take (Suc n) b) = gval (take n b) + 2 ^ (16 * n) * b ! n"
      using Suc.prems assms(1) by (simp add: take_Suc_conv_app_nth gval_append min_def)
    moreover have "gval (?t (Suc n)) = gval (?t n) + a ! i * b ! n * 2 ^ (16 * (i + n))"
      using IH(1) Suc.prems assms(2) by (simp add: gval_update)
    ultimately have "gval (?t (Suc n)) = gval t + 2 ^ (16 * i) * (a ! i * gval (take (Suc n) b))"
      using IH(2) by (simp add: algebra_simps power_add)
    moreover have "\<forall>k < 31. ?t (Suc n) ! k = t ! k + (if i \<le> k \<and> k < i + Suc n then a ! i * b ! (k - i) else 0)"
      using IH(1,3) Suc.prems assms(2) by (auto simp: nth_list_update)
    ultimately show ?case using IH(1) by simp
  qed
  then show "length t' = 31" "gval t' = gval t + 2 ^ (16 * i) * (a ! i * gval (take n b))"
    "\<And>k. k < 31 \<Longrightarrow> t' ! k = t ! k + (if i \<le> k \<and> k < i + n then a ! i * b ! (k - i) else 0)"
    unfolding t'_def by blast+
qed

lemma rows_int_props:
  assumes "limbs_le x a" "limbs_le y b" "n \<le> 16" "0 \<le> x" "0 \<le> y"
  defines "t \<equiv> fold (row_int a b) [0..<n] (replicate 31 0)"
  shows "length t = 31 \<and> gval t = gval (take n a) * gval b \<and> (\<forall>k < 31. \<bar>t ! k\<bar> \<le> int n * (x * y))"
  using assms(3) unfolding t_def
proof (induction n)
  case (Suc n)
  let ?t = "fold (row_int a b) [0..<n] (replicate 31 0)"
  have IH: "length ?t = 31" "gval ?t = gval (take n a) * gval b" "\<forall>k < 31. \<bar>?t ! k\<bar> \<le> int n * (x * y)" using Suc by auto
  have len: "length a = 16" "length b = 16" using assms(1,2) by (auto simp: limbs_le_def)
  note row = row_int_props[OF len(2) _ IH(1) order_refl, where i = n and a = a, folded row_int_def]
  have "gval (take (Suc n) a) = gval (take n a) + 2 ^ (16 * n) * a ! n"
    using Suc.prems len by (simp add: take_Suc_conv_app_nth gval_append min_def)
  then have "gval (row_int a b n ?t) = gval (take (Suc n) a) * gval b"
    using row(2) IH(2) Suc.prems len by (simp add: algebra_simps)
  moreover have "\<bar>row_int a b n ?t ! k\<bar> \<le> int (Suc n) * (x * y)" if "k < 31" for k
  proof -
    have "\<bar>if n \<le> k \<and> k < n + 16 then a ! n * b ! (k - n) else 0\<bar> \<le> x * y"
      using limbs_leD[OF assms(1), of n] limbs_leD[OF assms(2), of "k - n"] Suc.prems assms(4,5)
      by (auto simp: abs_mult intro!: mult_mono)
    moreover have "\<bar>?t ! k\<bar> \<le> int n * (x * y)" using IH(3) that by blast
    ultimately show ?thesis using row(3)[OF _ that] Suc.prems by (simp add: algebra_simps)
  qed
  ultimately show ?case using row(1) Suc.prems by simp
qed simp

lemma mul_rows_W:
  assumes "length a = 16" "length b = 16"
  shows "mul_rows (W a) (W b) = W (rows_int a b)"
proof -
  have row: "fold (\<lambda>j t. t[i + j := t ! (i + j) + W a ! i * W b ! j]) [0..<n] (W t) =
      W (fold (\<lambda>j t. t[i + j := t ! (i + j) + a ! i * b ! j]) [0..<n] t)" if "length t = 31" "i < 16" "n \<le> 16" for i t n
    using that(3)
  proof (induction n)
    case (Suc n)
    then show ?case using row_int_props(1)[OF assms(2) that(2,1), of n] that assms by (simp add: W_def map_update)
  qed simp
  have "fold (\<lambda>i t. fold (\<lambda>j t. t[i + j := t ! (i + j) + W a ! i * W b ! j]) [0..<16] t) [0..<n] (W (replicate 31 0)) =
      W (fold (row_int a b) [0..<n] (replicate 31 0)) \<and> length (fold (row_int a b) [0..<n] (replicate 31 0)) = 31" if "n \<le> 16" for n
    using that
  proof (induction n)
    case (Suc n)
    let ?t = "fold (row_int a b) [0..<n] (replicate 31 0)"
    have "length ?t = 31" "n < 16" using Suc by auto
    then show ?case
      using Suc row[of ?t n 16] row_int_props(1)[OF assms(2), where i = n and t = ?t and n = 16 and a = a]
      by (simp add: row_int_def[of a b n])
  qed simp
  from this[of 16] show ?thesis by (simp add: mul_rows_def rows_int_def W_def)
qed

text \<open>Folding the upper fifteen words back with \<open>2 ^ 256 = 38\<close>.\<close>

lemma fold_back_W:
  assumes "length t = 31" "n \<le> 15"
  shows "fold (\<lambda>i t. t[i := t ! i + 38 * t ! (i + 16)]) [0..<n] (W t) =
    W (map (\<lambda>i. if i < n then t ! i + 38 * t ! (i + 16) else t ! i) [0..<31])"
  using assms(2)
proof (induction n)
  case 0
  then show ?case using assms(1) by (auto simp: W_def list_eq_iff_nth_eq)
next
  case (Suc n)
  then show ?case by (auto simp: W_def list_eq_iff_nth_eq nth_list_update)
qed

definition back_int :: "int list \<Rightarrow> int list" where
  "back_int t = map (\<lambda>i. if i < 15 then t ! i + 38 * t ! (i + 16) else t ! i) [0..<16]"

lemma gval_map: "gval (map f [0..<n]) = (\<Sum>i < n. f i * 2 ^ (16 * i))"
  by (induction n) (simp_all add: gval_append)

lemma gval_back:
  assumes "length t = 31"
  shows "feq (gval (back_int t)) (gval t)"
proof -
  have t: "t = map ((!) t) [0..<31]" using assms by (simp add: list_eq_iff_nth_eq)
  have "gval t = (\<Sum>i < 16 + 15. t ! i * 2 ^ (16 * i))" by (subst t, subst gval_map) simp
  also have "\<dots> = (\<Sum>i < 16. t ! i * 2 ^ (16 * i)) + (\<Sum>i < 15. t ! (16 + i) * 2 ^ (16 * (16 + i)))"
    using sum.atLeastLessThan_concat[of 0 16 31 "\<lambda>i. t ! i * 2 ^ (16 * i)"]
      sum.shift_bounds_nat_ivl[of "\<lambda>i. t ! i * 2 ^ (16 * i)" 0 16 15]
    by (simp add: lessThan_atLeast0 add.commute)
  also have "(\<Sum>i < 15. t ! (16 + i) * 2 ^ (16 * (16 + i))) = 2 ^ 256 * (\<Sum>i < 15. t ! (16 + i) * 2 ^ (16 * i))"
    by (simp only: sum_distrib_left distrib_left power_add) (simp add: ac_simps)
  finally have "feq (gval t) ((\<Sum>i < 16. t ! i * 2 ^ (16 * i)) + 38 * (\<Sum>i < 15. t ! (16 + i) * 2 ^ (16 * i)))"
    using feq_38 by simp
  moreover have "gval (back_int t) = (\<Sum>i < 16. t ! i * 2 ^ (16 * i)) + 38 * (\<Sum>i < 15. t ! (16 + i) * 2 ^ (16 * i))"
  proof -
    have "gval (back_int t) = (\<Sum>i < Suc 15. (if i < 15 then t ! i + 38 * t ! (i + 16) else t ! i) * 2 ^ (16 * i))"
      unfolding back_int_def gval_map by simp
    also have "\<dots> = (\<Sum>i < 15. (t ! i + 38 * t ! (i + 16)) * 2 ^ (16 * i)) + t ! 15 * 2 ^ 240"
      by (simp only: sum.lessThan_Suc) simp
    also have "\<dots> = (\<Sum>i < Suc 15. t ! i * 2 ^ (16 * i)) + 38 * (\<Sum>i < 15. t ! (16 + i) * 2 ^ (16 * i))"
      by (simp only: sum.lessThan_Suc) (simp add: sum.distrib sum_distrib_left algebra_simps)
    finally show ?thesis by simp
  qed
  ultimately show ?thesis by (simp add: feq_sym)
qed

theorem gf_M_W:
  assumes "limbs_le (2 ^ 18) a" "limbs_le (2 ^ 18) b"
  shows "\<exists>c. gf_M (W a) (W b) = W c \<and> limbs_le (2 ^ 17) c \<and> feq (gval c) (gval a * gval b)"
proof -
  let ?t = "rows_int a b"
  have len: "length a = 16" "length b = 16" using assms by (auto simp: limbs_le_def)
  have rows: "length ?t = 31" "gval ?t = gval a * gval b" "\<forall>k < 31. \<bar>?t ! k\<bar> \<le> 16 * (2 ^ 18 * 2 ^ 18)"
    using rows_int_props[OF assms, of 16] len by (auto simp: rows_int_def)
  have len_back: "length (back_int ?t) = 16" by (simp add: back_int_def)
  have lim: "limbs_le (2 ^ 46) (back_int ?t)"
  proof -
    have "\<bar>back_int ?t ! i\<bar> \<le> 2 ^ 46" if "i < 16" for i
      using rows(3)[rule_format, of i] rows(3)[rule_format, of "i + 16"] that by (auto simp: back_int_def abs_le_iff)
    then show ?thesis using len_back by (intro limbs_leI) auto
  qed
  have "take 16 (fold (\<lambda>i t. t[i := t ! i + 38 * t ! (i + 16)]) [0..<15] (W ?t)) = W (back_int ?t)"
    using fold_back_W[OF rows(1), of 15] by (simp add: W_def back_int_def take_map)
  then have "gf_M (W a) (W b) = car25519 (car25519 (W (back_int ?t)))"
    by (simp add: gf_M_def Let_def mul_rows_W[OF len])
  also have "\<dots> = W (car_int (car_int (back_int ?t)))"
    using car25519_W[OF lim] car25519_W[OF limbs_le_mono[OF car_int_twice(1)[OF lim]]] by simp
  finally have "gf_M (W a) (W b) = W (car_int (car_int (back_int ?t)))" .
  moreover have "feq (gval (car_int (car_int (back_int ?t)))) (gval a * gval b)"
    using car_int_props(2)[OF len_back] car_int_props(2)[OF car_int_props(1)[OF len_back]] gval_back[OF rows(1)] rows(2)
    by (auto simp: feq_def)
  ultimately show ?thesis using car_int_twice(2)[OF lim] by blast
qed

end
