(* ===== verification/X25519Props.thy ===== *)
theory X25519Props
  imports X25519
begin

text \<open>
  X25519 as RFC 7748 defines it, over the integers modulo \<open>2 ^ 255 - 19\<close>, and that the limb arithmetic
  of \<open>crypto/x25519.c\<close> computes it for every scalar and every point, without overflow.
\<close>

section \<open>RFC 7748\<close>

definition le_val :: "u8 list \<Rightarrow> int" where
  "le_val bs = (\<Sum>i < length bs. uint (bs ! i) * 256 ^ i)"

definition le_bytes32 :: "int \<Rightarrow> u8 list" where
  "le_bytes32 v = map (\<lambda>i. of_int (v div 256 ^ i)) [0..<32]"

text \<open>Bits 0 to 2 and 255 of the scalar are cleared and bit 254 is set; bit 255 of the point is ignored.\<close>

definition decode_scalar :: "u8 list \<Rightarrow> int" where
  "decode_scalar k = le_val k mod 2 ^ 254 div 8 * 8 + 2 ^ 254"

definition decode_u :: "u8 list \<Rightarrow> int" where
  "decode_u u = le_val u mod 2 ^ 255"

type_synonym mont = "int \<times> int \<times> int \<times> int"

definition cswap :: "bool \<Rightarrow> mont \<Rightarrow> mont" where
  "cswap sw s = (case s of (x2, z2, x3, z3) \<Rightarrow> if sw then (x3, z3, x2, z2) else s)"

definition mont_step :: "int \<Rightarrow> mont \<Rightarrow> mont" where
  "mont_step x1 s =
     (case s of (x2, z2, x3, z3) \<Rightarrow>
      let A = x2 + z2; AA = A ^ 2; B = x2 - z2; BB = B ^ 2; E = AA - BB;
          C = x3 + z3; D = x3 - z3; DA = D * A; CB = C * B
      in (AA * BB mod p25519, E * (AA + 121665 * E) mod p25519,
          (DA + CB) ^ 2 mod p25519, x1 * (DA - CB) ^ 2 mod p25519))"

text \<open>The loop of the RFC, which delays every swap to the next round.\<close>

fun mont_loop :: "int \<Rightarrow> int \<Rightarrow> nat \<Rightarrow> mont \<times> bool \<Rightarrow> mont \<times> bool" where
  "mont_loop x1 k 0 st = st"
| "mont_loop x1 k (Suc t) (s, sw) =
     mont_loop x1 k t (mont_step x1 (cswap (sw \<noteq> bit k t) s), bit k t)"

definition rfc_x25519 :: "u8 list \<Rightarrow> u8 list \<Rightarrow> u8 list" where
  "rfc_x25519 k u =
     (let x1 = decode_u u;
          (s, sw) = mont_loop x1 (decode_scalar k) 255 ((1, 0, x1, 1), False);
          (x2, z2, x3, z3) = cswap sw s
      in le_bytes32 (x2 * z2 ^ nat (p25519 - 2) mod p25519))"

section \<open>Field elements\<close>

definition repr :: "gf \<Rightarrow> int \<Rightarrow> bool" where
  "repr g v \<longleftrightarrow> (\<exists>xs. g = W xs \<and> limbs_le (2 ^ 17) xs \<and> feq (gval xs) v)"

definition wide :: "gf \<Rightarrow> int \<Rightarrow> bool" where
  "wide g v \<longleftrightarrow> (\<exists>xs. g = W xs \<and> limbs_le (2 ^ 18) xs \<and> feq (gval xs) v)"

lemma repr_wide: "repr g v \<Longrightarrow> wide g v"
  unfolding repr_def wide_def using limbs_le_mono[of "2 ^ 17" _ "2 ^ 18"] by fastforce

lemma repr_feq: "repr g v \<Longrightarrow> feq v w \<Longrightarrow> repr g w"
  unfolding repr_def using feq_trans by blast

lemma feq_mod: "feq v (v mod p25519)"
  by (simp add: feq_def)

lemma wide_map2:
  assumes "repr a x" "repr b y"
  shows "wide (gf_A a b) (x + y)" "wide (gf_Z a b) (x - y)"
proof -
  obtain xs ys where xs: "a = W xs" "limbs_le (2 ^ 17) xs" "feq (gval xs) x"
    and ys: "b = W ys" "limbs_le (2 ^ 17) ys" "feq (gval ys) y" using assms by (auto simp: repr_def)
  have "length xs = length ys" using xs ys by (simp add: limbs_le_def)
  then show "wide (gf_A a b) (x + y)" "wide (gf_Z a b) (x - y)"
    unfolding wide_def gf_A_def gf_Z_def xs(1) ys(1) map2_W
    using limbs_map2[OF xs(2) ys(2)] feq_add[OF xs(3) ys(3)] feq_diff[OF xs(3) ys(3)]
    by (auto simp: gval_map2 intro!: exI)
qed

lemma repr_M:
  assumes "wide a x" "wide b y"
  shows "repr (gf_M a b) (x * y)"
proof -
  obtain xs ys where xs: "a = W xs" "limbs_le (2 ^ 18) xs" "feq (gval xs) x"
    and ys: "b = W ys" "limbs_le (2 ^ 18) ys" "feq (gval ys) y" using assms by (auto simp: wide_def)
  obtain c where "gf_M (W xs) (W ys) = W c" "limbs_le (2 ^ 17) c" "feq (gval c) (gval xs * gval ys)"
    using gf_M_W[OF xs(2) ys(2)] by blast
  then show ?thesis unfolding repr_def using xs ys feq_trans feq_mult by blast
qed

lemma repr_S: "wide a x \<Longrightarrow> repr (gf_S a) (x ^ 2)"
  using repr_M[of a x a x] by (simp add: gf_S_def power2_eq_square)

lemma repr_length: "repr g v \<Longrightarrow> length g = 16"
  by (auto simp: repr_def limbs_le_def)

lemma repr_121665: "repr gf_121665 121665"
  unfolding repr_def gf_121665_def
  by (intro exI[of _ "[0xDB41, 1] @ replicate 14 0"]) (simp add: W_def limbs_le_def)

section \<open>Constant-time selection\<close>

lemma sel25519_eq:
  assumes "length p = length q"
  shows "sel25519 p q 0 = (p, q)" "sel25519 p q 1 = (q, p)"
proof -
  have x: "x XOR (x XOR y) = y" "y XOR (x XOR y) = x" for x y :: i64
    by (rule bit_word_eqI; auto simp: bit_xor_iff)+
  show "sel25519 p q 0 = (p, q)" using assms by (simp add: sel25519_def Let_def list_eq_iff_nth_eq)
  show "sel25519 p q 1 = (q, p)" using assms by (simp add: sel25519_def Let_def list_eq_iff_nth_eq x)
qed

section \<open>One round of the ladder\<close>

fun repr4 :: "ladder_state \<Rightarrow> mont \<Rightarrow> bool" where
  "repr4 (a, b, c, d) (x2, z2, x3, z3) \<longleftrightarrow> repr a x2 \<and> repr b x3 \<and> repr c z2 \<and> repr d z3"

lemma sel_pairs_ok:
  assumes "repr4 g s"
  shows "repr4 (sel_pairs (of_bool r) g) (cswap r s)"
proof -
  obtain a b c d where g: "g = (a, b, c, d)" by (cases g)
  obtain x2 z2 x3 z3 where s: "s = (x2, z2, x3, z3)" by (cases s)
  have "length a = length b" "length c = length d" using assms g s repr_length by auto
  then show ?thesis using assms g s sel25519_eq[of a b] sel25519_eq[of c d]
    by (cases r) (simp_all add: sel_pairs_def cswap_def)
qed

lemma ladder_core_ok:
  assumes "repr4 g s" "repr x x1"
  shows "repr4 (ladder_core x g) (mont_step x1 s)"
proof -
  obtain a b c d where g: "g = (a, b, c, d)" by (cases g)
  obtain x2 z2 x3 z3 where s: "s = (x2, z2, x3, z3)" by (cases s)
  have h: "repr a x2" "repr b x3" "repr c z2" "repr d z3" using assms(1) g s by auto
  define DA CB E where "DA = (x3 - z3) * (x2 + z2)" and "CB = (x3 + z3) * (x2 - z2)" and "E = (x2 + z2) ^ 2 - (x2 - z2) ^ 2"
  define e where "e = gf_A a c"
  define dd f where "dd = gf_S e" and "f = gf_S (gf_Z a c)"
  define ca be cc where "ca = gf_M (gf_A b d) (gf_Z a c)" and "be = gf_M (gf_Z b d) e" and "cc = gf_Z dd f"
  have 1: "wide e (x2 + z2)" "wide (gf_Z a c) (x2 - z2)" "wide (gf_A b d) (x3 + z3)" "wide (gf_Z b d) (x3 - z3)"
    using h by (auto simp: e_def intro: wide_map2)
  have 2: "repr dd ((x2 + z2) ^ 2)" "repr f ((x2 - z2) ^ 2)" "repr ca CB" "repr be DA"
    unfolding dd_def f_def ca_def be_def CB_def DA_def using 1 by (blast intro: repr_S repr_M)+
  have 3: "wide (gf_A ca be) (CB + DA)" "wide (gf_Z ca be) (CB - DA)" "wide cc E"
    unfolding cc_def E_def using 2 by (blast intro: wide_map2)+
  have 4: "repr (gf_M cc gf_121665) (E * 121665)" by (rule repr_M[OF 3(3) repr_wide[OF repr_121665]])
  have 5: "repr (gf_M dd f) ((x2 + z2) ^ 2 * (x2 - z2) ^ 2)" by (rule repr_M[OF repr_wide[OF 2(1)] repr_wide[OF 2(2)]])
  have 6: "repr (gf_M cc (gf_A (gf_M cc gf_121665) dd)) (E * (E * 121665 + (x2 + z2) ^ 2))"
    by (rule repr_M[OF 3(3) wide_map2(1)[OF 4 2(1)]])
  have 7: "repr (gf_M (gf_S (gf_Z ca be)) x) ((CB - DA) ^ 2 * x1)"
    by (rule repr_M[OF repr_wide[OF repr_S[OF 3(2)]] repr_wide[OF assms(2)]])
  have 8: "repr (gf_S (gf_A ca be)) ((CB + DA) ^ 2)" by (rule repr_S[OF 3(1)])
  have core: "ladder_core x g = (gf_M dd f, gf_S (gf_A ca be), gf_M cc (gf_A (gf_M cc gf_121665) dd), gf_M (gf_S (gf_Z ca be)) x)"
    unfolding ladder_core_def g Let_def prod.case ca_def be_def cc_def dd_def f_def e_def ..
  have "E * (E * 121665 + (x2 + z2) ^ 2) = E * ((x2 + z2) ^ 2 + 121665 * E)" "(CB - DA) ^ 2 * x1 = x1 * (DA - CB) ^ 2"
    "CB + DA = DA + CB" by (simp_all add: power2_commute[of CB DA] mult.commute add.commute)
  then have step: "mont_step x1 s = ((x2 + z2) ^ 2 * (x2 - z2) ^ 2 mod p25519, E * (E * 121665 + (x2 + z2) ^ 2) mod p25519,
      (CB + DA) ^ 2 mod p25519, (CB - DA) ^ 2 * x1 mod p25519)"
    unfolding mont_step_def s prod.case Let_def DA_def[symmetric] CB_def[symmetric] E_def[symmetric] by (simp only:)
  show ?thesis unfolding core step
    using repr_feq[OF 5 feq_mod] repr_feq[OF 6 feq_mod] repr_feq[OF 7 feq_mod] repr_feq[OF 8 feq_mod] by simp
qed

lemma ladder_step_ok:
  "repr4 g s \<Longrightarrow> repr x x1 \<Longrightarrow> repr4 (ladder_step x (of_bool r) g) (cswap r (mont_step x1 (cswap r s)))"
  unfolding ladder_step_def by (intro sel_pairs_ok ladder_core_ok)

section \<open>The scalar\<close>

lemma le_val_Cons: "le_val (b # bs) = uint b + 256 * le_val bs"
  unfolding le_val_def length_Cons sum.lessThan_Suc_shift by (simp add: sum_distrib_left ac_simps)

lemma le_val_Nil [simp]: "le_val [] = 0"
  by (simp add: le_val_def)

lemma uint8_bounds: "0 \<le> uint (b :: u8)" "uint (b :: u8) < 256"
  using uint_bounded[of b] by auto

lemma le_val_bounds: "0 \<le> le_val bs" "le_val bs < 256 ^ length bs"
proof (induction bs)
  case (Cons b bs)
  { case 1 show ?case using Cons(1) uint8_bounds[of b] by (simp add: le_val_Cons) }
  { case 2 show ?case using Cons(2) uint8_bounds[of b] by (simp add: le_val_Cons) }
qed simp_all

lemma bit_le_val: "n < 8 * length bs \<Longrightarrow> bit (le_val bs) n = bit (bs ! (n div 8)) (n mod 8)"
proof (induction bs arbitrary: n)
  case (Cons b bs)
  have eq: "le_val (b # bs) = uint b + push_bit 8 (le_val bs)" by (simp add: le_val_Cons push_bit_eq_mult)
  have "\<not> bit (uint b) k \<or> \<not> bit (push_bit 8 (le_val bs)) k" for k
    by (auto simp: bit_push_bit_iff bit_uint_iff dest: bit_imp_le_length)
  then have "uint b + push_bit 8 (le_val bs) = uint b OR push_bit 8 (le_val bs)" by (rule disjunctive_add)
  then have val: "bit (le_val (b # bs)) n \<longleftrightarrow> bit (uint b) n \<or> 8 \<le> n \<and> bit (le_val bs) (n - 8)"
    by (simp add: eq bit_or_iff bit_push_bit_iff)
  show ?case
  proof (cases "n < 8")
    case True
    then show ?thesis using val by (simp add: bit_uint_iff)
  next
    case False
    then have "n div 8 = Suc ((n - 8) div 8)" "(n - 8) mod 8 = n mod 8" by (simp_all add: le_div_geq le_mod_geq)
    then show ?thesis using val Cons.IH[of "n - 8"] Cons.prems False
      by (auto simp: bit_uint_iff dest: bit_imp_le_length)
  qed
qed simp

lemma bit_clamped:
  "3 \<le> m \<Longrightarrow> bit (v mod 2 ^ m div 8 * 8 + 2 ^ m) n \<longleftrightarrow> n = m \<or> n < m \<and> 3 \<le> n \<and> bit (v :: int) n"
proof -
  assume m: "3 \<le> m"
  have "v mod 2 ^ m div 8 * 8 + 2 ^ m = push_bit 3 (drop_bit 3 (take_bit m v)) + push_bit m 1"
    by (simp add: push_bit_eq_mult drop_bit_eq_div take_bit_eq_mod)
  also have "\<dots> = push_bit 3 (drop_bit 3 (take_bit m v)) OR push_bit m 1"
    by (rule disjunctive_add) (auto simp: bit_simps)
  finally show ?thesis using m by (auto simp: bit_simps)
qed

lemma bit_decode_scalar: "bit (decode_scalar k) n \<longleftrightarrow> n = 254 \<or> n < 254 \<and> 3 \<le> n \<and> bit (le_val k) n"
  unfolding decode_scalar_def by (rule bit_clamped) simp

lemma clamp_masks:
  assumes "m < 8"
  shows "bit (127 :: u8) m \<longleftrightarrow> m < 7" "bit (64 :: u8) m \<longleftrightarrow> m = 6" "bit (248 :: u8) m \<longleftrightarrow> 3 \<le> m"
proof -
  have "m \<in> {0, 1, 2, 3, 4, 5, 6, 7}" using assms by auto
  then show "bit (127 :: u8) m \<longleftrightarrow> m < 7" "bit (64 :: u8) m \<longleftrightarrow> m = 6" "bit (248 :: u8) m \<longleftrightarrow> 3 \<le> m"
    by auto
qed

lemma scalar_bit_ok:
  assumes "length k = 32" "n < 255"
  shows "scalar_bit (clamp k) n = of_bool (bit (decode_scalar k) n)"
proof -
  define j m where "j = n div 8" and "m = n mod 8"
  have n: "n = 8 * j + m" "m < 8" "j < 32" using assms(2) by (auto simp: j_def m_def)
  have val: "bit (le_val k) n = bit (k ! j) m" using bit_le_val[of n k] assms by (simp add: j_def m_def)
  have "bit (clamp k ! j) m = bit (decode_scalar k) n"
  proof (cases "j = 31 \<or> j = 0")
    case True
    then show ?thesis
      using assms val n clamp_masks[OF n(2)] unfolding bit_decode_scalar
      by (elim disjE) (auto simp: clamp_def Let_def bit_and_iff bit_or_iff)
  next
    case False
    then show ?thesis using assms val n unfolding bit_decode_scalar by (auto simp: clamp_def Let_def)
  qed
  moreover have "drop_bit m b AND 1 = (of_bool (bit b m) :: u8)" for m b
    by (simp add: and_one_eq bit_iff_odd_drop_bit mod_2_eq_odd)
  ultimately show ?thesis by (simp add: scalar_bit_def j_def m_def)
qed

section \<open>Inversion\<close>

lemma inv_fold_ok:
  assumes "repr i v"
  shows "repr c (v ^ e) \<Longrightarrow> repr (fold (inv_step i) as c) (v ^ fold (\<lambda>a e. 2 * e + of_bool (a \<noteq> 2 \<and> a \<noteq> 4)) as e)"
proof (induction as arbitrary: c e)
  case (Cons a as)
  have sq: "repr (gf_S c) (v ^ (2 * e))" using repr_S[OF repr_wide[OF Cons.prems]] by (simp add: power_mult[symmetric] mult.commute)
  have "repr (inv_step i a c) (v ^ (2 * e + of_bool (a \<noteq> 2 \<and> a \<noteq> 4)))"
    using sq repr_M[OF repr_wide[OF sq] repr_wide[OF assms]] by (auto simp: inv_step_def Let_def mult.commute)
  then show ?case using Cons.IH by simp
qed simp

lemma inv_exponent_upper:
  "5 + n \<le> 254 \<Longrightarrow> fold (\<lambda>a e. 2 * e + of_bool (a \<noteq> 2 \<and> a \<noteq> 4)) (rev [5..<5 + n]) (2 ^ m - 1) = (2 ^ (m + n) - 1 :: nat)"
proof (induction n arbitrary: m)
  case (Suc n)
  obtain x where "(2 :: nat) ^ m = Suc x" using not0_implies_Suc[of "2 ^ m"] by auto
  then have "2 * (2 ^ m - 1) + of_bool (5 + n \<noteq> 2 \<and> 5 + n \<noteq> 4) = (2 ^ Suc m - 1 :: nat)" by simp
  moreover have "rev [5..<5 + Suc n] = (5 + n) # rev [5..<5 + n]" unfolding add_Suc_right by (subst upt_Suc_append) simp_all
  ultimately show ?case unfolding \<open>rev [5..<5 + Suc n] = _\<close> using Suc.IH[of "Suc m"] Suc.prems by simp
qed simp

lemma inv_exponent: "fold (\<lambda>a e. 2 * e + of_bool (a \<noteq> 2 \<and> a \<noteq> 4)) (rev [0..<254]) 1 = nat (p25519 - 2)"
proof -
  have "[0..<254] = [0..<5] @ [5..<5 + (249 :: nat)]" using upt_add_eq_append[of 0 5 249] by simp
  moreover have "[0..<5] = [0, 1, 2, 3, 4 :: nat]" by (simp add: upt_conv_Cons)
  moreover have "fold (\<lambda>a e. 2 * e + of_bool (a \<noteq> 2 \<and> a \<noteq> 4)) (rev [5..<5 + 249]) (1 :: nat) = 2 ^ 250 - 1"
    using inv_exponent_upper[of 249 1] by simp
  ultimately show ?thesis by (simp add: p25519_def)
qed

lemma repr_inv: "repr i v \<Longrightarrow> repr (inv25519 i) (v ^ nat (p25519 - 2))"
  using inv_fold_ok[of i v i 1 "rev [0..<254]"] by (simp add: inv25519_def inv_exponent[unfolded One_nat_def])

section \<open>Unpacking\<close>

lemma ucast_i64: "(ucast (b :: u8) :: i64) = of_int (uint b)"
  by (rule ucast_eq)

lemma and_mask_of_int: "(of_int y :: i64) AND of_int (2 ^ n - 1) = of_int (y mod 2 ^ n)"
proof -
  have "(of_int (2 ^ n - 1) :: i64) = mask n" by (simp add: mask_eq_exp_minus_1)
  then show ?thesis by (simp add: take_bit_eq_mask[symmetric] take_bit_eq_mod[symmetric] of_int_take_bit)
qed

lemma gval_pairs:
  assumes "2 * k \<le> length n"
  shows "gval (map (\<lambda>i. uint (n ! (2 * i)) + 256 * uint (n ! (2 * i + 1))) [0..<k]) = (\<Sum>i < 2 * k. uint (n ! i) * 256 ^ i)"
proof -
  have "(2 :: int) ^ (16 * k) = 256 ^ (2 * k)" for k by (simp add: power_mult)
  then show ?thesis by (induction k) (simp_all add: gval_append algebra_simps)
qed

definition limbs16 :: "int list \<Rightarrow> bool" where
  "limbs16 xs \<longleftrightarrow> (\<forall>x \<in> set xs. 0 \<le> x \<and> x < 2 ^ 16)"

lemma gval_bounds: "limbs16 xs \<Longrightarrow> 0 \<le> gval xs \<and> gval xs < 2 ^ (16 * length xs)"
proof (induction xs)
  case (Cons x xs)
  then have "0 \<le> gval xs" "gval xs \<le> 2 ^ (16 * length xs) - 1" "0 \<le> x" "x < 2 ^ 16" by (auto simp: limbs16_def)
  then show ?case by (simp add: power_add)
qed simp

lemma limbs16_nth: "length xs = 16 \<Longrightarrow> (\<And>i. i < 16 \<Longrightarrow> 0 \<le> xs ! i \<and> xs ! i < 2 ^ 16) \<Longrightarrow> limbs16 xs"
  by (auto simp: limbs16_def in_set_conv_nth)

lemma limbs16_le: "limbs16 xs \<Longrightarrow> length xs = 16 \<Longrightarrow> limbs_le (2 ^ 17) xs"
  unfolding limbs16_def limbs_le_def by auto

lemma unpack_ok:
  assumes "length n = 32"
  shows "repr (unpack25519 n) (decode_u n)"
proof -
  define x where "x i = uint (n ! (2 * i)) + 256 * uint (n ! (2 * i + 1))" for i
  define ys where "ys = map x [0..<15] @ [x 15 mod 2 ^ 15]"
  have x: "0 \<le> x i" "x i < 2 ^ 16" for i
    using uint8_bounds[of "n ! (2 * i)"] uint8_bounds[of "n ! (2 * i + 1)"] by (auto simp: x_def)
  have "(push_bit 8 (ucast b :: i64)) = of_int (256 * uint (b :: u8))" for b
    unfolding ucast_i64 push_bit_of_int by (simp add: mult.commute)
  then have w: "(ucast (n ! (2 * i)) + push_bit 8 (ucast (n ! (2 * i + 1))) :: i64) = of_int (x i)" for i
    unfolding x_def ucast_i64 by simp
  have up: "[0..<16] = [0..<15] @ [15 :: nat]" by (simp add: upt_conv_Cons)
  have "(of_int (x 15) :: i64) AND 0x7fff = of_int (x 15 mod 2 ^ 15)" using and_mask_of_int[of "x 15" 15] by simp
  then have "unpack25519 n = W ys" unfolding unpack25519_def Let_def w up
    by (simp add: nth_append list_update_append W_def ys_def del: upt_Suc)
  moreover have "limbs16 (map x [0..<15])" "length ys = 16" using x by (auto simp: limbs16_def ys_def)
  moreover have "0 \<le> x 15 mod 2 ^ 15" "x 15 mod 2 ^ 15 < 2 ^ 15" by simp_all
  moreover have "gval ys = decode_u n"
  proof -
    have "le_val n = gval (map x [0..<15] @ [x 15])"
      using gval_pairs[of 16 n] assms by (simp add: le_val_def x_def[abs_def] up del: upt_Suc)
    moreover define q r where "q = x 15 div 2 ^ 15" and "r = x 15 mod 2 ^ 15"
    then have "x 15 = 2 ^ 15 * q + r" by simp
    moreover have "ys = map x [0..<15] @ [r]" by (simp add: ys_def r_def)
    ultimately have "le_val n = gval ys + 2 ^ 255 * q"
      by (simp add: gval_append algebra_simps del: upt_Suc)
    moreover have "gval ys = gval (map x [0..<15]) + 2 ^ 240 * r" by (simp add: ys_def r_def gval_append del: upt_Suc)
    moreover have "0 \<le> r" "r < 2 ^ 15" by (simp_all add: r_def)
    ultimately have "0 \<le> gval ys" "gval ys < 2 ^ 255" "le_val n = gval ys + 2 ^ 255 * q"
      using gval_bounds[OF \<open>limbs16 (map x [0..<15])\<close>] by (simp_all del: upt_Suc)
    then show ?thesis by (simp add: decode_u_def)
  qed
  ultimately show ?thesis unfolding repr_def
    by (intro exI[of _ ys]) (auto simp: limbs16_def limbs_le_def ys_def)
qed

section \<open>Packing\<close>

text \<open>Carries of at most one limb.\<close>

lemma carry_unit:
  assumes "- (2 ^ 16) \<le> x" "x < 2 * 2 ^ 16" "limbs16 xs" "xs \<noteq> []"
  shows "- 1 \<le> last (carry (x # xs)) \<and> last (carry (x # xs)) \<le> 2 ^ 16"
  using assms
proof (induction xs arbitrary: x)
  case (Cons y xs)
  have "- 1 \<le> x div 2 ^ 16" "x div 2 ^ 16 \<le> 1"
    using zdiv_mono1[of "- (2 ^ 16)" x "2 ^ 16"] zdiv_mono1[of x "2 * 2 ^ 16 - 1" "2 ^ 16"] Cons.prems(1,2) by simp_all
  then have y: "- 1 \<le> y + x div 2 ^ 16" "y + x div 2 ^ 16 \<le> 2 ^ 16" using Cons.prems(3) by (auto simp: limbs16_def)
  show ?case
  proof (cases "xs = []")
    case False
    then show ?thesis using Cons.IH[of "y + x div 2 ^ 16"] Cons.prems y by (auto simp: limbs16_def)
  qed (use y in simp)
qed simp

lemma div_unit: "- 1 \<le> (x :: int) \<Longrightarrow> x \<le> 2 ^ 16 \<Longrightarrow> x div 2 ^ 16 \<in> {- 1, 0, 1}"
  using zdiv_mono1[of "- 1" x "2 ^ 16"] zdiv_mono1[of x "2 ^ 16" "2 ^ 16"] by simp linarith

lemma limbs16_tl_car: "length v = 16 \<Longrightarrow> limbs16 (tl (car_int v)) \<and> car_int v = car_int v ! 0 # tl (car_int v) \<and> length (tl (car_int v)) = 15"
proof -
  assume len: "length v = 16"
  note c = car_int_props[OF len]
  have "car_int v = car_int v ! 0 # tl (car_int v)" using c(1) by (cases "car_int v") auto
  moreover have "limbs16 (tl (car_int v))"
    using c(1,3) by (auto simp: limbs16_def in_set_conv_nth nth_tl)
  ultimately show ?thesis using c(1) by simp
qed

lemma gval_carry_last:
  assumes "length u = 16"
  shows "\<exists>g. gval u = g + 2 ^ 240 * last (carry u) \<and> 0 \<le> g \<and> g < 2 ^ 240"
proof -
  have len: "length (carry u) = 16" using assms by simp
  then have c: "carry u = butlast (carry u) @ [last (carry u)]" by (metis append_butlast_last_id length_0_conv zero_neq_numeral)
  have "limbs16 (butlast (carry u))"
    using carry_range[of _ u] assms by (auto simp: limbs16_def in_set_conv_nth nth_butlast)
  then have "0 \<le> gval (butlast (carry u)) \<and> gval (butlast (carry u)) < 2 ^ 240"
    using gval_bounds[of "butlast (carry u)"] len by simp
  moreover have "gval u = gval (butlast (carry u)) + 2 ^ 240 * last (carry u)"
    using gval_carry[of u] gval_append[of "butlast (carry u)" "[last (carry u)]"] c len by simp
  ultimately show ?thesis by blast
qed

text \<open>A third round leaves every limb in range: a carry out of the top limb finds room in the bottom one.\<close>

lemma car_third:
  assumes "length u = 16" "u = u ! 0 # r" "limbs16 r" "length r = 15" "- 38 \<le> u ! 0" "u ! 0 < 2 ^ 16 + 38"
  shows "limbs16 (car_int u)"
proof -
  note c = car_int_props[OF assms(1)]
  define q c0 where "q = last (carry u) div 2 ^ 16" and "c0 = carry u ! 0"
  have "r \<noteq> []" using assms(4) by auto
  then have l: "- 1 \<le> last (carry u)" "last (carry u) \<le> 2 ^ 16" using carry_unit[of "u ! 0" r] assms(2,3,5,6) by auto
  then have q: "q \<in> {- 1, 0, 1}" unfolding q_def by (rule div_unit)
  have c0: "0 \<le> c0" "c0 < 2 ^ 16" using c(5,6) by (simp_all add: c0_def)
  obtain g where g: "gval u = g + 2 ^ 240 * last (carry u)" "0 \<le> g" "g < 2 ^ 240" using gval_carry_last[OF assms(1)] by blast
  have u: "gval u = u ! 0 + 2 ^ 16 * gval r" "0 \<le> gval r" "gval r < 2 ^ 240"
    using gval.simps(2)[of "u ! 0" r] assms(2) gval_bounds[OF assms(3)] assms(4) by simp_all
  obtain t where "carry u = c0 # t" using assms(1) unfolding c0_def by (metis length_0_conv length_carry neq_Nil_conv nth_Cons_0 zero_neq_numeral)
  then have t: "gval u = c0 + 2 ^ 16 * gval t" using gval_carry[of u] by simp
  have "0 \<le> c0 + 38 * q \<and> c0 + 38 * q < 2 ^ 16"
  proof -
    consider "q = 0" | "q = 1" | "q = - 1" using q by blast
    then show ?thesis
    proof cases
      case 2
      then have "2 ^ 16 \<le> last (carry u)" unfolding q_def using l by (cases "last (carry u) = 2 ^ 16") auto
      then have "2 ^ 256 \<le> gval u" using g by simp
      then have "2 ^ 240 \<le> gval t" using t c0 by simp
      then have "c0 \<le> 37" using u assms(6) t by simp
      then show ?thesis using c0 2 by simp
    next
      case 3
      then have "last (carry u) < 0" unfolding q_def using l by (cases "last (carry u) < 0") (auto simp: not_less pos_imp_zdiv_nonneg_iff)
      then have "gval u < 0" using g by simp
      then have "gval t \<le> - 1" using t c0 by simp
      moreover have "- 38 \<le> gval u" using u assms(5) by simp
      ultimately have "2 ^ 16 - 38 \<le> c0" using t by simp
      then show ?thesis using c0 3 by simp
    qed (use c0 in simp)
  qed
  then have z: "0 \<le> car_int u ! 0 \<and> car_int u ! 0 < 2 ^ 16" unfolding c(4) q_def c0_def .
  show ?thesis by (rule limbs16_nth[OF c(1)]) (use z c(3) in \<open>metis neq0_conv\<close>)
qed

lemma car_thrice:
  assumes "limbs_le (2 ^ 17) v"
  defines "w \<equiv> car_int (car_int (car_int v))"
  shows "limbs16 w" "length w = 16" "feq (gval w) (gval v)"
proof -
  have len: "length v = 16" using assms by (simp add: limbs_le_def)
  note c1 = car_int_props[OF len]
  note c2 = car_int_props[OF c1(1)]
  note c3 = car_int_props[OF c2(1)]
  show "length w = 16" "feq (gval w) (gval v)"
    using c1(1,2) c2(1,2) c3(1,2) feq_trans unfolding w_def by blast+
  have "\<bar>v ! 0\<bar> \<le> 2 ^ 16 * 3" using limbs_leD[OF assms(1), of 0] by simp
  moreover have "\<And>i. 0 < i \<Longrightarrow> i < 16 \<Longrightarrow> \<bar>v ! i\<bar> \<le> 2 ^ 17" using limbs_leD[OF assms(1)] by simp
  ultimately have "\<bar>last (carry v) div 2 ^ 16\<bar> \<le> 3" by (rule car_int_last[OF len]) simp_all
  then have x1: "- (2 ^ 16) \<le> car_int v ! 0" "car_int v ! 0 < 2 * 2 ^ 16" using c1(4-6) by (simp_all add: abs_le_iff)
  have "last (carry (car_int v)) div 2 ^ 16 \<in> {- 1, 0, 1}"
    using carry_unit[OF x1, of "tl (car_int v)"] limbs16_tl_car[OF len] div_unit by (metis length_0_conv zero_neq_numeral)
  then have x2: "- 38 \<le> car_int (car_int v) ! 0" "car_int (car_int v) ! 0 < 2 ^ 16 + 38" using c2(4-6) by auto
  show "limbs16 w" using car_third[OF c2(1) _ _ _ x2] limbs16_tl_car[OF c1(1)] unfolding w_def by blast
qed

text \<open>Subtracting the prime limb by limb: \<open>d\<close> is the limb whose borrow is still to be taken.\<close>

fun bsub :: "int \<Rightarrow> int list \<Rightarrow> int list" where
  "bsub d [] = [d]"
| "bsub d (t # ts) = (d mod 2 ^ 16) # bsub (t - 0xffff - of_bool (d < 0)) ts"

lemma length_bsub [simp]: "length (bsub d ts) = Suc (length ts)"
  by (induction ts arbitrary: d) auto

lemma borrow_mod: "- (2 ^ 16) \<le> d \<Longrightarrow> d < 2 ^ 16 \<Longrightarrow> d mod 2 ^ 16 = d + 2 ^ 16 * of_bool (d < (0 :: int))"
proof (cases "d < 0")
  case True
  assume "- (2 ^ 16) \<le> d"
  then have "(d + 2 ^ 16) mod 2 ^ 16 = d + 2 ^ 16" using True by (intro mod_pos_pos_trivial) auto
  then show ?thesis using True by simp
qed simp

lemma gval_bsub:
  assumes "- (2 ^ 16) \<le> d" "d < 2 ^ 16" "\<forall>t \<in> set ts. 0 \<le> t \<and> t < 2 * 2 ^ 16 - 1"
  shows "gval (bsub d ts) = d + 2 ^ 16 * gval (map (\<lambda>t. t - 0xffff) ts)"
  using assms
proof (induction ts arbitrary: d)
  case (Cons t ts)
  have "gval (bsub (t - 0xffff - of_bool (d < 0)) ts) = t - 0xffff - of_bool (d < 0) + 2 ^ 16 * gval (map (\<lambda>t. t - 0xffff) ts)"
    using Cons.prems by (intro Cons.IH) auto
  then show ?case using borrow_mod[OF Cons.prems(1,2)] by (simp add: algebra_simps)
qed simp

lemma borrow_bit:
  assumes "- (2 ^ 16) \<le> d" "d < 2 ^ 16"
  shows "signed_drop_bit 16 (of_int d :: i64) AND 1 = of_int (of_bool (d < 0))"
proof -
  have "d div 2 ^ 16 = - of_bool (d < 0)"
    using borrow_mod[OF assms] mult_div_mod_eq[of "2 ^ 16" d] by (auto split: if_splits)
  then show ?thesis using assms by (subst signed_drop_of_int) auto
qed

lemma pack_sub_fold:
  assumes "limbs16 t" "length t = 16" "length pre + 1 = k" "k \<le> 15" "- (2 ^ 16) \<le> d" "d < 2 ^ 16"
  shows "fold (pack_sub_step (W t)) [k..<15] (W (pre @ d # replicate (16 - k) 0)) = W (pre @ bsub d (drop k (take 15 t)) @ [0])"
  using assms(3-)
proof (induction "15 - k" arbitrary: k pre d)
  case 0
  then show ?case using assms(2) by simp
next
  case (Suc n)
  then have k: "k < 15" "0 < k" "16 - k = Suc (15 - k)" and kp: "k - 1 = length pre" by auto
  let ?e = "t ! k - 0xffff - of_bool (d < 0)"
  let ?m = "pre @ d # replicate (16 - k) 0"
  have tk: "0 \<le> t ! k" "t ! k < 2 ^ 16" using assms(1,2) k by (auto simp: limbs16_def)
  have "W ?m ! (k - 1) = of_int d" unfolding kp by (simp add: W_def nth_append)
  moreover have "(W ?m)[k := of_int ?e] = W ((pre @ [d]) @ ?e # replicate (15 - k) 0)"
    unfolding W_update k(3) using Suc.prems(1) by (auto simp: list_update_append)
  moreover have "(of_int d :: i64) AND 0xffff = of_int (d mod 2 ^ 16)" using and_mask_of_int[of d 16] by simp
  moreover have "W ((pre @ [d]) @ ?e # replicate (15 - k) 0) ! (k - 1) = of_int d"
    unfolding kp by (simp add: W_def nth_append)
  moreover have "(W ((pre @ [d]) @ ?e # replicate (15 - k) 0))[k - 1 := of_int (d mod 2 ^ 16)] =
      W ((pre @ [d mod 2 ^ 16]) @ ?e # replicate (16 - Suc k) 0)"
    unfolding kp by (simp add: W_update list_update_append)
  ultimately have step: "pack_sub_step (W t) k (W ?m) = W ((pre @ [d mod 2 ^ 16]) @ ?e # replicate (16 - Suc k) 0)"
    using borrow_bit[OF Suc.prems(3,4)] k assms(2) by (simp add: pack_sub_step_def Let_def)
  have "drop k (take 15 t) = t ! k # drop (Suc k) (take 15 t)" using k assms(2) by (simp add: Cons_nth_drop_Suc[symmetric])
  moreover have "fold (pack_sub_step (W t)) [Suc k..<15] (W ((pre @ [d mod 2 ^ 16]) @ ?e # replicate (16 - Suc k) 0)) =
      W ((pre @ [d mod 2 ^ 16]) @ bsub ?e (drop (Suc k) (take 15 t)) @ [0])"
    using Suc.hyps Suc.prems k tk by (intro Suc.hyps(1)) auto
  ultimately show ?case using step k by (simp add: upt_conv_Cons)
qed

lemma bsub_nonempty [simp]: "bsub d ts \<noteq> []"
  by (cases ts) auto

lemma bsub_snoc: "bsub d (ts @ [x]) = butlast (bsub d ts) @ [last (bsub d ts) mod 2 ^ 16, x - 0xffff - of_bool (last (bsub d ts) < 0)]"
  by (induction ts arbitrary: d) auto

lemma bsub_range:
  assumes "- (2 ^ 16) \<le> d" "d < 2 ^ 16" "\<forall>t \<in> set ts. 0 \<le> t \<and> t < 2 ^ 16"
  shows "- (2 ^ 16) \<le> last (bsub d ts) \<and> last (bsub d ts) < 2 ^ 16 \<and> limbs16 (butlast (bsub d ts))"
  using assms
proof (induction ts arbitrary: d)
  case (Cons t ts)
  have "- (2 ^ 16) \<le> last (bsub (t - 0xffff - of_bool (d < 0)) ts) \<and> last (bsub (t - 0xffff - of_bool (d < 0)) ts) < 2 ^ 16 \<and>
      limbs16 (butlast (bsub (t - 0xffff - of_bool (d < 0)) ts))"
    using Cons.prems by (intro Cons.IH) auto
  then show ?case by (simp add: limbs16_def)
qed (simp add: limbs16_def)

lemma gval_ones: "0xffff * gval (replicate n 1) = 2 ^ (16 * n) - 1"
  by (induction n) (simp_all add: power_add algebra_simps)

lemma gval_map_minus: "gval (map (\<lambda>t. t - c) ts) = gval ts - c * gval (replicate (length ts) 1)"
  by (induction ts) (simp_all add: algebra_simps)

text \<open>The subtraction of the prime as the code computes it, before the top limb is looked at.\<close>

definition minus_p :: "int list \<Rightarrow> int list" where
  "minus_p t = bsub (t ! 0 - 0xffed) (drop 1 (take 15 t) @ [t ! 15 + 0x8000])"

lemma split_limbs:
  assumes "length t = 16"
  shows "t = t ! 0 # drop 1 (take 15 t) @ [t ! 15]"
proof -
  have "t = take 15 t @ [t ! 15]" using assms take_Suc_conv_app_nth[of 15 t] by simp
  moreover have "take 15 t = t ! 0 # drop 1 (take 15 t)" using assms by (cases t) auto
  ultimately show ?thesis by (metis append_Cons)
qed

lemma minus_p_value:
  assumes "limbs16 t" "length t = 16"
  shows "gval (minus_p t) = gval t - p25519" "length (minus_p t) = 16" "limbs16 (butlast (minus_p t))"
    "- (2 ^ 16) \<le> last (minus_p t)" "last (minus_p t) < 2 ^ 16"
proof -
  define ts where "ts = drop 1 (take 15 t)"
  have t: "t = t ! 0 # ts @ [t ! 15]" unfolding ts_def by (rule split_limbs[OF assms(2)])
  have nth: "0 \<le> t ! i \<and> t ! i < 2 ^ 16" if "i < 16" for i using assms that by (simp add: limbs16_def)
  have ts: "\<forall>t \<in> set ts. 0 \<le> t \<and> t < 2 ^ 16" "length ts = 14"
    using assms by (auto simp: ts_def limbs16_def dest!: in_set_dropD in_set_takeD)
  have d: "- (2 ^ 16) \<le> t ! 0 - 0xffed" "t ! 0 - 0xffed < 2 ^ 16" using nth[of 0] by simp_all
  have "\<forall>x \<in> set (ts @ [t ! 15 + 0x8000]). 0 \<le> x \<and> x < 2 * 2 ^ 16 - 1" using ts(1) nth[of 15] by fastforce
  then have "gval (minus_p t) = t ! 0 - 0xffed + 2 ^ 16 * gval (map (\<lambda>t. t - 0xffff) (ts @ [t ! 15 + 0x8000]))"
    unfolding minus_p_def ts_def[symmetric] by (rule gval_bsub[OF d])
  also have "gval (map (\<lambda>t. t - 0xffff) (ts @ [t ! 15 + 0x8000])) = gval (ts @ [t ! 15 + 0x8000]) - (2 ^ 240 - 1)"
    unfolding gval_map_minus using gval_ones[of 15] ts(2) by simp
  also have "gval (ts @ [t ! 15 + 0x8000]) = gval (ts @ [t ! 15]) + 2 ^ 239" using ts(2) by (simp add: gval_append)
  finally show "gval (minus_p t) = gval t - p25519"
    using gval.simps(2)[of "t ! 0" "ts @ [t ! 15]"] t by (simp add: p25519_def)
  show "length (minus_p t) = 16" using ts(2) by (simp add: minus_p_def ts_def)
  have r: "- (2 ^ 16) \<le> last (bsub (t ! 0 - 0xffed) ts) \<and> last (bsub (t ! 0 - 0xffed) ts) < 2 ^ 16 \<and>
      limbs16 (butlast (bsub (t ! 0 - 0xffed) ts))" using bsub_range[OF d ts(1)] .
  then show "limbs16 (butlast (minus_p t))" "- (2 ^ 16) \<le> last (minus_p t)" "last (minus_p t) < 2 ^ 16"
    unfolding minus_p_def ts_def[symmetric] bsub_snoc using nth[of 15] by (auto simp: limbs16_def butlast_append)
qed

lemma minus_p_words:
  assumes "limbs16 t" "length t = 16"
  shows "pack_round (W t) = fst (sel25519 (W t) (W (minus_p t)) (1 - of_int (of_bool (last (minus_p t) < 0))))"
proof -
  define d ts where "d = t ! 0 - 0xffed" and "ts = drop 1 (take 15 t)"
  define b0 where "b0 = bsub d ts"
  define e where "e = t ! 15 - 0x7fff - of_bool (last b0 < 0)"
  have nth: "0 \<le> t ! i \<and> t ! i < 2 ^ 16" if "i < 16" for i using assms that by (simp add: limbs16_def)
  have ts: "\<forall>t \<in> set ts. 0 \<le> t \<and> t < 2 ^ 16" "length ts = 14"
    using assms by (auto simp: ts_def limbs16_def dest!: in_set_dropD in_set_takeD)
  have d: "- (2 ^ 16) \<le> d" "d < 2 ^ 16" using nth[of 0] by (simp_all add: d_def)
  have rng: "- (2 ^ 16) \<le> last b0" "last b0 < 2 ^ 16" using bsub_range[OF d ts(1)] by (simp_all add: b0_def)
  obtain bs l where b: "b0 = bs @ [l]" "length bs = 14" using ts(2) length_bsub[of d ts] unfolding b0_def[symmetric]
    by (metis length_Suc_conv_rev)
  have m: "minus_p t = bs @ [l mod 2 ^ 16, e]"
    unfolding minus_p_def ts_def[symmetric] d_def[symmetric] bsub_snoc b0_def[symmetric] e_def b(1) by simp
  have e: "- (2 ^ 16) \<le> e" "e < 2 ^ 16" using nth[of 15] by (auto simp: e_def)
  have m0: "(replicate 16 0)[0 := W t ! 0 - 0xffed] = W ([] @ d # replicate (16 - 1) 0)"
    using assms(2) by (simp add: W_def d_def numeral_eq_Suc)
  have f: "fold (pack_sub_step (W t)) [1..<15] ((replicate 16 0)[0 := W t ! 0 - 0xffed]) = W (bs @ [l, 0])"
    unfolding m0 using pack_sub_fold[OF assms _ _ d, of "[]" 1] b by (simp add: b0_def ts_def)
  have m1: "(W (bs @ [l, 0]))[15 := W t ! 15 - 0x7fff - (signed_drop_bit 16 (W (bs @ [l, 0]) ! 14) AND 1)] = W (bs @ [l, e])"
    using b assms(2) borrow_bit[of l] rng by (simp add: W_def nth_append list_update_append e_def)
  have m2: "(W (bs @ [l, e]))[14 := W (bs @ [l, e]) ! 14 AND 0xffff] = W (minus_p t)"
    using b and_mask_of_int[of l 16] by (simp add: W_def nth_append list_update_append m)
  have "W (bs @ [l, e]) ! 15 = of_int e" using b by (simp add: W_def nth_append)
  then show ?thesis
    unfolding pack_round_def Let_def f m1 m2 using borrow_bit[OF e] by (simp add: m)
qed

lemma pack_round_ok:
  assumes "limbs16 t" "length t = 16"
  shows "\<exists>t'. pack_round (W t) = W t' \<and> limbs16 t' \<and> length t' = 16 \<and>
    gval t' = (if p25519 \<le> gval t then gval t - p25519 else gval t)"
proof -
  let ?m = "minus_p t"
  note m = minus_p_value[OF assms]
  have mm: "?m = butlast ?m @ [last ?m]" using m(2) by (metis append_butlast_last_id length_0_conv zero_neq_numeral)
  have "gval (butlast ?m @ [last ?m]) = gval (butlast ?m) + 2 ^ 240 * last ?m" using m(2) by (simp add: gval_append)
  then have g: "gval t - p25519 = gval (butlast ?m) + 2 ^ 240 * last ?m" using mm m(1) by metis
  have b: "0 \<le> gval (butlast ?m)" "gval (butlast ?m) < 2 ^ 240" using gval_bounds[OF m(3)] m(2) by simp_all
  have len: "length (W t) = length (W ?m)" using assms m(2) by simp
  show ?thesis
  proof (cases "last ?m < 0")
    case True
    then have "2 ^ 240 * last ?m \<le> 2 ^ 240 * - 1" by (intro mult_left_mono) auto
    then have "gval t < p25519" using g b by linarith
    moreover have "pack_round (W t) = W t" using minus_p_words[OF assms] True sel25519_eq(1)[OF len] by simp
    ultimately show ?thesis using assms by auto
  next
    case False
    then have "0 \<le> 2 ^ 240 * last ?m" by simp
    then have "p25519 \<le> gval t" using g b by linarith
    moreover have "pack_round (W t) = W ?m" using minus_p_words[OF assms] False sel25519_eq(2)[OF len] by simp
    moreover have "limbs16 ?m" using m(3,5) False by (subst mm) (auto simp: limbs16_def)
    ultimately show ?thesis using m(1,2) by auto
  qed
qed

definition limb_bytes :: "int list \<Rightarrow> u8 list" where
  "limb_bytes xs = concat (map (\<lambda>x. [of_int x, of_int (x div 256)]) xs)"

lemma limb_bytes_eq:
  "limbs16 xs \<Longrightarrow> limb_bytes xs = map (\<lambda>i. of_int (gval xs div 256 ^ i)) [0..<2 * length xs]"
proof (induction xs)
  case (Cons x xs)
  have x: "0 \<le> x" "x < 2 ^ 16" and IH: "limb_bytes xs = map (\<lambda>i. of_int (gval xs div 256 ^ i)) [0..<2 * length xs]"
    using Cons by (auto simp: limbs16_def)
  let ?v = "x + 2 ^ 16 * gval xs"
  have up: "[0..<2 * length (x # xs)] = [0, 1] @ map (\<lambda>i. i + 2) [0..<2 * length xs]"
    unfolding map_add_upt by (simp add: upt_conv_Cons numeral_2_eq_2 del: upt_Suc)
  have "?v div 256 ^ (i + 2) = gval xs div 256 ^ i" for i
  proof -
    have "?v div 2 ^ 16 = gval xs" using x by simp
    moreover have "(256 :: int) ^ (i + 2) = 2 ^ 16 * 256 ^ i" by (simp add: power_add)
    then have "?v div 256 ^ (i + 2) = ?v div 2 ^ 16 div 256 ^ i" by (simp only: zdiv_zmult2_eq zero_le_power zero_le_numeral)
    ultimately show ?thesis by simp
  qed
  moreover have "(of_int ?v :: u8) = of_int x" "(of_int (?v div 256) :: u8) = of_int (x div 256)"
  proof -
    have z: "(of_int (256 * k) :: u8) = 0" for k
    proof -
      have "(of_int (256 * k) :: u8) = take_bit 8 (of_int (256 * k))" by (rule sym, rule take_bit_word_eq_self) simp
      also have "\<dots> = of_int (take_bit 8 (256 * k))" by (rule of_int_take_bit[symmetric])
      also have "take_bit 8 (256 * k) = 0" by (simp add: take_bit_eq_mod)
      finally show ?thesis by simp
    qed
    have e: "?v = x + 256 * (256 * gval xs)" "?v div 256 = x div 256 + 256 * gval xs" by simp_all
    show "(of_int ?v :: u8) = of_int x" unfolding e(1) of_int_add z by (rule add.right_neutral)
    show "(of_int (?v div 256) :: u8) = of_int (x div 256)" unfolding e(2) of_int_add z by (rule add.right_neutral)
  qed
  ultimately show ?case using IH unfolding up by (simp add: limb_bytes_def)
qed (simp add: limb_bytes_def)

lemma pack_bytes:
  assumes "limbs16 t"
  shows "concat (map (\<lambda>x. [ucast (x AND 0xff), ucast (signed_drop_bit 8 x)]) (W t)) = limb_bytes t"
proof -
  have "(ucast ((of_int x :: i64) AND 0xff) :: u8) = of_int x \<and> (ucast (signed_drop_bit 8 (of_int x :: i64)) :: u8) = of_int (x div 256)"
    if "x \<in> set t" for x
  proof -
    have x: "0 \<le> x" "x < 2 ^ 16" using assms that by (auto simp: limbs16_def)
    have cut: "(ucast (of_int y :: i64) :: u8) = of_int y" for y
      by (rule bit_word_eqI) (auto simp: bit_simps)
    have "(of_int (x mod 2 ^ 8) :: u8) = take_bit 8 (of_int x)" unfolding take_bit_eq_mod[symmetric] of_int_take_bit ..
    then have "(of_int (x mod 2 ^ 8) :: u8) = of_int x" by (simp add: take_bit_word_eq_self)
    then have "(ucast ((of_int x :: i64) AND 0xff) :: u8) = of_int x"
      using and_mask_of_int[of x 8] cut[of "x mod 2 ^ 8"] by simp
    moreover have "signed_drop_bit 8 (of_int x :: i64) = of_int (x div 256)"
      using x signed_drop_of_int[of x 8] by simp
    ultimately show ?thesis using cut by simp
  qed
  then have "map (\<lambda>x. [ucast (x AND 0xff), ucast (signed_drop_bit 8 x)]) (W t) = map (\<lambda>x. [of_int x, of_int (x div 256)] :: u8 list) t"
    by (auto simp: W_def)
  then show ?thesis by (simp add: limb_bytes_def)
qed

lemma pack_ok:
  assumes "repr g v"
  shows "pack25519 g = le_bytes32 (v mod p25519)"
proof -
  obtain xs where xs: "g = W xs" "limbs_le (2 ^ 17) xs" "feq (gval xs) v" using assms by (auto simp: repr_def)
  have le46: "limbs_le (2 ^ 46) (car_int (car_int xs))" "limbs_le (2 ^ 46) (car_int xs)" "limbs_le (2 ^ 46) xs"
    using limbs_le_mono[OF xs(2), of "2 ^ 46"] limbs_le_mono[OF car_int_twice(1), of xs "2 ^ 46"]
      limbs_le_mono[OF car_int_twice(2), of xs "2 ^ 46"] by auto
  let ?t = "car_int (car_int (car_int xs))"
  note t = car_thrice[OF xs(2)]
  have "car25519 (car25519 (car25519 g)) = W ?t" using car25519_W le46 xs(1) by simp
  moreover obtain t1 where t1: "pack_round (W ?t) = W t1" "limbs16 t1" "length t1 = 16"
      "gval t1 = (if p25519 \<le> gval ?t then gval ?t - p25519 else gval ?t)" using pack_round_ok[OF t(1,2)] by blast
  moreover obtain t2 where t2: "pack_round (W t1) = W t2" "limbs16 t2" "length t2 = 16"
      "gval t2 = (if p25519 \<le> gval t1 then gval t1 - p25519 else gval t1)" using pack_round_ok[OF t1(2,3)] by blast
  ultimately have "pack25519 g = limb_bytes t2" using pack_bytes[OF t2(2)] by (simp add: pack25519_def Let_def)
  moreover have "gval t2 = v mod p25519"
  proof -
    have "0 \<le> gval ?t" "gval ?t < 2 ^ 256" using gval_bounds[OF t(1)] t(2) by simp_all
    then have "0 \<le> gval t2" "gval t2 < p25519" using t1(4) t2(4) by (auto simp: p25519_def split: if_splits)
    moreover have "feq (gval t2) (gval ?t)" using t1(4) t2(4) by (auto simp: feq_def)
    ultimately show ?thesis using t(3) xs(3) by (simp add: feq_def)
  qed
  ultimately show ?thesis using limb_bytes_eq[OF t2(2)] t2(3) by (simp add: le_bytes32_def del: upt_Suc)
qed

section \<open>The key exchange\<close>

lemma cswap_twice: "cswap a (cswap b s) = cswap (a \<noteq> b) s"
  by (cases s) (auto simp: cswap_def)

text \<open>The code undoes its selection after every round, the RFC delays it to the next one.\<close>

lemma ladder_loop:
  assumes "repr x x1" "length k = 32" "n \<le> 255" "repr4 g (cswap sw s)"
  shows "\<exists>s' sw'. mont_loop x1 (decode_scalar k) n (s, sw) = (s', sw') \<and>
    repr4 (fold (\<lambda>i. ladder_step x (scalar_bit (clamp k) i)) (rev [0..<n]) g) (cswap sw' s')"
  using assms(3,4)
proof (induction n arbitrary: g s sw)
  case (Suc n)
  let ?b = "bit (decode_scalar k) n"
  have "repr4 (ladder_step x (scalar_bit (clamp k) n) g) (cswap ?b (mont_step x1 (cswap ?b (cswap sw s))))"
    using ladder_step_ok[OF Suc.prems(2) assms(1), of ?b] scalar_bit_ok[OF assms(2), of n] Suc.prems(1) by simp
  moreover have "(sw \<noteq> ?b) = (?b \<noteq> sw)" by auto
  ultimately show ?case
    using Suc.IH[of "ladder_step x (scalar_bit (clamp k) n) g" ?b "mont_step x1 (cswap (sw \<noteq> ?b) s)"] Suc.prems(1)
    by (simp add: cswap_twice)
qed simp

text \<open>C33: For every private key and every peer key of 32 bytes the limb implementation returns the value
  RFC 7748 defines: the Montgomery ladder over the integers modulo \<open>2 ^ 255 - 19\<close> on the clamped scalar
  and the masked u-coordinate, non-canonical ones included, in canonical little-endian form. The 64-bit
  arithmetic of the model wraps, so no overflow changes the result; \<open>x25519_base\<close> is the same at u = 9.\<close>

theorem x25519_rfc7748:
  assumes "length priv = 32" "length peer = 32"
  shows "x25519 priv peer = rfc_x25519 priv peer \<and> x25519_base priv = rfc_x25519 priv (9 # replicate 31 0)"
proof -
  have main: "crypto_scalarmult priv u = rfc_x25519 priv u" if "length u = 32" for u
  proof -
    let ?x = "unpack25519 u" and ?x1 = "decode_u u" and ?one = "1 # replicate 15 0 :: gf"
    have x: "repr ?x ?x1" using unpack_ok[OF that] .
    have one: "repr ?one 1" unfolding repr_def by (intro exI[of _ "1 # replicate 15 0"]) (simp add: W_def limbs_le_def)
    have zero: "repr (replicate 16 0) 0" unfolding repr_def by (intro exI[of _ "replicate 16 0"]) (simp add: W_def limbs_le_def)
    have "repr4 (?one, ?x, replicate 16 0, ?one) (cswap False (1, 0, ?x1, 1))" using x one zero by (simp add: cswap_def)
    from ladder_loop[OF x assms(1) order_refl this] obtain s sw where
      l: "mont_loop ?x1 (decode_scalar priv) 255 ((1, 0, ?x1, 1), False) = (s, sw)"
      "repr4 (fold (\<lambda>i. ladder_step ?x (scalar_bit (clamp priv) i)) (rev [0..<255]) (?one, ?x, replicate 16 0, ?one)) (cswap sw s)"
      by blast
    obtain a b c d where f: "fold (\<lambda>i. ladder_step ?x (scalar_bit (clamp priv) i)) (rev [0..<255]) (?one, ?x, replicate 16 0, ?one) = (a, b, c, d)"
      by (rule prod_cases4)
    obtain x2 z2 x3 z3 where c: "cswap sw s = (x2, z2, x3, z3)" by (rule prod_cases4)
    have "repr a x2" "repr c z2" using l(2) f c by simp_all
    then have "repr (gf_M a (inv25519 c)) (x2 * z2 ^ nat (p25519 - 2))" by (intro repr_M repr_wide repr_inv)
    then have "pack25519 (gf_M a (inv25519 c)) = rfc_x25519 priv u"
      using pack_ok l(1) c by (simp add: rfc_x25519_def Let_def)
    then show ?thesis unfolding crypto_scalarmult_def Let_def f prod.case .
  qed
  show ?thesis using main[OF assms(2)] main[of x25519_basepoint] by (simp add: x25519_def x25519_base_def x25519_basepoint_def)
qed

theorem x25519_rfc7748_witness:
  "x25519 (replicate 32 7) (replicate 32 9) = rfc_x25519 (replicate 32 7) (replicate 32 9) \<and>
   x25519_base (replicate 32 7) = rfc_x25519 (replicate 32 7) (9 # replicate 31 0)"
  using x25519_rfc7748[of "replicate 32 7" "replicate 32 9"] by simp

end
