(* ===== verification/CString.thy ===== *)
theory CString
  imports Prelude "HOL-Library.Signed_Division"
begin

text \<open>
  \<open>lib/string.c\<close> on a byte memory: addresses are natural numbers (no object straddles the end of the address
  space), 0 is the null pointer, a \<open>char\<close> is its byte. A loop that runs to a terminator is \<open>None\<close> when
  there is none, and so is an index outside a string literal. \<open>int\<close> and \<open>long\<close> are integers kept in range
  by \<open>int32\<close> and \<open>int64\<close>.
\<close>

type_synonym bytes = "nat \<Rightarrow> u8"

definition int64 :: "int \<Rightarrow> int" where
  "int64 x = (x + 2 ^ 63) mod 2 ^ 64 - 2 ^ 63"

section \<open>Memory blocks\<close>

fun memset :: "nat \<Rightarrow> u8 \<Rightarrow> nat \<Rightarrow> bytes \<Rightarrow> bytes" where
  "memset ptr v 0 m = m"
| "memset ptr v (Suc count) m = memset (ptr + 1) v count (m(ptr := v))"

fun memcpy :: "nat \<Rightarrow> nat \<Rightarrow> nat \<Rightarrow> bytes \<Rightarrow> bytes" where
  "memcpy d s 0 m = m"
| "memcpy d s (Suc count) m = memcpy (d + 1) (s + 1) count (m(d := m s))"

fun memmove_down :: "nat \<Rightarrow> nat \<Rightarrow> nat \<Rightarrow> bytes \<Rightarrow> bytes" where
  "memmove_down d s 0 m = m"
| "memmove_down d s (Suc count) m = memmove_down (d - 1) (s - 1) count (m(d - 1 := m (s - 1)))"

definition memmove :: "nat \<Rightarrow> nat \<Rightarrow> nat \<Rightarrow> bytes \<Rightarrow> bytes" where
  "memmove d s count m = (if d < s then memcpy d s count m else memmove_down (d + count) (s + count) count m)"

fun memcmp :: "nat \<Rightarrow> nat \<Rightarrow> nat \<Rightarrow> bytes \<Rightarrow> int" where
  "memcmp p1 p2 0 m = 0"
| "memcmp p1 p2 (Suc num) m = (if m p1 \<noteq> m p2 then uint (m p1) - uint (m p2) else memcmp (p1 + 1) (p2 + 1) num m)"

definition bcmp :: "nat \<Rightarrow> nat \<Rightarrow> nat \<Rightarrow> bytes \<Rightarrow> int" where
  "bcmp p1 p2 num m = memcmp p1 p2 num m"

section \<open>Strings\<close>

partial_function (option) strlen_loop :: "bytes \<Rightarrow> nat \<Rightarrow> nat \<Rightarrow> nat option" where
  "strlen_loop m str len = (if m (str + len) \<noteq> 0 then strlen_loop m str (len + 1) else Some len)"

definition strlen :: "bytes \<Rightarrow> nat \<Rightarrow> nat option" where
  "strlen m str = (if str = 0 then Some 0 else strlen_loop m str 0)"

partial_function (option) strcmp_loop :: "bytes \<Rightarrow> nat \<Rightarrow> nat \<Rightarrow> int option" where
  "strcmp_loop m p q =
     (if m p \<noteq> 0 \<and> m p = m q then strcmp_loop m (p + 1) (q + 1) else Some (uint (m p) - uint (m q)))"

definition strcmp :: "bytes \<Rightarrow> nat \<Rightarrow> nat \<Rightarrow> int option" where
  "strcmp m p q =
     (if p = 0 \<or> q = 0 then Some (if p = q then 0 else if p \<noteq> 0 then 1 else - 1) else strcmp_loop m p q)"

fun strncmp :: "bytes \<Rightarrow> nat \<Rightarrow> nat \<Rightarrow> nat \<Rightarrow> int" where
  "strncmp m p q 0 = 0"
| "strncmp m p q (Suc num) =
     (if m p \<noteq> 0 \<and> m p = m q then strncmp m (p + 1) (q + 1) num else uint (m p) - uint (m q))"

partial_function (option) strcpy :: "nat \<Rightarrow> nat \<Rightarrow> bytes \<Rightarrow> bytes option" where
  "strcpy dest src m =
     (let m' = m(dest := m src) in if m src \<noteq> 0 then strcpy (dest + 1) (src + 1) m' else Some m')"

fun strncpy_loop :: "nat \<Rightarrow> nat \<Rightarrow> nat \<Rightarrow> nat \<Rightarrow> bytes \<Rightarrow> nat \<times> bytes" where
  "strncpy_loop dest src i 0 m = (i, m)"
| "strncpy_loop dest src i (Suc left) m =
     (if m (src + i) \<noteq> 0 then strncpy_loop dest src (i + 1) left (m(dest + i := m (src + i))) else (i, m))"

definition strncpy :: "nat \<Rightarrow> nat \<Rightarrow> nat \<Rightarrow> bytes \<Rightarrow> bytes" where
  "strncpy dest src num m =
     (let (i, m) = strncpy_loop dest src 0 num m in memset (dest + i) 0 (num - i) m)"

partial_function (option) str_end :: "bytes \<Rightarrow> nat \<Rightarrow> nat option" where
  "str_end m rd = (if m rd \<noteq> 0 then str_end m (rd + 1) else Some rd)"

definition strcat :: "nat \<Rightarrow> nat \<Rightarrow> bytes \<Rightarrow> bytes option" where
  "strcat dest src m = (case str_end m dest of None \<Rightarrow> None | Some rd \<Rightarrow> strcpy rd src m)"

fun strncat_loop :: "nat \<Rightarrow> nat \<Rightarrow> nat \<Rightarrow> bytes \<Rightarrow> nat \<times> bytes" where
  "strncat_loop rd src 0 m = (rd, m)"
| "strncat_loop rd src (Suc num) m =
     (if m src \<noteq> 0 then strncat_loop (rd + 1) (src + 1) num (m(rd := m src)) else (rd + 1, m(rd := m src)))"

definition strncat :: "nat \<Rightarrow> nat \<Rightarrow> nat \<Rightarrow> bytes \<Rightarrow> bytes option" where
  "strncat dest src num m =
     (case str_end m dest of
        None \<Rightarrow> None
      | Some rd \<Rightarrow> (let (rd, m) = strncat_loop rd src num m in Some (m(rd := 0))))"

partial_function (option) strchr_loop :: "bytes \<Rightarrow> nat \<Rightarrow> u8 \<Rightarrow> nat option" where
  "strchr_loop m str c =
     (if m str \<noteq> 0 then if m str = c then Some str else strchr_loop m (str + 1) c
      else Some (if c = 0 then str else 0))"

definition strchr :: "bytes \<Rightarrow> nat \<Rightarrow> u8 \<Rightarrow> nat option" where
  "strchr m str c = (if str = 0 then Some 0 else strchr_loop m str c)"

partial_function (option) strrchr_loop :: "bytes \<Rightarrow> nat \<Rightarrow> u8 \<Rightarrow> nat \<Rightarrow> nat option" where
  "strrchr_loop m str c lst =
     (if m str \<noteq> 0 then strrchr_loop m (str + 1) c (if m str = c then str else lst)
      else Some (if c = 0 then str else lst))"

definition strrchr :: "bytes \<Rightarrow> nat \<Rightarrow> u8 \<Rightarrow> nat option" where
  "strrchr m str c = (if str = 0 then Some 0 else strrchr_loop m str c 0)"

partial_function (option) strstr_loop :: "bytes \<Rightarrow> nat \<Rightarrow> nat \<Rightarrow> nat \<Rightarrow> nat option" where
  "strstr_loop m haystack needle needle_len =
     (if m haystack \<noteq> 0 then
        if m haystack = m needle \<and> strncmp m haystack needle needle_len = 0 then Some haystack
        else strstr_loop m (haystack + 1) needle needle_len
      else Some 0)"

definition strstr :: "bytes \<Rightarrow> nat \<Rightarrow> nat \<Rightarrow> nat option" where
  "strstr m haystack needle =
     (if haystack = 0 \<or> needle = 0 then Some 0
      else if m needle = 0 then Some haystack
      else case strlen m needle of None \<Rightarrow> None | Some n \<Rightarrow> strstr_loop m haystack needle n)"

text \<open>\<open>copy\<close> is what \<open>kmalloc\<close> returned, 0 for NULL.\<close>

definition strdup :: "nat \<Rightarrow> nat \<Rightarrow> bytes \<Rightarrow> (nat \<times> bytes) option" where
  "strdup copy s m =
     (if s = 0 then Some (0, m)
      else case strlen m s of
             None \<Rightarrow> None
           | Some len \<Rightarrow> Some (copy, if copy \<noteq> 0 then memcpy copy s (len + 1) m else m))"

section \<open>Numbers\<close>

function strreverse :: "nat \<Rightarrow> nat \<Rightarrow> bytes \<Rightarrow> bytes" where
  "strreverse b e m = (if b < e then strreverse (b + 1) (e - 1) (m(e := m b, b := m e)) else m)"
  by pat_completeness auto
termination
  by (relation "measure (\<lambda>(b, e, m). e - b)") auto

declare strreverse.simps [simp del]

definition lower_digits :: "u8 list" where
  "lower_digits = [48, 49, 50, 51, 52, 53, 54, 55, 56, 57, 97, 98, 99, 100, 101, 102, 0]"

definition upper_digits :: "u8 list" where
  "upper_digits = [48, 49, 50, 51, 52, 53, 54, 55, 56, 57, 65, 66, 67, 68, 69, 70, 0]"

definition literal_at :: "u8 list \<Rightarrow> int \<Rightarrow> u8 option" where
  "literal_at lit i = (if 0 \<le> i \<and> nat i < length lit then Some (lit ! nat i) else None)"

partial_function (option) itoa_loop :: "int \<Rightarrow> int \<Rightarrow> nat \<Rightarrow> bytes \<Rightarrow> (nat \<times> int \<times> bytes) option" where
  "itoa_loop base val ptr m =
     (let tmp_value = val; val = tmp_value sdiv base
      in case literal_at lower_digits (tmp_value - val * base) of
           None \<Rightarrow> None
         | Some c \<Rightarrow>
             (if val \<noteq> 0 then itoa_loop base val (ptr + 1) (m(ptr := c))
              else Some (ptr + 1, tmp_value, m(ptr := c))))"

definition itoa :: "int \<Rightarrow> nat \<Rightarrow> int \<Rightarrow> bytes \<Rightarrow> bytes option" where
  "itoa val str base m =
     (if base < 2 \<or> base > 36 then Some (m(str := 0))
      else
        (let val = (if val < 0 \<and> base = 10 then int32 (- val) else val)
         in case itoa_loop base val str m of
              None \<Rightarrow> None
            | Some (ptr, tmp_value, m) \<Rightarrow>
                (let (ptr, m) = (if tmp_value < 0 \<and> base = 10 then (ptr + 1, m(ptr := 45)) else (ptr, m))
                 in Some (strreverse str (ptr - 1) (m(ptr := 0))))))"

function itoa_hex_loop :: "nat \<Rightarrow> nat \<Rightarrow> bytes \<Rightarrow> nat \<times> bytes" where
  "itoa_hex_loop val ptr m =
     (if val > 0 then itoa_hex_loop (val div 16) (ptr + 1) (m(ptr := upper_digits ! (val mod 16))) else (ptr, m))"
  by pat_completeness auto
termination
  by (relation "measure (\<lambda>(val, ptr, m). val)") auto

declare itoa_hex_loop.simps [simp del]

definition itoa_hex :: "nat \<Rightarrow> nat \<Rightarrow> bytes \<Rightarrow> bytes" where
  "itoa_hex val str m =
     (if val = 0 then m(str := 48, str + 1 := 0)
      else (let (ptr, m) = itoa_hex_loop val str m in strreverse str (ptr - 1) (m(ptr := 0))))"

partial_function (option) skip_blanks :: "bytes \<Rightarrow> nat \<Rightarrow> nat option" where
  "skip_blanks m str = (if m str = 32 \<or> m str = 9 then skip_blanks m (str + 1) else Some str)"

definition take_sign :: "bytes \<Rightarrow> nat \<Rightarrow> int \<times> nat" where
  "take_sign m str = (if m str = 45 then (- 1, str + 1) else if m str = 43 then (1, str + 1) else (1, str))"

partial_function (option) atoi_loop :: "bytes \<Rightarrow> nat \<Rightarrow> int \<Rightarrow> int option" where
  "atoi_loop m str res =
     (if 48 \<le> m str \<and> m str \<le> 57 then atoi_loop m (str + 1) (int32 (int32 (res * 10) + (uint (m str) - 48))) else Some res)"

definition atoi :: "bytes \<Rightarrow> nat \<Rightarrow> int option" where
  "atoi m str =
     (case skip_blanks m str of
        None \<Rightarrow> None
      | Some str \<Rightarrow>
          (let (sgn, str) = take_sign m str
           in case atoi_loop m str 0 of None \<Rightarrow> None | Some res \<Rightarrow> Some (int32 (res * sgn))))"

definition digit_val :: "u8 \<Rightarrow> int" where
  "digit_val c =
     (if 48 \<le> c \<and> c \<le> 57 then uint c - 48
      else if 97 \<le> c \<and> c \<le> 122 then uint c - 97 + 10
      else if 65 \<le> c \<and> c \<le> 90 then uint c - 65 + 10
      else - 1)"

partial_function (option) strtol_loop :: "bytes \<Rightarrow> int \<Rightarrow> nat \<Rightarrow> int \<Rightarrow> (int \<times> nat) option" where
  "strtol_loop m base str res =
     (if m str \<noteq> 0 then
        (let v = digit_val (m str)
         in if v < 0 \<or> v \<ge> base then Some (res, str)
            else strtol_loop m base (str + 1) (int64 (int64 (res * base) + v)))
      else Some (res, str))"

definition hex_prefix :: "bytes \<Rightarrow> nat \<Rightarrow> bool" where
  "hex_prefix m str = (m str = 48 \<and> (m (str + 1) = 120 \<or> m (str + 1) = 88))"

text \<open>The result and the value stored through \<open>endptr\<close>; for a null string nothing is stored.\<close>

definition strtol :: "bytes \<Rightarrow> nat \<Rightarrow> int \<Rightarrow> (int \<times> nat option) option" where
  "strtol m str base =
     (if str = 0 then Some (0, None)
      else case skip_blanks m str of
        None \<Rightarrow> None
      | Some str \<Rightarrow>
          (let (sgn, str) = take_sign m str;
               (base, str) =
                 (if base = 0 then
                    if hex_prefix m str then (16, str + 2) else if m str = 48 then (8, str) else (10, str)
                  else if base = 16 \<and> hex_prefix m str then (base, str + 2)
                  else (base, str))
           in case strtol_loop m base str 0 of
                None \<Rightarrow> None
              | Some (res, str) \<Rightarrow> Some (int64 (res * sgn), Some str)))"

section \<open>Copies\<close>

definition moved :: "nat \<Rightarrow> nat \<Rightarrow> nat \<Rightarrow> bytes \<Rightarrow> bytes" where
  "moved d s n m = (\<lambda>a. if d \<le> a \<and> a < d + n then m (s + (a - d)) else m a)"

lemma memcpy_moved:
  assumes "d \<le> s \<or> s + n \<le> d"
  shows "memcpy d s n m = moved d s n m"
  using assms
proof (induction n arbitrary: d s m)
  case (Suc n)
  have "d + 1 \<le> s + 1 \<or> s + 1 + n \<le> d + 1" using Suc.prems by auto
  then have "memcpy d s (Suc n) m = moved (d + 1) (s + 1) n (m(d := m s))" using Suc.IH by (simp add: fun_upd_def)
  also have "\<dots> = moved d s (Suc n) m"
  proof
    fix a show "moved (d + 1) (s + 1) n (m(d := m s)) a = moved d s (Suc n) m a"
      using Suc.prems by (auto simp: moved_def Suc_diff_Suc)
  qed
  finally show ?case .
qed (auto simp: moved_def intro!: ext)

lemma memmove_down_moved:
  assumes "s \<le> d"
  shows "memmove_down (d + n) (s + n) n m = moved d s n m"
proof (induction n arbitrary: m)
  case (Suc n)
  have "memmove_down (d + Suc n) (s + Suc n) (Suc n) m = moved d s n (m(d + n := m (s + n)))"
    unfolding Suc[symmetric] by simp
  also have "\<dots> = moved d s (Suc n) m"
  proof
    fix a show "moved d s n (m(d + n := m (s + n))) a = moved d s (Suc n) m a"
      using assms by (auto simp: moved_def less_Suc_eq)
  qed
  finally show ?case .
qed (auto simp: moved_def intro!: ext)

lemma memset_eq: "memset p v n m = (\<lambda>a. if p \<le> a \<and> a < p + n then v else m a)"
proof (induction n arbitrary: p m)
  case (Suc n)
  show ?case unfolding memset.simps Suc by (rule ext) auto
next
  case 0
  show ?case by (rule ext) auto
qed

section \<open>Terminated strings\<close>

definition cstr :: "bytes \<Rightarrow> nat \<Rightarrow> u8 list \<Rightarrow> bool" where
  "cstr m p s = ((\<forall>i < length s. m (p + i) = s ! i \<and> s ! i \<noteq> 0) \<and> m (p + length s) = 0)"

lemma cstr_Nil [simp]: "cstr m p [] \<longleftrightarrow> m p = 0"
  by (simp add: cstr_def)

lemma cstr_Cons [simp]: "cstr m p (x # xs) \<longleftrightarrow> m p = x \<and> x \<noteq> 0 \<and> cstr m (p + 1) xs"
  by (auto simp: cstr_def less_Suc_eq_0_disj)

lemma strlen_loop_cstr: "cstr m (p + n) s \<Longrightarrow> strlen_loop m p n = Some (n + length s)"
proof (induction s arbitrary: n)
  case Nil
  then show ?case by (subst strlen_loop.simps) simp
next
  case (Cons x s)
  then show ?case by (subst strlen_loop.simps) (simp add: Cons.IH[of "n + 1", simplified])
qed

lemma strlen_cstr: "cstr m p s \<Longrightarrow> p \<noteq> 0 \<Longrightarrow> strlen m p = Some (length s)"
  using strlen_loop_cstr[of m p 0 s] by (simp add: strlen_def)

fun str_order :: "u8 list \<Rightarrow> u8 list \<Rightarrow> int" where
  "str_order [] [] = 0"
| "str_order (x # xs) [] = uint x"
| "str_order [] (y # ys) = - uint y"
| "str_order (x # xs) (y # ys) = (if x = y then str_order xs ys else uint x - uint y)"

lemma strcmp_loop_cstr: "cstr m p xs \<Longrightarrow> cstr m q ys \<Longrightarrow> strcmp_loop m p q = Some (str_order xs ys)"
proof (induction xs ys arbitrary: p q rule: str_order.induct)
  case (4 x xs y ys)
  then show ?case by (subst strcmp_loop.simps) simp
qed (subst strcmp_loop.simps, auto)+

lemma uint_pos: "0 < uint (x :: u8) \<longleftrightarrow> x \<noteq> 0"
  by (simp add: word_uint_eq_iff order_less_le)

lemma str_order_lex:
  assumes "0 \<notin> set xs" "0 \<notin> set ys"
  shows "(str_order xs ys = 0 \<longleftrightarrow> xs = ys) \<and> (str_order xs ys < 0 \<longleftrightarrow> ord_class.lexordp xs ys)"
  using assms
proof (induction xs ys rule: str_order.induct)
  case (2 x xs)
  then have "uint x > 0" by (auto simp: uint_pos)
  then show ?case by simp
next
  case (3 y ys)
  then have "uint y > 0" by (auto simp: uint_pos)
  then show ?case by simp
next
  case (4 x xs y ys)
  then show ?case by (auto simp: word_less_def word_uint_eq_iff)
qed simp

lemma strncmp_prefix: "cstr m p xs \<Longrightarrow> cstr m q ys \<Longrightarrow> strncmp m p q (length ys) = 0 \<longleftrightarrow> take (length ys) xs = ys"
proof (induction xs ys arbitrary: p q rule: str_order.induct)
  case (3 y ys)
  then show ?case by (simp add: word_uint_eq_iff)
next
  case (4 x xs y ys)
  then show ?case by (auto simp: word_uint_eq_iff)
qed simp_all

definition occurs_at :: "'a list \<Rightarrow> nat \<Rightarrow> 'a list \<Rightarrow> bool" where
  "occurs_at ys i xs = (i \<le> length xs \<and> take (length ys) (drop i xs) = ys)"

lemma strstr_loop_cstr:
  assumes "cstr m h xs" "cstr m n ys" "ys \<noteq> []"
  shows "\<exists>r. strstr_loop m h n (length ys) = Some r \<and>
    ((r = 0 \<and> (\<forall>i. \<not> occurs_at ys i xs)) \<or>
     (\<exists>i. r = h + i \<and> occurs_at ys i xs \<and> (\<forall>j < i. \<not> occurs_at ys j xs)))"
  using assms(1)
proof (induction xs arbitrary: h)
  case Nil
  then have "strstr_loop m h n (length ys) = Some 0" by (subst strstr_loop.simps) simp
  then show ?case using assms(3) by (auto simp: occurs_at_def)
next
  case (Cons x xs)
  have here: "m h = m n \<and> strncmp m h n (length ys) = 0 \<longleftrightarrow> occurs_at ys 0 (x # xs)"
    using strncmp_prefix[OF Cons.prems assms(2)] assms(2,3) Cons.prems
    by (cases ys) (auto simp: occurs_at_def)
  have later: "occurs_at ys (Suc i) (x # xs) \<longleftrightarrow> occurs_at ys i xs" for i by (simp add: occurs_at_def)
  show ?case
  proof (cases "occurs_at ys 0 (x # xs)")
    case True
    then have "strstr_loop m h n (length ys) = Some h"
      using here Cons.prems by (subst strstr_loop.simps) simp
    then show ?thesis using True by (intro exI[of _ h]) auto
  next
    case False
    then have go: "strstr_loop m h n (length ys) = strstr_loop m (h + 1) n (length ys)"
      using here Cons.prems by (subst strstr_loop.simps) auto
    obtain r where r: "strstr_loop m (h + 1) n (length ys) = Some r"
        "(r = 0 \<and> (\<forall>i. \<not> occurs_at ys i xs)) \<or>
         (\<exists>i. r = h + 1 + i \<and> occurs_at ys i xs \<and> (\<forall>j < i. \<not> occurs_at ys j xs))"
      using Cons.IH[of "h + 1"] Cons.prems by auto
    from r(2) show ?thesis
    proof
      assume none: "r = 0 \<and> (\<forall>i. \<not> occurs_at ys i xs)"
      then have "\<not> occurs_at ys i (x # xs)" for i using False later by (cases i) auto
      then show ?thesis using r(1) go none by auto
    next
      assume "\<exists>i. r = h + 1 + i \<and> occurs_at ys i xs \<and> (\<forall>j < i. \<not> occurs_at ys j xs)"
      then obtain i where i: "r = h + Suc i" "occurs_at ys (Suc i) (x # xs)" "\<forall>j < i. \<not> occurs_at ys j xs"
        using later by auto
      have "\<not> occurs_at ys j (x # xs)" if "j < Suc i" for j using that i(3) False later by (cases j) auto
      then show ?thesis using r(1) go i by auto
    qed
  qed
qed

section \<open>Digits\<close>

function digits_rev :: "nat \<Rightarrow> nat \<Rightarrow> nat list" where
  "digits_rev b n = (n mod b) # (if b < 2 \<or> n div b = 0 then [] else digits_rev b (n div b))"
  by pat_completeness auto
termination
  by (relation "measure snd") (auto intro!: div_less_dividend gr0I)

declare digits_rev.simps [simp del]

definition digits :: "nat \<Rightarrow> nat \<Rightarrow> nat list" where
  "digits b n = rev (digits_rev b n)"

primrec horner :: "nat \<Rightarrow> nat \<Rightarrow> nat list \<Rightarrow> nat" where
  "horner b acc [] = acc"
| "horner b acc (d # ds) = horner b (acc * b + d) ds"

lemma horner_append: "horner b acc (xs @ ys) = horner b (horner b acc xs) ys"
  by (induction xs arbitrary: acc) simp_all

lemma digits_rev_less:
  assumes "2 \<le> b"
  shows "d \<in> set (digits_rev b n) \<Longrightarrow> d < b"
proof (induction n rule: less_induct)
  case (less n)
  have "0 < n div b \<Longrightarrow> n div b < n" using assms by (auto intro!: div_less_dividend gr0I)
  then have "d = n mod b \<or> (n div b < n \<and> d \<in> set (digits_rev b (n div b)))"
    using less.prems assms digits_rev.simps[of b n] by (auto split: if_splits)
  then show ?case using less.IH assms by auto
qed

lemma horner_digits:
  assumes "2 \<le> b"
  shows "horner b 0 (digits b n) = n"
proof (induction n rule: less_induct)
  case (less n)
  show ?case
  proof (cases "n div b = 0")
    case True
    then have "digits b n = [n]" using assms digits_rev.simps[of b n] by (auto simp: digits_def div_eq_0_iff)
    then show ?thesis by simp
  next
    case False
    then have "digits b n = digits b (n div b) @ [n mod b]" using assms digits_rev.simps[of b n] by (simp add: digits_def)
    moreover have "n div b < n" using False assms by (auto intro!: div_less_dividend gr0I)
    ultimately show ?thesis using less by (simp add: horner_append)
  qed
qed

lemma horner_mono: "1 \<le> b \<Longrightarrow> acc \<le> horner b acc ds"
proof (induction ds arbitrary: acc)
  case (Cons d ds)
  have "acc \<le> acc * b + d" using Cons.prems by (simp add: trans_le_add1)
  then show ?case using Cons.IH[OF Cons.prems, of "acc * b + d"] by simp
qed simp

lemma length_digits_rev: "digits_rev b n \<noteq> []"
  using digits_rev.simps[of b n] by simp

section \<open>Printing\<close>

definition put :: "nat \<Rightarrow> u8 list \<Rightarrow> bytes \<Rightarrow> bytes" where
  "put p xs m = (\<lambda>a. if p \<le> a \<and> a < p + length xs then xs ! (a - p) else m a)"

lemma put_Cons: "put (p + 1) xs (m(p := x)) = put p (x # xs) m"
  by (rule ext) (auto simp: put_def nth_Cons' Suc_diff_Suc)

lemma strreverse_eq: "b \<le> e + 1 \<Longrightarrow> strreverse b e m = (\<lambda>a. if b \<le> a \<and> a \<le> e then m (b + e - a) else m a)"
proof (induction b e m rule: strreverse.induct)
  case (1 b e m)
  show ?case
  proof (cases "b < e")
    case True
    let ?m = "m(e := m b, b := m e)"
    have "strreverse b e m = strreverse (b + 1) (e - 1) ?m" using True by (subst strreverse.simps) simp
    also have "\<dots> = (\<lambda>a. if b + 1 \<le> a \<and> a \<le> e - 1 then ?m (b + 1 + (e - 1) - a) else ?m a)"
      using "1.IH"[OF True] True by (simp add: fun_upd_def)
    also have "\<dots> = (\<lambda>a. if b \<le> a \<and> a \<le> e then m (b + e - a) else m a)"
    proof
      fix a show "(if b + 1 \<le> a \<and> a \<le> e - 1 then ?m (b + 1 + (e - 1) - a) else ?m a) =
          (if b \<le> a \<and> a \<le> e then m (b + e - a) else m a)" using True by auto
    qed
    finally show ?thesis .
  next
    case False
    have "m a = m (b + e - a)" if "b \<le> a" "a \<le> e" for a
    proof -
      have "a = b" "e = b" using that False by auto
      then show ?thesis by simp
    qed
    then show ?thesis using False by (subst strreverse.simps) (auto intro!: ext)
  qed
qed

lemma reversed_cstr:
  assumes "xs \<noteq> []" "0 \<notin> set xs"
  shows "strreverse p (p + length xs - 1) ((put p xs m)(p + length xs := 0)) = put p (rev xs @ [0]) m"
proof
  fix a
  have p: "p \<le> (p + length xs - 1) + 1" by simp
  have l: "0 < length xs" using assms(1) by simp
  show "strreverse p (p + length xs - 1) ((put p xs m)(p + length xs := 0)) a = put p (rev xs @ [0]) m a"
  proof (cases "p \<le> a \<and> a < p + length xs")
    case True
    then obtain k where k: "a = p + k" "k < length xs" by (metis le_Suc_ex nat_add_left_cancel_less)
    then have "p + (p + length xs - 1) - a = p + (length xs - Suc k)" by simp
    moreover have "((put p xs m)(p + length xs := 0)) (p + (length xs - Suc k)) = xs ! (length xs - Suc k)"
      using k by (auto simp: put_def)
    moreover have "put p (rev xs @ [0]) m a = xs ! (length xs - Suc k)" using k by (simp add: put_def nth_append rev_nth)
    moreover have "p \<le> a \<and> a \<le> p + length xs - 1" using k by auto
    ultimately show ?thesis unfolding strreverse_eq[OF p] by simp
  next
    case False
    then show ?thesis using l unfolding strreverse_eq[OF p] by (cases xs) (auto simp: put_def nth_append)
  qed
qed

lemma put_cstr: "0 \<notin> set xs \<Longrightarrow> cstr (put p (xs @ [0]) m) p xs"
  by (auto simp: cstr_def put_def nth_append dest: nth_mem)

lemma itoa_loop_digits:
  assumes "2 \<le> b" "b \<le> 16"
  shows "\<exists>t \<ge> 0. itoa_loop (int b) (int n) p m =
    Some (p + length (digits_rev b n), t, put p (map ((!) lower_digits) (digits_rev b n)) m)"
proof (induction n arbitrary: p m rule: less_induct)
  case (less n)
  have sd: "int n sdiv int b = int (n div b)" using assms(1)
    by (cases "n = 0") (simp_all add: signed_divide_int_def zdiv_int)
  have "int n - int (n div b) * int b = int (n mod b)" by (simp add: minus_div_mult_eq_mod zdiv_int zmod_int)
  moreover have "n mod b < 16" using assms mod_less_divisor[of b n] by linarith
  ultimately have dig: "literal_at lower_digits (int n - int (n div b) * int b) = Some (lower_digits ! (n mod b))"
    by (simp add: literal_at_def lower_digits_def)
  let ?m = "m(p := lower_digits ! (n mod b))"
  show ?case
  proof (cases "n div b = 0")
    case True
    then have "itoa_loop (int b) (int n) p m = Some (p + 1, int n, ?m)"
      using dig sd by (subst itoa_loop.simps) (simp add: Let_def)
    moreover have "digits_rev b n = [n mod b]" using True digits_rev.simps[of b n] by simp
    ultimately show ?thesis using put_Cons[of p "[]" m] by (auto simp: put_def)
  next
    case False
    then have "itoa_loop (int b) (int n) p m = itoa_loop (int b) (int (n div b)) (p + 1) ?m"
      using dig sd by (subst itoa_loop.simps) (simp add: Let_def)
    moreover have "digits_rev b n = n mod b # digits_rev b (n div b)" using False assms digits_rev.simps[of b n] by simp
    moreover have "n div b < n" using False assms by (auto intro!: div_less_dividend gr0I)
    ultimately show ?thesis using less[of "n div b" "p + 1" ?m] by (auto simp: put_Cons[symmetric] fun_upd_def)
  qed
qed

lemma lower_digit_all:
  "\<forall>d \<in> set [0 ..< 16]. digit_val (lower_digits ! d) = int d \<and> lower_digits ! d \<notin> {0, 9, 32, 43, 45, 88, 120}"
  by code_simp

lemma lower_digit:
  "d < 16 \<Longrightarrow> digit_val (lower_digits ! d) = int d" "d < 16 \<Longrightarrow> lower_digits ! d \<notin> {0, 9, 32, 43, 45, 88, 120}"
  using lower_digit_all by simp_all

definition numeral_str :: "nat \<Rightarrow> nat \<Rightarrow> u8 list" where
  "numeral_str b n = map ((!) lower_digits) (digits b n)"

lemma itoa_prints:
  assumes "2 \<le> b" "b \<le> 16"
  shows "itoa (int n) str (int b) m = Some (put str (numeral_str b n @ [0]) m)" "0 \<notin> set (numeral_str b n)"
proof -
  let ?xs = "map ((!) lower_digits) (digits_rev b n)"
  have z: "0 \<notin> set ?xs" using lower_digit(2) digits_rev_less[OF assms(1)] assms(2) by force
  then show "0 \<notin> set (numeral_str b n)" by (simp add: numeral_str_def digits_def)
  obtain t where t: "t \<ge> 0" "itoa_loop (int b) (int n) str m = Some (str + length ?xs, t, put str ?xs m)"
    using itoa_loop_digits[OF assms] by fastforce
  then show "itoa (int n) str (int b) m = Some (put str (numeral_str b n @ [0]) m)"
    using reversed_cstr[of ?xs str m] z length_digits_rev assms
    by (simp add: itoa_def Let_def numeral_str_def digits_def rev_map)
qed

section \<open>Copying strings\<close>

lemma cstr_frame: "cstr m p xs \<Longrightarrow> a < p \<or> p + length xs < a \<Longrightarrow> cstr (m(a := v)) p xs"
  by (auto simp: cstr_def)

lemma strcpy_cstr:
  assumes "cstr m s xs" "d + length xs < s \<or> s + length xs < d"
  shows "strcpy d s m = Some (put d (xs @ [0]) m)"
  using assms
proof (induction xs arbitrary: d s m)
  case Nil
  then show ?case by (subst strcpy.simps) (auto simp: Let_def put_def)
next
  case (Cons x xs)
  have "cstr (m(d := x)) (s + 1) xs" using Cons.prems by (intro cstr_frame) auto
  then have "strcpy (d + 1) (s + 1) (m(d := x)) = Some (put (d + 1) (xs @ [0]) (m(d := x)))"
    using Cons.IH[of "m(d := x)" "s + 1" "d + 1"] Cons.prems(2) by (auto simp: fun_upd_def)
  then show ?case using Cons.prems by (subst strcpy.simps) (simp add: Let_def put_Cons[symmetric])
qed

lemma str_end_cstr: "cstr m p xs \<Longrightarrow> str_end m p = Some (p + length xs)"
proof (induction xs arbitrary: p)
  case Nil
  then show ?case by (subst str_end.simps) simp
next
  case (Cons x xs)
  then show ?case by (subst str_end.simps) simp
qed

lemma strcat_cstr:
  assumes "cstr m d xs" "cstr m s ys" "d + length xs + length ys < s \<or> s + length ys < d + length xs"
  shows "strcat d s m = Some (put (d + length xs) (ys @ [0]) m)"
  using assms by (simp add: strcat_def str_end_cstr strcpy_cstr)

text \<open>When the source is shorter than the limit, \<open>strncat\<close> also clears the byte after the terminator it copied.\<close>

lemma strncat_extra_byte:
  assumes "cstr m d xs" "cstr m s []" "0 < n"
  shows "strncat d s n m = Some (m(d + length xs := 0, d + length xs + 1 := 0))"
  using assms by (cases n) (simp_all add: strncat_def str_end_cstr)

section \<open>Reading back\<close>

lemma int64_id: "0 \<le> x \<Longrightarrow> x < 2 ^ 63 \<Longrightarrow> int64 x = x"
  by (simp add: int64_def)

lemma strtol_loop_digits:
  assumes "cstr m p (map f ds)" "\<forall>d \<in> set ds. d < b \<and> digit_val (f d) = int d" "1 \<le> b" "horner b acc ds < 2 ^ 63"
  shows "strtol_loop m (int b) p (int acc) = Some (int (horner b acc ds), p + length ds)"
  using assms
proof (induction ds arbitrary: p acc)
  case Nil
  then show ?case by (subst strtol_loop.simps) simp
next
  case (Cons d ds)
  let ?acc = "acc * b + d"
  have le: "?acc < 2 ^ 63" using horner_mono[OF Cons.prems(3), of ?acc ds] Cons.prems(4) by simp
  then have "int ?acc < int (2 ^ 63)" by (simp only: of_nat_less_iff)
  then have "int ?acc < 2 ^ 63" "int acc * int b < 2 ^ 63" by simp_all
  then have "int64 (int64 (int acc * int b) + int d) = int ?acc"
    using int64_id[of "int acc * int b"] int64_id[of "int ?acc"] by simp
  then have "strtol_loop m (int b) p (int acc) = strtol_loop m (int b) (p + 1) (int ?acc)"
    using Cons.prems by (subst strtol_loop.simps) (simp add: Let_def)
  then show ?case using Cons.IH[of "p + 1" ?acc] Cons.prems by simp
qed

lemma strtol_numeral:
  assumes "cstr m p (map f ds)" "ds \<noteq> []" "\<forall>d \<in> set ds. d < b \<and> digit_val (f d) = int d \<and> f d \<notin> {0, 9, 32, 43, 45, 88, 120}"
    "2 \<le> b" "horner b 0 ds < 2 ^ 63" "p \<noteq> 0"
  shows "strtol m p (int b) = Some (int (horner b 0 ds), Some (p + length ds))"
proof -
  obtain d ds' where ds: "ds = d # ds'" using assms(2) by (cases ds) auto
  have first: "m p \<notin> {9, 32, 43, 45}" using assms(1,3) by (simp add: ds)
  then have "take_sign m p = (1, p)" by (simp add: take_sign_def)
  moreover have "skip_blanks m p = Some p" using first by (subst skip_blanks.simps) simp
  moreover have "\<not> hex_prefix m p"
    using assms(1,3) by (cases ds') (auto simp: ds hex_prefix_def)
  moreover have "strtol_loop m (int b) p 0 = Some (int (horner b 0 ds), p + length ds)"
    using strtol_loop_digits[OF assms(1), of b 0] assms(3,4,5) by simp
  ultimately show ?thesis using assms(4,5,6) by (simp add: strtol_def int64_id)
qed

lemma itoa_hex_loop_digits:
  "0 < n \<Longrightarrow> itoa_hex_loop n p m =
    (p + length (digits_rev 16 n), put p (map ((!) upper_digits) (digits_rev 16 n)) m)"
proof (induction n arbitrary: p m rule: less_induct)
  case (less n)
  let ?m = "m(p := upper_digits ! (n mod 16))"
  have u: "itoa_hex_loop n p m = itoa_hex_loop (n div 16) (p + 1) ?m" using less.prems by (subst itoa_hex_loop.simps) simp
  show ?case
  proof (cases "n div 16 = 0")
    case True
    then have "itoa_hex_loop n p m = (p + 1, ?m)" using u by (simp add: itoa_hex_loop.simps)
    moreover have "digits_rev 16 n = [n mod 16]" using True digits_rev.simps[of 16 n] by simp
    ultimately show ?thesis by (auto simp: put_def)
  next
    case False
    moreover have "digits_rev 16 n = n mod 16 # digits_rev 16 (n div 16)" using False digits_rev.simps[of 16 n] by simp
    moreover have "n div 16 < n" using less.prems by simp
    ultimately show ?thesis using u less.IH[of "n div 16" "p + 1" ?m] by (auto simp: put_Cons[symmetric] fun_upd_def)
  qed
qed

lemma upper_digit_all:
  "\<forall>d \<in> set [0 ..< 16]. digit_val (upper_digits ! d) = int d \<and> upper_digits ! d \<notin> {0, 9, 32, 43, 45, 88, 120}"
  by code_simp

lemma upper_digit:
  "d < 16 \<Longrightarrow> digit_val (upper_digits ! d) = int d" "d < 16 \<Longrightarrow> upper_digits ! d \<notin> {0, 9, 32, 43, 45, 88, 120}"
  using upper_digit_all by simp_all

definition hex_str :: "nat \<Rightarrow> u8 list" where
  "hex_str n = map ((!) upper_digits) (digits 16 n)"

lemma itoa_hex_prints: "itoa_hex n str m = put str (hex_str n @ [0]) m" "0 \<notin> set (hex_str n)"
proof -
  let ?xs = "map ((!) upper_digits) (digits_rev 16 n)"
  have z: "0 \<notin> set ?xs" using upper_digit(2) digits_rev_less[of 16] by force
  then show "0 \<notin> set (hex_str n)" by (simp add: hex_str_def digits_def)
  show "itoa_hex n str m = put str (hex_str n @ [0]) m"
  proof (cases "n = 0")
    case True
    have "digits_rev 16 0 = [0]" using digits_rev.simps[of 16 0] by simp
    then show ?thesis using True by (auto simp: itoa_hex_def hex_str_def digits_def put_def upper_digits_def fun_eq_iff nth_Cons')
  next
    case False
    then show ?thesis
      using reversed_cstr[of ?xs str m] z length_digits_rev itoa_hex_loop_digits[of n str m]
      by (simp add: itoa_hex_def hex_str_def digits_def rev_map)
  qed
qed

section \<open>Properties\<close>

text \<open>C34: \<open>memmove\<close> copies as if through a temporary buffer, whatever the overlap of the two ranges, and
  \<open>memcpy\<close> does so when the destination does not start inside the source range after its first byte.\<close>

theorem memmove_any_overlap:
  "memmove d s n m = (\<lambda>a. if d \<le> a \<and> a < d + n then m (s + (a - d)) else m a) \<and>
   (if s < d \<and> d < s + n then True else memcpy d s n m = memmove d s n m)"
  using memcpy_moved[of d s n m] memmove_down_moved[of s d n m]
  by (auto simp: memmove_def moved_def fun_eq_iff not_less)

text \<open>On terminated strings \<open>strcmp\<close> returns and orders them lexicographically by unsigned bytes, and
  \<open>strstr\<close> returns the address of the first occurrence of the needle, or NULL when there is none.\<close>

theorem strcmp_strstr_correct:
  assumes "cstr m p xs" "cstr m q ys" "p \<noteq> 0" "q \<noteq> 0"
  shows "\<exists>r h. strcmp m p q = Some r \<and> (r = 0 \<longleftrightarrow> xs = ys) \<and> (r < 0 \<longleftrightarrow> ord_class.lexordp xs ys) \<and>
    strstr m p q = Some h \<and>
    (if h = 0 then (\<forall>i. \<not> occurs_at ys i xs)
     else (\<exists>i. h = p + i \<and> occurs_at ys i xs \<and> (\<forall>j < i. \<not> occurs_at ys j xs)))"
proof -
  have nz: "0 \<notin> set xs" "0 \<notin> set ys" using assms(1,2) by (auto simp: cstr_def in_set_conv_nth)
  have c: "strcmp m p q = Some (str_order xs ys)"
    using strcmp_loop_cstr[OF assms(1,2)] assms(3,4) by (simp add: strcmp_def)
  obtain h where h: "strstr m p q = Some h" "(h = 0 \<and> (\<forall>i. \<not> occurs_at ys i xs)) \<or>
      (\<exists>i. h = p + i \<and> occurs_at ys i xs \<and> (\<forall>j < i. \<not> occurs_at ys j xs))"
  proof (cases ys)
    case Nil
    then show ?thesis using that[of p] assms by (auto simp: strstr_def occurs_at_def)
  next
    case (Cons y ys')
    obtain r where "strstr_loop m p q (length ys) = Some r" "(r = 0 \<and> (\<forall>i. \<not> occurs_at ys i xs)) \<or>
        (\<exists>i. r = p + i \<and> occurs_at ys i xs \<and> (\<forall>j < i. \<not> occurs_at ys j xs))"
      using strstr_loop_cstr[OF assms(1,2)] Cons by auto
    then show ?thesis
      using that[of r] strlen_cstr[OF assms(2,4)] assms(2,3,4) Cons by (simp add: strstr_def)
  qed
  then show ?thesis using c str_order_lex[OF nz] assms(3) by (intro exI[of _ "str_order xs ys"] exI[of _ h]) auto
qed

theorem strcmp_strstr_correct_witness:
  "\<exists>r h. strcmp (put 10 [97, 98, 0, 98, 0] (\<lambda>_. 0)) 10 13 = Some r \<and> r \<noteq> 0 \<and>
     strstr (put 10 [97, 98, 0, 98, 0] (\<lambda>_. 0)) 10 13 = Some h"
  using strcmp_strstr_correct[of "put 10 [97, 98, 0, 98, 0] (\<lambda>_. 0)" 10 "[97, 98]" 13 "[98]"]
  by (auto simp: put_def)

text \<open>C35: What \<open>itoa\<close> prints for a non-negative \<open>int\<close> in a base from 2 to 16, and \<open>itoa_hex\<close> for a number below
  2^63 (the largest \<open>strtol\<close> returns a \<open>long\<close> for), \<open>strtol\<close> reads back as the same number, stopping at the
  terminator; neither writes anything outside the printed string and its terminator. The buffer is not NULL.\<close>

theorem print_read_roundtrip:
  assumes "n < 2 ^ 31" "2 \<le> b" "b \<le> 16" "k < 2 ^ 63" "str \<noteq> 0"
  shows "\<exists>m'. itoa (int n) str (int b) m = Some m' \<and> strtol m' str (int b) = Some (int n, Some (str + length (digits b n))) \<and>
      (\<forall>a. a < str \<or> str + length (digits b n) < a \<longrightarrow> m' a = m a) \<and>
    strtol (itoa_hex k str m) str 16 = Some (int k, Some (str + length (digits 16 k))) \<and>
      (\<forall>a. a < str \<or> str + length (digits 16 k) < a \<longrightarrow> itoa_hex k str m a = m a)"
proof -
  have ne: "digits c j \<noteq> []" for c j using length_digits_rev by (simp add: digits_def)
  have lt: "d < c" if "d \<in> set (digits c j)" "2 \<le> c" for c j d using that digits_rev_less by (simp add: digits_def)
  have low: "\<forall>d \<in> set (digits b n). d < b \<and> digit_val (lower_digits ! d) = int d \<and> lower_digits ! d \<notin> {0, 9, 32, 43, 45, 88, 120}"
    using lt[OF _ assms(2)] less_le_trans[OF lt[OF _ assms(2)] assms(3)] lower_digit by blast
  have up: "\<forall>d \<in> set (digits 16 k). d < 16 \<and> digit_val (upper_digits ! d) = int d \<and> upper_digits ! d \<notin> {0, 9, 32, 43, 45, 88, 120}"
    using lt[of _ 16 k] upper_digit by simp
  let ?m = "put str (numeral_str b n @ [0]) m"
  have c: "cstr ?m str (map ((!) lower_digits) (digits b n))" "cstr (itoa_hex k str m) str (map ((!) upper_digits) (digits 16 k))"
    using put_cstr[OF itoa_prints(2)[OF assms(2,3), of n], of str m] put_cstr[OF itoa_hex_prints(2)[of k], of str m]
    by (simp_all add: numeral_str_def itoa_hex_prints(1) hex_str_def)
  have "strtol ?m str (int b) = Some (int n, Some (str + length (digits b n)))"
    using strtol_numeral[OF c(1) ne low assms(2) _ assms(5)] assms(1,2) by (simp add: horner_digits)
  moreover have "strtol (itoa_hex k str m) str 16 = Some (int k, Some (str + length (digits 16 k)))"
    using strtol_numeral[OF c(2) ne up _ _ assms(5)] assms(4) by (simp add: horner_digits)
  moreover have "itoa_hex k str m a = m a" if "a < str \<or> str + length (digits 16 k) < a" for a
    using that by (auto simp: itoa_hex_prints(1) put_def hex_str_def)
  ultimately show ?thesis
    using itoa_prints(1)[OF assms(2,3), of n str m] by (auto simp: put_def numeral_str_def)
qed

theorem print_read_roundtrip_witness:
  "\<exists>m'. itoa (int 42) 100 (int 10) (\<lambda>_. 0) = Some m' \<and> strtol m' 100 (int 10) = Some (int 42, Some (100 + length (digits 10 42))) \<and>
     strtol (itoa_hex 255 100 (\<lambda>_. 0)) 100 16 = Some (int 255, Some (100 + length (digits 16 255)))"
  using print_read_roundtrip[of 42 10 255 100 "\<lambda>_. 0"] by auto

text \<open>In base 10 \<open>itoa\<close> prints a negative number without its sign.\<close>

lemma itoa_drops_sign:
  assumes "- (2 ^ 31) < v" "v < 0"
  shows "itoa v str 10 m = itoa (- v) str 10 m"
  using assms by (simp add: itoa_def int32_def)

end
