(* ===== verification/Printf.thy ===== *)
theory Printf
  imports Prelude
begin

text \<open>
  \<open>lib/vsprintf.c\<close>. A C string is the list of its characters without the terminator; while the format is
  scanned the output is the list of characters stored from the start of the buffer, so its length is
  \<open>out_idx\<close>, and the result is the stored bytes with the terminator. \<open>None\<close> stands for what has no defined
  result: reading past the end of the format or of the argument list, an argument of the wrong kind, a
  field width that overflows \<open>int\<close>. Sizes are \<open>size_t\<close>: subtractions wrap; conversions to \<open>int\<close> keep
  the low 32 bits.
\<close>

section \<open>Numbers\<close>

text \<open>Appending characters while the index is below the limit, as every output loop of the file does.\<close>

fun emit :: "nat \<Rightarrow> string \<Rightarrow> string \<Rightarrow> string" where
  "emit lim [] out = out"
| "emit lim (c # cs) out = (if length out < lim then emit lim cs (out @ [c]) else out)"

definition digit_char :: "bool \<Rightarrow> nat \<Rightarrow> char" where
  "digit_char upper d = (if upper then ''0123456789ABCDEF'' else ''0123456789abcdef'') ! d"

text \<open>The contents of \<open>temp\<close>, least significant digit first; all callers pass a base from 8 to 16.\<close>

function temp_digits :: "nat \<Rightarrow> bool \<Rightarrow> nat \<Rightarrow> string" where
  "temp_digits base upper num =
     (if num > 0 \<and> base > 1 then digit_char upper (num mod base) # temp_digits base upper (num div base) else [])"
  by pat_completeness auto
termination
  by (relation "measure (\<lambda>(base, upper, num). num)") auto

declare temp_digits.simps [simp del]

definition format_number :: "nat \<Rightarrow> nat \<Rightarrow> nat \<Rightarrow> bool \<Rightarrow> bool \<Rightarrow> nat \<Rightarrow> char \<Rightarrow> bool \<Rightarrow> string" where
  "format_number sz num base is_signed upper width pad left_align =
     (let negative = (is_signed \<and> 2 ^ 63 \<le> num);
          num = (if negative then sub64 0 num else num);
          temp = (if num = 0 then ''0'' else temp_digits base upper num);
          temp = (if negative then temp @ ''-'' else temp);
          pad_count = (if width > length temp then width - length temp else 0);
          lim = sub64 sz 1;
          out = (if \<not> left_align then emit lim (replicate pad_count pad) [] else []);
          out = emit lim (rev temp) out
      in if left_align then emit lim (replicate pad_count CHR '' '') out else out)"

section \<open>Conversions\<close>

datatype fmt_arg = Arg_int nat | Arg_str "string option"

fun va_int :: "fmt_arg list \<Rightarrow> (nat \<times> fmt_arg list) option" where
  "va_int (Arg_int n # args) = Some (n, args)"
| "va_int _ = None"

fun va_str :: "fmt_arg list \<Rightarrow> (string option \<times> fmt_arg list) option" where
  "va_str (Arg_str s # args) = Some (s, args)"
| "va_str _ = None"

text \<open>\<open>va_arg\<close> of an \<open>int\<close> widened to 64 bits, and of an \<open>unsigned int\<close>; a \<open>long\<close> has 64 bits.\<close>

definition int_arg :: "bool \<Rightarrow> nat \<Rightarrow> nat" where
  "int_arg is_long n =
     (if is_long then n mod 2 ^ 64
      else (let v = n mod 2 ^ 32 in if v < 2 ^ 31 then v else v + (2 ^ 64 - 2 ^ 32)))"

definition uint_arg :: "bool \<Rightarrow> nat \<Rightarrow> nat" where
  "uint_arg is_long n = (if is_long then n mod 2 ^ 64 else n mod 2 ^ 32)"

fun fmt_flags :: "string \<Rightarrow> bool \<times> char \<times> string" where
  "fmt_flags fmt =
     (let (left_align, fmt) = (case fmt of c # cs \<Rightarrow> if c = CHR ''-'' then (True, cs) else (False, fmt) | [] \<Rightarrow> (False, []));
          (pad, fmt) = (case fmt of c # cs \<Rightarrow> if c = CHR ''0'' \<and> \<not> left_align then (CHR ''0'', cs) else (CHR '' '', fmt)
                                  | [] \<Rightarrow> (CHR '' '', []))
      in (left_align, pad, fmt))"

definition is_digit :: "char \<Rightarrow> bool" where
  "is_digit c = (48 \<le> (of_char c :: nat) \<and> (of_char c :: nat) \<le> 57)"

text \<open>The width is an \<open>int\<close>; a signed overflow has no result.\<close>

fun fmt_width :: "nat \<Rightarrow> string \<Rightarrow> (nat \<times> string) option" where
  "fmt_width w [] = Some (w, [])"
| "fmt_width w (c # cs) =
     (if is_digit c then
        (let w = w * 10 + (of_char c - 48) in if INT32_MAX < int w then None else fmt_width w cs)
      else Some (w, c # cs))"

fun fmt_length :: "string \<Rightarrow> bool \<times> string" where
  "fmt_length fmt =
     (case fmt of
        c # cs \<Rightarrow>
          if c = CHR ''l'' then (case cs of c2 # cs2 \<Rightarrow> if c2 = CHR ''l'' then (True, cs2) else (True, cs) | [] \<Rightarrow> (True, []))
          else (False, fmt)
      | [] \<Rightarrow> (False, []))"

definition put_number ::
    "nat \<Rightarrow> string \<Rightarrow> nat \<Rightarrow> nat \<Rightarrow> bool \<Rightarrow> bool \<Rightarrow> nat \<Rightarrow> char \<Rightarrow> bool \<Rightarrow> string" where
  "put_number sz out num base is_signed upper width pad left_align =
     out @ format_number (sub64 sz (length out)) num base is_signed upper width pad left_align"

text \<open>The \<open>switch\<close> on the conversion character.\<close>

definition convert ::
    "nat \<Rightarrow> bool \<Rightarrow> char \<Rightarrow> nat \<Rightarrow> bool \<Rightarrow> char \<Rightarrow> string \<Rightarrow> fmt_arg list \<Rightarrow> (string \<times> fmt_arg list) option" where
  "convert sz left_align pad width is_long c out args =
     (let lim = sub64 sz 1 in
      if c = CHR ''c'' then
        (case va_int args of None \<Rightarrow> None | Some (n, args) \<Rightarrow> Some (emit lim [char_of n] out, args))
      else if c = CHR ''s'' then
        (case va_str args of
           None \<Rightarrow> None
         | Some (s, args) \<Rightarrow>
             (let s = (case s of None \<Rightarrow> ''(null)'' | Some s \<Rightarrow> s);
                  s_len = int32 (int (length s));
                  pad_count = (if int width > s_len then int width - s_len else 0);
                  pads = replicate (nat pad_count) CHR '' '';
                  out = (if \<not> left_align then emit lim pads out else out);
                  out = emit lim s out
              in if INT32_MAX < pad_count then None
                 else Some (if left_align then emit lim pads out else out, args)))
      else if c = CHR ''d'' \<or> c = CHR ''i'' then
        (case va_int args of
           None \<Rightarrow> None
         | Some (n, args) \<Rightarrow> Some (put_number sz out (int_arg is_long n) 10 True False width pad left_align, args))
      else if c = CHR ''u'' then
        (case va_int args of
           None \<Rightarrow> None
         | Some (n, args) \<Rightarrow> Some (put_number sz out (uint_arg is_long n) 10 False False width pad left_align, args))
      else if c = CHR ''o'' then
        (case va_int args of
           None \<Rightarrow> None
         | Some (n, args) \<Rightarrow> Some (put_number sz out (uint_arg is_long n) 8 False False width pad left_align, args))
      else if c = CHR ''x'' then
        (case va_int args of
           None \<Rightarrow> None
         | Some (n, args) \<Rightarrow> Some (put_number sz out (uint_arg is_long n) 16 False False width pad left_align, args))
      else if c = CHR ''X'' then
        (case va_int args of
           None \<Rightarrow> None
         | Some (n, args) \<Rightarrow> Some (put_number sz out (uint_arg is_long n) 16 False True width pad left_align, args))
      else if c = CHR ''p'' then
        (case va_int args of
           None \<Rightarrow> None
         | Some (n, args) \<Rightarrow>
             (let out = (if length out < sub64 sz 3 then out @ ''0x'' else out)
              in Some (put_number sz out (n mod 2 ^ 64) 16 False False 16 CHR ''0'' False, args)))
      else if c = CHR ''%'' then Some (emit lim ''%'' out, args)
      else Some (emit lim [c] out, args))"

section \<open>The format loop\<close>

lemma fmt_width_length: "fmt_width w cs = Some (w', cs') \<Longrightarrow> length cs' \<le> length cs"
  by (induction w cs rule: fmt_width.induct) (auto simp: Let_def split: if_splits)

lemma fmt_flags_length: "length (snd (snd (fmt_flags cs))) \<le> length cs"
  by (auto split: list.splits)

lemma fmt_length_length: "length (snd (fmt_length cs)) \<le> length cs"
  by (auto split: list.splits)

text \<open>Flags, width and length modifier after a per cent sign, and what follows them.\<close>

definition fmt_spec :: "string \<Rightarrow> (bool \<times> char \<times> nat \<times> bool \<times> string) option" where
  "fmt_spec fmt =
     (let (left_align, pad, fmt) = fmt_flags fmt
      in case fmt_width 0 fmt of
           None \<Rightarrow> None
         | Some (width, fmt) \<Rightarrow>
             (let (is_long, fmt) = fmt_length fmt in Some (left_align, pad, width, is_long, fmt)))"

lemma fmt_spec_length:
  assumes "fmt_spec fmt = Some (la, pad, width, is_long, rest)"
  shows "length rest \<le> length fmt"
proof -
  obtain f1 where f1: "fmt_flags fmt = (la, pad, f1)" "fmt_width 0 f1 \<noteq> None"
    using assms by (auto simp: fmt_spec_def simp del: fmt_flags.simps split: prod.splits option.splits)
  then obtain f2 where f2: "fmt_width 0 f1 = Some (width, f2)" "fmt_length f2 = (is_long, rest)"
    using assms by (auto simp: fmt_spec_def simp del: fmt_flags.simps fmt_length.simps split: prod.splits)
  then show ?thesis
    using fmt_flags_length[of fmt] f1(1) fmt_width_length[OF f2(1)] fmt_length_length[of f2] by simp
qed

function vsn_loop :: "nat \<Rightarrow> string \<Rightarrow> fmt_arg list \<Rightarrow> string \<Rightarrow> string option" where
  "vsn_loop sz [] args out = Some out"
| "vsn_loop sz (c # fmt) args out =
     (if \<not> length out < sub64 sz 1 then Some out
      else if c \<noteq> CHR ''%'' then vsn_loop sz fmt args (out @ [c])
      else if fmt = [] then Some out
      else
        (case fmt_spec fmt of
           None \<Rightarrow> None
         | Some (left_align, pad, width, is_long, []) \<Rightarrow> None
         | Some (left_align, pad, width, is_long, conv # fmt') \<Rightarrow>
             (case convert sz left_align pad width is_long conv out args of
                None \<Rightarrow> None
              | Some (out, args) \<Rightarrow> vsn_loop sz fmt' args out)))"
  by pat_completeness auto
termination
  by (relation "measure (\<lambda>(sz, fmt, args, out). length fmt)") (auto dest: fmt_spec_length)

text \<open>The return value and the bytes stored in the buffer from its start, the terminator last; nothing is
  stored for a null buffer or size 0.\<close>

definition vsnprintf :: "bool \<Rightarrow> nat \<Rightarrow> string \<Rightarrow> fmt_arg list \<Rightarrow> (int \<times> string) option" where
  "vsnprintf buf sz fmt args =
     (if \<not> buf \<or> sz = 0 then Some (0, [])
      else case vsn_loop sz fmt args [] of
             None \<Rightarrow> None
           | Some out \<Rightarrow> Some (int32 (int (length out)), out @ [CHR 0x00]))"

definition snprintf :: "bool \<Rightarrow> nat \<Rightarrow> string \<Rightarrow> fmt_arg list \<Rightarrow> (int \<times> string) option" where
  "snprintf buf sz fmt args = vsnprintf buf sz fmt args"

definition vsprintf :: "bool \<Rightarrow> string \<Rightarrow> fmt_arg list \<Rightarrow> (int \<times> string) option" where
  "vsprintf buf fmt args = vsnprintf buf 4096 fmt args"

definition sprintf :: "bool \<Rightarrow> string \<Rightarrow> fmt_arg list \<Rightarrow> (int \<times> string) option" where
  "sprintf buf fmt args = vsnprintf buf 4096 fmt args"

section \<open>Output stays in the buffer\<close>

lemma emit_eq: "emit lim cs out = out @ take (lim - length out) cs"
proof (induction cs arbitrary: out)
  case (Cons c cs)
  show ?case
  proof (cases "length out < lim")
    case True
    then have "lim - length out = Suc (lim - Suc (length out))" by simp
    then show ?thesis using Cons[of "out @ [c]"] True by simp
  qed simp
qed simp

declare emit.simps [simp del]

lemma length_emit: "length out \<le> lim \<Longrightarrow> length (emit lim cs out) \<le> lim"
  by (simp add: emit_eq)

lemma length_format_number: "length (format_number sz num base sg up width pad la) \<le> sub64 sz 1"
  by (simp add: format_number_def Let_def length_emit)

lemma length_put_number:
  assumes "length out < sz" "sz < 2 ^ 64"
  shows "length (put_number sz out num base sg up width pad la) \<le> sz - 1"
  using length_format_number[of "sub64 sz (length out)" num base sg up width pad la] assms
  by (simp add: put_number_def sub64_small)

lemma convert_bounded:
  assumes "convert sz la pad width il c out args = Some (out', args')" "length out < sz - 1" "3 \<le> sz" "sz < 2 ^ 64"
  shows "length out' \<le> sz - 1"
proof -
  have l: "sub64 sz 1 = sz - 1" "sub64 sz 3 = sz - 3" "length out \<le> sz - 1" "length out < sz"
    using assms by (simp_all add: sub64_small)
  have e: "length (emit (sz - 1) cs o1) \<le> sz - 1" if "length o1 \<le> sz - 1" for cs o1 using that by (rule length_emit)
  have n: "length (put_number sz o1 num base sg up w p la1) \<le> sz - 1" if "length o1 < sz" for o1 num base sg up w p la1
    using that assms(4) by (rule length_put_number)
  have p: "length (put_number sz (if length out < sz - 3 then out @ ''0x'' else out) num base sg up w q la1) \<le> sz - 1" for num base sg up w q la1
    using l(4) by (intro n) auto
  show ?thesis
    using assms(1) l(3) n[OF l(4)] p unfolding convert_def Let_def l(1,2)
    by (auto simp del: One_nat_def intro!: e split: if_splits option.splits prod.splits)
qed

lemma vsn_loop_bounded:
  assumes "vsn_loop sz fmt args out = Some out'" "length out \<le> sz - 1" "3 \<le> sz" "sz < 2 ^ 64"
  shows "length out' \<le> sz - 1"
  using assms
proof (induction sz fmt args out rule: vsn_loop.induct)
  case (2 sz c fmt args out)
  have l: "sub64 sz 1 = sz - 1" using 2 by (simp add: sub64_small)
  show ?case
  proof (cases "length out < sz - 1 \<and> c = CHR ''%'' \<and> fmt \<noteq> []")
    case False
    then show ?thesis using "2.prems" "2.IH"(1) l by (auto split: if_splits)
  next
    case True
    then obtain la pad width il rest where sp: "fmt_spec fmt = Some (la, pad, width, il, rest)"
      using "2.prems"(1) l by (auto split: option.splits)
    obtain conv fmt' where r: "rest = conv # fmt'" using "2.prems"(1) True l sp by (cases rest) auto
    obtain o1 a1 where cv: "convert sz la pad width il conv out args = Some (o1, a1)" "vsn_loop sz fmt' a1 o1 = Some out'"
      using "2.prems"(1) True l sp r by (auto split: option.splits)
    have "length o1 \<le> sz - 1" using convert_bounded[OF cv(1)] True "2.prems" by simp
    then show ?thesis using "2.IH"(2)[of "(la, pad, width, il, rest)" la "(pad, width, il, rest)"] True l sp r cv "2.prems" by auto
  qed
qed simp

section \<open>Decimal keys\<close>

definition decimal :: "nat \<Rightarrow> string" where
  "decimal n = (if n = 0 then ''0'' else rev (temp_digits 10 False n))"

fun decimal_val :: "string \<Rightarrow> nat" where
  "decimal_val [] = 0"
| "decimal_val (c # cs) = (of_char c - 48) + 10 * decimal_val cs"

lemma digit_char_all: "\<forall>d \<in> set [0 ..< 10]. of_char (digit_char False d) - 48 = d \<and> digit_char False d \<noteq> CHR '':''"
  by code_simp

lemma digit_char_val: "d < 10 \<Longrightarrow> of_char (digit_char False d) - 48 = d" "d < 10 \<Longrightarrow> digit_char False d \<noteq> CHR '':''"
  using digit_char_all by simp_all

lemma temp_digits_val: "decimal_val (temp_digits 10 False n) = n \<and> CHR '':'' \<notin> set (temp_digits 10 False n)"
proof (induction n rule: less_induct)
  case (less n)
  show ?case
  proof (cases "n = 0")
    case False
    then have "temp_digits 10 False n = digit_char False (n mod 10) # temp_digits 10 False (n div 10)"
      by (subst temp_digits.simps) simp
    then show ?thesis using less[of "n div 10"] False digit_char_val[of "n mod 10"] by auto
  qed (simp add: temp_digits.simps)
qed

lemma decimal_val_decimal: "decimal_val (rev (decimal n)) = n" "CHR '':'' \<notin> set (decimal n)"
  using temp_digits_val[of n] by (auto simp: decimal_def)

lemma length_temp_digits: "n < 10 ^ k \<Longrightarrow> length (temp_digits 10 False n) \<le> k"
proof (induction k arbitrary: n)
  case (Suc k)
  then have "n div 10 < 10 ^ k" by (simp add: less_mult_imp_div_less mult.commute)
  then show ?case using Suc.IH[of "n div 10"] by (subst temp_digits.simps) simp
qed (simp add: temp_digits.simps)

lemma length_decimal: "n < 2 ^ 64 \<Longrightarrow> length (decimal n) \<le> 20"
  using length_temp_digits[of n 20] by (simp add: decimal_def)

lemma format_decimal:
  "format_number sz n 10 False False 0 pad False = take (sub64 sz 1) (decimal n)"
  by (simp add: format_number_def decimal_def emit_eq)

text \<open>The one format the page cache uses: a name, a colon and a number, cut to the buffer.\<close>

lemma snprintf_key:
  assumes "n < 2 ^ 64" "1 < sz" "sz < 2 ^ 64" "length name < 2 ^ 31"
  shows "snprintf True sz ''%s:%llu'' [Arg_str (Some name), Arg_int n] =
    Some (int32 (int (length (take (sz - 1) (name @ '':'' @ decimal n)))), take (sz - 1) (name @ '':'' @ decimal n) @ [CHR 0x00])"
proof -
  let ?o1 = "take (sz - 1) name"
  have l: "sub64 sz 1 = sz - 1" using assms by (simp add: sub64_small)
  have s1: "fmt_spec ''s:%llu'' = Some (False, CHR '' '', 0, False, ''s:%llu'')" "fmt_spec ''llu'' = Some (False, CHR '' '', 0, True, ''u'')"
    by (simp_all add: fmt_spec_def is_digit_def)
  have one: "vsn_loop sz ''%s:%llu'' [Arg_str (Some name), Arg_int n] [] = vsn_loop sz '':%llu'' [Arg_int n] ?o1"
    using assms l s1 by (simp add: convert_def emit_eq Let_def)
  have "vsn_loop sz '':%llu'' [Arg_int n] ?o1 = Some (take (sz - 1) (name @ '':'' @ decimal n))"
  proof (cases "length name < sz - 1")
    case False
    then show ?thesis using l by simp
  next
    case True
    let ?o2 = "name @ '':''"
    have two: "vsn_loop sz '':%llu'' [Arg_int n] ?o1 = vsn_loop sz ''%llu'' [Arg_int n] ?o2" using True l by simp
    show ?thesis
    proof (cases "length ?o2 < sz - 1")
      case False
      then show ?thesis using two l True by (simp add: not_less le_Suc_eq)
    next
      case len: True
      have "sub64 (sub64 sz (length ?o2)) 1 = sz - 1 - length ?o2" using len assms by (simp add: sub64_small)
      then show ?thesis
        unfolding two using len l s1 assms(1) by (simp add: convert_def put_number_def format_decimal uint_arg_def take_Cons')
    qed
  qed
  then show ?thesis unfolding snprintf_def vsnprintf_def one using assms by simp
qed

text \<open>With two bytes left \<open>size - 3\<close> wraps, both prefix characters are stored, and the number is formatted
  into a buffer of size 0, whose limit wraps as well.\<close>

lemma pointer_overflows:
  "vsnprintf True 2 ''%p'' [Arg_int 0] = Some (18, ''0x'' @ replicate 15 CHR ''0'' @ ''0'' @ [CHR 0x00])"
proof -
  have w: "sub64 2 1 = 1" "sub64 2 2 = 0" "0 < sub64 2 3" "sub64 0 1 = 2 ^ 64 - 1"
    by (simp_all add: sub64_def wrap64_def)
  have "fmt_spec ''p'' = Some (False, CHR '' '', 0, False, ''p'')" by (simp add: fmt_spec_def is_digit_def)
  moreover have "format_number 0 0 16 False False 16 CHR ''0'' False = replicate 15 CHR ''0'' @ ''0''"
    using w(4) by (simp add: format_number_def emit_eq)
  ultimately have "vsn_loop 2 ''%p'' [Arg_int 0] [] = Some (''0x'' @ replicate 15 CHR ''0'' @ ''0'')"
    using w(1,2,3) by (simp add: convert_def put_number_def numeral_2_eq_2)
  then show ?thesis by (simp add: vsnprintf_def)
qed

text \<open>A text without conversions is copied as far as it fits.\<close>

lemma vsn_loop_literal:
  "CHR ''%'' \<notin> set fmt \<Longrightarrow> vsn_loop sz fmt args out = Some (out @ take (sub64 sz 1 - length out) fmt)"
proof (induction fmt arbitrary: out)
  case (Cons c fmt)
  then show ?case by (cases "length out < sub64 sz 1") (auto simp: take_Cons' Suc_diff_Suc)
qed simp

section \<open>Properties\<close>

text \<open>C32: For a non-null buffer of any size but 0 and 2, whatever the format and the arguments, if the call has
  a defined result (the format does not end inside a conversion, the arguments match it and the field widths
  fit in an \<open>int\<close>) \<open>vsnprintf\<close> stores a text followed by one terminator, at most \<open>size\<close> bytes in all, and
  returns the length of the text converted to \<open>int\<close>, which is the length itself for sizes up to 2^31. A null
  buffer or size 0 stores nothing and returns 0. A format without a per cent sign has a result and is copied as far as it
  fits. With a buffer of 2 bytes the conversion \<open>%p\<close> stores 19 bytes.\<close>

theorem vsnprintf_bounded:
  assumes "sz < 2 ^ 64" "sz \<noteq> 0" "sz \<noteq> 2"
  shows "(\<forall>n b. vsnprintf True sz fmt args = Some (n, b) \<longrightarrow>
      (\<exists>out. b = out @ [CHR 0x00] \<and> length b \<le> sz \<and> n = int32 (int (length out)) \<and>
         (sz \<le> 2 ^ 31 \<longrightarrow> n = int (length out)))) \<and>
    vsnprintf False sz fmt args = Some (0, []) \<and> vsnprintf True 0 fmt args = Some (0, []) \<and>
    (CHR ''%'' \<notin> set fmt \<longrightarrow> map_option snd (vsnprintf True sz fmt args) = Some (take (sz - 1) fmt @ [CHR 0x00])) \<and>
    map_option (\<lambda>(n, b). length b) (vsnprintf True 2 ''%p'' [Arg_int 0]) = Some 19"
proof -
  have one: "sub64 sz 1 = sz - 1" using assms by (simp add: sub64_small)
  have len: "length out \<le> sz - 1" if "vsn_loop sz fmt args [] = Some out" for out
  proof (cases "3 \<le> sz")
    case True
    then show ?thesis using vsn_loop_bounded[OF that] assms(1) by simp
  next
    case False
    then have "sz = 1" using assms by linarith
    then show ?thesis using that one by (cases fmt) auto
  qed
  have "\<exists>out. b = out @ [CHR 0x00] \<and> length b \<le> sz \<and> n = int32 (int (length out)) \<and> (sz \<le> 2 ^ 31 \<longrightarrow> n = int (length out))"
    if call: "vsnprintf True sz fmt args = Some (n, b)" for n b
  proof -
    obtain out where out: "vsn_loop sz fmt args [] = Some out" "b = out @ [CHR 0x00]" "n = int32 (int (length out))"
      using call assms(2) by (cases "vsn_loop sz fmt args []") (auto simp: vsnprintf_def)
    then show ?thesis using len[OF out(1)] assms(2) by (intro exI[of _ out]) auto
  qed
  moreover have "map_option snd (vsnprintf True sz fmt args) = Some (take (sz - 1) fmt @ [CHR 0x00])" if "CHR ''%'' \<notin> set fmt"
    using vsn_loop_literal[OF that, of sz args "[]"] assms(2) one by (simp add: vsnprintf_def)
  ultimately show ?thesis by (simp add: pointer_overflows) (simp add: vsnprintf_def)
qed

theorem vsnprintf_bounded_witness:
  "vsnprintf True 4 ''%d'' [Arg_int 12345] = Some (3, ''123'' @ [CHR 0x00]) \<and> length (''123'' @ [CHR 0x00]) \<le> 4"
proof -
  have "rev (temp_digits 10 False 12345) = ''12345''" by (simp add: temp_digits.simps digit_char_def)
  then have "vsnprintf True 4 ''%d'' [Arg_int 12345] = Some (3, ''123'' @ [CHR 0x00])"
    by (simp add: vsnprintf_def fmt_spec_def is_digit_def convert_def put_number_def format_number_def int_arg_def emit_eq)
  moreover have "(4::nat) < 2 ^ 64" "(4::nat) \<noteq> 0" "(4::nat) \<noteq> 2" by simp_all
  note b = vsnprintf_bounded[OF this, of "''%d''" "[Arg_int 12345]", THEN conjunct1]
  ultimately show ?thesis using b by blast
qed

end
