(* ===== verification/Block.thy ===== *)
theory Block
  imports ByteQueue
begin

text \<open>
  \<open>block/block.c\<close> and \<open>drivers/block/ramdisk.c\<close>. The driver's sector functions are parameters of the block
  layer, \<open>None\<close> standing for a non-zero return code; \<open>bd_store\<close> is the state of the driver behind a device, for
  the RAM disk the one static array \<open>ramdisk_storage\<close>, which its functions use whatever device they are called
  with. The locale \<open>block_driver\<close> is the contract the page cache relies on, one driver state per device; the RAM
  disk meets it as long as it is registered once, as \<open>kernel/main.c\<close> does.
\<close>

section \<open>Devices\<close>

record block_device =
  bd_name :: string
  bd_total_sectors :: nat
  bd_read_only :: bool
  bd_read_sectors :: bool
  bd_write_sectors :: bool
  bd_flush :: bool
  bd_store :: "u8 list"

type_synonym read_fn = "block_device \<Rightarrow> nat \<Rightarrow> nat \<Rightarrow> u8 list option"
type_synonym write_fn = "block_device \<Rightarrow> nat \<Rightarrow> nat \<Rightarrow> u8 list \<Rightarrow> block_device option"

definition MAX_BLOCK_DEVS :: nat where
  "MAX_BLOCK_DEVS = 8"

definition block_init :: "block_device list" where
  "block_init = []"

definition block_register_device :: "block_device option \<Rightarrow> block_device list \<Rightarrow> int \<times> block_device list" where
  "block_register_device dev devs =
     (case dev of
        None \<Rightarrow> (- 1, devs)
      | Some d \<Rightarrow> if MAX_BLOCK_DEVS \<le> length devs then (- 1, devs) else (0, devs @ [d]))"

text \<open>The position of the first device with the name.\<close>

fun block_find :: "block_device list \<Rightarrow> string \<Rightarrow> nat \<Rightarrow> nat option" where
  "block_find [] name i = None"
| "block_find (d # ds) name i = (if bd_name d = name then Some i else block_find ds name (i + 1))"

definition block_get_device :: "block_device list \<Rightarrow> string option \<Rightarrow> nat option" where
  "block_get_device devs name = (case name of None \<Rightarrow> None | Some n \<Rightarrow> block_find devs n 0)"

definition block_get_device_count :: "block_device list \<Rightarrow> nat" where
  "block_get_device_count devs = length devs"

definition block_get_device_by_index :: "block_device list \<Rightarrow> nat \<Rightarrow> block_device option" where
  "block_get_device_by_index devs i = (if length devs \<le> i then None else Some (devs ! i))"

datatype block_req_type = REQ_READ | REQ_WRITE | REQ_FLUSH

text \<open>The return code, the buffer after the call and the devices.\<close>

definition block_submit_bio ::
    "read_fn \<Rightarrow> write_fn \<Rightarrow> (block_device \<Rightarrow> int) \<Rightarrow> string option \<Rightarrow> block_req_type \<Rightarrow> nat \<Rightarrow> nat \<Rightarrow> u8 list \<Rightarrow>
     block_device list \<Rightarrow> int \<times> u8 list \<times> block_device list" where
  "block_submit_bio rd wr fl name ty sector count buf devs =
     (case block_get_device devs name of
        None \<Rightarrow> (- 1, buf, devs)
      | Some i \<Rightarrow>
          (let d = devs ! i in
           case ty of
             REQ_READ \<Rightarrow>
               if \<not> bd_read_sectors d then (- 1, buf, devs)
               else (case rd d sector count of None \<Rightarrow> (- 1, buf, devs) | Some b \<Rightarrow> (0, b, devs))
           | REQ_WRITE \<Rightarrow>
               if bd_read_only d \<or> \<not> bd_write_sectors d then (- 1, buf, devs)
               else (case wr d sector count buf of None \<Rightarrow> (- 1, buf, devs) | Some d' \<Rightarrow> (0, buf, devs[i := d']))
           | REQ_FLUSH \<Rightarrow> if bd_flush d then (fl d, buf, devs) else (0, buf, devs)))"

section \<open>The RAM disk\<close>

definition RAMDISK_SECTOR_SIZE :: nat where "RAMDISK_SECTOR_SIZE = 512"
definition RAMDISK_SIZE :: nat where "RAMDISK_SIZE = 512 * 1024"

text \<open>Both functions ignore the device and work on \<open>ramdisk_storage\<close> (\<open>None\<close> is NULL); \<open>has_buf\<close> says that the buffer
  is not NULL.\<close>

definition ramdisk_read_sectors :: "u8 list option \<Rightarrow> nat \<Rightarrow> nat \<Rightarrow> bool \<Rightarrow> u8 list option" where
  "ramdisk_read_sectors ramdisk_storage sector count has_buf =
     (case ramdisk_storage of
        None \<Rightarrow> None
      | Some st \<Rightarrow>
          if \<not> has_buf then None
          else if wrap64 (wrap64 (sector + count) * RAMDISK_SECTOR_SIZE) > RAMDISK_SIZE then None
          else Some (take (count * RAMDISK_SECTOR_SIZE mod 2 ^ 32) (drop (wrap64 (sector * RAMDISK_SECTOR_SIZE)) st)))"

definition ramdisk_write_sectors :: "u8 list option \<Rightarrow> nat \<Rightarrow> nat \<Rightarrow> u8 list option \<Rightarrow> u8 list option" where
  "ramdisk_write_sectors ramdisk_storage sector count buf =
     (case (ramdisk_storage, buf) of
        (Some st, Some b) \<Rightarrow>
          if wrap64 (wrap64 (sector + count) * RAMDISK_SECTOR_SIZE) > RAMDISK_SIZE then None
          else Some (memcpy_at st (wrap64 (sector * RAMDISK_SECTOR_SIZE)) b (count * RAMDISK_SECTOR_SIZE mod 2 ^ 32))
      | _ \<Rightarrow> None)"

text \<open>The two functions as the block layer calls them for the registered RAM disk, whose driver state is
  \<open>ramdisk_storage\<close>.\<close>

definition ramdisk_rd :: read_fn where
  "ramdisk_rd dev sector count = ramdisk_read_sectors (Some (bd_store dev)) sector count True"

definition ramdisk_wr :: write_fn where
  "ramdisk_wr dev sector count buf =
     map_option (\<lambda>st. dev\<lparr>bd_store := st\<rparr>) (ramdisk_write_sectors (Some (bd_store dev)) sector count (Some buf))"

lemmas ramdisk_rd_simp = ramdisk_rd_def ramdisk_read_sectors_def
lemmas ramdisk_wr_simp = ramdisk_wr_def ramdisk_write_sectors_def

definition ramdisk_dev :: block_device where
  "ramdisk_dev = \<lparr>bd_name = ''ram0'', bd_total_sectors = RAMDISK_SIZE div RAMDISK_SECTOR_SIZE, bd_read_only = False,
     bd_read_sectors = True, bd_write_sectors = True, bd_flush = False, bd_store = replicate RAMDISK_SIZE 0\<rparr>"

text \<open>\<open>alloc\<close> says whether the storage could be allocated; called once, at boot.\<close>

definition ramdisk_init :: "bool \<Rightarrow> block_device list \<Rightarrow> block_device list" where
  "ramdisk_init alloc devs = (if \<not> alloc then devs else snd (block_register_device (Some ramdisk_dev) devs))"

section \<open>The contract of a driver\<close>

locale block_driver =
  fixes rd :: read_fn
    and wr :: write_fn
    and drv_ok :: "block_device \<Rightarrow> bool"
  assumes rd_length: "drv_ok d \<Longrightarrow> sec + n \<le> bd_total_sectors d \<Longrightarrow> rd d sec n = Some b \<Longrightarrow> length b = 512 * n"
    and wr_ok: "drv_ok d \<Longrightarrow> sec + n \<le> bd_total_sectors d \<Longrightarrow> length b = 512 * n \<Longrightarrow> wr d sec n b = Some d' \<Longrightarrow> drv_ok d'"
    and wr_meta: "drv_ok d \<Longrightarrow> wr d sec n b = Some d' \<Longrightarrow> \<exists>s. d' = d\<lparr>bd_store := s\<rparr>"
    and wr_rd: "drv_ok d \<Longrightarrow> sec + n \<le> bd_total_sectors d \<Longrightarrow> length b = 512 * n \<Longrightarrow> wr d sec n b = Some d' \<Longrightarrow> rd d' sec n = Some b"
    and wr_rd_other: "drv_ok d \<Longrightarrow> sec + n \<le> bd_total_sectors d \<Longrightarrow> length b = 512 * n \<Longrightarrow> wr d sec n b = Some d' \<Longrightarrow>
        s2 + n2 \<le> bd_total_sectors d \<Longrightarrow> s2 + n2 \<le> sec \<or> sec + n \<le> s2 \<Longrightarrow> rd d' s2 n2 = rd d s2 n2"
    and drv_bound: "drv_ok d \<Longrightarrow> bd_total_sectors d < 2 ^ 54"

definition ramdisk_ok :: "block_device \<Rightarrow> bool" where
  "ramdisk_ok d = (bd_total_sectors d = RAMDISK_SIZE div RAMDISK_SECTOR_SIZE \<and> length (bd_store d) = RAMDISK_SIZE)"

lemma ramdisk_no_wrap:
  assumes "ramdisk_ok d" "sec + n \<le> bd_total_sectors d"
  shows "wrap64 (wrap64 (sec + n) * RAMDISK_SECTOR_SIZE) = (sec + n) * 512" "wrap64 (sec * RAMDISK_SECTOR_SIZE) = sec * 512"
    "(sec + n) * 512 \<le> RAMDISK_SIZE" "n * RAMDISK_SECTOR_SIZE mod 2 ^ 32 = n * 512"
  using assms by (simp_all add: ramdisk_ok_def RAMDISK_SIZE_def RAMDISK_SECTOR_SIZE_def)

interpretation rdk: block_driver ramdisk_rd ramdisk_wr ramdisk_ok
proof
  fix d d' :: block_device and sec n s2 n2 :: nat and b :: "u8 list"
  assume d: "ramdisk_ok d"
  then have l: "length (bd_store d) = RAMDISK_SIZE" by (simp add: ramdisk_ok_def)
  show "bd_total_sectors d < 2 ^ 54" using d by (simp add: ramdisk_ok_def RAMDISK_SIZE_def RAMDISK_SECTOR_SIZE_def)
  { assume "ramdisk_wr d sec n b = Some d'"
    then show "\<exists>s. d' = d\<lparr>bd_store := s\<rparr>" by (auto simp: ramdisk_wr_simp split: if_splits) }
  assume r: "sec + n \<le> bd_total_sectors d"
  note nw = ramdisk_no_wrap[OF d r]
  have lim: "sec * 512 + n * 512 \<le> RAMDISK_SIZE" using nw(3) by (simp add: add_mult_distrib)
  { assume "ramdisk_rd d sec n = Some b"
    then show "length b = 512 * n"
      using nw lim l by (auto simp: ramdisk_rd_simp RAMDISK_SECTOR_SIZE_def split: if_splits) }
  assume b: "length b = 512 * n" and w: "ramdisk_wr d sec n b = Some d'"
  have d': "d' = d\<lparr>bd_store := memcpy_at (bd_store d) (sec * 512) b (n * 512)\<rparr>"
    using w nw by (auto simp: ramdisk_wr_simp RAMDISK_SECTOR_SIZE_def split: if_splits)
  have len: "length (bd_store d') = RAMDISK_SIZE" unfolding d' using l lim b by simp
  then show ok: "ramdisk_ok d'" using d by (simp add: ramdisk_ok_def d')
  have tot: "bd_total_sectors d' = bd_total_sectors d" by (simp add: d')
  show "ramdisk_rd d' sec n = Some b"
    using nw lim l b by (simp add: ramdisk_rd_simp RAMDISK_SECTOR_SIZE_def d' memcpy_at_def)
  assume r2: "s2 + n2 \<le> bd_total_sectors d" and dis: "s2 + n2 \<le> sec \<or> sec + n \<le> s2"
  note nw2 = ramdisk_no_wrap[OF d r2]
  have "take (n2 * 512) (drop (s2 * 512) (bd_store d')) = take (n2 * 512) (drop (s2 * 512) (bd_store d))"
  proof (rule nth_equalityI)
    show "length (take (n2 * 512) (drop (s2 * 512) (bd_store d'))) = length (take (n2 * 512) (drop (s2 * 512) (bd_store d)))"
      using len l by simp
    fix i assume i: "i < length (take (n2 * 512) (drop (s2 * 512) (bd_store d')))"
    then have lt: "s2 * 512 + i < RAMDISK_SIZE" "i < n2 * 512" using len by (simp_all add: less_diff_conv add.commute)
    then have out: "\<not> (sec * 512 \<le> s2 * 512 + i \<and> s2 * 512 + i < sec * 512 + n * 512)" using dis by auto
    have "bd_store d' ! (s2 * 512 + i) = bd_store d ! (s2 * 512 + i)"
      unfolding d' using nth_memcpy_at[of "sec * 512" "n * 512" "bd_store d" b "s2 * 512 + i"] lim l b lt out by simp
    then show "take (n2 * 512) (drop (s2 * 512) (bd_store d')) ! i = take (n2 * 512) (drop (s2 * 512) (bd_store d)) ! i"
      using lt len l by simp
  qed
  then show "ramdisk_rd d' s2 n2 = ramdisk_rd d s2 n2"
    using nw2 ramdisk_no_wrap[OF ok, of s2 n2] r2 tot by (simp add: ramdisk_rd_simp RAMDISK_SECTOR_SIZE_def)
qed

text \<open>A driver that accepts every write within the device, as the RAM disk does.\<close>

locale reliable_driver = block_driver +
  assumes wr_done: "drv_ok d \<Longrightarrow> sec + n \<le> bd_total_sectors d \<Longrightarrow> \<exists>d'. wr d sec n b = Some d'"

interpretation rdr: reliable_driver ramdisk_rd ramdisk_wr ramdisk_ok
proof
  fix d :: block_device and sec n :: nat and b :: "u8 list"
  assume "ramdisk_ok d" "sec + n \<le> bd_total_sectors d"
  then show "\<exists>d'. ramdisk_wr d sec n b = Some d'"
    unfolding ramdisk_wr_simp using ramdisk_no_wrap[of d sec n] by simp
qed

end
