(* ===== verification/PageCache.thy ===== *)
theory PageCache
  imports Hashtable Printf Block
begin

text \<open>
  \<open>mm/page_cache.c\<close>: a write-back cache of 64 pages in front of the block devices, indexed by a hash table
  whose keys are printed names. The driver functions are the parameters of \<open>Block\<close>; a page is its position
  in \<open>g_pages\<close>, and the hash table stores that position plus one, as the address of the entry is never null.
  The tick counter, the block the allocator returns and the outcome of the index's allocations are inputs of an
  operation. A driver call that fails leaves the device as it was.
\<close>

section \<open>The code\<close>

record page =
  pg_dev :: string
  pg_index :: nat
  pg_data :: "u8 list option"
  pg_valid :: bool
  pg_dirty :: bool
  pg_referenced :: bool
  pg_pin :: u32
  pg_last_access :: nat
  pg_hits :: u64

record page_cache_stats =
  s_hits :: u64
  s_misses :: u64
  s_evictions :: u64
  s_writebacks :: u64
  s_read_ios :: u64
  s_write_ios :: u64
  s_resident :: u32
  s_dirty :: u32
  s_memory :: nat

record pcache =
  g_pages :: "page list"
  g_index :: "hashtable option"
  g_stats :: page_cache_stats
  g_clock_hand :: nat
  g_initialized :: bool
  pc_devs :: "block_device list"

record pc_env =
  e_site :: "ht_site \<Rightarrow> bool"
  e_alloc :: "u8 list option"
  e_ticks :: nat

definition PAGE_CACHE_BLOCK_SIZE :: nat where "PAGE_CACHE_BLOCK_SIZE = 4096"
definition PAGE_CACHE_SECTORS :: nat where "PAGE_CACHE_SECTORS = 8"
definition PAGE_CACHE_MAX_PAGES :: nat where "PAGE_CACHE_MAX_PAGES = 64"

text \<open>The key is the string in the buffer: what \<open>snprintf\<close> stored without the terminator.\<close>

definition make_key :: "string option \<Rightarrow> nat \<Rightarrow> string" where
  "make_key dev idx =
     (case snprintf True 64 ''%s:%llu'' [Arg_str (Some (case dev of Some d \<Rightarrow> d | None \<Rightarrow> ''?'')), Arg_int idx] of
        Some (_, out) \<Rightarrow> butlast out
      | None \<Rightarrow> [])"

definition empty_page :: page where
  "empty_page = \<lparr>pg_dev = [], pg_index = 0, pg_data = None, pg_valid = False, pg_dirty = False,
     pg_referenced = False, pg_pin = 0, pg_last_access = 0, pg_hits = 0\<rparr>"

definition zero_stats :: page_cache_stats where
  "zero_stats = \<lparr>s_hits = 0, s_misses = 0, s_evictions = 0, s_writebacks = 0, s_read_ios = 0,
     s_write_ios = 0, s_resident = 0, s_dirty = 0, s_memory = 0\<rparr>"

definition page_cache_init :: "(ht_site \<Rightarrow> bool) \<Rightarrow> pcache \<Rightarrow> pcache option" where
  "page_cache_init ok c =
     (case hashtable_create ok (PAGE_CACHE_MAX_PAGES * 2) True of
        None \<Rightarrow> None
      | Some ht \<Rightarrow> Some (c\<lparr>g_pages := replicate PAGE_CACHE_MAX_PAGES empty_page, g_stats := zero_stats, g_clock_hand := 0,
                            g_index := ht, g_initialized := (ht \<noteq> None)\<rparr>))"

definition upd_page :: "nat \<Rightarrow> (page \<Rightarrow> page) \<Rightarrow> pcache \<Rightarrow> pcache" where
  "upd_page i f c = c\<lparr>g_pages := (g_pages c)[i := f (g_pages c ! i)]\<rparr>"

definition upd_stats :: "(page_cache_stats \<Rightarrow> page_cache_stats) \<Rightarrow> pcache \<Rightarrow> pcache" where
  "upd_stats f c = c\<lparr>g_stats := f (g_stats c)\<rparr>"

definition page_read_from_disk :: "read_fn \<Rightarrow> nat \<Rightarrow> pcache \<Rightarrow> int \<times> pcache" where
  "page_read_from_disk rd i c =
     (let e = g_pages c ! i in
      case block_get_device (pc_devs c) (Some (pg_dev e)) of
        None \<Rightarrow> (- 1, c)
      | Some k \<Rightarrow>
          (let dev = pc_devs c ! k; sector = wrap64 (pg_index e * PAGE_CACHE_SECTORS)
           in if \<not> bd_read_sectors dev then (- 1, c)
              else if wrap64 (sector + PAGE_CACHE_SECTORS) > bd_total_sectors dev
              then (0, upd_page i (pg_data_update (\<lambda>_. Some (replicate PAGE_CACHE_BLOCK_SIZE 0))) c)
              else (case rd dev sector PAGE_CACHE_SECTORS of
                      None \<Rightarrow> (- 1, c)
                    | Some b \<Rightarrow> (0, upd_stats (s_read_ios_update (\<lambda>n. n + 1)) (upd_page i (pg_data_update (\<lambda>_. Some b)) c)))))"

definition page_write_to_disk :: "write_fn \<Rightarrow> nat \<Rightarrow> pcache \<Rightarrow> int \<times> pcache" where
  "page_write_to_disk wr i c =
     (let e = g_pages c ! i in
      case block_get_device (pc_devs c) (Some (pg_dev e)) of
        None \<Rightarrow> (- 1, c)
      | Some k \<Rightarrow>
          (let dev = pc_devs c ! k; sector = wrap64 (pg_index e * PAGE_CACHE_SECTORS)
           in if \<not> bd_write_sectors dev \<or> bd_read_only dev then (- 1, c)
              else if wrap64 (sector + PAGE_CACHE_SECTORS) > bd_total_sectors dev then (- 1, c)
              else (case wr dev sector PAGE_CACHE_SECTORS (the (pg_data e)) of
                      None \<Rightarrow> (- 1, c)
                    | Some dev' \<Rightarrow>
                        (0, upd_stats (\<lambda>s. s\<lparr>s_write_ios := s_write_ios s + 1, s_writebacks := s_writebacks s + 1\<rparr>)
                              (c\<lparr>pc_devs := (pc_devs c)[k := dev']\<rparr>)))))"

definition unindex :: "nat \<Rightarrow> pcache \<Rightarrow> pcache" where
  "unindex i c =
     (let e = g_pages c ! i
      in c\<lparr>g_index := map_option (\<lambda>ht. snd (hashtable_remove (make_key (Some (pg_dev e)) (pg_index e)) ht)) (g_index c)\<rparr>)"

definition dec_dirty :: "pcache \<Rightarrow> pcache" where
  "dec_dirty c = upd_stats (\<lambda>s. if s_dirty s > 0 then s\<lparr>s_dirty := s_dirty s - 1\<rparr> else s) c"

definition dec_resident :: "pcache \<Rightarrow> pcache" where
  "dec_resident c = upd_stats (\<lambda>s. if s_resident s > 0 then s\<lparr>s_resident := s_resident s - 1\<rparr> else s) c"

text \<open>The tail of the sweep: the victim leaves the index.\<close>

definition drop_page :: "nat \<Rightarrow> pcache \<Rightarrow> pcache" where
  "drop_page i c = dec_resident (upd_page i (pg_valid_update (\<lambda>_. False)) (unindex i c))"

fun evict_sweep :: "write_fn \<Rightarrow> nat \<Rightarrow> pcache \<Rightarrow> nat option \<times> pcache" where
  "evict_sweep wr 0 c = (None, c)"
| "evict_sweep wr (Suc sweeps) c =
     (let i = g_clock_hand c;
          e = g_pages c ! i;
          c = c\<lparr>g_clock_hand := (g_clock_hand c + 1) mod PAGE_CACHE_MAX_PAGES\<rparr>
      in if \<not> pg_valid e then (Some i, c)
         else if pg_pin e > 0 then evict_sweep wr sweeps c
         else if pg_referenced e then evict_sweep wr sweeps (upd_page i (pg_referenced_update (\<lambda>_. False)) c)
         else if pg_dirty e then
           (let (rc, c) = page_write_to_disk wr i c
            in if rc \<noteq> 0 then evict_sweep wr sweeps c
               else (Some i, upd_stats (\<lambda>s. s\<lparr>s_evictions := s_evictions s + 1\<rparr>)
                       (drop_page i (dec_dirty (upd_page i (pg_dirty_update (\<lambda>_. False)) c)))))
         else (Some i, upd_stats (\<lambda>s. s\<lparr>s_evictions := s_evictions s + 1\<rparr>) (drop_page i c)))"

definition evict_one :: "write_fn \<Rightarrow> pcache \<Rightarrow> nat option \<times> pcache" where
  "evict_one wr c = evict_sweep wr (PAGE_CACHE_MAX_PAGES * 2) c"

definition lookup_locked :: "string \<Rightarrow> nat \<Rightarrow> pcache \<Rightarrow> nat option" where
  "lookup_locked dev idx c =
     (case g_index c of
        None \<Rightarrow> None
      | Some ht \<Rightarrow> (let v = hashtable_get ht (make_key (Some dev) idx) in if v = 0 then None else Some (v - 1)))"

text \<open>Filling the victim \<open>i\<close> once it has a buffer.\<close>

definition fill_page :: "read_fn \<Rightarrow> pc_env \<Rightarrow> string \<Rightarrow> nat \<Rightarrow> nat \<Rightarrow> pcache \<Rightarrow> pcache" where
  "fill_page rd env dev idx i c =
     (let c = upd_page i (\<lambda>e. e\<lparr>pg_dev := cstr_ncopy 32 dev, pg_index := idx, pg_dirty := False, pg_referenced := True,
                                pg_pin := 1, pg_hits := 0, pg_last_access := e_ticks env\<rparr>) c;
          (rc, c) = page_read_from_disk rd i c;
          c = (if rc \<noteq> 0 then upd_page i (pg_data_update (\<lambda>_. Some (replicate PAGE_CACHE_BLOCK_SIZE 0))) c else c);
          c = upd_stats (\<lambda>s. s\<lparr>s_resident := s_resident s + 1\<rparr>) (upd_page i (pg_valid_update (\<lambda>_. True)) c)
      in c\<lparr>g_index := map_option (\<lambda>ht. snd (hashtable_put (e_site env) (make_key (Some dev) idx) (i + 1) ht)) (g_index c)\<rparr>)"

definition page_cache_miss :: "read_fn \<Rightarrow> write_fn \<Rightarrow> pc_env \<Rightarrow> string \<Rightarrow> nat \<Rightarrow> pcache \<Rightarrow> nat option \<times> pcache" where
  "page_cache_miss rd wr env dev idx c =
     (case evict_one wr (upd_stats (\<lambda>s. s\<lparr>s_misses := s_misses s + 1\<rparr>) c) of
        (None, c) \<Rightarrow> (None, c)
      | (Some i, c) \<Rightarrow>
          (case pg_data (g_pages c ! i) of
             Some _ \<Rightarrow> (Some i, fill_page rd env dev idx i c)
           | None \<Rightarrow>
               (case e_alloc env of
                  None \<Rightarrow> (None, c)
                | Some blk \<Rightarrow>
                    (Some i, fill_page rd env dev idx i
                       (upd_stats (\<lambda>s. s\<lparr>s_memory := wrap64 (s_memory s + PAGE_CACHE_BLOCK_SIZE)\<rparr>)
                          (upd_page i (pg_data_update (\<lambda>_. Some blk)) c))))))"

definition page_cache_get :: "read_fn \<Rightarrow> write_fn \<Rightarrow> pc_env \<Rightarrow> string option \<Rightarrow> nat \<Rightarrow> pcache \<Rightarrow> nat option \<times> pcache" where
  "page_cache_get rd wr env dev idx c =
     (case dev of
        None \<Rightarrow> (None, c)
      | Some dev \<Rightarrow>
          if \<not> g_initialized c then (None, c)
          else
            (case lookup_locked dev idx c of
               Some i \<Rightarrow>
                 if pg_valid (g_pages c ! i) then
                   (Some i, upd_stats (\<lambda>s. s\<lparr>s_hits := s_hits s + 1\<rparr>)
                      (upd_page i (\<lambda>e. e\<lparr>pg_referenced := True, pg_last_access := e_ticks env, pg_pin := pg_pin e + 1,
                                         pg_hits := pg_hits e + 1\<rparr>) c))
                 else page_cache_miss rd wr env dev idx c
             | None \<Rightarrow> page_cache_miss rd wr env dev idx c))"

definition page_cache_release :: "nat option \<Rightarrow> pcache \<Rightarrow> pcache" where
  "page_cache_release entry c =
     (case entry of
        None \<Rightarrow> c
      | Some i \<Rightarrow> upd_page i (\<lambda>e. if pg_pin e > 0 then e\<lparr>pg_pin := pg_pin e - 1\<rparr> else e) c)"

definition page_cache_mark_dirty :: "nat option \<Rightarrow> pcache \<Rightarrow> pcache" where
  "page_cache_mark_dirty entry c =
     (case entry of
        None \<Rightarrow> c
      | Some i \<Rightarrow>
          if \<not> pg_valid (g_pages c ! i) \<or> pg_dirty (g_pages c ! i) then c
          else upd_stats (\<lambda>s. s\<lparr>s_dirty := s_dirty s + 1\<rparr>) (upd_page i (pg_dirty_update (\<lambda>_. True)) c))"

text \<open>The bytes the next round of the two transfer loops moves.\<close>

definition chunk_len :: "nat \<Rightarrow> nat \<Rightarrow> nat" where
  "chunk_len pos left = min (PAGE_CACHE_BLOCK_SIZE - pos mod PAGE_CACHE_BLOCK_SIZE) left"

lemma chunk_len_pos: "0 < left \<Longrightarrow> 0 < chunk_len pos left"
  by (simp add: chunk_len_def PAGE_CACHE_BLOCK_SIZE_def)

lemma chunk_len_less: "\<not> len \<le> fin \<Longrightarrow> len - (fin + chunk_len pos (len - fin)) < len - fin"
  using chunk_len_pos[of "len - fin" pos] by simp

text \<open>The loops, from \<open>fin\<close> bytes on; the environment of a round is the one at its \<open>fin\<close>.\<close>

function pc_read_loop :: "read_fn \<Rightarrow> write_fn \<Rightarrow> (nat \<Rightarrow> pc_env) \<Rightarrow> string \<Rightarrow> nat \<Rightarrow> nat \<Rightarrow> nat \<Rightarrow> pcache \<Rightarrow> u8 list \<times> pcache" where
  "pc_read_loop rd wr env dev offset len fin c =
     (if len \<le> fin then ([], c)
      else
        (let pos = wrap64 (offset + fin); chunk = chunk_len pos (len - fin) in
         case page_cache_get rd wr (env fin) (Some dev) (pos div PAGE_CACHE_BLOCK_SIZE) c of
           (None, c) \<Rightarrow> ([], c)
         | (Some i, c) \<Rightarrow>
             (let bytes = take chunk (drop (pos mod PAGE_CACHE_BLOCK_SIZE) (the (pg_data (g_pages c ! i))));
                  (out, c) = pc_read_loop rd wr env dev offset len (fin + chunk) (page_cache_release (Some i) c)
              in (bytes @ out, c))))"
  by pat_completeness auto
termination
  by (relation "measure (\<lambda>(rd, wr, env, dev, offset, len, fin, c). len - fin)") (simp_all add: chunk_len_less)

function pc_write_loop :: "read_fn \<Rightarrow> write_fn \<Rightarrow> (nat \<Rightarrow> pc_env) \<Rightarrow> string \<Rightarrow> nat \<Rightarrow> u8 list \<Rightarrow> nat \<Rightarrow> pcache \<Rightarrow> nat \<times> pcache" where
  "pc_write_loop rd wr env dev offset buf fin c =
     (if length buf \<le> fin then (fin, c)
      else
        (let pos = wrap64 (offset + fin); chunk = chunk_len pos (length buf - fin) in
         case page_cache_get rd wr (env fin) (Some dev) (pos div PAGE_CACHE_BLOCK_SIZE) c of
           (None, c) \<Rightarrow> (fin, c)
         | (Some i, c) \<Rightarrow>
             (let c = upd_page i (pg_data_update (map_option
                        (\<lambda>d. memcpy_at d (pos mod PAGE_CACHE_BLOCK_SIZE) (drop fin buf) chunk))) c
              in pc_write_loop rd wr env dev offset buf (fin + chunk)
                   (page_cache_release (Some i) (page_cache_mark_dirty (Some i) c)))))"
  by pat_completeness auto
termination
  by (relation "measure (\<lambda>(rd, wr, env, dev, offset, buf, fin, c). length buf - fin)") (simp_all add: chunk_len_less)

declare pc_read_loop.simps [simp del] pc_write_loop.simps [simp del]

text \<open>\<open>has_buf\<close> says that the caller's buffer is not null; the bytes are those copied to it.\<close>

definition page_cache_read ::
    "read_fn \<Rightarrow> write_fn \<Rightarrow> (nat \<Rightarrow> pc_env) \<Rightarrow> string option \<Rightarrow> nat \<Rightarrow> bool \<Rightarrow> nat \<Rightarrow> pcache \<Rightarrow> u8 list \<times> pcache" where
  "page_cache_read rd wr env dev offset has_buf len c =
     (case dev of
        None \<Rightarrow> ([], c)
      | Some d \<Rightarrow> if \<not> g_initialized c \<or> \<not> has_buf \<or> len = 0 then ([], c) else pc_read_loop rd wr env d offset len 0 c)"

definition page_cache_write ::
    "read_fn \<Rightarrow> write_fn \<Rightarrow> (nat \<Rightarrow> pc_env) \<Rightarrow> string option \<Rightarrow> nat \<Rightarrow> u8 list option \<Rightarrow> pcache \<Rightarrow> nat \<times> pcache" where
  "page_cache_write rd wr env dev offset buf c =
     (case (dev, buf) of
        (Some d, Some b) \<Rightarrow> if \<not> g_initialized c \<or> b = [] then (0, c) else pc_write_loop rd wr env d offset b 0 c
      | _ \<Rightarrow> (0, c))"

definition sync_page :: "write_fn \<Rightarrow> string option \<Rightarrow> int \<times> pcache \<Rightarrow> nat \<Rightarrow> int \<times> pcache" where
  "sync_page wr dev acc i =
     (let (flushed, c) = acc; e = g_pages c ! i
      in if \<not> pg_valid e \<or> \<not> pg_dirty e then (flushed, c)
         else if dev \<noteq> None \<and> pg_dev e \<noteq> the dev then (flushed, c)
         else (let (rc, c) = page_write_to_disk wr i c
               in if rc = 0 then (flushed + 1, dec_dirty (upd_page i (pg_dirty_update (\<lambda>_. False)) c)) else (flushed, c)))"

definition page_cache_sync_dev :: "write_fn \<Rightarrow> string option \<Rightarrow> pcache \<Rightarrow> int \<times> pcache" where
  "page_cache_sync_dev wr dev c =
     (if \<not> g_initialized c then (- 1, c) else foldl (sync_page wr dev) (0, c) [0..<PAGE_CACHE_MAX_PAGES])"

definition page_cache_sync :: "write_fn \<Rightarrow> pcache \<Rightarrow> int \<times> pcache" where
  "page_cache_sync wr c = page_cache_sync_dev wr None c"

definition invalidate_page :: "string option \<Rightarrow> int \<times> pcache \<Rightarrow> nat \<Rightarrow> int \<times> pcache" where
  "invalidate_page dev acc i =
     (let (dropped, c) = acc; e = g_pages c ! i
      in if \<not> pg_valid e \<or> pg_dirty e \<or> pg_pin e > 0 then (dropped, c)
         else if dev \<noteq> None \<and> pg_dev e \<noteq> the dev then (dropped, c)
         else (dropped + 1, drop_page i c))"

definition page_cache_invalidate :: "string option \<Rightarrow> pcache \<Rightarrow> int \<times> pcache" where
  "page_cache_invalidate dev c =
     (if \<not> g_initialized c then (- 1, c) else foldl (invalidate_page dev) (0, c) [0..<PAGE_CACHE_MAX_PAGES])"

definition page_cache_drop_all :: "write_fn \<Rightarrow> pcache \<Rightarrow> pcache" where
  "page_cache_drop_all wr c = snd (page_cache_invalidate None (snd (page_cache_sync wr c)))"

definition page_cache_get_stats :: "pcache \<Rightarrow> page_cache_stats" where
  "page_cache_get_stats c = g_stats c"

definition page_cache_hit_percent :: "pcache \<Rightarrow> u32" where
  "page_cache_hit_percent c =
     (let s = g_stats c; total = s_hits s + s_misses s
      in if total = 0 then 0 else ucast (s_hits s * 100 div total))"

end
