(* ===== verification/PageCacheInv.thy ===== *)
theory PageCacheInv
  imports PageCache
begin

text \<open>
  The coherence of the page cache. \<open>pc_view\<close> is what a reader of a device should see: the cached page if there is
  one, the bytes of the device otherwise. \<open>pc_inv\<close> says that the index names exactly the valid pages and that a
  clean page holds what the device holds. The operations are followed in the locale of a block driver.
\<close>

section \<open>Keys\<close>

lemma make_key_eq: "idx < 2 ^ 64 \<Longrightarrow> length dev < 2 ^ 31 \<Longrightarrow> make_key (Some dev) idx = take 63 (dev @ '':'' @ decimal idx)"
  by (simp add: make_key_def snprintf_key butlast_append)

lemma append_colon_inj:
  assumes "as @ x # bs = cs @ x # ds" "x \<notin> set bs" "x \<notin> set ds"
  shows "as = cs \<and> bs = ds"
  using assms(1)
proof (induction as arbitrary: cs)
  case Nil
  then show ?case using assms(2, 3) by (cases cs) auto
next
  case (Cons a as)
  then show ?case using assms(2, 3) by (cases cs) auto
qed

lemma make_key_short: "length dev \<le> 31 \<Longrightarrow> idx < 2 ^ 64 \<Longrightarrow> make_key (Some dev) idx = dev @ CHR '':'' # decimal idx"
  using length_decimal[of idx] by (subst make_key_eq) (auto intro!: trans[OF take_all])

lemma make_key_inj:
  assumes "length d1 \<le> 31" "length d2 \<le> 31" "i1 < 2 ^ 64" "i2 < 2 ^ 64"
  shows "make_key (Some d1) i1 = make_key (Some d2) i2 \<longleftrightarrow> d1 = d2 \<and> i1 = i2"
proof
  assume eq: "make_key (Some d1) i1 = make_key (Some d2) i2"
  have "d1 @ CHR '':'' # decimal i1 = d2 @ CHR '':'' # decimal i2"
    using eq unfolding make_key_short[OF assms(1,3)] make_key_short[OF assms(2,4)] .
  from append_colon_inj[OF this decimal_val_decimal(2) decimal_val_decimal(2)]
  have d: "d1 = d2" "decimal i1 = decimal i2" by auto
  have "i1 = i2" using arg_cong[OF d(2), of "\<lambda>s. decimal_val (rev s)"] unfolding decimal_val_decimal(1) .
  then show "d1 = d2 \<and> i1 = i2" using d(1) by simp
qed simp

lemma hashtable_put_done:
  assumes "string_keys ht" "ok Node_Site" "ok Key_Site"
  shows "fst (hashtable_put ok key v ht) = 0"
  using assms by (simp add: hashtable_put_def hashtable_insert_def Let_def)

section \<open>The view and the invariant\<close>

abbreviation zero_page :: "u8 list" where
  "zero_page \<equiv> replicate PAGE_CACHE_BLOCK_SIZE 0"

definition backing :: "read_fn \<Rightarrow> block_device list \<Rightarrow> string \<Rightarrow> nat \<Rightarrow> u8 list" where
  "backing rd devs n idx =
     (case block_get_device devs (Some n) of
        None \<Rightarrow> zero_page
      | Some k \<Rightarrow>
          if bd_total_sectors (devs ! k) < idx * 8 + 8 then zero_page
          else (case rd (devs ! k) (idx * 8) 8 of None \<Rightarrow> zero_page | Some b \<Rightarrow> b))"

abbreviation page_id :: "page \<Rightarrow> string \<times> nat" where
  "page_id p \<equiv> (pg_dev p, pg_index p)"

definition page_key :: "page \<Rightarrow> string" where
  "page_key p = make_key (Some (pg_dev p)) (pg_index p)"

definition cached :: "page list \<Rightarrow> string \<times> nat \<rightharpoonup> u8 list" where
  "cached ps = map_of (map (\<lambda>p. (page_id p, the (pg_data p))) (filter pg_valid ps))"

definition pc_view :: "read_fn \<Rightarrow> pcache \<Rightarrow> string \<Rightarrow> nat \<Rightarrow> u8 list" where
  "pc_view rd c n idx = (case cached (g_pages c) (n, idx) of Some b \<Rightarrow> b | None \<Rightarrow> backing rd (pc_devs c) n idx)"

definition page_ok :: "read_fn \<Rightarrow> block_device list \<Rightarrow> page \<Rightarrow> bool" where
  "page_ok rd devs p \<longleftrightarrow>
     (pg_valid p \<longrightarrow> length (pg_dev p) \<le> 31 \<and> pg_index p < 2 ^ 52 \<and>
        (\<exists>b. pg_data p = Some b \<and> length b = PAGE_CACHE_BLOCK_SIZE \<and>
           (\<not> pg_dirty p \<longrightarrow> b = backing rd devs (pg_dev p) (pg_index p))))"

definition indexed :: "page list \<Rightarrow> (string \<rightharpoonup> nat) \<Rightarrow> bool" where
  "indexed ps look \<longleftrightarrow>
     (\<forall>k v. look k = Some v \<longleftrightarrow> (\<exists>i < length ps. v = i + 1 \<and> pg_valid (ps ! i) \<and> page_key (ps ! i) = k))"

definition index_ok :: "hashtable option \<Rightarrow> bool" where
  "index_ok ix = (case ix of Some ht \<Rightarrow> ht_wf ht \<and> string_keys ht | None \<Rightarrow> False)"

definition index_look :: "hashtable option \<Rightarrow> string \<rightharpoonup> nat" where
  "index_look ix = (case ix of Some ht \<Rightarrow> str_look ht | None \<Rightarrow> Map.empty)"

definition pc_inv :: "read_fn \<Rightarrow> (block_device \<Rightarrow> bool) \<Rightarrow> pcache \<Rightarrow> bool" where
  "pc_inv rd drv_ok c \<longleftrightarrow>
     g_initialized c \<and> index_ok (g_index c) \<and> length (g_pages c) = PAGE_CACHE_MAX_PAGES \<and>
     g_clock_hand c < PAGE_CACHE_MAX_PAGES \<and> (\<forall>d \<in> set (pc_devs c). drv_ok d \<and> bd_read_sectors d) \<and>
     (\<forall>p \<in> set (g_pages c). page_ok rd (pc_devs c) p) \<and> indexed (g_pages c) (index_look (g_index c))"

lemma pc_invD:
  assumes "pc_inv rd drv_ok c"
  shows "g_initialized c" "index_ok (g_index c)" "length (g_pages c) = PAGE_CACHE_MAX_PAGES" "g_clock_hand c < PAGE_CACHE_MAX_PAGES"
    "d \<in> set (pc_devs c) \<Longrightarrow> drv_ok d \<and> bd_read_sectors d" "p \<in> set (g_pages c) \<Longrightarrow> page_ok rd (pc_devs c) p"
    "indexed (g_pages c) (index_look (g_index c))"
  using assms by (auto simp: pc_inv_def)

definition uniq :: "page list \<Rightarrow> bool" where
  "uniq ps \<longleftrightarrow> (\<forall>i < length ps. \<forall>j < length ps. pg_valid (ps ! i) \<and> pg_valid (ps ! j) \<and> page_id (ps ! i) = page_id (ps ! j) \<longrightarrow> i = j)"

lemma indexed_uniq: "indexed ps look \<Longrightarrow> uniq ps"
  unfolding indexed_def uniq_def page_key_def by (metis Pair_inject add_right_cancel option.inject)

lemma cached_iff:
  assumes "uniq ps"
  shows "cached ps k = Some b \<longleftrightarrow> (\<exists>i < length ps. pg_valid (ps ! i) \<and> page_id (ps ! i) = k \<and> the (pg_data (ps ! i)) = b)"
proof -
  have "distinct (map page_id (filter pg_valid ps))"
    using assms
  proof (induction ps)
    case (Cons p ps)
    have "uniq ps" unfolding uniq_def
    proof safe
      fix i j assume "i < length ps" "j < length ps" "pg_valid (ps ! i)" "pg_valid (ps ! j)"
        "pg_dev (ps ! i) = pg_dev (ps ! j)" "pg_index (ps ! i) = pg_index (ps ! j)"
      then show "i = j" using Cons.prems[unfolded uniq_def, rule_format, of "Suc i" "Suc j"] by simp
    qed
    moreover have "page_id p \<noteq> page_id q" if that: "pg_valid p" "q \<in> set ps" "pg_valid q" for q
    proof -
      obtain j where "j < length ps" "ps ! j = q" using \<open>q \<in> set ps\<close> by (metis in_set_conv_nth)
      then show ?thesis using Cons.prems[unfolded uniq_def, rule_format, of 0 "Suc j"] that(1) \<open>pg_valid q\<close> by auto
    qed
    ultimately show ?case using Cons.IH by auto
  qed simp
  then have "distinct (map fst (map (\<lambda>p. (page_id p, the (pg_data p))) (filter pg_valid ps)))" by (simp add: comp_def)
  then show ?thesis
    unfolding cached_def using map_of_eq_Some_iff by (fastforce simp: in_set_conv_nth)
qed

section \<open>Changing one page\<close>

lemma option_eqI: "(\<And>b. x = Some b \<longleftrightarrow> y = Some b) \<Longrightarrow> x = y"
  by (cases x; cases y) auto

lemma cached_update:
  assumes u: "uniq ps" "uniq (ps[i := p'])" and i: "i < length ps"
  shows "cached (ps[i := p']) k =
    (if pg_valid p' \<and> page_id p' = k then Some (the (pg_data p'))
     else if pg_valid (ps ! i) \<and> page_id (ps ! i) = k then None else cached ps k)" (is "_ = ?r")
proof (rule option_eqI)
  fix b
  have 1: "cached (ps[i := p']) k = Some b \<longleftrightarrow> (pg_valid p' \<and> page_id p' = k \<and> the (pg_data p') = b) \<or>
      (\<exists>j < length ps. j \<noteq> i \<and> pg_valid (ps ! j) \<and> page_id (ps ! j) = k \<and> the (pg_data (ps ! j)) = b)"
    unfolding cached_iff[OF u(2)] using i by (auto simp: nth_list_update)
  have 2: "\<not> (j < length ps \<and> j \<noteq> i \<and> pg_valid (ps ! j) \<and> page_id (ps ! j) = k)" if "pg_valid p'" "page_id p' = k" for j
    using u(2)[unfolded uniq_def, rule_format, of i j] that i by (auto simp: nth_list_update)
  have 3: "\<not> (j < length ps \<and> j \<noteq> i \<and> pg_valid (ps ! j) \<and> page_id (ps ! j) = k)" if "pg_valid (ps ! i)" "page_id (ps ! i) = k" for j
    using u(1)[unfolded uniq_def, rule_format, of i j] that i by auto
  consider (new) "pg_valid p'" "page_id p' = k" | (old) "\<not> (pg_valid p' \<and> page_id p' = k)" "pg_valid (ps ! i)" "page_id (ps ! i) = k"
    | (other) "\<not> (pg_valid p' \<and> page_id p' = k)" "\<not> (pg_valid (ps ! i) \<and> page_id (ps ! i) = k)" by blast
  then show "cached (ps[i := p']) k = Some b \<longleftrightarrow> ?r = Some b"
  proof cases
    case new
    then show ?thesis unfolding 1 using 2[OF new] by auto
  next
    case old
    then show ?thesis unfolding 1 using 3[OF old(2,3)] by auto
  next
    case other
    then have "cached ps k = Some b \<longleftrightarrow> (\<exists>j < length ps. j \<noteq> i \<and> pg_valid (ps ! j) \<and> page_id (ps ! j) = k \<and> the (pg_data (ps ! j)) = b)"
      unfolding cached_iff[OF u(1)] by auto
    then show ?thesis unfolding 1 if_not_P[OF other(1)] if_not_P[OF other(2)] using other(1) by auto
  qed
qed

lemma indexed_look: "indexed ps look \<Longrightarrow> i < length ps \<Longrightarrow> pg_valid (ps ! i) \<Longrightarrow> look (page_key (ps ! i)) = Some (i + 1)"
  unfolding indexed_def by blast

lemma indexed_update:
  assumes ix: "indexed ps look" and i: "i < length ps"
    and fresh: "pg_valid p' \<Longrightarrow> look (page_key p') = None \<or> look (page_key p') = Some (i + 1)"
    and look': "\<And>k. look' k = (if pg_valid p' \<and> page_key p' = k then Some (i + 1)
      else if pg_valid (ps ! i) \<and> page_key (ps ! i) = k then None else look k)"
  shows "indexed (ps[i := p']) look'"
  unfolding indexed_def
proof (intro allI)
  fix k v
  let ?rest = "\<exists>j < length ps. j \<noteq> i \<and> v = j + 1 \<and> pg_valid (ps ! j) \<and> page_key (ps ! j) = k"
  have l: "look k = Some v \<longleftrightarrow> (v = i + 1 \<and> pg_valid (ps ! i) \<and> page_key (ps ! i) = k) \<or> ?rest"
    using ix i unfolding indexed_def by blast
  have e: "(\<exists>j < length (ps[i := p']). v = j + 1 \<and> pg_valid (ps[i := p'] ! j) \<and> page_key (ps[i := p'] ! j) = k) \<longleftrightarrow>
      (v = i + 1 \<and> pg_valid p' \<and> page_key p' = k) \<or> ?rest"
    using i by (auto simp: nth_list_update)
  have n1: "\<not> ?rest" if "pg_valid p'" "page_key p' = k"
  proof
    assume "?rest"
    then obtain j where "j < length ps" "j \<noteq> i" "pg_valid (ps ! j)" "page_key (ps ! j) = k" by blast
    then show False using fresh that indexed_look[OF ix, of j] by auto
  qed
  have n2: "\<not> ?rest" if "pg_valid (ps ! i)" "page_key (ps ! i) = k"
  proof
    assume "?rest"
    then obtain j where "j < length ps" "j \<noteq> i" "pg_valid (ps ! j)" "page_key (ps ! j) = k" by blast
    then show False using indexed_look[OF ix i that(1)] that(2) indexed_look[OF ix, of j] by auto
  qed
  show "look' k = Some v \<longleftrightarrow>
      (\<exists>j < length (ps[i := p']). v = j + 1 \<and> pg_valid (ps[i := p'] ! j) \<and> page_key (ps[i := p'] ! j) = k)"
    unfolding look' e using l n1 n2 by (cases "pg_valid p' \<and> page_key p' = k"; cases "pg_valid (ps ! i) \<and> page_key (ps ! i) = k") auto
qed

text \<open>The master lemma: page \<open>i\<close> becomes \<open>p'\<close> and the index follows.\<close>

lemma pc_inv_update:
  assumes inv: "pc_inv rd drv c" and i: "i < PAGE_CACHE_MAX_PAGES" and p': "page_ok rd (pc_devs c) p'"
    and fresh: "pg_valid p' \<Longrightarrow> index_look (g_index c) (page_key p') = None \<or> index_look (g_index c) (page_key p') = Some (i + 1)"
    and c': "g_pages c' = (g_pages c)[i := p']" "pc_devs c' = pc_devs c" "g_clock_hand c' < PAGE_CACHE_MAX_PAGES" "g_initialized c'"
      "index_ok (g_index c')"
    and look': "\<And>k. index_look (g_index c') k = (if pg_valid p' \<and> page_key p' = k then Some (i + 1)
      else if pg_valid (g_pages c ! i) \<and> page_key (g_pages c ! i) = k then None else index_look (g_index c) k)"
  shows "pc_inv rd drv c' \<and> (\<forall>n x. pc_view rd c' n x =
     (if pg_valid p' \<and> page_id p' = (n, x) then the (pg_data p')
      else if pg_valid (g_pages c ! i) \<and> page_id (g_pages c ! i) = (n, x) then backing rd (pc_devs c) n x else pc_view rd c n x))"
proof -
  note D = pc_invD[OF inv]
  have i': "i < length (g_pages c)" using i D(3) by simp
  have ix: "indexed ((g_pages c)[i := p']) (index_look (g_index c'))"
    by (rule indexed_update[OF D(7) i' fresh look'])
  have "pc_inv rd drv c'"
    unfolding pc_inv_def c' using ix D c' p' i' by (auto dest: set_update_subset_insert[THEN subsetD])
  then show ?thesis
    using cached_update[OF indexed_uniq[OF D(7)] indexed_uniq[OF ix] i'] unfolding pc_view_def c' by simp
qed

lemma upd_page_sel [simp]:
  "g_pages (upd_page i f c) = (g_pages c)[i := f (g_pages c ! i)]" "pc_devs (upd_page i f c) = pc_devs c"
  "g_index (upd_page i f c) = g_index c" "g_clock_hand (upd_page i f c) = g_clock_hand c"
  "g_initialized (upd_page i f c) = g_initialized c"
  by (simp_all add: upd_page_def)

lemma upd_stats_sel [simp]:
  "g_pages (upd_stats f c) = g_pages c" "pc_devs (upd_stats f c) = pc_devs c" "g_index (upd_stats f c) = g_index c"
  "g_clock_hand (upd_stats f c) = g_clock_hand c" "g_initialized (upd_stats f c) = g_initialized c"
  by (simp_all add: upd_stats_def)

lemma dec_sel [simp]:
  "g_pages (dec_dirty c) = g_pages c" "pc_devs (dec_dirty c) = pc_devs c" "g_index (dec_dirty c) = g_index c"
  "g_clock_hand (dec_dirty c) = g_clock_hand c" "g_initialized (dec_dirty c) = g_initialized c"
  "g_pages (dec_resident c) = g_pages c" "pc_devs (dec_resident c) = pc_devs c" "g_index (dec_resident c) = g_index c"
  "g_clock_hand (dec_resident c) = g_clock_hand c" "g_initialized (dec_resident c) = g_initialized c"
  by (simp_all add: dec_dirty_def dec_resident_def)

lemma unindex_sel [simp]:
  "g_pages (unindex i c) = g_pages c" "pc_devs (unindex i c) = pc_devs c" "g_clock_hand (unindex i c) = g_clock_hand c"
  "g_initialized (unindex i c) = g_initialized c"
  by (simp_all add: unindex_def Let_def)

lemma pc_frame:
  assumes "g_pages c' = g_pages c" "pc_devs c' = pc_devs c" "g_index c' = g_index c" "g_initialized c' = g_initialized c"
  shows "pc_view rd c' = pc_view rd c" "g_clock_hand c' < PAGE_CACHE_MAX_PAGES \<Longrightarrow> pc_inv rd drv c \<Longrightarrow> pc_inv rd drv c'"
  unfolding pc_view_def fun_eq_iff pc_inv_def assms by simp_all

lemma page_in: "pc_inv rd drv c \<Longrightarrow> i < PAGE_CACHE_MAX_PAGES \<Longrightarrow> page_ok rd (pc_devs c) (g_pages c ! i)"
  using pc_invD(3,6) by (metis nth_mem)

lemma page_look:
  "pc_inv rd drv c \<Longrightarrow> i < PAGE_CACHE_MAX_PAGES \<Longrightarrow> pg_valid (g_pages c ! i) \<Longrightarrow>
   index_look (g_index c) (page_key (g_pages c ! i)) = Some (i + 1)"
  using indexed_look pc_invD(3,7) by metis

lemma page_view:
  assumes "pc_inv rd drv c" "i < PAGE_CACHE_MAX_PAGES" "pg_valid (g_pages c ! i)"
  shows "pc_view rd c (pg_dev (g_pages c ! i)) (pg_index (g_pages c ! i)) = the (pg_data (g_pages c ! i))"
proof -
  have "cached (g_pages c) (page_id (g_pages c ! i)) = Some (the (pg_data (g_pages c ! i)))"
    unfolding cached_iff[OF indexed_uniq[OF pc_invD(7)[OF assms(1)]]] using assms pc_invD(3)[OF assms(1)] by auto
  then show ?thesis by (simp add: pc_view_def)
qed

text \<open>A page whose identity stays: the reference bit, the counters, marking it dirty.\<close>

lemma pc_touch:
  assumes inv: "pc_inv rd drv c" and i: "i < PAGE_CACHE_MAX_PAGES" and p: "p' = f (g_pages c ! i)"
    and same: "page_id p' = page_id (g_pages c ! i)" "pg_valid p' = pg_valid (g_pages c ! i)"
    and ok: "page_ok rd (pc_devs c) p'"
  shows "pc_inv rd drv (upd_page i f c) \<and> (\<forall>n x. pc_view rd (upd_page i f c) n x =
    (if pg_valid p' \<and> page_id p' = (n, x) then the (pg_data p') else pc_view rd c n x))"
proof -
  have k: "page_key p' = page_key (g_pages c ! i)" using same by (simp add: page_key_def)
  note lk = page_look[OF inv i]
  have "pc_inv rd drv (upd_page i f c) \<and> (\<forall>n x. pc_view rd (upd_page i f c) n x =
     (if pg_valid p' \<and> page_id p' = (n, x) then the (pg_data p')
      else if pg_valid (g_pages c ! i) \<and> page_id (g_pages c ! i) = (n, x) then backing rd (pc_devs c) n x else pc_view rd c n x))"
    using pc_invD[OF inv] lk same(2) by (intro pc_inv_update[OF inv i ok]) (auto simp: p[symmetric] k)
  then show ?thesis using same by auto
qed

lemma pc_mark:
  assumes inv: "pc_inv rd drv c" and i: "i < PAGE_CACHE_MAX_PAGES" and p: "p' = f (g_pages c ! i)"
    and same: "page_id p' = page_id (g_pages c ! i)" "pg_valid p' = pg_valid (g_pages c ! i)" "pg_data p' = pg_data (g_pages c ! i)"
    and dirty: "pg_dirty (g_pages c ! i) \<Longrightarrow> pg_dirty p'"
  shows "pc_inv rd drv (upd_page i f c)" "pc_view rd (upd_page i f c) = pc_view rd c"
proof -
  have "page_ok rd (pc_devs c) p'" using page_in[OF inv i] same dirty unfolding page_ok_def by auto
  note t = pc_touch[where f = f and p' = p', OF inv i p same(1,2) this]
  show "pc_inv rd drv (upd_page i f c)" using t by simp
  show "pc_view rd (upd_page i f c) = pc_view rd c"
    using t page_view[OF inv i] same by (auto simp: fun_eq_iff)
qed

lemma index_remove:
  assumes "index_ok ix"
  shows "index_ok (map_option (\<lambda>ht. snd (hashtable_remove key ht)) ix)"
    "index_look (map_option (\<lambda>ht. snd (hashtable_remove key ht)) ix) = (index_look ix)(key := None)"
  using assms st.rem_wf st.rem_look by (auto simp: index_ok_def index_look_def split: option.splits)

lemma index_put:
  assumes "index_ok ix" "ok Node_Site" "ok Key_Site"
  shows "index_ok (map_option (\<lambda>ht. snd (hashtable_put ok key v ht)) ix)"
    "index_look (map_option (\<lambda>ht. snd (hashtable_put ok key v ht)) ix) = (index_look ix)(key \<mapsto> v)"
proof -
  obtain ht where ht: "ix = Some ht" "ht_wf ht \<and> string_keys ht" using assms(1) by (auto simp: index_ok_def split: option.splits)
  have s: "str_put ok key v ht = (True, snd (hashtable_put ok key v ht))"
    using hashtable_put_done[of ht ok key v] ht assms by (simp add: str_put_def split_beta)
  show "index_ok (map_option (\<lambda>ht. snd (hashtable_put ok key v ht)) ix)"
    "index_look (map_option (\<lambda>ht. snd (hashtable_put ok key v ht)) ix) = (index_look ix)(key \<mapsto> v)"
    using st.put_wf[OF ht(2), of ok key v] st.put_look[OF ht(2), of ok key v] ht s by (simp_all add: index_ok_def index_look_def)
qed

lemma pc_drop:
  assumes inv: "pc_inv rd drv c" and i: "i < PAGE_CACHE_MAX_PAGES" and v: "pg_valid (g_pages c ! i)" "\<not> pg_dirty (g_pages c ! i)"
  shows "pc_inv rd drv (drop_page i c)" "pc_view rd (drop_page i c) = pc_view rd c" "\<not> pg_valid (g_pages (drop_page i c) ! i)"
    "pc_devs (drop_page i c) = pc_devs c"
proof -
  let ?p = "(g_pages c ! i)\<lparr>pg_valid := False\<rparr>"
  have "pc_inv rd drv (drop_page i c) \<and> (\<forall>n x. pc_view rd (drop_page i c) n x =
     (if pg_valid ?p \<and> page_id ?p = (n, x) then the (pg_data ?p)
      else if pg_valid (g_pages c ! i) \<and> page_id (g_pages c ! i) = (n, x) then backing rd (pc_devs c) n x else pc_view rd c n x))"
    using pc_invD[OF inv] v index_remove[OF pc_invD(2)[OF inv]]
    by (intro pc_inv_update[OF inv i]) (auto simp: drop_page_def page_ok_def unindex_def Let_def page_key_def[symmetric])
  moreover have "the (pg_data (g_pages c ! i)) = backing rd (pc_devs c) (pg_dev (g_pages c ! i)) (pg_index (g_pages c ! i))"
    using page_in[OF inv i] v by (auto simp: page_ok_def)
  ultimately show "pc_inv rd drv (drop_page i c)" "pc_view rd (drop_page i c) = pc_view rd c"
    using page_view[OF inv i v(1)] by (auto simp: fun_eq_iff)
  show "\<not> pg_valid (g_pages (drop_page i c) ! i)" using i pc_invD(3)[OF inv] by (simp add: drop_page_def)
  show "pc_devs (drop_page i c) = pc_devs c" by (simp add: drop_page_def)
qed

lemma lookup_iff:
  assumes inv: "pc_inv rd drv c" and n: "length n \<le> 31" "x < 2 ^ 52"
  shows "lookup_locked n x c = Some i \<longleftrightarrow> i < PAGE_CACHE_MAX_PAGES \<and> pg_valid (g_pages c ! i) \<and> page_id (g_pages c ! i) = (n, x)"
proof -
  note D = pc_invD[OF inv]
  obtain ht where ht: "g_index c = Some ht" "ht_wf ht" "string_keys ht" using D(2) by (auto simp: index_ok_def split: option.splits)
  have pos: "index_look (g_index c) k \<noteq> Some 0" for k using D(7) by (auto simp: indexed_def)
  have "lookup_locked n x c = Some i \<longleftrightarrow> index_look (g_index c) (make_key (Some n) x) = Some (i + 1)"
    using pos ht by (auto simp: lookup_locked_def hashtable_get_look index_look_def Let_def split: option.splits)
  also have "\<dots> \<longleftrightarrow> i < PAGE_CACHE_MAX_PAGES \<and> pg_valid (g_pages c ! i) \<and> page_key (g_pages c ! i) = make_key (Some n) x"
    using D(3,7) by (auto simp: indexed_def)
  also have "\<dots> \<longleftrightarrow> i < PAGE_CACHE_MAX_PAGES \<and> pg_valid (g_pages c ! i) \<and> page_id (g_pages c ! i) = (n, x)"
  proof (intro conj_cong refl)
    assume "i < PAGE_CACHE_MAX_PAGES" "pg_valid (g_pages c ! i)"
    then have "length (pg_dev (g_pages c ! i)) \<le> 31" "pg_index (g_pages c ! i) < 2 ^ 52"
      using page_in[OF inv] by (auto simp: page_ok_def)
    then show "(page_key (g_pages c ! i) = make_key (Some n) x) = (page_id (g_pages c ! i) = (n, x))"
      using n by (simp add: page_key_def make_key_inj)
  qed
  finally show ?thesis .
qed

lemma lookup_none:
  assumes inv: "pc_inv rd drv c" and n: "length n \<le> 31" "x < 2 ^ 52" and l: "lookup_locked n x c = None"
  shows "index_look (g_index c) (make_key (Some n) x) = None" "pc_view rd c n x = backing rd (pc_devs c) n x"
proof -
  note D = pc_invD[OF inv]
  have no: "\<not> (i < PAGE_CACHE_MAX_PAGES \<and> pg_valid (g_pages c ! i) \<and> page_id (g_pages c ! i) = (n, x))" for i
    using lookup_iff[OF inv n] l by (metis option.distinct(1))
  have "cached (g_pages c) (n, x) \<noteq> Some b" for b
    unfolding cached_iff[OF indexed_uniq[OF D(7)]] D(3) using no by blast
  then have "cached (g_pages c) (n, x) = None" by (cases "cached (g_pages c) (n, x)") auto
  then show "pc_view rd c n x = backing rd (pc_devs c) n x" by (simp add: pc_view_def)
  obtain ht where ht: "g_index c = Some ht" "ht_wf ht" "string_keys ht" using D(2) by (auto simp: index_ok_def split: option.splits)
  have pos: "index_look (g_index c) k \<noteq> Some 0" for k using D(7) by (auto simp: indexed_def)
  show "index_look (g_index c) (make_key (Some n) x) = None"
    using l ht pos[of "make_key (Some n) x"]
    by (auto simp: lookup_locked_def hashtable_get_look index_look_def Let_def split: option.splits if_splits)
qed

section \<open>The device below\<close>

lemma block_find_Some: "block_find ds n i = Some k \<Longrightarrow> i \<le> k \<and> k < i + length ds \<and> bd_name (ds ! (k - i)) = n"
  by (induction ds n i rule: block_find.induct) (auto split: if_splits simp: nth_Cons' Suc_diff_Suc)

lemma block_get_device_Some: "block_get_device ds (Some n) = Some k \<Longrightarrow> k < length ds \<and> bd_name (ds ! k) = n"
  using block_find_Some[of ds n 0 k] by (simp add: block_get_device_def)

lemma block_find_update: "bd_name d' = bd_name (ds ! k) \<Longrightarrow> block_find (ds[k := d']) n i = block_find ds n i"
proof (induction ds arbitrary: k i)
  case (Cons d ds)
  then show ?case by (cases k) auto
qed simp

lemma sector_small: "idx < 2 ^ 52 \<Longrightarrow> wrap64 (idx * 8) = idx * 8" "idx < 2 ^ 52 \<Longrightarrow> wrap64 (idx * 8 + 8) = idx * 8 + 8"
  by simp_all

text \<open>The pages that can be written: on a writable device and within its bounds.\<close>

definition on_disk :: "block_device list \<Rightarrow> string \<Rightarrow> nat \<Rightarrow> bool" where
  "on_disk devs n x =
     (case block_get_device devs (Some n) of
        None \<Rightarrow> False
      | Some k \<Rightarrow> bd_write_sectors (devs ! k) \<and> \<not> bd_read_only (devs ! k) \<and> x * 8 + 8 \<le> bd_total_sectors (devs ! k))"

lemma on_disk_update:
  assumes "d' = (devs ! k)\<lparr>bd_store := s\<rparr>"
  shows "on_disk (devs[k := d']) = on_disk devs"
proof -
  have "block_get_device (devs[k := d']) (Some m) = block_get_device devs (Some m)" for m
    using assms by (simp add: block_get_device_def block_find_update)
  moreover have nth: "devs[k := d'] ! j = (if j = k \<and> k < length devs then d' else devs ! j)" for j
    by (metis nth_list_update list_update_beyond not_le)
  have "bd_write_sectors (devs[k := d'] ! j) = bd_write_sectors (devs ! j)" "bd_read_only (devs[k := d'] ! j) = bd_read_only (devs ! j)"
    "bd_total_sectors (devs[k := d'] ! j) = bd_total_sectors (devs ! j)" for j
    unfolding nth by (simp_all add: assms)
  ultimately show ?thesis by (simp add: on_disk_def fun_eq_iff split: option.split)
qed

text \<open>A sweep only ever drops pages.\<close>

lemma write_pages: "page_write_to_disk wr i c = (rc, c1) \<Longrightarrow> g_pages c1 = g_pages c"
  by (auto simp: page_write_to_disk_def Let_def split: option.splits if_splits)

definition fewer :: "page list \<Rightarrow> page list \<Rightarrow> bool" where
  "fewer ps' ps \<longleftrightarrow> (\<forall>j. pg_valid (ps' ! j) \<longrightarrow> pg_valid (ps ! j) \<and> page_id (ps' ! j) = page_id (ps ! j) \<and>
     pg_pin (ps' ! j) = pg_pin (ps ! j) \<and> (pg_dirty (ps' ! j) \<longrightarrow> pg_dirty (ps ! j)))"

lemma fewer_update:
  "page_id p' = page_id (ps ! i) \<Longrightarrow> pg_pin p' = pg_pin (ps ! i) \<Longrightarrow> pg_dirty p' \<longrightarrow> pg_dirty (ps ! i) \<Longrightarrow>
   pg_valid p' \<longrightarrow> pg_valid (ps ! i) \<Longrightarrow> fewer (ps[i := p']) ps"
  unfolding fewer_def by (metis nth_list_update list_update_beyond not_le)

lemma fewer_trans: "fewer a b \<Longrightarrow> fewer b c \<Longrightarrow> fewer a c" and fewer_refl: "fewer a a"
  unfolding fewer_def by auto

lemma evict_sweep_fewer: "evict_sweep wr n c = (r, c') \<Longrightarrow> fewer (g_pages c') (g_pages c)"
proof (induction n arbitrary: c)
  case (Suc n)
  let ?i = "g_clock_hand c" and ?c = "c\<lparr>g_clock_hand := (g_clock_hand c + 1) mod PAGE_CACHE_MAX_PAGES\<rparr>"
  let ?e = "g_pages c ! ?i"
  obtain rc c1 where w: "page_write_to_disk wr ?i ?c = (rc, c1)" by (cases "page_write_to_disk wr ?i ?c") auto
  have c1: "g_pages c1 = g_pages c" using write_pages[OF w] by simp
  have ref: "fewer (g_pages (upd_page ?i (pg_referenced_update (\<lambda>_. False)) ?c)) (g_pages c)" by (simp add: fewer_update)
  have drop: "fewer (g_pages (drop_page ?i d)) (g_pages d)" for d by (simp add: drop_page_def fewer_update)
  have undirty: "fewer (g_pages (dec_dirty (upd_page ?i (pg_dirty_update (\<lambda>_. False)) c1))) (g_pages c)" by (simp add: c1 fewer_update)
  have "(r, c') = (Some ?i, ?c) \<or> evict_sweep wr n ?c = (r, c') \<or>
      evict_sweep wr n (upd_page ?i (pg_referenced_update (\<lambda>_. False)) ?c) = (r, c') \<or> evict_sweep wr n c1 = (r, c') \<or>
      g_pages c' = g_pages (drop_page ?i (dec_dirty (upd_page ?i (pg_dirty_update (\<lambda>_. False)) c1))) \<or>
      g_pages c' = g_pages (drop_page ?i ?c)"
    using Suc.prems w
    by (cases "pg_valid ?e"; cases "0 < pg_pin ?e"; cases "pg_referenced ?e"; cases "pg_dirty ?e"; cases "rc = 0")
      (force simp: Let_def)+
  then consider "(r, c') = (Some ?i, ?c)" | "evict_sweep wr n ?c = (r, c')"
    | "evict_sweep wr n (upd_page ?i (pg_referenced_update (\<lambda>_. False)) ?c) = (r, c')" | "evict_sweep wr n c1 = (r, c')"
    | "g_pages c' = g_pages (drop_page ?i (dec_dirty (upd_page ?i (pg_dirty_update (\<lambda>_. False)) c1)))"
    | "g_pages c' = g_pages (drop_page ?i ?c)" by blast
  then show ?case
  proof cases
    case 1 then show ?thesis by (simp add: fewer_refl)
  next
    case 2 then show ?thesis using Suc.IH by fastforce
  next
    case 3 show ?thesis by (rule fewer_trans[OF Suc.IH[OF 3] ref])
  next
    case 4 show ?thesis using Suc.IH[OF 4] unfolding c1 .
  next
    case 5 show ?thesis unfolding 5 by (rule fewer_trans[OF drop undirty])
  next
    case 6 show ?thesis unfolding 6 using drop[of ?c] by simp
  qed
qed (simp add: fewer_refl)

context block_driver
begin

lemma backing_write:
  assumes devs: "\<forall>d \<in> set devs. drv_ok d \<and> bd_read_sectors d" and k: "block_get_device devs (Some n) = Some k"
    and b: "idx * 8 + 8 \<le> bd_total_sectors (devs ! k)" "length b = PAGE_CACHE_BLOCK_SIZE" "wr (devs ! k) (idx * 8) 8 b = Some d'"
  shows "backing rd (devs[k := d']) n' idx' = (if (n', idx') = (n, idx) then b else backing rd devs n' idx')"
    "\<forall>d \<in> set (devs[k := d']). drv_ok d \<and> bd_read_sectors d"
proof -
  have kl: "k < length devs" "bd_name (devs ! k) = n" using block_get_device_Some[OF k] by auto
  have ok: "drv_ok (devs ! k)" "bd_read_sectors (devs ! k)" using devs kl by auto
  have len: "length b = 512 * 8" using b(2) by (simp add: PAGE_CACHE_BLOCK_SIZE_def)
  obtain s where d': "d' = (devs ! k)\<lparr>bd_store := s\<rparr>" using wr_meta[OF ok(1) b(3)] by blast
  have find: "block_get_device (devs[k := d']) (Some m) = block_get_device devs (Some m)" for m
    by (simp add: block_get_device_def block_find_update d')
  have tot: "bd_total_sectors d' = bd_total_sectors (devs ! k)" by (simp add: d')
  have same: "rd d' (idx * 8) 8 = Some b" by (rule wr_rd[OF ok(1) b(1) len b(3)])
  have other: "rd d' (x * 8) 8 = rd (devs ! k) (x * 8) 8" if "x \<noteq> idx" "x * 8 + 8 \<le> bd_total_sectors (devs ! k)" for x
    using that(1) by (intro wr_rd_other[OF ok(1) b(1) len b(3) that(2)]) linarith
  show "\<forall>d \<in> set (devs[k := d']). drv_ok d \<and> bd_read_sectors d"
    using devs wr_ok[OF ok(1) b(1) len b(3)] ok(2) by (auto dest!: set_update_subset_insert[THEN subsetD] simp: d')
  show "backing rd (devs[k := d']) n' idx' = (if (n', idx') = (n, idx) then b else backing rd devs n' idx')"
  proof (cases "n' = n")
    case True
    then show ?thesis using kl(1) tot b(1) same other[of idx'] unfolding backing_def find True k by simp
  next
    case False
    then have "j \<noteq> k" if "block_get_device devs (Some n') = Some j" for j
      using block_get_device_Some[OF that] kl(2) by auto
    then show ?thesis using False by (auto simp: backing_def find split: option.splits)
  qed
qed

lemma write_back:
  assumes inv: "pc_inv rd drv_ok c" and i: "i < PAGE_CACHE_MAX_PAGES" and v: "pg_valid (g_pages c ! i)"
    and w: "page_write_to_disk wr i c = (rc, c1)"
  shows "g_pages c1 = g_pages c \<and> g_index c1 = g_index c \<and> g_clock_hand c1 = g_clock_hand c \<and> g_initialized c1 = g_initialized c \<and>
    pc_inv rd drv_ok c1 \<and> pc_view rd c1 = pc_view rd c \<and> on_disk (pc_devs c1) = on_disk (pc_devs c) \<and> (rc \<noteq> 0 \<longrightarrow> c1 = c) \<and>
    (rc = 0 \<longrightarrow> the (pg_data (g_pages c ! i)) = backing rd (pc_devs c1) (pg_dev (g_pages c ! i)) (pg_index (g_pages c ! i)))"
proof (cases "rc = 0")
  case False
  then have "c1 = c" using w by (auto simp: page_write_to_disk_def Let_def split: option.splits if_splits)
  then show ?thesis using inv False by simp
next
  case True
  let ?p = "g_pages c ! i"
  note D = pc_invD[OF inv]
  obtain b where p: "pg_index ?p < 2 ^ 52" "pg_data ?p = Some b" "length b = PAGE_CACHE_BLOCK_SIZE"
    using page_in[OF inv i] v by (auto simp: page_ok_def)
  obtain k d' where k: "block_get_device (pc_devs c) (Some (pg_dev ?p)) = Some k"
      and b: "pg_index ?p * 8 + 8 \<le> bd_total_sectors (pc_devs c ! k)" "wr (pc_devs c ! k) (pg_index ?p * 8) 8 b = Some d'"
      and c1: "g_pages c1 = g_pages c" "pc_devs c1 = (pc_devs c)[k := d']" "g_index c1 = g_index c" "g_clock_hand c1 = g_clock_hand c"
        "g_initialized c1 = g_initialized c"
    using w True p sector_small[OF p(1)]
    by (auto simp: page_write_to_disk_def Let_def PAGE_CACHE_SECTORS_def split: option.splits if_splits)
  have devs: "\<forall>d \<in> set (pc_devs c). drv_ok d \<and> bd_read_sectors d" using D(5) by blast
  note bw = backing_write[OF devs k b(1) p(3) b(2)]
  have uq: "page_id q = page_id ?p \<Longrightarrow> q = ?p" if "q \<in> set (g_pages c)" "pg_valid q" for q
    using that v i D(3) indexed_uniq[OF D(7)] unfolding uniq_def by (metis in_set_conv_nth)
  have "page_ok rd (pc_devs c1) q" if "q \<in> set (g_pages c)" for q
    using D(6)[OF that] uq[OF that] p unfolding page_ok_def c1 bw(1) by auto
  then have "pc_inv rd drv_ok c1" using D bw(2) unfolding pc_inv_def c1 by auto
  moreover have "cached (g_pages c) (page_id ?p) = Some b"
    unfolding cached_iff[OF indexed_uniq[OF D(7)]] using v i D(3) p by auto
  then have "pc_view rd c1 = pc_view rd c" unfolding pc_view_def fun_eq_iff c1 bw(1) by (auto split: option.splits)
  moreover have "on_disk (pc_devs c1) = on_disk (pc_devs c)"
    using wr_meta[OF _ b(2)] devs block_get_device_Some[OF k] on_disk_update unfolding c1 by auto
  ultimately show ?thesis using c1 p bw(1) True by simp
qed

text \<open>Writing page \<open>i\<close> back and clearing its dirty bit.\<close>

lemma write_clean:
  assumes inv: "pc_inv rd drv_ok c" and i: "i < PAGE_CACHE_MAX_PAGES" and v: "pg_valid (g_pages c ! i)"
    and w: "page_write_to_disk wr i c = (0, c1)"
  defines "c2 \<equiv> dec_dirty (upd_page i (pg_dirty_update (\<lambda>_. False)) c1)"
  shows "pc_inv rd drv_ok c2" "pc_view rd c2 = pc_view rd c" "g_pages c2 = (g_pages c)[i := (g_pages c ! i)\<lparr>pg_dirty := False\<rparr>]"
    "g_clock_hand c2 = g_clock_hand c" "on_disk (pc_devs c2) = on_disk (pc_devs c)"
proof -
  let ?p = "(g_pages c ! i)\<lparr>pg_dirty := False\<rparr>"
  let ?u = "upd_page i (pg_dirty_update (\<lambda>_. False)) c1"
  from write_back[OF inv i v w]
  have w1: "g_pages c1 = g_pages c" "pc_inv rd drv_ok c1" "pc_view rd c1 = pc_view rd c" "g_clock_hand c1 = g_clock_hand c"
    "on_disk (pc_devs c1) = on_disk (pc_devs c)" "the (pg_data (g_pages c ! i)) = backing rd (pc_devs c1) (pg_dev (g_pages c ! i)) (pg_index (g_pages c ! i))" by auto
  have ok: "page_ok rd (pc_devs c1) ?p" using page_in[OF w1(2) i] w1 v by (auto simp: page_ok_def)
  have t: "pc_inv rd drv_ok ?u \<and> (\<forall>n x. pc_view rd ?u n x =
      (if pg_valid ?p \<and> page_id ?p = (n, x) then the (pg_data ?p) else pc_view rd c1 n x))"
    by (rule pc_touch[OF w1(2) i _ _ _ ok]) (simp_all add: w1(1))
  show "pc_inv rd drv_ok c2"
    using t pc_frame(2)[of c2 ?u] pc_invD(4)[OF w1(2)] by (simp add: c2_def)
  show "pc_view rd c2 = pc_view rd c"
    using t pc_frame(1)[of c2 ?u rd] page_view[OF w1(2) i] v w1 by (auto simp: c2_def fun_eq_iff)
  show "g_pages c2 = (g_pages c)[i := ?p]" "g_clock_hand c2 = g_clock_hand c" "on_disk (pc_devs c2) = on_disk (pc_devs c)" by (simp_all add: c2_def w1)
qed

lemma evict_sweep_keeps:
  assumes "pc_inv rd drv_ok c" "evict_sweep wr n c = (r, c')"
  shows "pc_inv rd drv_ok c' \<and> pc_view rd c' = pc_view rd c \<and> on_disk (pc_devs c') = on_disk (pc_devs c) \<and>
    (\<forall>i. r = Some i \<longrightarrow> i < PAGE_CACHE_MAX_PAGES \<and> \<not> pg_valid (g_pages c' ! i))"
  using assms
proof (induction n arbitrary: c)
  case (Suc n)
  let ?i = "g_clock_hand c" and ?c = "c\<lparr>g_clock_hand := (g_clock_hand c + 1) mod PAGE_CACHE_MAX_PAGES\<rparr>"
  let ?e = "g_pages c ! ?i"
  note D = pc_invD[OF Suc.prems(1)]
  have i: "?i < PAGE_CACHE_MAX_PAGES" by (rule D(4))
  have view: "pc_view rd ?c = pc_view rd c" by (rule pc_frame(1)) simp_all
  have inv: "pc_inv rd drv_ok ?c" by (rule pc_frame(2)[OF _ _ _ _ _ Suc.prems(1)]) (simp_all add: PAGE_CACHE_MAX_PAGES_def)
  consider (free) "\<not> pg_valid ?e" | (pinned) "pg_valid ?e" "pg_pin ?e > 0"
    | (ref) "pg_valid ?e" "pg_pin ?e = 0" "pg_referenced ?e"
    | (dirty) "pg_valid ?e" "pg_pin ?e = 0" "\<not> pg_referenced ?e" "pg_dirty ?e"
    | (clean) "pg_valid ?e" "pg_pin ?e = 0" "\<not> pg_referenced ?e" "\<not> pg_dirty ?e" by (cases "pg_pin ?e = 0") (auto simp: word_neq_0_conv)
  then show ?case
  proof cases
    case free
    then show ?thesis using Suc.prems(2) inv view i by (auto simp: Let_def)
  next
    case pinned
    then show ?thesis using Suc.prems(2) Suc.IH[OF inv] view by (auto simp: Let_def)
  next
    case ref
    let ?c1 = "upd_page ?i (pg_referenced_update (\<lambda>_. False)) ?c"
    note m = pc_mark[where f = "pg_referenced_update (\<lambda>_. False)", OF inv i refl, simplified]
    have "evict_sweep wr n ?c1 = (r, c')" using ref Suc.prems(2) by (simp add: Let_def)
    from Suc.IH[OF _ this] show ?thesis using m view by simp
  next
    case dirty
    obtain rc c1 where w: "page_write_to_disk wr ?i ?c = (rc, c1)" by (cases "page_write_to_disk wr ?i ?c") auto
    show ?thesis
    proof (cases "rc = 0")
      case True
      let ?c2 = "dec_dirty (upd_page ?i (pg_dirty_update (\<lambda>_. False)) c1)"
      note wc = write_clean[OF inv i _ w[unfolded True], simplified, OF dirty(1)]
      have p: "pg_valid (g_pages ?c2 ! ?i)" "\<not> pg_dirty (g_pages ?c2 ! ?i)"
        using wc(3) dirty i D(3) by simp_all
      note dp = pc_drop[OF wc(1) i p]
      have c': "r = Some ?i" "c' = upd_stats (\<lambda>s. s\<lparr>s_evictions := s_evictions s + 1\<rparr>) (drop_page ?i ?c2)"
        using Suc.prems(2) dirty w True by (auto simp: Let_def)
      show ?thesis
        using c' dp wc(2,5) view pc_frame[of c' "drop_page ?i ?c2"] pc_invD(4)[OF dp(1)] i by simp
    next
      case False
      then have "c1 = ?c" using write_back[OF inv i _ w] dirty by simp
      then show ?thesis using Suc.prems(2) Suc.IH[OF inv] view dirty w False by (auto simp: Let_def)
    qed
  next
    case clean
    note dp = pc_drop[OF inv i, simplified, OF clean(1,4)]
    have c': "r = Some ?i" "c' = upd_stats (\<lambda>s. s\<lparr>s_evictions := s_evictions s + 1\<rparr>) (drop_page ?i ?c)"
      using Suc.prems(2) clean by (auto simp: Let_def)
    show ?thesis
      using c' dp view pc_frame[of c' "drop_page ?i ?c"] pc_invD(4)[OF dp(1)] i by simp
  qed
qed auto

lemma read_disk:
  assumes devs: "\<forall>d \<in> set (pc_devs c). drv_ok d \<and> bd_read_sectors d" and i: "i < length (g_pages c)"
    and id: "page_id (g_pages c ! i) = (n, x)" "x < 2 ^ 52" and r: "page_read_from_disk rd i c = (rc, c1)"
  defines "c2 \<equiv> (if rc \<noteq> 0 then upd_page i (pg_data_update (\<lambda>_. Some zero_page)) c1 else c1)"
  shows "g_pages c2 = (g_pages c)[i := (g_pages c ! i)\<lparr>pg_data := Some (backing rd (pc_devs c) n x)\<rparr>] \<and> pc_devs c2 = pc_devs c \<and>
    g_index c2 = g_index c \<and> g_clock_hand c2 = g_clock_hand c \<and> g_initialized c2 = g_initialized c"
proof (cases "block_get_device (pc_devs c) (Some n)")
  case None
  then show ?thesis using r id by (auto simp: page_read_from_disk_def c2_def backing_def Let_def)
next
  case (Some k)
  then have "bd_read_sectors (pc_devs c ! k)" using devs block_get_device_Some[OF Some] by simp
  then show ?thesis
    using r id Some sector_small[OF id(2)]
    by (auto simp: page_read_from_disk_def c2_def backing_def Let_def PAGE_CACHE_SECTORS_def split: if_splits option.splits)
qed

lemma length_backing:
  assumes "\<forall>d \<in> set devs. drv_ok d \<and> bd_read_sectors d"
  shows "length (backing rd devs n x) = PAGE_CACHE_BLOCK_SIZE"
proof (cases "block_get_device devs (Some n)")
  case (Some k)
  then have "drv_ok (devs ! k)" using assms block_get_device_Some[OF Some] by simp
  then show ?thesis
    using rd_length[of "devs ! k" "x * 8" 8] Some by (auto simp: backing_def PAGE_CACHE_BLOCK_SIZE_def split: option.splits)
qed (simp add: backing_def)

lemma fill_keeps:
  assumes inv: "pc_inv rd drv_ok c" and i: "i < PAGE_CACHE_MAX_PAGES" and free: "\<not> pg_valid (g_pages c ! i)"
    and n: "length n \<le> 31" "x < 2 ^ 52" and l: "lookup_locked n x c = None" and ok: "e_site env Node_Site" "e_site env Key_Site"
  defines "c' \<equiv> fill_page rd env n x i c"
  shows "pc_inv rd drv_ok c' \<and> pc_view rd c' = pc_view rd c \<and> pg_valid (g_pages c' ! i) \<and> page_id (g_pages c' ! i) = (n, x) \<and>
    pg_data (g_pages c' ! i) = Some (pc_view rd c n x)"
proof -
  note D = pc_invD[OF inv]
  have il: "i < length (g_pages c)" using i D(3) by simp
  let ?q = "(g_pages c ! i)\<lparr>pg_dev := n, pg_index := x, pg_dirty := False, pg_referenced := True,
                                pg_pin := 1, pg_hits := 0, pg_last_access := e_ticks env\<rparr>"
  let ?p = "?q\<lparr>pg_data := Some (backing rd (pc_devs c) n x), pg_valid := True\<rparr>"
  let ?c0 = "upd_page i (\<lambda>e. e\<lparr>pg_dev := n, pg_index := x, pg_dirty := False, pg_referenced := True,
                                pg_pin := 1, pg_hits := 0, pg_last_access := e_ticks env\<rparr>) c"
  obtain rc c1 where r: "page_read_from_disk rd i ?c0 = (rc, c1)" by (cases "page_read_from_disk rd i ?c0") auto
  have devs: "\<forall>d \<in> set (pc_devs c). drv_ok d \<and> bd_read_sectors d" using D(5) by blast
  define c2 where "c2 = (if rc \<noteq> 0 then upd_page i (pg_data_update (\<lambda>_. Some zero_page)) c1 else c1)"
  have c2: "g_pages c2 = (g_pages c)[i := ?q\<lparr>pg_data := Some (backing rd (pc_devs c) n x)\<rparr>]" "pc_devs c2 = pc_devs c"
      "g_index c2 = g_index c" "g_clock_hand c2 = g_clock_hand c" "g_initialized c2"
    using read_disk[of ?c0 i n x rc c1] devs il n(2) r D(1) by (simp_all add: c2_def)
  have nm: "cstr_ncopy 32 n = n" using n(1) by (simp add: cstr_ncopy_id)
  have c': "g_pages c' = (g_pages c)[i := ?p]" "pc_devs c' = pc_devs c" "g_clock_hand c' = g_clock_hand c" "g_initialized c'"
      "g_index c' = map_option (\<lambda>ht. snd (hashtable_put (e_site env) (make_key (Some n) x) (i + 1) ht)) (g_index c)"
    using c2 il by (simp_all add: c'_def fill_page_def Let_def nm r c2_def[symmetric])
  have lk: "index_look (g_index c) (make_key (Some n) x) = None" "pc_view rd c n x = backing rd (pc_devs c) n x"
    using lookup_none[OF inv n l] by auto
  have "pc_inv rd drv_ok c' \<and> (\<forall>m y. pc_view rd c' m y =
     (if pg_valid ?p \<and> page_id ?p = (m, y) then the (pg_data ?p)
      else if pg_valid (g_pages c ! i) \<and> page_id (g_pages c ! i) = (m, y) then backing rd (pc_devs c) m y else pc_view rd c m y))"
    using lk D(4) index_put[OF D(2) ok] n length_backing[OF devs] free
    by (intro pc_inv_update[OF inv i _ _ c'(1,2) _ c'(4)]) (auto simp: c' page_ok_def page_key_def)
  then show ?thesis using free lk(2) c'(1) il by (auto simp: fun_eq_iff)
qed

lemma miss_keeps:
  assumes inv: "pc_inv rd drv_ok c" and n: "length n \<le> 31" "x < 2 ^ 52" and l: "lookup_locked n x c = None"
    and ok: "e_site env Node_Site" "e_site env Key_Site" and g: "page_cache_miss rd wr env n x c = (r, c')"
  shows "pc_inv rd drv_ok c' \<and> pc_view rd c' = pc_view rd c \<and> (\<forall>i. r = Some i \<longrightarrow> i < PAGE_CACHE_MAX_PAGES \<and>
    pg_valid (g_pages c' ! i) \<and> page_id (g_pages c' ! i) = (n, x) \<and> pg_data (g_pages c' ! i) = Some (pc_view rd c n x))"
proof -
  let ?c0 = "upd_stats (\<lambda>s. s\<lparr>s_misses := s_misses s + 1\<rparr>) c"
  obtain v c1 where e: "evict_one wr ?c0 = (v, c1)" by (cases "evict_one wr ?c0") auto
  have inv0: "pc_inv rd drv_ok ?c0" and view0: "pc_view rd ?c0 = pc_view rd c"
    using pc_frame(2)[of ?c0 c, OF _ _ _ _ _ inv] pc_invD(4)[OF inv] pc_frame(1)[of ?c0 c rd] by simp_all
  note ev = evict_sweep_keeps[OF inv0 e[unfolded evict_one_def], unfolded view0]
  have l1: "lookup_locked n x c1 = None"
  proof (rule ccontr)
    assume "lookup_locked n x c1 \<noteq> None"
    then obtain j where "j < PAGE_CACHE_MAX_PAGES" "pg_valid (g_pages c1 ! j)" "page_id (g_pages c1 ! j) = (n, x)"
      using lookup_iff[of rd drv_ok c1, OF _ n] ev by auto
    then have "lookup_locked n x c = Some j"
      using evict_sweep_fewer[OF e[unfolded evict_one_def]] lookup_iff[OF inv n, of j] by (simp add: fewer_def)
    then show False using l by simp
  qed
  show ?thesis
  proof (cases v)
    case None
    then show ?thesis using g e ev by (simp add: page_cache_miss_def)
  next
    case (Some i)
    then have i: "i < PAGE_CACHE_MAX_PAGES" "\<not> pg_valid (g_pages c1 ! i)" using ev by auto
    show ?thesis
    proof (cases "pg_data (g_pages c1 ! i)")
      case None
      show ?thesis
      proof (cases "e_alloc env")
        case no: None
        then show ?thesis using g e ev Some None by (simp add: page_cache_miss_def)
      next
        case blk: (Some blk)
        let ?u = "upd_page i (pg_data_update (\<lambda>_. Some blk)) c1"
        let ?c2 = "upd_stats (\<lambda>s. s\<lparr>s_memory := wrap64 (s_memory s + PAGE_CACHE_BLOCK_SIZE)\<rparr>) ?u"
        let ?p = "(g_pages c1 ! i)\<lparr>pg_data := Some blk\<rparr>"
        have "page_ok rd (pc_devs c1) ?p" using i by (simp add: page_ok_def)
        from pc_touch[where f = "pg_data_update (\<lambda>_. Some blk)" and p' = ?p, OF _ i(1) refl _ _ this, of drv_ok]
        have u: "pc_inv rd drv_ok ?u" "pc_view rd ?u = pc_view rd c" using ev i by (auto simp: fun_eq_iff)
        have u2: "pc_inv rd drv_ok ?c2" "pc_view rd ?c2 = pc_view rd c"
          using pc_frame(2)[of ?c2 ?u, OF _ _ _ _ _ u(1)] pc_invD(4)[OF u(1)] pc_frame(1)[of ?c2 ?u rd] u(2) by simp_all
        have f: "\<not> pg_valid (g_pages ?c2 ! i)" using i pc_invD(3)[of rd drv_ok c1] ev by simp
        have l2: "lookup_locked n x ?c2 = None" using l1 by (simp add: lookup_locked_def)
        show ?thesis
          using fill_keeps[OF u2(1) i(1) f n l2 ok] u2(2) g e Some None blk i(1) by (auto simp: page_cache_miss_def)
      qed
    next
      case (Some d)
      then show ?thesis
        using fill_keeps[OF _ i n l1 ok] ev g e \<open>v = Some i\<close> i(1) by (auto simp: page_cache_miss_def)
    qed
  qed
qed

lemma get_keeps:
  assumes inv: "pc_inv rd drv_ok c" and n: "length n \<le> 31" "x < 2 ^ 52"
    and ok: "e_site env Node_Site" "e_site env Key_Site" and g: "page_cache_get rd wr env (Some n) x c = (r, c')"
  shows "pc_inv rd drv_ok c' \<and> pc_view rd c' = pc_view rd c \<and> (\<forall>i. r = Some i \<longrightarrow> i < PAGE_CACHE_MAX_PAGES \<and>
    pg_valid (g_pages c' ! i) \<and> page_id (g_pages c' ! i) = (n, x) \<and> pg_data (g_pages c' ! i) = Some (pc_view rd c n x))"
proof (cases "lookup_locked n x c")
  case None
  then show ?thesis
    using miss_keeps[OF inv n None ok] g pc_invD(1)[OF inv] by (simp add: page_cache_get_def)
next
  case (Some i)
  then have i: "i < PAGE_CACHE_MAX_PAGES" "pg_valid (g_pages c ! i)" "page_id (g_pages c ! i) = (n, x)"
    using lookup_iff[OF inv n] by auto
  let ?f = "\<lambda>e. e\<lparr>pg_referenced := True, pg_last_access := e_ticks env, pg_pin := pg_pin e + 1, pg_hits := pg_hits e + 1\<rparr>"
  have c': "r = Some i" "c' = upd_stats (\<lambda>s. s\<lparr>s_hits := s_hits s + 1\<rparr>) (upd_page i ?f c)"
    using g Some i(2) pc_invD(1)[OF inv] by (simp_all add: page_cache_get_def)
  note m = pc_mark[where f = ?f, OF inv i(1) refl, simplified]
  obtain b where "pg_data (g_pages c ! i) = Some b" using page_in[OF inv i(1)] i(2) by (auto simp: page_ok_def)
  then have "pg_data (g_pages c ! i) = Some (pc_view rd c n x)" using page_view[OF inv i(1,2)] i(3) by simp
  then show ?thesis
    using c' m pc_frame[of c' "upd_page i ?f c"] pc_invD(4)[OF m(1)] i pc_invD(3)[OF inv] by simp
qed

lemma release_keeps:
  assumes inv: "pc_inv rd drv_ok c" and i: "i < PAGE_CACHE_MAX_PAGES"
  shows "pc_inv rd drv_ok (page_cache_release (Some i) c)" "pc_view rd (page_cache_release (Some i) c) = pc_view rd c"
  unfolding page_cache_release_def option.case
  by (rule pc_mark[OF inv i refl]; simp)+

text \<open>Changing the bytes of a page and marking it dirty.\<close>

lemma store_keeps:
  assumes inv: "pc_inv rd drv_ok c" and i: "i < PAGE_CACHE_MAX_PAGES" and v: "pg_valid (g_pages c ! i)"
    and d: "pg_data (g_pages c ! i) = Some d" "length (f d) = PAGE_CACHE_BLOCK_SIZE"
  defines "c' \<equiv> page_cache_mark_dirty (Some i) (upd_page i (pg_data_update (map_option f)) c)"
  shows "pc_inv rd drv_ok c'" "pc_view rd c' m y = (if page_id (g_pages c ! i) = (m, y) then f d else pc_view rd c m y)"
    "g_pages c' = (g_pages c)[i := (g_pages c ! i)\<lparr>pg_data := Some (f d), pg_dirty := True\<rparr>]" "pc_devs c' = pc_devs c"
proof -
  let ?g = "\<lambda>e. e\<lparr>pg_data := Some (f d), pg_dirty := True\<rparr>"
  let ?u = "upd_page i ?g c"
  have il: "i < length (g_pages c)" using i pc_invD(3)[OF inv] by simp
  have id: "e\<lparr>pg_dirty := True\<rparr> = e" if "pg_dirty e" for e :: page using that by (cases e) simp
  have upd: "pg_data_update (map_option f) (g_pages c ! i) = (g_pages c ! i)\<lparr>pg_data := Some (f d)\<rparr>"
    using d(1) by (cases "g_pages c ! i") simp
  show g: "g_pages c' = (g_pages c)[i := ?g (g_pages c ! i)]"
  proof (cases "pg_dirty (g_pages c ! i)")
    case True
    then have e: "?g (g_pages c ! i) = (g_pages c ! i)\<lparr>pg_data := Some (f d)\<rparr>" by (intro id) simp
    show ?thesis using v il True unfolding e c'_def by (simp add: page_cache_mark_dirty_def upd)
  qed (use v il in \<open>simp add: c'_def page_cache_mark_dirty_def upd\<close>)
  show devs: "pc_devs c' = pc_devs c" by (simp add: c'_def page_cache_mark_dirty_def)
  have rest: "g_index c' = g_index c" "g_initialized c' = g_initialized c" "g_clock_hand c' = g_clock_hand c"
    by (simp_all add: c'_def page_cache_mark_dirty_def)
  have "page_ok rd (pc_devs c) (?g (g_pages c ! i))" using page_in[OF inv i] v d by (auto simp: page_ok_def)
  note t = pc_touch[where f = ?g, OF inv i refl _ _ this, simplified]
  show "pc_inv rd drv_ok c'"
    using t pc_frame(2)[of c' ?u] g devs rest pc_invD(4)[OF inv] by simp
  show "pc_view rd c' m y = (if page_id (g_pages c ! i) = (m, y) then f d else pc_view rd c m y)"
    using t pc_frame(1)[of c' ?u rd] g devs rest v by auto
qed

lemma sync_page_keeps:
  assumes inv: "pc_inv rd drv_ok c" and i: "i < PAGE_CACHE_MAX_PAGES" and s: "sync_page wr dev (m, c) i = (m', c')"
  shows "pc_inv rd drv_ok c' \<and> pc_view rd c' = pc_view rd c"
proof -
  obtain rc c1 where w: "page_write_to_disk wr i c = (rc, c1)" by (cases "page_write_to_disk wr i c") auto
  consider "c' = c" | "pg_valid (g_pages c ! i)" "rc \<noteq> 0" "c' = c1"
    | "pg_valid (g_pages c ! i)" "rc = 0" "c' = dec_dirty (upd_page i (pg_dirty_update (\<lambda>_. False)) c1)"
    using s w by (auto simp: sync_page_def Let_def split: if_splits)
  then show ?thesis
  proof cases
    case 1
    then show ?thesis using inv by simp
  next
    case 2
    then show ?thesis using write_back[OF inv i _ w] inv by simp
  next
    case 3
    then show ?thesis using write_clean[OF inv i 3(1)] w by simp
  qed
qed

lemma invalidate_page_keeps:
  assumes inv: "pc_inv rd drv_ok c" and i: "i < PAGE_CACHE_MAX_PAGES" and s: "invalidate_page dev (m, c) i = (m', c')"
  shows "pc_inv rd drv_ok c' \<and> pc_view rd c' = pc_view rd c"
proof (cases "pg_valid (g_pages c ! i) \<and> \<not> pg_dirty (g_pages c ! i) \<and> c' = drop_page i c")
  case True
  then show ?thesis using pc_drop[OF inv i] by simp
next
  case False
  then have "c' = c" using s by (auto simp: invalidate_page_def Let_def split: if_splits)
  then show ?thesis using inv by simp
qed

lemma foldl_keeps:
  assumes "\<And>m c i m' c'. P c \<Longrightarrow> i \<in> set is \<Longrightarrow> f (m, c) i = (m', c') \<Longrightarrow> P c' \<and> v c' = v c"
    and "P c" "foldl f (m, c) is = (m', c')"
  shows "P c' \<and> v c' = v c"
  using assms
proof (induction "is" arbitrary: m c)
  case (Cons i js)
  obtain m1 c1 where f: "f (m, c) i = (m1, c1)" by (cases "f (m, c) i") auto
  have c1: "P c1 \<and> v c1 = v c" by (rule Cons.prems(1)[OF Cons.prems(2) _ f]) simp
  have "P c' \<and> v c' = v c1"
  proof (rule Cons.IH[of c1 m1])
    show "P d' \<and> v d' = v d" if "P d" "j \<in> set js" "f (k, d) j = (k', d')" for k d j k' d'
      using Cons.prems(1)[OF that(1) _ that(3)] that(2) by simp
  qed (use c1 Cons.prems(3) f in simp_all)
  then show ?case using c1 by simp
qed simp

lemma sync_keeps:
  assumes inv: "pc_inv rd drv_ok c" and s: "page_cache_sync_dev wr dev c = (m, c')"
  shows "pc_inv rd drv_ok c' \<and> pc_view rd c' = pc_view rd c"
  using s inv pc_invD(1)[OF inv] sync_page_keeps
  by (intro foldl_keeps[where f = "sync_page wr dev" and P = "pc_inv rd drv_ok" and c = c]) (auto simp: page_cache_sync_dev_def)

lemma invalidate_keeps:
  assumes inv: "pc_inv rd drv_ok c" and s: "page_cache_invalidate dev c = (m, c')"
  shows "pc_inv rd drv_ok c' \<and> pc_view rd c' = pc_view rd c"
  using s inv pc_invD(1)[OF inv] invalidate_page_keeps
  by (intro foldl_keeps[where f = "invalidate_page dev" and P = "pc_inv rd drv_ok" and c = c]) (auto simp: page_cache_invalidate_def)

lemma drop_all_keeps:
  assumes inv: "pc_inv rd drv_ok c"
  shows "pc_inv rd drv_ok (page_cache_drop_all wr c) \<and> pc_view rd (page_cache_drop_all wr c) = pc_view rd c"
proof -
  obtain m c1 where s: "page_cache_sync_dev wr None c = (m, c1)" by (cases "page_cache_sync_dev wr None c") auto
  obtain m2 c2 where t: "page_cache_invalidate None c1 = (m2, c2)" by (cases "page_cache_invalidate None c1") auto
  show ?thesis
    using sync_keeps[OF inv s] invalidate_keeps[OF _ t] s t by (simp add: page_cache_drop_all_def page_cache_sync_def)
qed

end

end
