(* ===== verification/PageCacheProps.thy ===== *)
theory PageCacheProps
  imports PageCacheInv
begin

text \<open>
  What a caller of the page cache sees. On a driver that accepts every write within its device, transfers that stay
  on the device complete, and any history of reads, writes, flushes and drops behaves as one array of bytes per
  device. The properties are stated for the RAM disk.
\<close>

section \<open>Progress\<close>

definition settled :: "block_device list \<Rightarrow> page \<Rightarrow> bool" where
  "settled devs p \<longleftrightarrow> (pg_valid p \<longrightarrow> pg_pin p = 0 \<and> (pg_dirty p \<longrightarrow> on_disk devs (pg_dev p) (pg_index p)))"

definition quiet :: "pcache \<Rightarrow> bool" where
  "quiet c \<longleftrightarrow> (\<forall>j < PAGE_CACHE_MAX_PAGES. settled (pc_devs c) (g_pages c ! j))"

text \<open>Page \<open>i\<close> is held by one caller, the others are quiet.\<close>

definition held :: "nat \<Rightarrow> pcache \<Rightarrow> bool" where
  "held i c \<longleftrightarrow> (\<forall>j < PAGE_CACHE_MAX_PAGES. j \<noteq> i \<longrightarrow> settled (pc_devs c) (g_pages c ! j)) \<and>
     settled (pc_devs c) ((g_pages c ! i)\<lparr>pg_pin := 0\<rparr>) \<and> pg_pin (g_pages c ! i) = 1"

definition env_ok :: "pc_env \<Rightarrow> bool" where
  "env_ok env \<longleftrightarrow> e_site env Node_Site \<and> e_site env Key_Site \<and> e_alloc env \<noteq> None"

lemma held_release:
  assumes "held i c" "i < PAGE_CACHE_MAX_PAGES" "length (g_pages c) = PAGE_CACHE_MAX_PAGES"
  shows "quiet (page_cache_release (Some i) c)"
  using assms by (auto simp: held_def quiet_def page_cache_release_def nth_list_update)

lemma settled_fewer:
  assumes "fewer ps' ps" "settled devs (ps ! j)" "on_disk devs' = on_disk devs"
  shows "settled devs' (ps' ! j)"
  using assms unfolding fewer_def settled_def by (metis Pair_inject)

lemma read_pages:
  "page_read_from_disk rd i c = (rc, c1) \<Longrightarrow>
   (\<exists>b. g_pages c1 = (g_pages c)[i := (g_pages c ! i)\<lparr>pg_data := b\<rparr>]) \<and> pc_devs c1 = pc_devs c"
proof -
  have "(g_pages c)[i := (g_pages c ! i)\<lparr>pg_data := pg_data (g_pages c ! i)\<rparr>] = g_pages c" by simp
  then have "\<exists>b. g_pages c = (g_pages c)[i := (g_pages c ! i)\<lparr>pg_data := b\<rparr>]" by metis
  then show "page_read_from_disk rd i c = (rc, c1) \<Longrightarrow>
     (\<exists>b. g_pages c1 = (g_pages c)[i := (g_pages c ! i)\<lparr>pg_data := b\<rparr>]) \<and> pc_devs c1 = pc_devs c"
    by (auto simp: page_read_from_disk_def Let_def split: option.splits if_splits)
qed

lemma fill_pages:
  assumes "i < length (g_pages c)"
  shows "\<exists>p'. g_pages (fill_page rd env n x i c) = (g_pages c)[i := p'] \<and> pg_pin p' = 1 \<and> \<not> pg_dirty p' \<and>
    pc_devs (fill_page rd env n x i c) = pc_devs c"
proof -
  let ?c0 = "upd_page i (\<lambda>e. e\<lparr>pg_dev := cstr_ncopy 32 n, pg_index := x, pg_dirty := False, pg_referenced := True,
                                pg_pin := 1, pg_hits := 0, pg_last_access := e_ticks env\<rparr>) c"
  obtain rc c1 where r: "page_read_from_disk rd i ?c0 = (rc, c1)" by (cases "page_read_from_disk rd i ?c0") auto
  then show ?thesis using read_pages[OF r] assms by (auto simp: fill_page_def Let_def)
qed

definition byte_view :: "read_fn \<Rightarrow> pcache \<Rightarrow> string \<Rightarrow> nat \<Rightarrow> u8" where
  "byte_view rd c n off = pc_view rd c n (off div PAGE_CACHE_BLOCK_SIZE) ! (off mod PAGE_CACHE_BLOCK_SIZE)"

lemma chunk_arith:
  assumes "j < PAGE_CACHE_BLOCK_SIZE - pos mod PAGE_CACHE_BLOCK_SIZE"
  shows "(pos + j) div PAGE_CACHE_BLOCK_SIZE = pos div PAGE_CACHE_BLOCK_SIZE"
    "(pos + j) mod PAGE_CACHE_BLOCK_SIZE = pos mod PAGE_CACHE_BLOCK_SIZE + j"
proof -
  have e: "pos + j = PAGE_CACHE_BLOCK_SIZE * (pos div PAGE_CACHE_BLOCK_SIZE) + (pos mod PAGE_CACHE_BLOCK_SIZE + j)" by simp
  show "(pos + j) div PAGE_CACHE_BLOCK_SIZE = pos div PAGE_CACHE_BLOCK_SIZE"
    by (subst e, subst div_mult_self4) (use assms in \<open>auto simp: PAGE_CACHE_BLOCK_SIZE_def\<close>)
  show "(pos + j) mod PAGE_CACHE_BLOCK_SIZE = pos mod PAGE_CACHE_BLOCK_SIZE + j"
    by (subst e, subst mod_mult_self4) (use assms in \<open>auto simp: PAGE_CACHE_BLOCK_SIZE_def\<close>)
qed

lemma chunk_bytes:
  assumes "chunk \<le> PAGE_CACHE_BLOCK_SIZE - pos mod PAGE_CACHE_BLOCK_SIZE"
    "length (pc_view rd c n (pos div PAGE_CACHE_BLOCK_SIZE)) = PAGE_CACHE_BLOCK_SIZE"
  shows "take chunk (drop (pos mod PAGE_CACHE_BLOCK_SIZE) (pc_view rd c n (pos div PAGE_CACHE_BLOCK_SIZE))) =
    map (byte_view rd c n) [pos..<pos + chunk]"
  using assms by (intro nth_equalityI) (auto simp: byte_view_def chunk_arith)

lemma chunk_range:
  assumes "chunk \<le> PAGE_CACHE_BLOCK_SIZE - pos mod PAGE_CACHE_BLOCK_SIZE"
  shows "pos \<le> off \<and> off < pos + chunk \<longleftrightarrow> off div PAGE_CACHE_BLOCK_SIZE = pos div PAGE_CACHE_BLOCK_SIZE \<and>
    pos mod PAGE_CACHE_BLOCK_SIZE \<le> off mod PAGE_CACHE_BLOCK_SIZE \<and>
    off mod PAGE_CACHE_BLOCK_SIZE < pos mod PAGE_CACHE_BLOCK_SIZE + chunk" (is "?l = ?r")
proof
  assume l: ?l
  then have "off - pos < PAGE_CACHE_BLOCK_SIZE - pos mod PAGE_CACHE_BLOCK_SIZE" using assms by linarith
  then show ?r using chunk_arith[of "off - pos" pos] l by auto
next
  assume r: ?r
  have "pos = PAGE_CACHE_BLOCK_SIZE * (pos div PAGE_CACHE_BLOCK_SIZE) + pos mod PAGE_CACHE_BLOCK_SIZE"
    "off = PAGE_CACHE_BLOCK_SIZE * (pos div PAGE_CACHE_BLOCK_SIZE) + off mod PAGE_CACHE_BLOCK_SIZE"
    using r mult_div_mod_eq[of PAGE_CACHE_BLOCK_SIZE off] by simp_all
  then show ?l using r by linarith
qed

lemma byte_view_store:
  assumes ch: "chunk \<le> PAGE_CACHE_BLOCK_SIZE - pos mod PAGE_CACHE_BLOCK_SIZE" "chunk \<le> length src"
    and d: "d = pc_view rd c n (pos div PAGE_CACHE_BLOCK_SIZE)" "length d = PAGE_CACHE_BLOCK_SIZE"
    and v: "\<And>m y. pc_view rd c' m y = (if (n, pos div PAGE_CACHE_BLOCK_SIZE) = (m, y)
      then memcpy_at d (pos mod PAGE_CACHE_BLOCK_SIZE) src chunk else pc_view rd c m y)"
  shows "byte_view rd c' m off = (if m = n \<and> pos \<le> off \<and> off < pos + chunk then src ! (off - pos) else byte_view rd c m off)"
proof (cases "(n, pos div PAGE_CACHE_BLOCK_SIZE) = (m, off div PAGE_CACHE_BLOCK_SIZE)")
  case False
  then show ?thesis using chunk_range[OF ch(1), of off] by (auto simp: byte_view_def v)
next
  case True
  have lt: "off mod PAGE_CACHE_BLOCK_SIZE < PAGE_CACHE_BLOCK_SIZE" "pos mod PAGE_CACHE_BLOCK_SIZE < PAGE_CACHE_BLOCK_SIZE"
    by (simp_all add: PAGE_CACHE_BLOCK_SIZE_def)
  have dif: "off mod PAGE_CACHE_BLOCK_SIZE - pos mod PAGE_CACHE_BLOCK_SIZE = off - pos" if "pos \<le> off" "off < pos + chunk"
    using chunk_arith(2)[of "off - pos" pos] that ch(1) by simp
  have "memcpy_at d (pos mod PAGE_CACHE_BLOCK_SIZE) src chunk ! (off mod PAGE_CACHE_BLOCK_SIZE) =
      (if pos \<le> off \<and> off < pos + chunk then src ! (off - pos) else d ! (off mod PAGE_CACHE_BLOCK_SIZE))"
  proof (cases "pos \<le> off \<and> off < pos + chunk")
    case inside: True
    then show ?thesis using chunk_range[OF ch(1), of off] ch d(2) lt dif by (subst nth_memcpy_at) auto
  next
    case outside: False
    then have "\<not> (pos mod PAGE_CACHE_BLOCK_SIZE \<le> off mod PAGE_CACHE_BLOCK_SIZE \<and>
        off mod PAGE_CACHE_BLOCK_SIZE < pos mod PAGE_CACHE_BLOCK_SIZE + chunk)"
      using chunk_range[OF ch(1), of off] True by simp
    then show ?thesis using outside ch d(2) lt by (subst nth_memcpy_at) auto
  qed
  then show ?thesis using True d(1) by (auto simp: byte_view_def v)
qed

definition sweep_dist :: "nat \<Rightarrow> nat \<Rightarrow> nat" where
  "sweep_dist hand i = (if hand \<le> i then i - hand else i + PAGE_CACHE_MAX_PAGES - hand)"

lemma sweep_dist_next:
  assumes "hand < PAGE_CACHE_MAX_PAGES" "i < PAGE_CACHE_MAX_PAGES"
  shows "sweep_dist (Suc hand mod PAGE_CACHE_MAX_PAGES) i =
    (if hand = i then PAGE_CACHE_MAX_PAGES - 1 else sweep_dist hand i - 1)" "hand \<noteq> i \<Longrightarrow> 0 < sweep_dist hand i"
  using assms by (auto simp: sweep_dist_def mod_if PAGE_CACHE_MAX_PAGES_def)

context reliable_driver
begin

lemma flush_ok:
  assumes inv: "pc_inv rd drv_ok c" and i: "i < PAGE_CACHE_MAX_PAGES" and v: "pg_valid (g_pages c ! i)"
    and d: "on_disk (pc_devs c) (pg_dev (g_pages c ! i)) (pg_index (g_pages c ! i))"
  shows "\<exists>c1. page_write_to_disk wr i c = (0, c1)"
proof -
  let ?p = "g_pages c ! i"
  have x: "pg_index ?p < 2 ^ 52" using page_in[OF inv i] v by (auto simp: page_ok_def)
  obtain k where k: "block_get_device (pc_devs c) (Some (pg_dev ?p)) = Some k" "bd_write_sectors (pc_devs c ! k)"
      "\<not> bd_read_only (pc_devs c ! k)" "pg_index ?p * 8 + 8 \<le> bd_total_sectors (pc_devs c ! k)"
    using d by (auto simp: on_disk_def split: option.splits)
  have "drv_ok (pc_devs c ! k)" using pc_invD(5)[OF inv] block_get_device_Some[OF k(1)] by auto
  from wr_done[OF this k(4), of "the (pg_data ?p)"] show ?thesis
    using k sector_small[OF x] by (auto simp: page_write_to_disk_def Let_def PAGE_CACHE_SECTORS_def)
qed

lemma evict_progress:
  assumes "pc_inv rd drv_ok c" "i < PAGE_CACHE_MAX_PAGES" "settled (pc_devs c) (g_pages c ! i)"
    "sweep_dist (g_clock_hand c) i + (if pg_referenced (g_pages c ! i) then PAGE_CACHE_MAX_PAGES else 0) < n"
  shows "fst (evict_sweep wr n c) \<noteq> None"
  using assms
proof (induction n arbitrary: c)
  case (Suc n)
  let ?h = "g_clock_hand c" and ?c = "c\<lparr>g_clock_hand := (g_clock_hand c + 1) mod PAGE_CACHE_MAX_PAGES\<rparr>"
  let ?e = "g_pages c ! ?h" and ?c1 = "upd_page (g_clock_hand c) (pg_referenced_update (\<lambda>_. False)) (c\<lparr>g_clock_hand := (g_clock_hand c + 1) mod PAGE_CACHE_MAX_PAGES\<rparr>)"
  note D = pc_invD[OF Suc.prems(1)]
  have h: "?h < PAGE_CACHE_MAX_PAGES" by (rule D(4))
  have inv: "pc_inv rd drv_ok ?c"
    by (rule pc_frame(2)[OF _ _ _ _ _ Suc.prems(1)]) (simp_all add: PAGE_CACHE_MAX_PAGES_def)
  have inv1: "pc_inv rd drv_ok ?c1"
    using pc_mark(1)[where f = "pg_referenced_update (\<lambda>_. False)", OF inv, of ?h] h by simp
  obtain rc c2 where w: "page_write_to_disk wr ?h ?c = (rc, c2)" by (cases "page_write_to_disk wr ?h ?c") auto
  have c2: "c2 = ?c" if "pg_valid ?e" "rc \<noteq> 0" using write_back[OF inv h _ w] that by simp
  have step: "fst (evict_sweep wr (Suc n) c) \<noteq> None \<or> evict_sweep wr (Suc n) c = evict_sweep wr n ?c \<and> pg_valid ?e \<and>
        (pg_pin ?e > 0 \<or> \<not> pg_referenced ?e \<and> pg_dirty ?e \<and> rc \<noteq> 0) \<or>
      evict_sweep wr (Suc n) c = evict_sweep wr n ?c1 \<and> pg_valid ?e \<and> pg_referenced ?e"
    using w c2 by (auto simp: Let_def)
  show ?case
  proof (cases "?h = i")
    case True
    have "rc = 0" if "pg_valid ?e" "pg_dirty ?e"
      using flush_ok[OF inv h] w that Suc.prems(3) True by (auto simp: settled_def)
    moreover have "pg_pin ?e = 0" if "pg_valid ?e" using Suc.prems(3) that True by (simp add: settled_def)
    moreover have "fst (evict_sweep wr n ?c1) \<noteq> None" if "pg_referenced ?e"
    proof (rule Suc.IH[OF inv1 Suc.prems(2)])
      show "settled (pc_devs ?c1) (g_pages ?c1 ! i)" using True Suc.prems(3) h D(3) by (auto simp: settled_def)
      have "PAGE_CACHE_MAX_PAGES - 1 < n" using that True Suc.prems(4) by (auto simp: PAGE_CACHE_MAX_PAGES_def)
      then show "sweep_dist (g_clock_hand ?c1) i + (if pg_referenced (g_pages ?c1 ! i) then PAGE_CACHE_MAX_PAGES else 0) < n"
        using sweep_dist_next(1)[OF h Suc.prems(2)] True h D(3) by auto
    qed
    ultimately show ?thesis using step by auto
  next
    case False
    have "sweep_dist (g_clock_hand ?c) i + (if pg_referenced (g_pages c ! i) then PAGE_CACHE_MAX_PAGES else 0) < n"
      using Suc.prems(4) sweep_dist_next[OF h Suc.prems(2)] False by simp
    then have "fst (evict_sweep wr n ?c) \<noteq> None" "fst (evict_sweep wr n ?c1) \<noteq> None"
      using Suc.prems(2,3) False by (intro Suc.IH inv inv1; simp)+
    then show ?thesis using step by auto
  qed
qed simp

lemma evict_quiet:
  assumes "pc_inv rd drv_ok c" "quiet c" "evict_one wr c = (r, c')"
  shows "r \<noteq> None \<and> quiet c'"
proof -
  have e: "evict_sweep wr (PAGE_CACHE_MAX_PAGES * 2) c = (r, c')" using assms(3) by (simp add: evict_one_def)
  have "fst (evict_sweep wr (PAGE_CACHE_MAX_PAGES * 2) c) \<noteq> None"
    using assms(2) pc_invD(4)[OF assms(1)]
    by (intro evict_progress[OF assms(1), of "g_clock_hand c"]) (auto simp: quiet_def sweep_dist_def PAGE_CACHE_MAX_PAGES_def)
  moreover have "quiet c'"
    unfolding quiet_def using assms(2) evict_sweep_keeps[OF assms(1) e]
    by (auto simp: quiet_def intro!: settled_fewer[OF evict_sweep_fewer[OF e]])
  ultimately show ?thesis using e by simp
qed

lemma get_held:
  assumes inv: "pc_inv rd drv_ok c" and q: "quiet c" and n: "length n \<le> 31" "x < 2 ^ 52"
    and env: "env_ok env" and g: "page_cache_get rd wr env (Some n) x c = (r, c')"
  shows "\<exists>i. r = Some i \<and> held i c' \<and> on_disk (pc_devs c') = on_disk (pc_devs c)"
proof (cases "lookup_locked n x c")
  case (Some i)
  then have i: "i < PAGE_CACHE_MAX_PAGES" "pg_valid (g_pages c ! i)" using lookup_iff[OF inv n] by auto
  let ?f = "\<lambda>e. e\<lparr>pg_referenced := True, pg_last_access := e_ticks env, pg_pin := pg_pin e + 1, pg_hits := pg_hits e + 1\<rparr>"
  have c': "r = Some i" "c' = upd_stats (\<lambda>s. s\<lparr>s_hits := s_hits s + 1\<rparr>) (upd_page i ?f c)"
    using g Some i(2) pc_invD(1)[OF inv] by (simp_all add: page_cache_get_def)
  have "held i c'" using i q pc_invD(3)[OF inv] by (auto simp: c'(2) held_def quiet_def settled_def nth_list_update)
  then show ?thesis using c' by simp
next
  case None
  let ?c0 = "upd_stats (\<lambda>s. s\<lparr>s_misses := s_misses s + 1\<rparr>) c"
  obtain v c1 where e: "evict_one wr ?c0 = (v, c1)" by (cases "evict_one wr ?c0") auto
  have inv0: "pc_inv rd drv_ok ?c0" using pc_frame(2)[of ?c0 c, OF _ _ _ _ _ inv] pc_invD(4)[OF inv] by simp
  have q0: "quiet ?c0" using q by (simp add: quiet_def)
  from evict_quiet[OF inv0 q0 e] obtain i where v: "v = Some i" and q1: "quiet c1" by auto
  note k = evict_sweep_keeps[OF inv0 e[unfolded evict_one_def]]
  have i: "i < PAGE_CACHE_MAX_PAGES" and dv: "on_disk (pc_devs c1) = on_disk (pc_devs c)" using k v by auto
  have len: "length (g_pages c1) = PAGE_CACHE_MAX_PAGES" using k pc_invD(3) by blast
  obtain c2 where c2: "page_cache_miss rd wr env n x c = (Some i, fill_page rd env n x i c2)"
      "\<And>j. j \<noteq> i \<Longrightarrow> g_pages c2 ! j = g_pages c1 ! j" "length (g_pages c2) = length (g_pages c1)" "pc_devs c2 = pc_devs c1"
  proof (cases "pg_data (g_pages c1 ! i)")
    case None
    then obtain blk where "e_alloc env = Some blk" using env by (auto simp: env_ok_def)
    then show ?thesis using None e v 
      by (intro that[of "upd_stats (\<lambda>s. s\<lparr>s_memory := wrap64 (s_memory s + PAGE_CACHE_BLOCK_SIZE)\<rparr>)
        (upd_page i (pg_data_update (\<lambda>_. Some blk)) c1)"]) (auto simp: page_cache_miss_def)
  qed (use e v that in \<open>auto simp: page_cache_miss_def\<close>)
  have "g_initialized c" by (rule pc_invD(1)[OF inv])
  then have c': "r = Some i" "c' = fill_page rd env n x i c2" using g None c2(1) by (auto simp: page_cache_get_def)
  obtain p' where "g_pages c' = (g_pages c2)[i := p']" "pg_pin p' = 1" "\<not> pg_dirty p'" "pc_devs c' = pc_devs c2"
    using fill_pages[of i c2 rd env n x] i len c2(3) c' by auto
  then show ?thesis using c' i len c2 q1 dv by (auto simp: held_def quiet_def settled_def)
qed

lemma length_view: "pc_inv rd drv_ok c \<Longrightarrow> length (pc_view rd c n x) = PAGE_CACHE_BLOCK_SIZE"
proof -
  assume inv: "pc_inv rd drv_ok c"
  have "length b = PAGE_CACHE_BLOCK_SIZE" if "cached (g_pages c) (n, x) = Some b" for b
    using that page_in[OF inv] pc_invD(3)[OF inv]
    unfolding cached_iff[OF indexed_uniq[OF pc_invD(7)[OF inv]]] by (force simp: page_ok_def)
  moreover have "\<forall>d \<in> set (pc_devs c). drv_ok d \<and> bd_read_sectors d" using pc_invD(5)[OF inv] by blast
  ultimately show ?thesis using length_backing by (auto simp: pc_view_def split: option.split)
qed

lemma read_loop:
  assumes "pc_inv rd drv_ok c" "quiet c" "fin \<le> len" "pc_read_loop rd wr env n offset len fin c = (out, c')"
    and n: "length n \<le> 31" "offset + len \<le> 2 ^ 64" and env: "\<And>k. env_ok (env k)"
  shows "out = map (byte_view rd c n) [offset + fin..<offset + len] \<and> pc_inv rd drv_ok c' \<and> quiet c' \<and>
    pc_view rd c' = pc_view rd c \<and> on_disk (pc_devs c') = on_disk (pc_devs c)"
  using assms(1-4)
proof (induction "len - fin" arbitrary: fin c out rule: less_induct)
  case less
  show ?case
  proof (cases "len \<le> fin")
    case True
    then show ?thesis using less.prems pc_read_loop.simps[of rd wr env n offset len fin c] by auto
  next
    case False
    define pos where "pos = offset + fin"
    define chunk where "chunk = chunk_len pos (len - fin)"
    have pos: "wrap64 (offset + fin) = pos" "pos < 2 ^ 64" using False n by (simp_all add: pos_def)
    then have x: "pos div PAGE_CACHE_BLOCK_SIZE < 2 ^ 52" by (simp add: PAGE_CACHE_BLOCK_SIZE_def)
    have ch: "0 < chunk" "chunk \<le> len - fin" "chunk \<le> PAGE_CACHE_BLOCK_SIZE - pos mod PAGE_CACHE_BLOCK_SIZE"
      using chunk_len_pos False by (simp_all add: chunk_def chunk_len_def PAGE_CACHE_BLOCK_SIZE_def)
    obtain r c1 where g: "page_cache_get rd wr (env fin) (Some n) (pos div PAGE_CACHE_BLOCK_SIZE) c = (r, c1)"
      by (cases "page_cache_get rd wr (env fin) (Some n) (pos div PAGE_CACHE_BLOCK_SIZE) c") auto
    obtain i where h: "r = Some i" "held i c1" "on_disk (pc_devs c1) = on_disk (pc_devs c)"
      using get_held[OF less.prems(1,2) n(1) x env g] by auto
    have k: "pc_inv rd drv_ok c1" "pc_view rd c1 = pc_view rd c" "i < PAGE_CACHE_MAX_PAGES"
        "pg_data (g_pages c1 ! i) = Some (pc_view rd c n (pos div PAGE_CACHE_BLOCK_SIZE))"
      using get_keeps[OF less.prems(1) n(1) x _ _ g] env[of fin] h(1) by (auto simp: env_ok_def)
    let ?c2 = "page_cache_release (Some i) c1"
    have c2: "pc_inv rd drv_ok ?c2" "pc_view rd ?c2 = pc_view rd c" "quiet ?c2" "on_disk (pc_devs ?c2) = on_disk (pc_devs c)"
      using release_keeps[OF k(1,3)] k(2) held_release[OF h(2) k(3) pc_invD(3)[OF k(1)]] h(3)
      by (simp_all add: page_cache_release_def)
    obtain o2 where l: "pc_read_loop rd wr env n offset len (fin + chunk) ?c2 = (o2, c')"
        and out: "out = take chunk (drop (pos mod PAGE_CACHE_BLOCK_SIZE) (pc_view rd c n (pos div PAGE_CACHE_BLOCK_SIZE))) @ o2"
      using less.prems(4) False g h(1) k(4) unfolding pc_read_loop.simps[of rd wr env n offset len fin c] pos(1) chunk_def
      by (auto simp: Let_def split: prod.splits)
    have IH: "o2 = map (byte_view rd ?c2 n) [offset + (fin + chunk)..<offset + len] \<and> pc_inv rd drv_ok c' \<and> quiet c' \<and>
        pc_view rd c' = pc_view rd ?c2 \<and> on_disk (pc_devs c') = on_disk (pc_devs ?c2)"
      by (rule less.hyps[OF _ c2(1,3) _ l]) (use ch False in auto)
    have "[offset + fin..<offset + len] = [pos..<pos + chunk] @ [offset + (fin + chunk)..<offset + len]"
      using upt_add_eq_append[of pos "pos + chunk" "len - fin - chunk"] ch by (simp add: pos_def add.assoc)
    then show ?thesis
      using IH out chunk_bytes[OF ch(3) length_view[OF less.prems(1)], of n] c2 by (simp add: byte_view_def fun_eq_iff)
  qed
qed

lemma write_loop:
  assumes "pc_inv rd drv_ok c" "quiet c" "fin \<le> length buf" "pc_write_loop rd wr env n offset buf fin c = (m, c')"
      "\<And>off. offset \<le> off \<Longrightarrow> off < offset + length buf \<Longrightarrow> on_disk (pc_devs c) n (off div PAGE_CACHE_BLOCK_SIZE)"
    and n: "length n \<le> 31" "offset + length buf \<le> 2 ^ 64" and env: "\<And>k. env_ok (env k)"
  shows "m = length buf \<and> pc_inv rd drv_ok c' \<and> quiet c' \<and> on_disk (pc_devs c') = on_disk (pc_devs c) \<and>
    (\<forall>d off. byte_view rd c' d off = (if d = n \<and> offset + fin \<le> off \<and> off < offset + length buf then buf ! (off - offset)
       else byte_view rd c d off))"
  using assms(1-5)
proof (induction "length buf - fin" arbitrary: fin c rule: less_induct)
  case less
  show ?case
  proof (cases "length buf \<le> fin")
    case True
    then show ?thesis using less.prems pc_write_loop.simps[of rd wr env n offset buf fin c] by auto
  next
    case False
    define pos where "pos = offset + fin"
    define chunk where "chunk = chunk_len pos (length buf - fin)"
    let ?x = "pos div PAGE_CACHE_BLOCK_SIZE"
    let ?f = "\<lambda>d. memcpy_at d (pos mod PAGE_CACHE_BLOCK_SIZE) (drop fin buf) chunk"
    have pos: "wrap64 (offset + fin) = pos" "pos < 2 ^ 64" using False n by (simp_all add: pos_def)
    then have x: "?x < 2 ^ 52" by (simp add: PAGE_CACHE_BLOCK_SIZE_def)
    have ch: "0 < chunk" "chunk \<le> length buf - fin" "chunk \<le> PAGE_CACHE_BLOCK_SIZE - pos mod PAGE_CACHE_BLOCK_SIZE"
      using chunk_len_pos False by (simp_all add: chunk_def chunk_len_def PAGE_CACHE_BLOCK_SIZE_def)
    obtain r c1 where g: "page_cache_get rd wr (env fin) (Some n) ?x c = (r, c1)"
      by (cases "page_cache_get rd wr (env fin) (Some n) ?x c") auto
    obtain i where h: "r = Some i" "held i c1" "on_disk (pc_devs c1) = on_disk (pc_devs c)"
      using get_held[OF less.prems(1,2) n(1) x env g] by auto
    have k: "pc_inv rd drv_ok c1" "pc_view rd c1 = pc_view rd c" "i < PAGE_CACHE_MAX_PAGES"
        "pg_valid (g_pages c1 ! i)" "page_id (g_pages c1 ! i) = (n, ?x)" "pg_data (g_pages c1 ! i) = Some (pc_view rd c n ?x)"
      using get_keeps[OF less.prems(1) n(1) x _ _ g] env[of fin] h(1) by (auto simp: env_ok_def)
    let ?d = "pc_view rd c n ?x"
    have ld: "length ?d = PAGE_CACHE_BLOCK_SIZE" by (rule length_view[OF less.prems(1)])
    have lf: "length (?f ?d) = PAGE_CACHE_BLOCK_SIZE" using ld ch by (subst length_memcpy_at) (auto simp: PAGE_CACHE_BLOCK_SIZE_def)
    let ?c2 = "page_cache_mark_dirty (Some i) (upd_page i (pg_data_update (map_option ?f)) c1)"
    let ?c3 = "page_cache_release (Some i) ?c2"
    note s = store_keeps[where f = ?f, OF k(1,3,4,6) lf]
    have "on_disk (pc_devs c) n ?x" by (rule less.prems(5)) (use False in \<open>simp_all add: pos_def\<close>)
    then have "held i ?c2"
      using h(2,3) k(3,5) pc_invD(3)[OF k(1)] by (auto simp: held_def settled_def s(3,4))
    then have c3: "pc_inv rd drv_ok ?c3" "pc_view rd ?c3 = pc_view rd ?c2" "quiet ?c3" "on_disk (pc_devs ?c3) = on_disk (pc_devs c)"
      using release_keeps[OF s(1) k(3)] held_release[OF _ k(3) pc_invD(3)[OF s(1)]] h(3) s(4)
      by (simp_all add: page_cache_release_def)
    have l: "pc_write_loop rd wr env n offset buf (fin + chunk) ?c3 = (m, c')"
      using less.prems(4) False g h(1) unfolding pc_write_loop.simps[of rd wr env n offset buf fin c] pos(1) chunk_def
      by (simp add: Let_def)
    have IH: "m = length buf \<and> pc_inv rd drv_ok c' \<and> quiet c' \<and> on_disk (pc_devs c') = on_disk (pc_devs ?c3) \<and>
        (\<forall>d off. byte_view rd c' d off = (if d = n \<and> offset + (fin + chunk) \<le> off \<and> off < offset + length buf
           then buf ! (off - offset) else byte_view rd ?c3 d off))"
      by (rule less.hyps[OF _ c3(1,3) _ l]) (use ch False c3(4) less.prems(5) in auto)
    have b: "byte_view rd ?c3 d off = (if d = n \<and> pos \<le> off \<and> off < pos + chunk then drop fin buf ! (off - pos)
        else byte_view rd c d off)" for d off
      by (rule byte_view_store[OF ch(3) _ refl ld]) (use ch(2) c3(2) s(2) k(2,5) in auto)
    have e: "offset + (fin + chunk) = pos + chunk" "offset + fin = pos" by (simp_all add: pos_def)
    have "drop fin buf ! (off - pos) = buf ! (off - offset)" "off < offset + length buf" if "pos \<le> off" "off < pos + chunk" for off
      using that ch(2) False by (simp_all add: pos_def)
    then show ?thesis using IH c3(4) unfolding e b by auto
  qed
qed

lemma sync_page_quiet:
  assumes inv: "pc_inv rd drv_ok c" and q: "quiet c" and i: "i < PAGE_CACHE_MAX_PAGES" and s: "sync_page wr dev (m, c) i = (m', c')"
  shows "quiet c'" "on_disk (pc_devs c') = on_disk (pc_devs c)" "fewer (g_pages c') (g_pages c)"
    "dev = None \<Longrightarrow> pg_valid (g_pages c' ! i) \<Longrightarrow> \<not> pg_dirty (g_pages c' ! i)"
proof -
  have il: "i < length (g_pages c)" using i pc_invD(3)[OF inv] by simp
  let ?skip = "c' = c \<and> (dev = None \<longrightarrow> \<not> (pg_valid (g_pages c ! i) \<and> pg_dirty (g_pages c ! i)))"
  have "on_disk (pc_devs c') = on_disk (pc_devs c) \<and> fewer (g_pages c') (g_pages c) \<and>
     (dev = None \<longrightarrow> pg_valid (g_pages c' ! i) \<longrightarrow> \<not> pg_dirty (g_pages c' ! i))"
  proof (cases ?skip)
    case True
    then show ?thesis by (auto simp: fewer_refl)
  next
    case False
    then have v: "pg_valid (g_pages c ! i)" "pg_dirty (g_pages c ! i)"
      using s by (auto simp: sync_page_def Let_def split: if_splits)
    then have "on_disk (pc_devs c) (pg_dev (g_pages c ! i)) (pg_index (g_pages c ! i))"
      using q i by (simp add: quiet_def settled_def)
    from flush_ok[OF inv i v(1) this] obtain c1 where w: "page_write_to_disk wr i c = (0, c1)" by auto
    then have c': "c' = dec_dirty (upd_page i (pg_dirty_update (\<lambda>_. False)) c1)"
      using s v False by (auto simp: sync_page_def Let_def split: if_splits)
    show ?thesis
      using write_clean(3,5)[OF inv i v(1) w] il unfolding c' by (simp add: fewer_update)
  qed
  then show "on_disk (pc_devs c') = on_disk (pc_devs c)" "fewer (g_pages c') (g_pages c)"
    "dev = None \<Longrightarrow> pg_valid (g_pages c' ! i) \<Longrightarrow> \<not> pg_dirty (g_pages c' ! i)" by auto
  then show "quiet c'" using q settled_fewer by (auto simp: quiet_def)
qed

lemma sync_quiet:
  assumes inv: "pc_inv rd drv_ok c" and q: "quiet c" and s: "page_cache_sync_dev wr dev c = (m, c')"
  shows "quiet c' \<and> on_disk (pc_devs c') = on_disk (pc_devs c) \<and>
    (dev = None \<longrightarrow> (\<forall>j < PAGE_CACHE_MAX_PAGES. pg_valid (g_pages c' ! j) \<longrightarrow> \<not> pg_dirty (g_pages c' ! j)))"
proof -
  have "case foldl (sync_page wr dev) (0, c) [0..<k] of (m, c') \<Rightarrow> pc_inv rd drv_ok c' \<and> quiet c' \<and> on_disk (pc_devs c') = on_disk (pc_devs c) \<and>
      (dev = None \<longrightarrow> (\<forall>j < k. pg_valid (g_pages c' ! j) \<longrightarrow> \<not> pg_dirty (g_pages c' ! j)))" if "k \<le> PAGE_CACHE_MAX_PAGES" for k
    using that
  proof (induction k)
    case 0
    then show ?case using inv q by simp
  next
    case (Suc k)
    obtain m1 c1 where f: "foldl (sync_page wr dev) (0, c) [0..<k] = (m1, c1)" by (cases "foldl (sync_page wr dev) (0, c) [0..<k]") auto
    obtain m2 c2 where s2: "sync_page wr dev (m1, c1) k = (m2, c2)" by (cases "sync_page wr dev (m1, c1) k") auto
    have k: "k < PAGE_CACHE_MAX_PAGES" using Suc.prems by simp
    have I: "pc_inv rd drv_ok c1" "quiet c1" "on_disk (pc_devs c1) = on_disk (pc_devs c)"
        "dev = None \<Longrightarrow> j < k \<Longrightarrow> pg_valid (g_pages c1 ! j) \<Longrightarrow> \<not> pg_dirty (g_pages c1 ! j)" for j
      using Suc f by auto
    have "\<not> pg_dirty (g_pages c2 ! j)" if "dev = None" "j < Suc k" "pg_valid (g_pages c2 ! j)" for j
      using that sync_page_quiet(3,4)[OF I(1,2) k s2] I(4)[of j] by (cases "j = k") (auto simp: fewer_def)
    then show ?case
      using f s2 I sync_page_quiet(1,2)[OF I(1,2) k s2] sync_page_keeps[OF I(1) k s2] by simp
  qed
  from this[of PAGE_CACHE_MAX_PAGES] show ?thesis
    using s pc_invD(1)[OF inv] by (simp add: page_cache_sync_dev_def)
qed

lemma invalidate_quiet:
  assumes inv: "pc_inv rd drv_ok c" and q: "quiet c" and s: "page_cache_invalidate dev c = (m, c')"
  shows "quiet c' \<and> on_disk (pc_devs c') = on_disk (pc_devs c)"
proof -
  have step: "quiet d' \<and> on_disk (pc_devs d') = on_disk (pc_devs d)"
    if "quiet d" "i \<in> set [0..<PAGE_CACHE_MAX_PAGES]" "invalidate_page dev (k, d) i = (k', d')" for k d i k' d'
  proof -
    have "d' = d \<or> d' = drop_page i d" using that(3) by (auto simp: invalidate_page_def Let_def split: if_splits)
    then have "fewer (g_pages d') (g_pages d) \<and> pc_devs d' = pc_devs d"
      by (auto simp: drop_page_def fewer_refl intro!: fewer_update)
    then show ?thesis using that(1) settled_fewer by (auto simp: quiet_def)
  qed
  show ?thesis
    by (rule foldl_keeps[where P = quiet and v = "\<lambda>c. on_disk (pc_devs c)", OF step q])
      (use s pc_invD(1)[OF inv] in \<open>auto simp: page_cache_invalidate_def\<close>)
qed

lemma clean_view:
  assumes inv: "pc_inv rd drv_ok c" and clean: "\<forall>j < PAGE_CACHE_MAX_PAGES. pg_valid (g_pages c ! j) \<longrightarrow> \<not> pg_dirty (g_pages c ! j)"
  shows "pc_view rd c n x = backing rd (pc_devs c) n x"
proof (cases "cached (g_pages c) (n, x)")
  case (Some b)
  then obtain i where i: "i < PAGE_CACHE_MAX_PAGES" "pg_valid (g_pages c ! i)" "page_id (g_pages c ! i) = (n, x)"
      "the (pg_data (g_pages c ! i)) = b"
    using pc_invD(3)[OF inv] unfolding cached_iff[OF indexed_uniq[OF pc_invD(7)[OF inv]]] by auto
  then have "b = backing rd (pc_devs c) n x" using clean page_in[OF inv i(1)] by (auto simp: page_ok_def)
  then show ?thesis by (simp add: pc_view_def Some)
qed (simp add: pc_view_def)

end

section \<open>Histories\<close>

text \<open>One request to the cache, with the environment its rounds run in.\<close>

datatype pc_op =
    PRead "nat \<Rightarrow> pc_env" string nat nat
  | PWrite "nat \<Rightarrow> pc_env" string nat "u8 list"
  | PSync "string option"
  | PInvalidate "string option"
  | PDrop

fun pc_exec :: "read_fn \<Rightarrow> write_fn \<Rightarrow> pc_op \<Rightarrow> pcache \<Rightarrow> (nat \<times> u8 list) \<times> pcache" where
  "pc_exec rd wr (PRead env n off len) c = (let (out, c) = page_cache_read rd wr env (Some n) off True len c in ((length out, out), c))"
| "pc_exec rd wr (PWrite env n off buf) c = (let (m, c) = page_cache_write rd wr env (Some n) off (Some buf) c in ((m, []), c))"
| "pc_exec rd wr (PSync dev) c = ((0, []), snd (page_cache_sync_dev wr dev c))"
| "pc_exec rd wr (PInvalidate dev) c = ((0, []), snd (page_cache_invalidate dev c))"
| "pc_exec rd wr PDrop c = ((0, []), page_cache_drop_all wr c)"

type_synonym disk = "string \<Rightarrow> nat \<Rightarrow> u8"

fun mem_exec :: "pc_op \<Rightarrow> disk \<Rightarrow> (nat \<times> u8 list) \<times> disk" where
  "mem_exec (PRead env n off len) mem = ((len, map (mem n) [off..<off + len]), mem)"
| "mem_exec (PWrite env n off buf) mem =
     ((length buf, []), \<lambda>d pos. if d = n \<and> off \<le> pos \<and> pos < off + length buf then buf ! (pos - off) else mem d pos)"
| "mem_exec op mem = ((0, []), mem)"

fun run_ops :: "(pc_op \<Rightarrow> 's \<Rightarrow> 'o \<times> 's) \<Rightarrow> pc_op list \<Rightarrow> 's \<Rightarrow> 'o list \<times> 's" where
  "run_ops exec [] s = ([], s)"
| "run_ops exec (op # ops) s = (let (out, s) = exec op s; (outs, s) = run_ops exec ops s in (out # outs, s))"

text \<open>The requests in scope: names that fit, offsets that do not wrap, writes that stay on the device.\<close>

fun pc_op_ok :: "(string \<Rightarrow> nat \<Rightarrow> bool) \<Rightarrow> pc_op \<Rightarrow> bool" where
  "pc_op_ok disk (PRead env n off len) \<longleftrightarrow> length n \<le> 31 \<and> off + len \<le> 2 ^ 64 \<and> (\<forall>k. env_ok (env k))"
| "pc_op_ok disk (PWrite env n off buf) \<longleftrightarrow> length n \<le> 31 \<and> off + length buf \<le> 2 ^ 64 \<and> (\<forall>k. env_ok (env k)) \<and>
     (\<forall>pos. off \<le> pos \<and> pos < off + length buf \<longrightarrow> disk n (pos div PAGE_CACHE_BLOCK_SIZE))"
| "pc_op_ok disk op \<longleftrightarrow> True"

definition disk_bytes :: "read_fn \<Rightarrow> block_device list \<Rightarrow> disk" where
  "disk_bytes rd devs n off = backing rd devs n (off div PAGE_CACHE_BLOCK_SIZE) ! (off mod PAGE_CACHE_BLOCK_SIZE)"

definition cache_ok :: "read_fn \<Rightarrow> (block_device \<Rightarrow> bool) \<Rightarrow> (string \<Rightarrow> nat \<Rightarrow> bool) \<Rightarrow> pcache \<Rightarrow> bool" where
  "cache_ok rd drv disk c \<longleftrightarrow> pc_inv rd drv c \<and> quiet c \<and> on_disk (pc_devs c) = disk"

lemma init_inv:
  assumes "page_cache_init ok c = Some c0" "g_initialized c0" "\<forall>d \<in> set (pc_devs c). drv d \<and> bd_read_sectors d"
  shows "cache_ok rd drv (on_disk (pc_devs c)) c0 \<and> byte_view rd c0 = disk_bytes rd (pc_devs c)"
proof -
  obtain ht where ht: "hashtable_create ok (PAGE_CACHE_MAX_PAGES * 2) True = Some (Some ht)"
      and c0: "c0 = c\<lparr>g_pages := replicate PAGE_CACHE_MAX_PAGES empty_page, g_stats := zero_stats, g_clock_hand := 0,
                            g_index := Some ht, g_initialized := True\<rparr>"
    using assms(1,2) by (auto simp: page_cache_init_def split: option.splits)
  have w: "ht_wf ht" "string_keys ht" "ht_map ht = Map.empty"
    using hashtable_create_wf[OF ht] by (auto simp: PAGE_CACHE_MAX_PAGES_def)
  then have "index_ok (Some ht)" "index_look (Some ht) = Map.empty"
    by (auto simp: index_ok_def index_look_def str_look_def fun_eq_iff)
  then have "cache_ok rd drv (on_disk (pc_devs c)) c0"
    using assms(3)
    by (auto simp: c0 cache_ok_def pc_inv_def page_ok_def indexed_def empty_page_def quiet_def settled_def PAGE_CACHE_MAX_PAGES_def)
  moreover have "cached (g_pages c0) = Map.empty" by (auto simp: c0 cached_def empty_page_def)
  then have "pc_view rd c0 = backing rd (pc_devs c0)" by (simp add: pc_view_def fun_eq_iff)
  then have "byte_view rd c0 = disk_bytes rd (pc_devs c)" by (simp add: byte_view_def disk_bytes_def fun_eq_iff c0)
  ultimately show ?thesis by simp
qed

context reliable_driver
begin

lemma pc_exec_refines:
  assumes c: "cache_ok rd drv_ok disk c" and op: "pc_op_ok disk op" and e: "pc_exec rd wr op c = (out, c')"
  shows "cache_ok rd drv_ok disk c' \<and> mem_exec op (byte_view rd c) = (out, byte_view rd c')"
proof -
  have inv: "pc_inv rd drv_ok c" and q: "quiet c" and disk: "on_disk (pc_devs c) = disk" using c by (auto simp: cache_ok_def)
  have same: "byte_view rd d = byte_view rd c" if "pc_view rd d = pc_view rd c" for d using that by (simp add: byte_view_def fun_eq_iff)
  show ?thesis
  proof (cases op)
    case (PRead env n off len)
    obtain o1 c1 where r: "pc_read_loop rd wr env n off len 0 c = (o1, c1)" by (cases "pc_read_loop rd wr env n off len 0 c") auto
    have k: "o1 = map (byte_view rd c n) [off + 0..<off + len] \<and> pc_inv rd drv_ok c1 \<and> quiet c1 \<and>
        pc_view rd c1 = pc_view rd c \<and> on_disk (pc_devs c1) = on_disk (pc_devs c)"
      by (rule read_loop[OF inv q _ r]) (use op PRead in auto)
    have "page_cache_read rd wr env (Some n) off True len c = (o1, c1)"
      using r pc_invD(1)[OF inv] pc_read_loop.simps[of rd wr env n off 0 0 c] by (auto simp: page_cache_read_def)
    then show ?thesis using k e PRead disk same[of c1] by (auto simp: cache_ok_def)
  next
    case (PWrite env n off buf)
    obtain m c1 where r: "pc_write_loop rd wr env n off buf 0 c = (m, c1)" by (cases "pc_write_loop rd wr env n off buf 0 c") auto
    have k: "m = length buf \<and> pc_inv rd drv_ok c1 \<and> quiet c1 \<and> on_disk (pc_devs c1) = on_disk (pc_devs c) \<and>
        (\<forall>d pos. byte_view rd c1 d pos = (if d = n \<and> off + 0 \<le> pos \<and> pos < off + length buf then buf ! (pos - off)
           else byte_view rd c d pos))"
      by (rule write_loop[OF inv q _ r]) (use op PWrite disk in auto)
    have "page_cache_write rd wr env (Some n) off (Some buf) c = (m, c1)"
      using r pc_invD(1)[OF inv] pc_write_loop.simps[of rd wr env n off "[]" 0 c] by (auto simp: page_cache_write_def)
    then show ?thesis using k e PWrite disk by (auto simp: cache_ok_def fun_eq_iff)
  next
    case (PSync dev)
    obtain m c1 where s: "page_cache_sync_dev wr dev c = (m, c1)" by (cases "page_cache_sync_dev wr dev c") auto
    then show ?thesis using sync_keeps[OF inv s] sync_quiet[OF inv q s] e PSync disk same[of c1] by (auto simp: cache_ok_def)
  next
    case (PInvalidate dev)
    obtain m c1 where s: "page_cache_invalidate dev c = (m, c1)" by (cases "page_cache_invalidate dev c") auto
    then show ?thesis using invalidate_keeps[OF inv s] invalidate_quiet[OF inv q s] e PInvalidate disk same[of c1] by (auto simp: cache_ok_def)
  next
    case PDrop
    obtain m c1 where s: "page_cache_sync_dev wr None c = (m, c1)" by (cases "page_cache_sync_dev wr None c") auto
    obtain m2 c2 where t: "page_cache_invalidate None c1 = (m2, c2)" by (cases "page_cache_invalidate None c1") auto
    have "c' = c2" "out = (0, [])" using e PDrop s t by (auto simp: page_cache_drop_all_def page_cache_sync_def)
    then show ?thesis
      using sync_keeps[OF inv s] sync_quiet[OF inv q s] invalidate_keeps[OF _ t] invalidate_quiet[OF _ _ t] disk same[of c2] PDrop
      by (auto simp: cache_ok_def)
  qed
qed

lemma run_refines:
  assumes "cache_ok rd drv_ok disk c" "list_all (pc_op_ok disk) ops" "run_ops (pc_exec rd wr) ops c = (outs, c')"
  shows "cache_ok rd drv_ok disk c' \<and> run_ops mem_exec ops (byte_view rd c) = (outs, byte_view rd c')"
  using assms
proof (induction ops arbitrary: c outs c')
  case (Cons op ops)
  obtain out c1 where e: "pc_exec rd wr op c = (out, c1)" by (cases "pc_exec rd wr op c") auto
  obtain o2 c2 where r: "run_ops (pc_exec rd wr) ops c1 = (o2, c2)" by (cases "run_ops (pc_exec rd wr) ops c1") auto
  have 1: "cache_ok rd drv_ok disk c1 \<and> mem_exec op (byte_view rd c) = (out, byte_view rd c1)"
    using Cons.prems by (intro pc_exec_refines[OF _ _ e]) auto
  have "cache_ok rd drv_ok disk c2 \<and> run_ops mem_exec ops (byte_view rd c1) = (o2, byte_view rd c2)"
    using Cons.prems 1 by (intro Cons.IH[OF _ _ r]) auto
  then show ?case using 1 e r Cons.prems(3) by auto
qed simp

lemma sync_durable:
  assumes c: "cache_ok rd drv_ok disk c" and s: "page_cache_sync_dev wr None c = (m, c')"
  shows "disk_bytes rd (pc_devs c') = byte_view rd c"
proof -
  have inv: "pc_inv rd drv_ok c" and q: "quiet c" using c by (auto simp: cache_ok_def)
  note k = sync_keeps[OF inv s] and cl = sync_quiet[OF inv q s]
  have "pc_view rd c' n x = backing rd (pc_devs c') n x" for n x using k cl by (intro clean_view) auto
  then show ?thesis using k by (simp add: disk_bytes_def byte_view_def fun_eq_iff)
qed

end

text \<open>C10: With the RAM disk as the one registered device, holding any bytes, a freshly initialised page cache answers
  every history of reads, writes, flushes, invalidations and drops in the scope of \<open>pc_op_ok\<close> (device names of at
  most 31 characters, transfers that do not wrap past 2^64, every allocation of the cache and its index succeeding,
  writes that stay on the writable part of the device) exactly as an array of bytes would whose first content is
  that of the disk: every read returns all the bytes asked for, namely the last ones written, across page
  boundaries and evictions.\<close>

theorem page_cache_refines_memory:
  assumes "page_cache_init ok c = Some c0" "g_initialized c0" "pc_devs c = [ramdisk_dev\<lparr>bd_store := st\<rparr>]" "length st = RAMDISK_SIZE"
    and "list_all (pc_op_ok (on_disk (pc_devs c))) ops"
  shows "fst (run_ops (pc_exec ramdisk_rd ramdisk_wr) ops c0) =
    fst (run_ops mem_exec ops (disk_bytes ramdisk_rd (pc_devs c)))"
proof -
  have "\<forall>d \<in> set (pc_devs c). ramdisk_ok d \<and> bd_read_sectors d"
    using assms(3,4) by (simp add: ramdisk_ok_def ramdisk_dev_def)
  note i = init_inv[OF assms(1,2) this, of ramdisk_rd]
  obtain outs c1 where r: "run_ops (pc_exec ramdisk_rd ramdisk_wr) ops c0 = (outs, c1)"
    by (cases "run_ops (pc_exec ramdisk_rd ramdisk_wr) ops c0") auto
  show ?thesis using rdr.run_refines[OF conjunct1[OF i] assms(5) r] i r by simp
qed

definition demo_env :: "nat \<Rightarrow> pc_env" where
  "demo_env k = \<lparr>e_site = (\<lambda>_. True), e_alloc = Some [], e_ticks = k\<rparr>"

definition demo_cache :: pcache where
  "demo_cache = \<lparr>g_pages = [], g_index = None, g_stats = zero_stats, g_clock_hand = 0, g_initialized = False,
     pc_devs = ramdisk_init True block_init\<rparr>"

lemma demo_devs: "pc_devs demo_cache = [ramdisk_dev]"
  by (simp add: demo_cache_def ramdisk_init_def block_init_def block_register_device_def MAX_BLOCK_DEVS_def)

lemma demo_start: "\<exists>c0. page_cache_init (\<lambda>_. True) demo_cache = Some c0 \<and> g_initialized c0"
  by (simp add: page_cache_init_def hashtable_create_def ht_round_up_pow2_def PAGE_CACHE_MAX_PAGES_def pow2_loop.simps)

lemma demo_ok: "pc_devs demo_cache = [ramdisk_dev\<lparr>bd_store := replicate RAMDISK_SIZE 0\<rparr>]" "length (replicate RAMDISK_SIZE (0::u8)) = RAMDISK_SIZE"
  by (simp_all add: demo_devs ramdisk_dev_def)

definition demo_pc_ops :: "pc_op list" where
  "demo_pc_ops = [PWrite demo_env ''ram0'' 4095 [1, 2, 3], PDrop, PRead demo_env ''ram0'' 4096 2]"

lemma demo_pc_ops_ok: "list_all (pc_op_ok (on_disk (pc_devs demo_cache))) demo_pc_ops"
proof -
  have "on_disk [ramdisk_dev] ''ram0'' x" if "x < 2" for x
    using that by (simp add: on_disk_def block_get_device_def ramdisk_dev_def RAMDISK_SIZE_def RAMDISK_SECTOR_SIZE_def)
  then show ?thesis
    by (auto simp: demo_pc_ops_def demo_devs demo_env_def env_ok_def PAGE_CACHE_BLOCK_SIZE_def)
qed

theorem page_cache_refines_memory_witness:
  "\<exists>c0. page_cache_init (\<lambda>_. True) demo_cache = Some c0 \<and>
    fst (run_ops (pc_exec ramdisk_rd ramdisk_wr) demo_pc_ops c0) = [(3, []), (0, []), (2, [2, 3])]"
proof -
  obtain c0 where c0: "page_cache_init (\<lambda>_. True) demo_cache = Some c0" "g_initialized c0" using demo_start by auto
  show ?thesis
    using page_cache_refines_memory[OF c0 demo_ok demo_pc_ops_ok] c0(1)
    by (simp add: demo_pc_ops_def upt_rec)
qed

text \<open>C11: With the RAM disk as the one registered device, after any history in the scope of \<open>pc_op_ok\<close> (device names of
  at most 31 characters, transfers that do not wrap past 2^64, every allocation succeeding, writes that stay on the
  writable part of the device) a flush of every device writes all of it back: what \<open>ramdisk_storage\<close> then holds,
  read directly, is what an array of bytes holds after the same history.\<close>

theorem page_cache_sync_durable:
  assumes "page_cache_init ok c = Some c0" "g_initialized c0" "pc_devs c = [ramdisk_dev\<lparr>bd_store := st\<rparr>]" "length st = RAMDISK_SIZE"
    and "list_all (pc_op_ok (on_disk (pc_devs c))) ops"
    and "snd (run_ops (pc_exec ramdisk_rd ramdisk_wr) ops c0) = c1"
  shows "disk_bytes ramdisk_rd (pc_devs (snd (page_cache_sync ramdisk_wr c1))) =
    snd (run_ops mem_exec ops (disk_bytes ramdisk_rd (pc_devs c)))"
proof -
  have "\<forall>d \<in> set (pc_devs c). ramdisk_ok d \<and> bd_read_sectors d"
    using assms(3,4) by (simp add: ramdisk_ok_def ramdisk_dev_def)
  note i = init_inv[OF assms(1,2) this, of ramdisk_rd]
  obtain outs where r: "run_ops (pc_exec ramdisk_rd ramdisk_wr) ops c0 = (outs, c1)"
    using assms(6) by (cases "run_ops (pc_exec ramdisk_rd ramdisk_wr) ops c0") auto
  obtain m c2 where s: "page_cache_sync_dev ramdisk_wr None c1 = (m, c2)"
    by (cases "page_cache_sync_dev ramdisk_wr None c1") auto
  have k: "cache_ok ramdisk_rd ramdisk_ok (on_disk (pc_devs c)) c1 \<and>
      run_ops mem_exec ops (byte_view ramdisk_rd c0) = (outs, byte_view ramdisk_rd c1)"
    using rdr.run_refines[OF conjunct1[OF i] assms(5) r] .
  show ?thesis using rdr.sync_durable[OF conjunct1[OF k] s] k i s by (simp add: page_cache_sync_def)
qed

theorem page_cache_sync_durable_witness:
  "\<exists>c0. page_cache_init (\<lambda>_. True) demo_cache = Some c0 \<and>
    disk_bytes ramdisk_rd (pc_devs (snd (page_cache_sync ramdisk_wr
      (snd (run_ops (pc_exec ramdisk_rd ramdisk_wr) demo_pc_ops c0))))) ''ram0'' 4096 = 2"
proof -
  obtain c0 where c0: "page_cache_init (\<lambda>_. True) demo_cache = Some c0" "g_initialized c0" using demo_start by auto
  show ?thesis
    using page_cache_sync_durable[OF c0 demo_ok demo_pc_ops_ok refl] c0(1) by (simp add: demo_pc_ops_def)
qed

end
