(* ===== verification/RbTree.thy ===== *)
theory RbTree
  imports Prelude "HOL-Library.Monad_Syntax"
begin

text \<open>
  \<open>lib/rbtree.c\<close> and the inline functions of \<open>include/lib/rbtree.h\<close>. Nodes live in a memory indexed by address,
  0 being the null pointer; reading or writing a field through it has no result, and neither has a loop that does not
  end.
\<close>

section \<open>Nodes and fields\<close>

datatype rb_col = RB_RED | RB_BLACK

record rb_node =
  rb_parent :: nat
  rb_left :: nat
  rb_right :: nat
  rb_color :: rb_col

record rb_tree =
  rb_mem :: "nat \<Rightarrow> rb_node"
  rb_root :: nat

definition node_at :: "rb_tree \<Rightarrow> nat \<Rightarrow> rb_node option" where
  "node_at s p = (if p = 0 then None else Some (rb_mem s p))"

definition set_node :: "nat \<Rightarrow> (rb_node \<Rightarrow> rb_node) \<Rightarrow> rb_tree \<Rightarrow> rb_tree option" where
  "set_node p f s = (if p = 0 then None else Some (s\<lparr>rb_mem := (rb_mem s)(p := f (rb_mem s p))\<rparr>))"

definition set_parent :: "nat \<Rightarrow> nat \<Rightarrow> rb_tree \<Rightarrow> rb_tree option" where
  "set_parent p v = set_node p (rb_parent_update (\<lambda>_. v))"

definition set_left :: "nat \<Rightarrow> nat \<Rightarrow> rb_tree \<Rightarrow> rb_tree option" where
  "set_left p v = set_node p (rb_left_update (\<lambda>_. v))"

definition set_right :: "nat \<Rightarrow> nat \<Rightarrow> rb_tree \<Rightarrow> rb_tree option" where
  "set_right p v = set_node p (rb_right_update (\<lambda>_. v))"

definition set_color :: "nat \<Rightarrow> rb_col \<Rightarrow> rb_tree \<Rightarrow> rb_tree option" where
  "set_color p v = set_node p (rb_color_update (\<lambda>_. v))"

text \<open>\<open>if (p) p->rb_parent = v;\<close> and \<open>if (p) p->rb_color = RB_BLACK;\<close>\<close>

definition set_parent_opt :: "nat \<Rightarrow> nat \<Rightarrow> rb_tree \<Rightarrow> rb_tree option" where
  "set_parent_opt p v s = (if p \<noteq> 0 then set_parent p v s else Some s)"

definition blacken_opt :: "nat \<Rightarrow> rb_tree \<Rightarrow> rb_tree option" where
  "blacken_opt p s = (if p \<noteq> 0 then set_color p RB_BLACK s else Some s)"

section \<open>Linking and rotating\<close>

definition rb_root_init :: "rb_tree \<Rightarrow> rb_tree" where
  "rb_root_init s = s\<lparr>rb_root := 0\<rparr>"

definition rb_empty :: "rb_tree \<Rightarrow> bool" where
  "rb_empty s \<longleftrightarrow> rb_root s = 0"

text \<open>The pointer that \<open>rb_link\<close> points to.\<close>

datatype rb_slot = Root_slot | Left_slot nat | Right_slot nat

fun store_slot :: "rb_slot \<Rightarrow> nat \<Rightarrow> rb_tree \<Rightarrow> rb_tree option" where
  "store_slot Root_slot v s = Some (s\<lparr>rb_root := v\<rparr>)"
| "store_slot (Left_slot p) v s = set_left p v s"
| "store_slot (Right_slot p) v s = set_right p v s"

definition rb_link_node :: "nat \<Rightarrow> nat \<Rightarrow> rb_slot \<Rightarrow> rb_tree \<Rightarrow> rb_tree option" where
  "rb_link_node node parent rb_link s =
     do { s \<leftarrow> set_parent node parent s;
          s \<leftarrow> set_color node RB_RED s;
          s \<leftarrow> set_left node 0 s;
          s \<leftarrow> set_right node 0 s;
          store_slot rb_link node s }"

definition rb_rotate_left :: "nat \<Rightarrow> rb_tree \<Rightarrow> rb_tree option" where
  "rb_rotate_left node s =
     do { n \<leftarrow> node_at s node;
          let right = rb_right n;
          let parent = rb_parent n;
          r \<leftarrow> node_at s right;
          s \<leftarrow> set_right node (rb_left r) s;
          r \<leftarrow> node_at s right;
          s \<leftarrow> set_parent_opt (rb_left r) node s;
          s \<leftarrow> set_left right node s;
          s \<leftarrow> set_parent right parent s;
          s \<leftarrow> (if parent \<noteq> 0 then
                 do { p \<leftarrow> node_at s parent;
                      if node = rb_left p then set_left parent right s else set_right parent right s }
               else Some (s\<lparr>rb_root := right\<rparr>));
          set_parent node right s }"

definition rb_rotate_right :: "nat \<Rightarrow> rb_tree \<Rightarrow> rb_tree option" where
  "rb_rotate_right node s =
     do { n \<leftarrow> node_at s node;
          let left = rb_left n;
          let parent = rb_parent n;
          l \<leftarrow> node_at s left;
          s \<leftarrow> set_left node (rb_right l) s;
          l \<leftarrow> node_at s left;
          s \<leftarrow> set_parent_opt (rb_right l) node s;
          s \<leftarrow> set_right left node s;
          s \<leftarrow> set_parent left parent s;
          s \<leftarrow> (if parent \<noteq> 0 then
                 do { p \<leftarrow> node_at s parent;
                      if node = rb_right p then set_right parent left s else set_left parent left s }
               else Some (s\<lparr>rb_root := left\<rparr>));
          set_parent node left s }"

section \<open>Insertion\<close>

text \<open>\<open>p && p->rb_color == RB_RED\<close>\<close>

definition is_red :: "rb_tree \<Rightarrow> nat \<Rightarrow> bool" where
  "is_red s p \<longleftrightarrow> p \<noteq> 0 \<and> rb_color (rb_mem s p) = RB_RED"

definition recolor_uncle :: "nat \<Rightarrow> nat \<Rightarrow> nat \<Rightarrow> rb_tree \<Rightarrow> (nat \<times> rb_tree) option" where
  "recolor_uncle uncle parent gparent s =
     do { s \<leftarrow> set_color uncle RB_BLACK s;
          s \<leftarrow> set_color parent RB_BLACK s;
          s \<leftarrow> set_color gparent RB_RED s;
          Some (gparent, s) }"

text \<open>One round of the loop, the parent being a left child; the result is the next node.\<close>

definition insert_step_left :: "nat \<Rightarrow> nat \<Rightarrow> nat \<Rightarrow> rb_tree \<Rightarrow> (nat \<times> rb_tree) option" where
  "insert_step_left node parent gparent s =
     do { g \<leftarrow> node_at s gparent;
          let uncle = rb_right g;
          if is_red s uncle then recolor_uncle uncle parent gparent s
          else do {
            p \<leftarrow> node_at s parent;
            (node, parent, s) \<leftarrow>
              (if rb_right p = node then do { s \<leftarrow> rb_rotate_left parent s; Some (parent, node, s) }
               else Some (node, parent, s));
            s \<leftarrow> set_color parent RB_BLACK s;
            s \<leftarrow> set_color gparent RB_RED s;
            s \<leftarrow> rb_rotate_right gparent s;
            Some (node, s) } }"

definition insert_step_right :: "nat \<Rightarrow> nat \<Rightarrow> nat \<Rightarrow> rb_tree \<Rightarrow> (nat \<times> rb_tree) option" where
  "insert_step_right node parent gparent s =
     do { g \<leftarrow> node_at s gparent;
          let uncle = rb_left g;
          if is_red s uncle then recolor_uncle uncle parent gparent s
          else do {
            p \<leftarrow> node_at s parent;
            (node, parent, s) \<leftarrow>
              (if rb_left p = node then do { s \<leftarrow> rb_rotate_right parent s; Some (parent, node, s) }
               else Some (node, parent, s));
            s \<leftarrow> set_color parent RB_BLACK s;
            s \<leftarrow> set_color gparent RB_RED s;
            s \<leftarrow> rb_rotate_left gparent s;
            Some (node, s) } }"

partial_function (option) insert_loop :: "nat \<Rightarrow> rb_tree \<Rightarrow> rb_tree option" where
  "insert_loop node s =
     do { n \<leftarrow> node_at s node;
          if \<not> is_red s (rb_parent n) then Some s
          else do {
            p \<leftarrow> node_at s (rb_parent n);
            if rb_parent p = 0 then Some s
            else do {
              g \<leftarrow> node_at s (rb_parent p);
              ns \<leftarrow> (if rb_parent n = rb_left g then insert_step_left node (rb_parent n) (rb_parent p) s
                     else insert_step_right node (rb_parent n) (rb_parent p) s);
              insert_loop (fst ns) (snd ns) } } }"

definition rb_insert_color :: "nat \<Rightarrow> rb_tree \<Rightarrow> rb_tree option" where
  "rb_insert_color node s = do { s \<leftarrow> insert_loop node s; set_color (rb_root s) RB_BLACK s }"

section \<open>Deletion\<close>

definition is_black :: "rb_tree \<Rightarrow> nat \<Rightarrow> bool" where
  "is_black s p \<longleftrightarrow> p = 0 \<or> rb_color (rb_mem s p) = RB_BLACK"

text \<open>
  One round of the loop, the node being the left child of \<open>parent\<close>: the flag says whether the loop goes on, with the
  next node and parent. \<open>erase_rest_left\<close> is the part after the case of a red sibling.
\<close>

definition erase_rest_left :: "nat \<Rightarrow> nat \<Rightarrow> nat \<Rightarrow> rb_tree \<Rightarrow> (bool \<times> nat \<times> nat \<times> rb_tree) option" where
  "erase_rest_left node parent other s =
     (if other = 0 then Some (False, node, parent, s)
      else do {
        o2 \<leftarrow> node_at s other;
        if is_black s (rb_left o2) \<and> is_black s (rb_right o2) then
          do { s \<leftarrow> set_color other RB_RED s;
               p \<leftarrow> node_at s parent;
               Some (True, parent, rb_parent p, s) }
        else do {
          (other, s) \<leftarrow>
            (if is_black s (rb_right o2) then
               do { s \<leftarrow> blacken_opt (rb_left o2) s;
                    s \<leftarrow> set_color other RB_RED s;
                    s \<leftarrow> rb_rotate_right other s;
                    p \<leftarrow> node_at s parent;
                    Some (rb_right p, s) }
             else Some (other, s));
          if other = 0 then Some (False, node, parent, s)
          else do {
            p \<leftarrow> node_at s parent;
            s \<leftarrow> set_color other (rb_color p) s;
            s \<leftarrow> set_color parent RB_BLACK s;
            o3 \<leftarrow> node_at s other;
            s \<leftarrow> blacken_opt (rb_right o3) s;
            s \<leftarrow> rb_rotate_left parent s;
            Some (False, rb_root s, parent, s) } } })"

definition erase_step_left :: "nat \<Rightarrow> nat \<Rightarrow> rb_tree \<Rightarrow> (bool \<times> nat \<times> nat \<times> rb_tree) option" where
  "erase_step_left node parent s =
     do { p \<leftarrow> node_at s parent;
          let other = rb_right p;
          if other = 0 then Some (False, node, parent, s)
          else do {
            o1 \<leftarrow> node_at s other;
            if rb_color o1 = RB_RED then
              do { s \<leftarrow> set_color other RB_BLACK s;
                   s \<leftarrow> set_color parent RB_RED s;
                   s \<leftarrow> rb_rotate_left parent s;
                   p \<leftarrow> node_at s parent;
                   erase_rest_left node parent (rb_right p) s }
            else erase_rest_left node parent other s } }"

definition erase_rest_right :: "nat \<Rightarrow> nat \<Rightarrow> nat \<Rightarrow> rb_tree \<Rightarrow> (bool \<times> nat \<times> nat \<times> rb_tree) option" where
  "erase_rest_right node parent other s =
     (if other = 0 then Some (False, node, parent, s)
      else do {
        o2 \<leftarrow> node_at s other;
        if is_black s (rb_left o2) \<and> is_black s (rb_right o2) then
          do { s \<leftarrow> set_color other RB_RED s;
               p \<leftarrow> node_at s parent;
               Some (True, parent, rb_parent p, s) }
        else do {
          (other, s) \<leftarrow>
            (if is_black s (rb_left o2) then
               do { s \<leftarrow> blacken_opt (rb_right o2) s;
                    s \<leftarrow> set_color other RB_RED s;
                    s \<leftarrow> rb_rotate_left other s;
                    p \<leftarrow> node_at s parent;
                    Some (rb_left p, s) }
             else Some (other, s));
          if other = 0 then Some (False, node, parent, s)
          else do {
            p \<leftarrow> node_at s parent;
            s \<leftarrow> set_color other (rb_color p) s;
            s \<leftarrow> set_color parent RB_BLACK s;
            o3 \<leftarrow> node_at s other;
            s \<leftarrow> blacken_opt (rb_left o3) s;
            s \<leftarrow> rb_rotate_right parent s;
            Some (False, rb_root s, parent, s) } } })"

definition erase_step_right :: "nat \<Rightarrow> nat \<Rightarrow> rb_tree \<Rightarrow> (bool \<times> nat \<times> nat \<times> rb_tree) option" where
  "erase_step_right node parent s =
     do { p \<leftarrow> node_at s parent;
          let other = rb_left p;
          if other = 0 then Some (False, node, parent, s)
          else do {
            o1 \<leftarrow> node_at s other;
            if rb_color o1 = RB_RED then
              do { s \<leftarrow> set_color other RB_BLACK s;
                   s \<leftarrow> set_color parent RB_RED s;
                   s \<leftarrow> rb_rotate_right parent s;
                   p \<leftarrow> node_at s parent;
                   erase_rest_right node parent (rb_left p) s }
            else erase_rest_right node parent other s } }"

partial_function (option) erase_loop :: "nat \<Rightarrow> nat \<Rightarrow> rb_tree \<Rightarrow> (nat \<times> rb_tree) option" where
  "erase_loop node parent s =
     (if is_black s node \<and> node \<noteq> rb_root s then
        do { p \<leftarrow> node_at s parent;
             r \<leftarrow> (if rb_left p = node then erase_step_left node parent s else erase_step_right node parent s);
             if fst r then erase_loop (fst (snd r)) (fst (snd (snd r))) (snd (snd (snd r)))
             else Some (fst (snd r), snd (snd (snd r))) }
      else Some (node, s))"

definition rb_erase_color :: "nat \<Rightarrow> nat \<Rightarrow> rb_tree \<Rightarrow> rb_tree option" where
  "rb_erase_color node parent s = do { (node, s) \<leftarrow> erase_loop node parent s; blacken_opt node s }"

partial_function (option) leftmost :: "rb_tree \<Rightarrow> nat \<Rightarrow> nat option" where
  "leftmost s p = do { n \<leftarrow> node_at s p; if rb_left n = 0 then Some p else leftmost s (rb_left n) }"

partial_function (option) rightmost :: "rb_tree \<Rightarrow> nat \<Rightarrow> nat option" where
  "rightmost s p = do { n \<leftarrow> node_at s p; if rb_right n = 0 then Some p else rightmost s (rb_right n) }"

text \<open>The child slot of \<open>parent\<close> that held \<open>old\<close>, or the root, now holds \<open>new_child\<close>.\<close>

definition replace_child :: "nat \<Rightarrow> nat \<Rightarrow> nat \<Rightarrow> rb_tree \<Rightarrow> rb_tree option" where
  "replace_child parent old new_child s =
     (if parent \<noteq> 0 then
        do { p \<leftarrow> node_at s parent;
             if rb_left p = old then set_left parent new_child s else set_right parent new_child s }
      else Some (s\<lparr>rb_root := new_child\<rparr>))"

text \<open>The stores between the successor's old place and its new one.\<close>

definition splice_up :: "nat \<Rightarrow> nat \<Rightarrow> nat \<Rightarrow> nat \<Rightarrow> rb_tree \<Rightarrow> (nat \<times> rb_tree) option" where
  "splice_up old node child parent s =
     (if parent = old then Some (node, s)
      else do {
        s \<leftarrow> set_parent_opt child parent s;
        s \<leftarrow> set_left parent child s;
        o2 \<leftarrow> node_at s old;
        s \<leftarrow> set_right node (rb_right o2) s;
        s \<leftarrow> set_parent (rb_right o2) node s;
        Some (parent, s) })"

definition erase_two :: "nat \<Rightarrow> rb_tree \<Rightarrow> rb_tree option" where
  "erase_two old s =
     do { o1 \<leftarrow> node_at s old;
          node \<leftarrow> leftmost s (rb_right o1);
          s \<leftarrow> replace_child (rb_parent o1) old node s;
          n \<leftarrow> node_at s node;
          let child = rb_right n;
          let parent = rb_parent n;
          let color = rb_color n;
          (parent, s) \<leftarrow> splice_up old node child parent s;
          o3 \<leftarrow> node_at s old;
          s \<leftarrow> set_parent node (rb_parent o3) s;
          s \<leftarrow> set_color node (rb_color o3) s;
          s \<leftarrow> set_left node (rb_left o3) s;
          s \<leftarrow> set_parent (rb_left o3) node s;
          if color = RB_BLACK then rb_erase_color child parent s else Some s }"

definition rb_erase :: "nat \<Rightarrow> rb_tree \<Rightarrow> rb_tree option" where
  "rb_erase node s =
     do { n \<leftarrow> node_at s node;
          if rb_left n \<noteq> 0 \<and> rb_right n \<noteq> 0 then erase_two node s
          else do {
            let child = (if rb_left n = 0 then rb_right n else rb_left n);
            let parent = rb_parent n;
            let color = rb_color n;
            s \<leftarrow> set_parent_opt child parent s;
            s \<leftarrow> replace_child parent node child s;
            if color = RB_BLACK then rb_erase_color child parent s else Some s } }"

section \<open>Traversal\<close>

definition rb_first :: "rb_tree \<Rightarrow> nat option" where
  "rb_first s = (if rb_root s = 0 then Some 0 else leftmost s (rb_root s))"

definition rb_last :: "rb_tree \<Rightarrow> nat option" where
  "rb_last s = (if rb_root s = 0 then Some 0 else rightmost s (rb_root s))"

partial_function (option) climb_right :: "rb_tree \<Rightarrow> nat \<Rightarrow> nat option" where
  "climb_right s node =
     do { n \<leftarrow> node_at s node;
          if rb_parent n = 0 then Some 0
          else do { p \<leftarrow> node_at s (rb_parent n);
                    if node = rb_right p then climb_right s (rb_parent n) else Some (rb_parent n) } }"

partial_function (option) climb_left :: "rb_tree \<Rightarrow> nat \<Rightarrow> nat option" where
  "climb_left s node =
     do { n \<leftarrow> node_at s node;
          if rb_parent n = 0 then Some 0
          else do { p \<leftarrow> node_at s (rb_parent n);
                    if node = rb_left p then climb_left s (rb_parent n) else Some (rb_parent n) } }"

definition rb_next :: "rb_tree \<Rightarrow> nat \<Rightarrow> nat option" where
  "rb_next s node =
     (if node = 0 then Some 0
      else do { n \<leftarrow> node_at s node;
                if rb_right n \<noteq> 0 then leftmost s (rb_right n) else climb_right s node })"

definition rb_prev :: "rb_tree \<Rightarrow> nat \<Rightarrow> nat option" where
  "rb_prev s node =
     (if node = 0 then Some 0
      else do { n \<leftarrow> node_at s node;
                if rb_left n \<noteq> 0 then rightmost s (rb_left n) else climb_left s node })"

text \<open>\<open>rb_for_each\<close>: the nodes from \<open>p\<close> on.\<close>

partial_function (option) rb_for_each :: "rb_tree \<Rightarrow> nat \<Rightarrow> nat list option" where
  "rb_for_each s p =
     (if p = 0 then Some []
      else do { q \<leftarrow> rb_next s p; ps \<leftarrow> rb_for_each s q; Some (p # ps) })"

definition rb_count :: "rb_tree \<Rightarrow> nat option" where
  "rb_count s = do { p \<leftarrow> rb_first s; ps \<leftarrow> rb_for_each s p; Some (wrap64 (length ps)) }"

partial_function (option) rb_black_height_of :: "rb_tree \<Rightarrow> nat \<Rightarrow> int option" where
  "rb_black_height_of s node =
     (if node = 0 then Some 1
      else do {
        n \<leftarrow> node_at s node;
        left \<leftarrow> rb_black_height_of s (rb_left n);
        right \<leftarrow> rb_black_height_of s (rb_right n);
        if left < 0 \<or> right < 0 \<or> left \<noteq> right then Some (- 1)
        else if rb_color n = RB_RED then
          Some (if is_red s (rb_left n) \<or> is_red s (rb_right n) then - 1 else left)
        else Some (left + 1) })"

definition rb_black_height :: "rb_tree \<Rightarrow> int option" where
  "rb_black_height s = rb_black_height_of s (rb_root s)"

definition rb_validate :: "rb_tree \<Rightarrow> bool option" where
  "rb_validate s =
     (if rb_root s = 0 then Some True
      else do {
        r \<leftarrow> node_at s (rb_root s);
        if rb_color r \<noteq> RB_BLACK then Some False
        else if rb_parent r \<noteq> 0 then Some False
        else do { h \<leftarrow> rb_black_height_of s (rb_root s); Some (0 < h) } })"

end
