(* ===== verification/RbTreeInv.thy ===== *)
theory RbTreeInv
  imports RbTree
begin

text \<open>
  The nodes of \<open>lib/rbtree.c\<close> as a tree: \<open>reps\<close> says that the memory holds the tree \<open>t\<close> below the path \<open>k\<close>, with
  every parent pointer right and no node shared. Rotations and recolourings act on the tree below the path; the
  loops move along it. \<open>balanced\<close> is the red-black invariant.
\<close>

section \<open>Trees and paths\<close>

datatype rt = Lf | Br rt nat rb_col rt

datatype frame = FL nat rb_col rt | FR rt nat rb_col

fun rp :: "rt \<Rightarrow> nat" where
  "rp Lf = 0"
| "rp (Br l a c r) = a"

fun inorder :: "rt \<Rightarrow> nat list" where
  "inorder Lf = []"
| "inorder (Br l a c r) = inorder l @ a # inorder r"

fun plug :: "rt \<Rightarrow> frame list \<Rightarrow> rt" where
  "plug t [] = t"
| "plug t (FL a c r # k) = plug (Br t a c r) k"
| "plug t (FR l a c # k) = plug (Br l a c t) k"

fun kpar :: "frame list \<Rightarrow> nat" where
  "kpar [] = 0"
| "kpar (FL a c r # k) = a"
| "kpar (FR l a c # k) = a"

fun kaddrs :: "frame list \<Rightarrow> nat list" where
  "kaddrs [] = []"
| "kaddrs (FL a c r # k) = a # inorder r @ kaddrs k"
| "kaddrs (FR l a c # k) = inorder l @ a # kaddrs k"

fun rep :: "(nat \<Rightarrow> rb_node) \<Rightarrow> nat \<Rightarrow> rt \<Rightarrow> bool" where
  "rep m par Lf \<longleftrightarrow> True"
| "rep m par (Br l a c r) \<longleftrightarrow>
     a \<noteq> 0 \<and> m a = \<lparr>rb_parent = par, rb_left = rp l, rb_right = rp r, rb_color = c\<rparr> \<and> rep m a l \<and> rep m a r"

fun repk :: "(nat \<Rightarrow> rb_node) \<Rightarrow> nat \<Rightarrow> frame list \<Rightarrow> bool" where
  "repk m p [] \<longleftrightarrow> True"
| "repk m p (FL a c r # k) \<longleftrightarrow>
     a \<noteq> 0 \<and> m a = \<lparr>rb_parent = kpar k, rb_left = p, rb_right = rp r, rb_color = c\<rparr> \<and> rep m a r \<and> repk m a k"
| "repk m p (FR l a c # k) \<longleftrightarrow>
     a \<noteq> 0 \<and> m a = \<lparr>rb_parent = kpar k, rb_left = rp l, rb_right = p, rb_color = c\<rparr> \<and> rep m a l \<and> repk m a k"

definition reps :: "rb_tree \<Rightarrow> rt \<Rightarrow> frame list \<Rightarrow> bool" where
  "reps s t k \<longleftrightarrow> rep (rb_mem s) (kpar k) t \<and> repk (rb_mem s) (rp t) k \<and> distinct (inorder t @ kaddrs k) \<and>
     rb_root s = rp (plug t k)"

lemma rep_upd [simp]: "a \<notin> set (inorder t) \<Longrightarrow> rep (m(a := v)) par t = rep m par t"
  by (induction t arbitrary: par) auto

lemma repk_upd [simp]: "a \<notin> set (kaddrs k) \<Longrightarrow> repk (m(a := v)) p k = repk m p k"
  by (induction m p k rule: repk.induct) auto

lemma rep_nonzero: "rep m par t \<Longrightarrow> 0 \<notin> set (inorder t)"
  by (induction t arbitrary: par) auto

lemma repk_nonzero: "repk m p k \<Longrightarrow> 0 \<notin> set (kaddrs k)"
  by (induction m p k rule: repk.induct) (auto dest: rep_nonzero)

lemma rp_zero: "rep m par t \<Longrightarrow> rp t = 0 \<longleftrightarrow> t = Lf"
  by (cases t) auto

lemma rp_in: "t \<noteq> Lf \<Longrightarrow> rp t \<in> set (inorder t)"
  by (cases t) auto

lemma kpar_zero: "repk m p k \<Longrightarrow> kpar k = 0 \<longleftrightarrow> k = []"
  by (cases "(m, p, k)" rule: repk.cases) auto

lemma reps_FL: "reps s t (FL a c r # k) \<longleftrightarrow> reps s (Br t a c r) k"
  by (auto simp: reps_def)

lemma reps_FR: "reps s t (FR l a c # k) \<longleftrightarrow> reps s (Br l a c t) k"
  by (auto simp: reps_def)


text \<open>Reading a node below or on the path.\<close>

lemma node_at_focus:
  "reps s (Br l a c r) k \<Longrightarrow> node_at s a = Some \<lparr>rb_parent = kpar k, rb_left = rp l, rb_right = rp r, rb_color = c\<rparr>"
  by (simp add: reps_def node_at_def)

lemma mem_focus:
  "reps s (Br l a c r) k \<Longrightarrow> a \<noteq> 0 \<and> rb_mem s a = \<lparr>rb_parent = kpar k, rb_left = rp l, rb_right = rp r, rb_color = c\<rparr>"
  by (simp add: reps_def)

lemma root_plug: "k \<noteq> [] \<Longrightarrow> rp (plug t k) = rp (plug t' k)"
proof (induction k arbitrary: t t')
  case (Cons f k)
  then show ?case by (cases f; cases k) auto
qed simp

lemma set_color_reps:
  assumes "reps s (Br l a c r) k"
  shows "\<exists>s'. set_color a c' s = Some s' \<and> reps s' (Br l a c' r) k"
proof -
  have "rp (plug (Br l a c r) k) = rp (plug (Br l a c' r) k)" by (cases "k = []") (auto intro: root_plug)
  then show ?thesis using assms by (auto simp: reps_def set_color_def set_node_def)
qed

lemma rotate_left_reps:
  assumes "reps s (Br a x c (Br b y d e)) k"
  shows "\<exists>s'. rb_rotate_left x s = Some s' \<and> reps s' (Br (Br a x c b) y d e) k"
proof -
  note defs = rb_rotate_left_def node_at_def set_left_def set_right_def set_parent_def set_parent_opt_def set_node_def
  show ?thesis
  proof (cases k)
    case Nil
    then show ?thesis using assms by (cases b) (auto simp: reps_def defs)
  next
    case (Cons f k')
    have r: "rp (plug (Br a x c (Br b y d e)) k) = rp (plug (Br (Br a x c b) y d e) k)" using Cons by (intro root_plug) simp
    show ?thesis
    proof (cases f)
      case (FL p pc pr)
      then show ?thesis using assms r Cons by (cases b) (auto simp: reps_def defs)
    next
      case (FR pl p pc)
      have "rp pl \<noteq> x" using assms FR Cons by (cases pl) (auto simp: reps_def)
      then show ?thesis using assms r Cons FR by (cases b) (auto simp: reps_def defs)
    qed
  qed
qed

section \<open>The mirror image\<close>

text \<open>Exchanging left and right everywhere turns each right-hand half of the code into the left-hand one.\<close>

definition mir_node :: "rb_node \<Rightarrow> rb_node" where
  "mir_node n = n\<lparr>rb_left := rb_right n, rb_right := rb_left n\<rparr>"

definition mir :: "rb_tree \<Rightarrow> rb_tree" where
  "mir s = s\<lparr>rb_mem := mir_node \<circ> rb_mem s\<rparr>"

fun mirt :: "rt \<Rightarrow> rt" where
  "mirt Lf = Lf"
| "mirt (Br l a c r) = Br (mirt r) a c (mirt l)"

fun mirf :: "frame \<Rightarrow> frame" where
  "mirf (FL a c r) = FR (mirt r) a c"
| "mirf (FR l a c) = FL a c (mirt l)"

lemma mir_node_sel [simp]:
  "rb_left (mir_node n) = rb_right n" "rb_right (mir_node n) = rb_left n" "rb_parent (mir_node n) = rb_parent n"
  "rb_color (mir_node n) = rb_color n"
  by (simp_all add: mir_node_def)

lemma mir_invol [simp]: "mir_node (mir_node n) = n" "mir (mir s) = s" "mirt (mirt t) = t" "mirf (mirf f) = f" "map mirf (map mirf k) = k"
proof -
  show n: "mir_node (mir_node n) = n" for n by (simp add: mir_node_def)
  show "mir (mir s) = s" by (simp add: mir_def comp_def n)
  show t: "mirt (mirt t) = t" for t by (induction t) auto
  show f: "mirf (mirf f) = f" for f by (cases f) (auto simp: t)
  show "map mirf (map mirf k) = k" by (induction k) (auto simp: f)
qed

lemma mir_tree [simp]:
  "rp (mirt t) = rp t" "inorder (mirt t) = rev (inorder t)" "plug (mirt t) (map mirf k) = mirt (plug t k)" "kpar (map mirf k) = kpar k"
  "set (kaddrs (map mirf k)) = set (kaddrs k)" "distinct (kaddrs (map mirf k)) = distinct (kaddrs k)"
proof -
  show 1: "rp (mirt t) = rp t" for t by (cases t) auto
  show 2: "inorder (mirt t) = rev (inorder t)" for t by (induction t) auto
  show "plug (mirt t) (map mirf k) = mirt (plug t k)"
    by (induction t k rule: plug.induct) auto
  show "kpar (map mirf k) = kpar k" by (cases k rule: kpar.cases) auto
  show s: "set (kaddrs (map mirf k)) = set (kaddrs k)" for k by (induction k rule: kaddrs.induct) (auto simp: 2)
  show "distinct (kaddrs (map mirf k)) = distinct (kaddrs k)" by (induction k rule: kaddrs.induct) (auto simp: 2 s)
qed

lemma mir_node_eq: "mir_node n = \<lparr>rb_parent = p, rb_left = l, rb_right = r, rb_color = c\<rparr> \<longleftrightarrow>
    n = \<lparr>rb_parent = p, rb_left = r, rb_right = l, rb_color = c\<rparr>"
  by (cases n) (auto simp: mir_node_def)

lemma rep_mir: "rep (mir_node \<circ> m) par (mirt t) = rep m par t"
  by (induction t arbitrary: par) (auto simp: mir_node_eq)

lemma repk_mir: "repk (mir_node \<circ> m) p (map mirf k) = repk m p k"
  by (induction m p k rule: repk.induct) (auto simp: mir_node_eq rep_mir[unfolded comp_def])

lemma reps_mir: "reps (mir s) (mirt t) (map mirf k) = reps s t k"
  by (auto simp: reps_def mir_def rep_mir repk_mir)

lemma bind_map [simp]: "map_option f x \<bind> g = x \<bind> (\<lambda>y. g (f y))" "map_option h (x \<bind> g) = x \<bind> (\<lambda>y. map_option h (g y))"
  by (cases x; simp)+

lemma bind_if: "Option.bind (if b then x else y) f = (if b then Option.bind x f else Option.bind y f)"
  by simp

lemma mir_ops [simp]:
  "node_at (mir s) p = map_option mir_node (node_at s p)" "rb_root (mir s) = rb_root s"
  "set_left p v (mir s) = map_option mir (set_right p v s)" "set_right p v (mir s) = map_option mir (set_left p v s)"
  "set_parent p v (mir s) = map_option mir (set_parent p v s)" "set_color p c (mir s) = map_option mir (set_color p c s)"
  "set_parent_opt p v (mir s) = map_option mir (set_parent_opt p v s)" "blacken_opt p (mir s) = map_option mir (blacken_opt p s)"
  "(mir s)\<lparr>rb_root := v\<rparr> = mir (s\<lparr>rb_root := v\<rparr>)" "is_red (mir s) p = is_red s p" "is_black (mir s) p = is_black s p"
  by (auto simp: mir_def node_at_def set_left_def set_right_def set_parent_def set_color_def set_node_def fun_eq_iff mir_node_def
      set_parent_opt_def blacken_opt_def is_red_def is_black_def)

lemma rotate_mir [simp]:
  "rb_rotate_right x (mir s) = map_option mir (rb_rotate_left x s)" "rb_rotate_left x (mir s) = map_option mir (rb_rotate_right x s)"
proof -
  show 1: "rb_rotate_right x (mir s) = map_option mir (rb_rotate_left x s)" for s
    by (simp add: rb_rotate_right_def rb_rotate_left_def Let_def bind_if if_distrib[of "map_option mir"] cong: if_cong Option.bind_cong)
  show "rb_rotate_left x (mir s) = map_option mir (rb_rotate_right x s)"
    using 1[of "mir s"] by (simp add: option.map_comp comp_def option.map_ident)
qed

lemma mir_transfer:
  assumes "f (mir s) = map_option mir (g s)" "\<exists>s'. f (mir s) = Some s' \<and> reps s' (mirt t) (map mirf k)"
  shows "\<exists>s'. g s = Some s' \<and> reps s' t k"
  using assms reps_mir by (cases "g s") auto

lemma rotate_right_reps:
  assumes "reps s (Br (Br a x c b) y d e) k"
  shows "\<exists>s'. rb_rotate_right y s = Some s' \<and> reps s' (Br a x c (Br b y d e)) k"
proof (rule mir_transfer[where f = "rb_rotate_left y"])
  have "reps (mir s) (Br (mirt e) y d (Br (mirt b) x c (mirt a))) (map mirf k)" using assms reps_mir[of s "Br (Br a x c b) y d e" k] by simp
  from rotate_left_reps[OF this]
  show "\<exists>s'. rb_rotate_left y (mir s) = Some s' \<and> reps s' (mirt (Br a x c (Br b y d e))) (map mirf k)" by simp
qed simp

section \<open>Balance\<close>

fun tcol :: "rt \<Rightarrow> rb_col" where
  "tcol Lf = RB_BLACK"
| "tcol (Br l a c r) = c"

fun paint :: "rb_col \<Rightarrow> rt \<Rightarrow> rt" where
  "paint c Lf = Lf"
| "paint c (Br l a c' r) = Br l a c r"

abbreviation weight :: "rb_col \<Rightarrow> nat" where
  "weight c \<equiv> (if c = RB_BLACK then 1 else 0)"

fun bh :: "rt \<Rightarrow> nat" where
  "bh Lf = 1"
| "bh (Br l a c r) = bh l + weight c"

fun valid :: "rt \<Rightarrow> bool" where
  "valid Lf \<longleftrightarrow> True"
| "valid (Br l a c r) \<longleftrightarrow> valid l \<and> valid r \<and> bh l = bh r \<and> (c = RB_RED \<longrightarrow> tcol l = RB_BLACK \<and> tcol r = RB_BLACK)"

definition balanced :: "rt \<Rightarrow> bool" where
  "balanced t \<longleftrightarrow> valid t \<and> tcol t = RB_BLACK"

text \<open>A path whose hole fits a tree of black height \<open>h\<close> and root colour \<open>c\<close>.\<close>

fun kvalid :: "nat \<Rightarrow> rb_col \<Rightarrow> frame list \<Rightarrow> bool" where
  "kvalid h c [] \<longleftrightarrow> True"
| "kvalid h c (FL a d r # k) \<longleftrightarrow> valid r \<and> bh r = h \<and> (d = RB_RED \<longrightarrow> tcol r = RB_BLACK \<and> c = RB_BLACK) \<and> kvalid (h + weight d) d k"
| "kvalid h c (FR l a d # k) \<longleftrightarrow> valid l \<and> bh l = h \<and> (d = RB_RED \<longrightarrow> tcol l = RB_BLACK \<and> c = RB_BLACK) \<and> kvalid (h + weight d) d k"

lemma plug_valid: "valid (plug t k) \<longleftrightarrow> valid t \<and> kvalid (bh t) (tcol t) k"
  by (induction t k rule: plug.induct) auto

lemma kvalid_black: "kvalid h c k \<Longrightarrow> kvalid h RB_BLACK k"
  by (cases "(h, c, k)" rule: kvalid.cases) auto

lemma plug_inorder: "inorder t = inorder t' \<Longrightarrow> inorder (plug t k) = inorder (plug t' k)"
proof (induction k arbitrary: t t')
  case (Cons f k)
  then show ?case by (cases f) auto
qed simp

lemma set_inorder_plug: "set (inorder (plug t k)) = set (inorder t) \<union> set (kaddrs k)"
  by (induction t k rule: plug.induct) auto

lemma plug_reps: "reps s t k \<longleftrightarrow> reps s (plug t k) []"
  by (induction t k rule: plug.induct) (auto simp: reps_FL reps_FR)

lemma plug_tcol: "k \<noteq> [] \<Longrightarrow> tcol (plug t k) = tcol (plug t' k)"
proof (induction k arbitrary: t t')
  case (Cons f k)
  then show ?case by (cases f; cases k) auto
qed simp

lemma mir_tcol [simp]: "tcol (mirt t) = tcol t"
  by (cases t) auto

lemma tcol_cases: "tcol t \<noteq> RB_BLACK \<longleftrightarrow> tcol t = RB_RED"
  by (cases "tcol t") auto

lemma is_red_tree: "reps s (Br l a c r) k \<Longrightarrow> is_red s (rp l) = (tcol l = RB_RED)" "reps s (Br l a c r) k \<Longrightarrow> is_red s (rp r) = (tcol r = RB_RED)"
  "reps s (Br l a c r) k \<Longrightarrow> is_black s (rp l) = (tcol l = RB_BLACK)" "reps s (Br l a c r) k \<Longrightarrow> is_black s (rp r) = (tcol r = RB_BLACK)"
  by (cases l; cases r; auto simp: reps_def is_red_def is_black_def)+

section \<open>One round of the insertion\<close>

lemma insert_uncle_left:
  assumes "reps s (Br (Br pl p pc pr) g gc (Br ul u RB_RED ur)) k"
  shows "\<exists>s'. insert_step_left n p g s = Some (g, s') \<and> reps s' (Br (Br pl p RB_BLACK pr) g RB_RED (Br ul u RB_BLACK ur)) k"
proof -
  have u: "reps s (Br ul u RB_RED ur) (FR (Br pl p pc pr) g gc # k)" using assms by (simp add: reps_FR)
  from set_color_reps[OF u, of RB_BLACK] obtain s1 where s1: "set_color u RB_BLACK s = Some s1"
      "reps s1 (Br pl p pc pr) (FL g gc (Br ul u RB_BLACK ur) # k)" by (auto simp: reps_FR reps_FL)
  from set_color_reps[OF s1(2), of RB_BLACK] obtain s2 where s2: "set_color p RB_BLACK s1 = Some s2"
      "reps s2 (Br (Br pl p RB_BLACK pr) g gc (Br ul u RB_BLACK ur)) k" by (auto simp: reps_FL)
  from set_color_reps[OF s2(2), of RB_RED] obtain s3 where s3: "set_color g RB_RED s2 = Some s3"
      "reps s3 (Br (Br pl p RB_BLACK pr) g RB_RED (Br ul u RB_BLACK ur)) k" by auto
  have "is_red s u" using is_red_tree(2)[OF assms] by simp
  then show ?thesis
    using s1(1) s2(1) s3 node_at_focus[OF assms] by (simp add: insert_step_left_def recolor_uncle_def)
qed

lemma insert_outer_left:
  assumes r: "reps s (Br (Br pl p pc pr) g gc u) k" and n: "pl \<noteq> Lf" "tcol u = RB_BLACK"
  shows "\<exists>s'. insert_step_left (rp pl) p g s = Some (rp pl, s') \<and> reps s' (Br pl p RB_BLACK (Br pr g RB_RED u)) k"
proof -
  have f: "reps s (Br pl p pc pr) (FL g gc u # k)" using r by (simp add: reps_FL)
  have ne: "rp pr \<noteq> rp pl" using r n(1) by (cases pl; cases pr) (auto simp: reps_def)
  from set_color_reps[OF f, of RB_BLACK] obtain s1 where s1: "set_color p RB_BLACK s = Some s1"
      "reps s1 (Br (Br pl p RB_BLACK pr) g gc u) k" by (auto simp: reps_FL)
  from set_color_reps[OF s1(2), of RB_RED] obtain s2 where s2: "set_color g RB_RED s1 = Some s2"
      "reps s2 (Br (Br pl p RB_BLACK pr) g RB_RED u) k" by auto
  from rotate_right_reps[OF s2(2)] obtain s3 where s3: "rb_rotate_right g s2 = Some s3"
      "reps s3 (Br pl p RB_BLACK (Br pr g RB_RED u)) k" by auto
  show ?thesis
    using node_at_focus[OF r] node_at_focus[OF f] is_red_tree(2)[OF r] n ne s1(1) s2(1) s3
    by (simp add: insert_step_left_def)
qed

lemma insert_inner_left:
  assumes r: "reps s (Br (Br pl p pc (Br a n c b)) g gc u) k" and u: "tcol u = RB_BLACK"
  shows "\<exists>s'. insert_step_left n p g s = Some (p, s') \<and> reps s' (Br (Br pl p pc a) n RB_BLACK (Br b g RB_RED u)) k"
proof -
  have f: "reps s (Br pl p pc (Br a n c b)) (FL g gc u # k)" using r by (simp add: reps_FL)
  from rotate_left_reps[OF f] obtain s0 where s0: "rb_rotate_left p s = Some s0" "reps s0 (Br (Br pl p pc a) n c b) (FL g gc u # k)" by auto
  from set_color_reps[OF s0(2), of RB_BLACK] obtain s1 where s1: "set_color n RB_BLACK s0 = Some s1"
      "reps s1 (Br (Br (Br pl p pc a) n RB_BLACK b) g gc u) k" by (auto simp: reps_FL)
  from set_color_reps[OF s1(2), of RB_RED] obtain s2 where s2: "set_color g RB_RED s1 = Some s2"
      "reps s2 (Br (Br (Br pl p pc a) n RB_BLACK b) g RB_RED u) k" by auto
  from rotate_right_reps[OF s2(2)] obtain s3 where s3: "rb_rotate_right g s2 = Some s3"
      "reps s3 (Br (Br pl p pc a) n RB_BLACK (Br b g RB_RED u)) k" by auto
  show ?thesis
    using node_at_focus[OF r] node_at_focus[OF f] is_red_tree(2)[OF r] u s0(1) s1(1) s2(1) s3
    by (simp add: insert_step_left_def)
qed

lemma recolor_mir: "recolor_uncle u p g (mir s) = map_option (map_prod id mir) (recolor_uncle u p g s)"
  by (simp add: recolor_uncle_def cong: Option.bind_cong)

lemma insert_step_mir: "insert_step_left n p g (mir s) = map_option (map_prod id mir) (insert_step_right n p g s)"
  by (simp add: insert_step_left_def insert_step_right_def recolor_mir Let_def bind_if if_distrib[of "map_option (map_prod id mir)"]
      split_def cong: if_cong Option.bind_cong)

lemma insert_step_transfer:
  assumes "\<exists>s'. insert_step_left n p g (mir s) = Some (n', s') \<and> reps s' (mirt t) (map mirf k)"
  shows "\<exists>s'. insert_step_right n p g s = Some (n', s') \<and> reps s' t k"
  using assms reps_mir unfolding insert_step_mir by (cases "insert_step_right n p g s") auto

lemma insert_uncle_right:
  assumes "reps s (Br (Br ul u RB_RED ur) g gc (Br pl p pc pr)) k"
  shows "\<exists>s'. insert_step_right n p g s = Some (g, s') \<and> reps s' (Br (Br ul u RB_BLACK ur) g RB_RED (Br pl p RB_BLACK pr)) k"
  using assms by (intro insert_step_transfer, subst (asm) reps_mir[symmetric]) (simp add: insert_uncle_left)

lemma insert_outer_right:
  assumes "reps s (Br u g gc (Br pl p pc pr)) k" "pr \<noteq> Lf" "tcol u = RB_BLACK"
  shows "\<exists>s'. insert_step_right (rp pr) p g s = Some (rp pr, s') \<and> reps s' (Br (Br u g RB_RED pl) p RB_BLACK pr) k"
proof (rule insert_step_transfer)
  have "mirt pr \<noteq> Lf" using assms(2) by (cases pr) auto
  moreover have "reps (mir s) (Br (Br (mirt pr) p pc (mirt pl)) g gc (mirt u)) (map mirf k)"
    using assms(1) by (subst (asm) reps_mir[symmetric]) simp
  ultimately show "\<exists>s'. insert_step_left (rp pr) p g (mir s) = Some (rp pr, s') \<and> reps s' (mirt (Br (Br u g RB_RED pl) p RB_BLACK pr)) (map mirf k)"
    using insert_outer_left[of "mir s" "mirt pr" p pc "mirt pl" g gc "mirt u" "map mirf k"] assms(3) by simp
qed

lemma insert_inner_right:
  assumes "reps s (Br u g gc (Br (Br a n c b) p pc pr)) k" "tcol u = RB_BLACK"
  shows "\<exists>s'. insert_step_right n p g s = Some (p, s') \<and> reps s' (Br (Br u g RB_RED a) n RB_BLACK (Br b p pc pr)) k"
  using assms by (intro insert_step_transfer, subst (asm) reps_mir[symmetric]) (simp add: insert_inner_left)

fun kcol :: "frame list \<Rightarrow> rb_col" where
  "kcol [] = RB_BLACK"
| "kcol (FL a c r # k) = c"
| "kcol (FR l a c # k) = c"

lemma is_red_kpar: "reps s t k \<Longrightarrow> is_red s (kpar k) = (kcol k = RB_RED)"
  by (cases k rule: kpar.cases) (auto simp: reps_def is_red_def)

lemma insert_stop: "reps s (Br l x c r) k \<Longrightarrow> kcol k = RB_BLACK \<Longrightarrow> insert_loop x s = Some s"
  by (subst insert_loop.simps) (simp add: node_at_focus is_red_kpar)

lemma kvalid_kcol: "kvalid h RB_BLACK k \<Longrightarrow> kcol k = RB_BLACK \<Longrightarrow> kvalid h c k"
  by (cases "(h, c, k)" rule: kvalid.cases) auto

text \<open>The two kinds of round: the uncle is red, and the loop goes on at the grandparent, or the loop stops.\<close>

definition round_ok :: "rb_tree option \<Rightarrow> nat list \<Rightarrow> frame list \<Rightarrow> bool" where
  "round_ok out xs k \<longleftrightarrow>
     (\<exists>gl g gr s'. out = insert_loop g s' \<and> reps s' (Br gl g RB_RED gr) k \<and> valid (Br gl g RB_RED gr) \<and>
        inorder (Br gl g RB_RED gr) = xs \<and> kvalid (bh (Br gl g RB_RED gr)) RB_BLACK k) \<or>
     (\<exists>T s'. out = Some s' \<and> reps s' T k \<and> balanced T \<and> inorder T = xs \<and> kvalid (bh T) RB_BLACK k)"

lemma round_again:
  "reps s' (Br gl g RB_RED gr) k \<Longrightarrow> valid (Br gl g RB_RED gr) \<Longrightarrow> inorder (Br gl g RB_RED gr) = xs \<Longrightarrow>
   kvalid (bh (Br gl g RB_RED gr)) RB_BLACK k \<Longrightarrow> round_ok (insert_loop g s') xs k"
  unfolding round_ok_def by blast

lemma round_stop:
  "reps s' T k \<Longrightarrow> balanced T \<Longrightarrow> inorder T = xs \<Longrightarrow> kvalid (bh T) RB_BLACK k \<Longrightarrow> round_ok (Some s') xs k"
  unfolding round_ok_def by blast

lemma red_tree: "tcol u \<noteq> RB_BLACK \<Longrightarrow> \<exists>ul a ur. u = Br ul a RB_RED ur"
  by (cases u) (use rb_col.exhaust in auto)

lemma insert_unfold:
  assumes x: "reps s (Br l x c r) k0" "kpar k0 = p" and p: "reps s (Br pl p RB_RED pr) k1" "kpar k1 = g" and g: "reps s (Br gl g gc gr) k2"
  shows "insert_loop x s =
    do { ns \<leftarrow> (if p = rp gl then insert_step_left x p g s else insert_step_right x p g s); insert_loop (fst ns) (snd ns) }"
  using mem_focus[OF x(1)] mem_focus[OF p(1)] mem_focus[OF g] x(2) p(2)
  by (subst insert_loop.simps) (simp add: node_at_def is_red_def)

text \<open>The parent is a left child, the node its left or its right child.\<close>

lemma insert_round_left:
  assumes R: "reps s (Br (Br pl p RB_RED pr) g RB_BLACK u) k" and x: "reps s (Br l x RB_RED r) k0" "kpar k0 = p"
    and v: "valid pl" "valid pr" "valid u" "bh pl = bh u" "bh pr = bh u" "kvalid (bh u + 1) RB_BLACK k"
    and sib: "pl = Br l x RB_RED r \<and> tcol pr = RB_BLACK \<or> pr = Br l x RB_RED r \<and> tcol pl = RB_BLACK"
  shows "round_ok (insert_loop x s) (inorder (Br (Br pl p RB_RED pr) g RB_BLACK u)) k"
proof -
  have P: "reps s (Br pl p RB_RED pr) (FL g RB_BLACK u # k)" using R by (simp add: reps_FL)
  have st: "insert_loop x s = do { ns \<leftarrow> insert_step_left x p g s; insert_loop (fst ns) (snd ns) }"
    using insert_unfold[OF x P _ R] by simp
  show ?thesis
  proof (cases "tcol u = RB_BLACK")
    case False
    then obtain ul a ur where u: "u = Br ul a RB_RED ur" using red_tree by blast
    from insert_uncle_left[OF R[unfolded u], of x] obtain s' where s': "insert_step_left x p g s = Some (g, s')"
      "reps s' (Br (Br pl p RB_BLACK pr) g RB_RED (Br ul a RB_BLACK ur)) k" by auto
    show ?thesis unfolding st s'(1) using v u by (auto intro!: round_again[OF s'(2)])
  next
    case True
    show ?thesis
    proof (cases "pl = Br l x RB_RED r")
      case pl: True
      then have pr: "tcol pr = RB_BLACK" using sib by (metis (full_types) rb_col.distinct(1) tcol.simps(2))
      from insert_outer_left[OF R _ True] pl obtain s' where s': "insert_step_left x p g s = Some (x, s')"
        "reps s' (Br pl p RB_BLACK (Br pr g RB_RED u)) k" by auto
      have "insert_loop x s' = Some s'"
        using s'(2) pl by (intro insert_stop[of _ l _ RB_RED r "FL p RB_BLACK (Br pr g RB_RED u) # k"]) (auto simp: reps_FL)
      then show ?thesis unfolding st s'(1) using v pl pr True by (auto intro!: round_stop[OF s'(2)] simp: balanced_def)
    next
      case False
      then have pr: "pr = Br l x RB_RED r" "tcol pl = RB_BLACK" using sib by auto
      from insert_inner_left[OF R[unfolded pr(1)] True] obtain s' where s': "insert_step_left x p g s = Some (p, s')"
        "reps s' (Br (Br pl p RB_RED l) x RB_BLACK (Br r g RB_RED u)) k" by auto
      have "insert_loop p s' = Some s'"
        using s'(2) by (intro insert_stop[of _ pl _ RB_RED l "FL x RB_BLACK (Br r g RB_RED u) # k"]) (auto simp: reps_FL)
      then show ?thesis unfolding st s'(1) using v pr True by (auto intro!: round_stop[OF s'(2)] simp: balanced_def)
    qed
  qed
qed

lemma insert_round_right:
  assumes R: "reps s (Br u g RB_BLACK (Br pl p RB_RED pr)) k" and x: "reps s (Br l x RB_RED r) k0" "kpar k0 = p"
    and v: "valid pl" "valid pr" "valid u" "bh pl = bh u" "bh pr = bh u" "kvalid (bh u + 1) RB_BLACK k"
    and sib: "pl = Br l x RB_RED r \<and> tcol pr = RB_BLACK \<or> pr = Br l x RB_RED r \<and> tcol pl = RB_BLACK"
  shows "round_ok (insert_loop x s) (inorder (Br u g RB_BLACK (Br pl p RB_RED pr))) k"
proof -
  have P: "reps s (Br pl p RB_RED pr) (FR u g RB_BLACK # k)" using R by (simp add: reps_FR)
  have "p \<noteq> rp u" using R by (cases u) (auto simp: reps_def)
  then have st: "insert_loop x s = do { ns \<leftarrow> insert_step_right x p g s; insert_loop (fst ns) (snd ns) }"
    using insert_unfold[OF x P _ R] by simp
  show ?thesis
  proof (cases "tcol u = RB_BLACK")
    case False
    then obtain ul a ur where u: "u = Br ul a RB_RED ur" using red_tree by blast
    from insert_uncle_right[OF R[unfolded u], of x] obtain s' where s': "insert_step_right x p g s = Some (g, s')"
      "reps s' (Br (Br ul a RB_BLACK ur) g RB_RED (Br pl p RB_BLACK pr)) k" by auto
    show ?thesis unfolding st s'(1) using v u by (auto intro!: round_again[OF s'(2)])
  next
    case True
    show ?thesis
    proof (cases "pr = Br l x RB_RED r")
      case pr: True
      then have pl: "tcol pl = RB_BLACK" using sib by (metis (full_types) rb_col.distinct(1) tcol.simps(2))
      from insert_outer_right[OF R _ True] pr obtain s' where s': "insert_step_right x p g s = Some (x, s')"
        "reps s' (Br (Br u g RB_RED pl) p RB_BLACK pr) k" by auto
      have "insert_loop x s' = Some s'"
        using s'(2) pr by (intro insert_stop[of _ l _ RB_RED r "FR (Br u g RB_RED pl) p RB_BLACK # k"]) (auto simp: reps_FR)
      then show ?thesis unfolding st s'(1) using v pl pr True by (auto intro!: round_stop[OF s'(2)] simp: balanced_def)
    next
      case False
      then have pl: "pl = Br l x RB_RED r" "tcol pr = RB_BLACK" using sib by auto
      from insert_inner_right[OF R[unfolded pl(1)] True] obtain s' where s': "insert_step_right x p g s = Some (p, s')"
        "reps s' (Br (Br u g RB_RED l) x RB_BLACK (Br r p RB_RED pr)) k" by auto
      have "insert_loop p s' = Some s'"
        using s'(2) by (intro insert_stop[of _ r _ RB_RED pr "FR (Br u g RB_RED l) x RB_BLACK # k"]) (auto simp: reps_FR)
      then show ?thesis unfolding st s'(1) using v pl True by (auto intro!: round_stop[OF s'(2)] simp: balanced_def)
    qed
  qed
qed

lemma valid_paint: "valid t \<Longrightarrow> valid (paint RB_BLACK t)"
  by (cases t) auto

lemma insert_round:
  assumes R: "reps s (Br l x RB_RED r) (f # f2 # k)" and t: "valid (Br l x RB_RED r)"
    and kv: "kvalid (bh (Br l x RB_RED r)) RB_BLACK (f # f2 # k)" and fc: "kcol [f] = RB_RED"
  shows "round_ok (insert_loop x s) (inorder (plug (Br l x RB_RED r) [f, f2])) k"
proof -
  let ?t = "Br l x RB_RED r"
  have tv: "valid l" "valid r" "bh l = bh r" "tcol l = RB_BLACK" "tcol r = RB_BLACK" using t by auto
  have "kcol [f2] = RB_BLACK" using kv fc by (cases f; cases f2; cases "kcol [f2]") auto
  then consider (LL) p sib g u where "f = FL p RB_RED sib" "f2 = FL g RB_BLACK u" | (RL) p sib g u where "f = FR sib p RB_RED" "f2 = FL g RB_BLACK u"
    | (LR) p sib g u where "f = FL p RB_RED sib" "f2 = FR u g RB_BLACK" | (RR) p sib g u where "f = FR sib p RB_RED" "f2 = FR u g RB_BLACK"
    using fc by (cases f; cases f2) auto
  then show ?thesis
  proof cases
    case LL
    have "round_ok (insert_loop x s) (inorder (Br (Br ?t p RB_RED sib) g RB_BLACK u)) k"
      by (rule insert_round_left[OF _ R]) (use R kv tv LL in \<open>simp_all add: reps_FL\<close>)
    then show ?thesis using LL by simp
  next
    case RL
    have "round_ok (insert_loop x s) (inorder (Br (Br sib p RB_RED ?t) g RB_BLACK u)) k"
      by (rule insert_round_left[OF _ R]) (use R kv tv RL in \<open>simp_all add: reps_FL reps_FR\<close>)
    then show ?thesis using RL by simp
  next
    case LR
    have "round_ok (insert_loop x s) (inorder (Br u g RB_BLACK (Br ?t p RB_RED sib))) k"
      by (rule insert_round_right[OF _ R]) (use R kv tv LR in \<open>simp_all add: reps_FL reps_FR\<close>)
    then show ?thesis using LR by simp
  next
    case RR
    have "round_ok (insert_loop x s) (inorder (Br u g RB_BLACK (Br sib p RB_RED ?t))) k"
      by (rule insert_round_right[OF _ R]) (use R kv tv RR in \<open>simp_all add: reps_FR\<close>)
    then show ?thesis using RR by simp
  qed
qed

lemma insert_loop_ok:
  assumes "reps s (Br l x RB_RED r) k" "valid (Br l x RB_RED r)" "kvalid (bh (Br l x RB_RED r)) RB_BLACK k"
  shows "\<exists>s' T. insert_loop x s = Some s' \<and> reps s' T [] \<and> valid (paint RB_BLACK T) \<and> inorder T = inorder (plug (Br l x RB_RED r) k)"
  using assms
proof (induction "length k" arbitrary: s l x r k rule: less_induct)
  case less
  let ?t = "Br l x RB_RED r"
  note R = less.prems(1) and kv = less.prems(3)
  show ?case
  proof (cases "kcol k = RB_BLACK")
    case True
    have "insert_loop x s = Some s" by (rule insert_stop[OF R True])
    moreover have "reps s (plug ?t k) []" using R plug_reps by blast
    moreover have "valid (plug ?t k)" using less.prems(2) kvalid_kcol[OF kv True] by (simp add: plug_valid)
    ultimately show ?thesis using valid_paint by blast
  next
    case False
    then obtain f k1 where k: "k = f # k1" and fc: "kcol [f] = RB_RED" using rb_col.exhaust by (cases k rule: kpar.cases) auto
    show ?thesis
    proof (cases k1)
      case Nil
      have "insert_loop x s = Some s"
        using R k Nil False by (subst insert_loop.simps) (cases f; auto simp: reps_def node_at_def is_red_def)
      moreover have "reps s (plug ?t k) []" using R plug_reps by blast
      moreover have "valid (paint RB_BLACK (plug ?t k))" using less.prems(2) kv k Nil by (cases f) auto
      ultimately show ?thesis by blast
    next
      case (Cons f2 k2)
      have ok: "round_ok (insert_loop x s) (inorder (plug ?t [f, f2])) k2"
        by (rule insert_round) (use R kv k Cons fc less.prems(2) in simp_all)
      have pl: "plug ?t k = plug (plug ?t [f, f2]) k2" unfolding k Cons by (cases f; cases f2) auto
      from ok consider
          (again) gl g gr s' where "insert_loop x s = insert_loop g s'" "reps s' (Br gl g RB_RED gr) k2" "valid (Br gl g RB_RED gr)"
            "inorder (Br gl g RB_RED gr) = inorder (plug ?t [f, f2])" "kvalid (bh (Br gl g RB_RED gr)) RB_BLACK k2"
        | (stop) T s' where "insert_loop x s = Some s'" "reps s' T k2" "balanced T" "inorder T = inorder (plug ?t [f, f2])"
            "kvalid (bh T) RB_BLACK k2"
        unfolding round_ok_def by blast
      then show ?thesis
      proof cases
        case again
        have "length k2 < length k" using k Cons by simp
        from less.hyps[OF this again(2,3,5)] show ?thesis using again(1) plug_inorder[OF again(4)] pl by metis
      next
        case stop
        have "reps s' (plug T k2) []" using stop(2) plug_reps by blast
        moreover have "valid (plug T k2)" using stop(3,5) by (simp add: plug_valid balanced_def)
        ultimately show ?thesis using stop(1) valid_paint plug_inorder[OF stop(4)] pl by metis
      qed
    qed
  qed
qed

lemma rb_insert_color_ok:
  assumes "reps s (Br l x RB_RED r) k" "valid (Br l x RB_RED r)" "kvalid (bh (Br l x RB_RED r)) RB_BLACK k"
  shows "\<exists>s' T. rb_insert_color x s = Some s' \<and> reps s' T [] \<and> balanced T \<and> inorder T = inorder (plug (Br l x RB_RED r) k)"
proof -
  obtain s1 T where 1: "insert_loop x s = Some s1" "reps s1 T []" "valid (paint RB_BLACK T)" "inorder T = inorder (plug (Br l x RB_RED r) k)"
    using insert_loop_ok[OF assms] by blast
  have "T \<noteq> Lf" using 1(4) set_inorder_plug[of "Br l x RB_RED r" k] by auto
  then obtain a b c d where T: "T = Br a b c d" by (cases T) auto
  from set_color_reps[OF 1(2)[unfolded T], of RB_BLACK] obtain s2 where 2: "set_color b RB_BLACK s1 = Some s2" "reps s2 (Br a b RB_BLACK d) []" by blast
  have "rb_root s1 = b" using 1(2) T by (simp add: reps_def)
  then show ?thesis using 1 2 T by (auto simp: rb_insert_color_def balanced_def intro!: exI[of _ "Br a b RB_BLACK d"])
qed

end
