(* ===== verification/RbErase.thy ===== *)
theory RbErase
  imports RbTreeInv
begin

text \<open>
  Deletion from the red-black tree: the rounds of \<open>rb_erase_color\<close>, its loop, and the two ways \<open>rb_erase\<close> takes a
  node out.
\<close>

section \<open>One round\<close>

lemma blacken_opt_reps:
  assumes "reps s (Br l a c r) k"
  shows "\<exists>s'. blacken_opt a s = Some s' \<and> reps s' (Br l a RB_BLACK r) k"
  using set_color_reps[OF assms, of RB_BLACK] mem_focus[OF assms] by (auto simp: blacken_opt_def)

lemma rest_recolor:
  assumes R: "reps s (Br t p pc (Br ol y oc orr)) k" and b: "tcol ol = RB_BLACK" "tcol orr = RB_BLACK"
  shows "\<exists>s'. erase_rest_left n p y s = Some (True, p, kpar k, s') \<and> reps s' (Br t p pc (Br ol y RB_RED orr)) k"
proof -
  have O: "reps s (Br ol y oc orr) (FR t p pc # k)" using R by (simp add: reps_FR)
  from set_color_reps[OF O, of RB_RED] obtain s1 where s1: "set_color y RB_RED s = Some s1" "reps s1 (Br t p pc (Br ol y RB_RED orr)) k"
    by (auto simp: reps_FR)
  show ?thesis
    using s1 b node_at_focus[OF O] node_at_focus[OF s1(2)] is_red_tree(3,4)[OF O] mem_focus[OF O] by (simp add: erase_rest_left_def)
qed

text \<open>The last recolouring and rotation, the far nephew being red.\<close>

lemma rest_rotate:
  assumes R: "reps s (Br t p pc (Br ol y oc (Br c z zc d))) k"
  shows "\<exists>s1 s2 s3 s4. set_color y pc s = Some s1 \<and> set_color p RB_BLACK s1 = Some s2 \<and>
    node_at s2 y = Some \<lparr>rb_parent = p, rb_left = rp ol, rb_right = z, rb_color = pc\<rparr> \<and> blacken_opt z s2 = Some s3 \<and>
    rb_rotate_left p s3 = Some s4 \<and> reps s4 (Br (Br t p RB_BLACK ol) y pc (Br c z RB_BLACK d)) k"
proof -
  have O: "reps s (Br ol y oc (Br c z zc d)) (FR t p pc # k)" using R by (simp add: reps_FR)
  from set_color_reps[OF O, of pc] obtain s1 where s1: "set_color y pc s = Some s1"
    "reps s1 (Br t p pc (Br ol y pc (Br c z zc d))) k" by (auto simp: reps_FR)
  from set_color_reps[OF s1(2), of RB_BLACK] obtain s2 where s2: "set_color p RB_BLACK s1 = Some s2"
    "reps s2 (Br t p RB_BLACK (Br ol y pc (Br c z zc d))) k" by blast
  have Z: "reps s2 (Br c z zc d) (FR ol y pc # FR t p RB_BLACK # k)" using s2(2) by (simp add: reps_FR)
  from blacken_opt_reps[OF Z] obtain s3 where s3: "blacken_opt z s2 = Some s3"
    "reps s3 (Br t p RB_BLACK (Br ol y pc (Br c z RB_BLACK d))) k" by (auto simp: reps_FR)
  from rotate_left_reps[OF s3(2)] obtain s4 where s4: "rb_rotate_left p s3 = Some s4"
    "reps s4 (Br (Br t p RB_BLACK ol) y pc (Br c z RB_BLACK d)) k" by blast
  have "reps s2 (Br ol y pc (Br c z zc d)) (FR t p RB_BLACK # k)" using s2(2) by (simp add: reps_FR)
  from node_at_focus[OF this] show ?thesis using s1(1) s2(1) s3(1) s4 by auto
qed

lemma rest_far:
  assumes R: "reps s (Br t p pc (Br ol y oc (Br c z RB_RED d))) k"
  shows "\<exists>s'. erase_rest_left n p y s = Some (False, rb_root s', p, s') \<and> reps s' (Br (Br t p RB_BLACK ol) y pc (Br c z RB_BLACK d)) k"
proof -
  have O: "reps s (Br ol y oc (Br c z RB_RED d)) (FR t p pc # k)" using R by (simp add: reps_FR)
  show ?thesis
    using rest_rotate[OF R] node_at_focus[OF O] node_at_focus[OF R] is_red_tree(4)[OF O] mem_focus[OF O]
    by (auto simp: erase_rest_left_def)
qed

lemma rest_near:
  assumes R: "reps s (Br t p pc (Br (Br a x RB_RED b) y oc orr)) k" and o: "tcol orr = RB_BLACK"
  shows "\<exists>s'. erase_rest_left n p y s = Some (False, rb_root s', p, s') \<and> reps s' (Br (Br t p RB_BLACK a) x pc (Br b y RB_BLACK orr)) k"
proof -
  have O: "reps s (Br (Br a x RB_RED b) y oc orr) (FR t p pc # k)" using R by (simp add: reps_FR)
  then have X: "reps s (Br a x RB_RED b) (FL y oc orr # FR t p pc # k)" by (simp add: reps_FL)
  from blacken_opt_reps[OF X] obtain s1 where s1: "blacken_opt x s = Some s1" "reps s1 (Br (Br a x RB_BLACK b) y oc orr) (FR t p pc # k)"
    by (auto simp: reps_FL)
  from set_color_reps[OF s1(2), of RB_RED] obtain s2 where s2: "set_color y RB_RED s1 = Some s2"
    "reps s2 (Br (Br a x RB_BLACK b) y RB_RED orr) (FR t p pc # k)" by blast
  from rotate_right_reps[OF s2(2)] obtain s3 where s3: "rb_rotate_right y s2 = Some s3"
    "reps s3 (Br t p pc (Br a x RB_BLACK (Br b y RB_RED orr))) k" by (auto simp: reps_FR)
  show ?thesis
    using rest_rotate[OF s3(2)] node_at_focus[OF O] node_at_focus[OF s3(2)] is_red_tree(3,4)[OF O] mem_focus[OF O] mem_focus[OF X]
      s1(1) s2(1) s3(1) o
    by (auto simp: erase_rest_left_def)
qed

definition kroot :: "frame list \<Rightarrow> bool" where
  "kroot k \<longleftrightarrow> (k \<noteq> [] \<longrightarrow> tcol (plug Lf k) = RB_BLACK)"

definition erase_ok :: "(bool \<times> nat \<times> nat \<times> rb_tree) option \<Rightarrow> nat list \<Rightarrow> frame list \<Rightarrow> bool" where
  "erase_ok out xs k \<longleftrightarrow>
     (\<exists>q s' T. out = Some (False, rb_root s', q, s') \<and> reps s' T [] \<and> valid T \<and> inorder T = xs) \<or>
     (\<exists>G k' s'. out = Some (True, rp G, kpar k', s') \<and> reps s' G k' \<and> valid (paint RB_BLACK G) \<and> kvalid (bh G + 1) RB_BLACK k' \<and>
        inorder (plug G k') = xs \<and> (tcol G = RB_RED \<or> k' = k) \<and> kroot k')"

lemma erase_stop:
  "out = Some (False, rb_root s', q, s') \<Longrightarrow> reps s' G k \<Longrightarrow> valid G \<Longrightarrow> kvalid (bh G) (tcol G) k \<Longrightarrow> inorder (plug G k) = xs \<Longrightarrow> erase_ok out xs k0"
  using plug_reps plug_valid unfolding erase_ok_def by blast

lemma erase_again:
  "out = Some (True, rp G, kpar k', s') \<Longrightarrow> reps s' G k' \<Longrightarrow> valid (paint RB_BLACK G) \<Longrightarrow> kvalid (bh G + 1) RB_BLACK k' \<Longrightarrow>
   inorder (plug G k') = xs \<Longrightarrow> tcol G = RB_RED \<or> k' = k \<Longrightarrow> kroot k' \<Longrightarrow> erase_ok out xs k"
  unfolding erase_ok_def by blast

text \<open>The sibling is black.\<close>

lemma rest_ok:
  assumes R: "reps s (Br t p pc (Br ol y RB_BLACK orr)) k'" and t: "valid t" "tcol t = RB_BLACK"
    and o: "valid (Br ol y RB_BLACK orr)" "bh ol = bh t" and k: "kvalid (bh t + 1 + weight pc) pc k'" "kroot k'"
    and x: "inorder (plug (Br t p pc (Br ol y RB_BLACK orr)) k') = xs" and f: "pc = RB_RED \<or> k' = k"
  shows "erase_ok (erase_rest_left n p y s) xs k"
proof (cases "tcol orr = RB_BLACK")
  case False
  then obtain c z d where orr: "orr = Br c z RB_RED d" using red_tree by blast
  from rest_far[OF R[unfolded orr], of n] obtain s' where s': "erase_rest_left n p y s = Some (False, rb_root s', p, s')"
    "reps s' (Br (Br t p RB_BLACK ol) y pc (Br c z RB_BLACK d)) k'" by blast
  have "inorder (plug (Br (Br t p RB_BLACK ol) y pc (Br c z RB_BLACK d)) k') = xs" unfolding x[symmetric] orr by (rule plug_inorder) simp
  then show ?thesis using t o orr k by (intro erase_stop[OF s']) auto
next
  case black: True
  show ?thesis
  proof (cases "tcol ol = RB_BLACK")
    case True
    from rest_recolor[OF R True black, of n] obtain s' where s': "erase_rest_left n p y s = Some (True, p, kpar k', s')"
      "reps s' (Br t p pc (Br ol y RB_RED orr)) k'" by blast
    have "inorder (plug (Br t p pc (Br ol y RB_RED orr)) k') = xs" unfolding x[symmetric] by (rule plug_inorder) simp
    then show ?thesis using t o k f True black s'(1) by (intro erase_again[OF _ s'(2)]) (auto intro: kvalid_black simp: add.commute)
  next
    case False
    then obtain a w b where ol: "ol = Br a w RB_RED b" using red_tree by blast
    from rest_near[OF R[unfolded ol] black, of n] obtain s' where s': "erase_rest_left n p y s = Some (False, rb_root s', p, s')"
      "reps s' (Br (Br t p RB_BLACK a) w pc (Br b y RB_BLACK orr)) k'" by blast
    have "inorder (plug (Br (Br t p RB_BLACK a) w pc (Br b y RB_BLACK orr)) k') = xs" unfolding x[symmetric] ol by (rule plug_inorder) simp
    then show ?thesis using t o ol k black by (intro erase_stop[OF s']) auto
  qed
qed

lemma bh_pos: "0 < bh t"
  by (induction t) auto

lemma nonleaf: "bh t = Suc (bh u) \<Longrightarrow> \<exists>l a c r. t = Br l a c r"
  using bh_pos[of u] by (cases t) auto

lemma erase_left_ok:
  assumes R: "reps s (Br t p pc o1) k" and t: "valid t" "tcol t = RB_BLACK" and o: "valid o1" "bh o1 = bh t + 1"
    and pc: "pc = RB_RED \<Longrightarrow> tcol o1 = RB_BLACK" and k: "kvalid (bh t + 1 + weight pc) pc k" "kroot (FL p pc o1 # k)"
  shows "erase_ok (erase_step_left (rp t) p s) (inorder (plug (Br t p pc o1) k)) k"
proof -
  obtain ol y oc orr where o1: "o1 = Br ol y oc orr" using nonleaf[of o1 t] o(2) by auto
  have O: "reps s (Br ol y oc orr) (FR t p pc # k)" using R o1 by (simp add: reps_FR)
  have kr: "kroot k" using k(2) plug_tcol[of k "Br Lf p pc o1" Lf] by (auto simp: kroot_def)
  show ?thesis
  proof (cases oc)
    case RB_BLACK
    have "erase_step_left (rp t) p s = erase_rest_left (rp t) p y s"
      using node_at_focus[OF R] node_at_focus[OF O] mem_focus[OF O] o1 RB_BLACK by (simp add: erase_step_left_def)
    then show ?thesis
      using rest_ok[OF R[unfolded o1 RB_BLACK] t _ _ k(1) kr refl, of k] o o1 RB_BLACK by auto
  next
    case RB_RED
    then have pb: "pc = RB_BLACK" using pc o1 by (cases pc) auto
    have ob: "valid ol" "valid orr" "bh ol = bh orr" "tcol ol = RB_BLACK" "bh ol = Suc (bh t)" using o o1 RB_RED by auto
    then obtain ml m mc mr where ol: "ol = Br ml m mc mr" using nonleaf[of ol t] by auto
    then have mc: "mc = RB_BLACK" using ob(4) by simp
    from set_color_reps[OF O, of RB_BLACK] obtain s1 where s1: "set_color y RB_BLACK s = Some s1"
      "reps s1 (Br t p pc (Br ol y RB_BLACK orr)) k" by (auto simp: reps_FR)
    from set_color_reps[OF s1(2), of RB_RED] obtain s2 where s2: "set_color p RB_RED s1 = Some s2"
      "reps s2 (Br t p RB_RED (Br ol y RB_BLACK orr)) k" by blast
    from rotate_left_reps[OF s2(2)] obtain s3 where s3: "rb_rotate_left p s2 = Some s3"
      "reps s3 (Br t p RB_RED ol) (FL y RB_BLACK orr # k)" by (auto simp: reps_FL)
    have e: "erase_step_left (rp t) p s = erase_rest_left (rp t) p m s3"
      using node_at_focus[OF R] node_at_focus[OF O] mem_focus[OF O] node_at_focus[OF s3(2)] s1(1) s2(1) s3(1) o1 RB_RED ol
      by (simp add: erase_step_left_def)
    have kr': "kroot (FL y RB_BLACK orr # k)" using kr plug_tcol[of k "Br Lf y RB_BLACK orr" Lf] by (cases "k = []") (auto simp: kroot_def)
    have "inorder (plug (Br t p RB_RED ol) (FL y RB_BLACK orr # k)) = inorder (plug (Br t p pc o1) k)"
      unfolding plug.simps by (rule plug_inorder) (simp add: o1)
    then show ?thesis
      unfolding e using rest_ok[OF s3(2)[unfolded ol mc] t _ _ _ kr', of _ k "rp t"] ob ol mc k(1) pb by auto
  qed
qed

section \<open>The mirror image\<close>

lemma bh_mirt: "valid t \<Longrightarrow> bh (mirt t) = bh t"
  by (induction t) auto

lemma valid_mirt1: "valid t \<Longrightarrow> valid (mirt t)"
  by (induction t) (auto simp: bh_mirt)

lemma valid_mirt [simp]: "valid (mirt t) = valid t"
  using valid_mirt1[of t] valid_mirt1[of "mirt t"] by auto

lemma mirf_comp [simp]: "mirf \<circ> mirf = id"
  by (simp add: fun_eq_iff)

lemma kvalid_mir1: "kvalid h c k \<Longrightarrow> kvalid h c (map mirf k)"
  by (induction h c k rule: kvalid.induct) (auto simp: bh_mirt)

lemma kvalid_mir [simp]: "kvalid h c (map mirf k) = kvalid h c k"
  using kvalid_mir1[of h c k] kvalid_mir1[of h c "map mirf k"] by auto

lemma kroot_mir [simp]: "kroot (map mirf k) = kroot k"
  using mir_tree(3)[of Lf k] by (simp add: kroot_def)

lemma paint_mirt [simp]: "paint c (mirt t) = mirt (paint c t)"
  by (cases t) auto

abbreviation mir4 :: "bool \<times> nat \<times> nat \<times> rb_tree \<Rightarrow> bool \<times> nat \<times> nat \<times> rb_tree" where
  "mir4 \<equiv> map_prod id (map_prod id (map_prod id mir))"

lemma erase_rest_mir: "erase_rest_left n p q (mir s) = map_option mir4 (erase_rest_right n p q s)"
  by (simp add: erase_rest_left_def erase_rest_right_def Let_def bind_if if_distrib[of "map_option mir4"] split_def conj_commute
      cong: if_cong Option.bind_cong)

lemma erase_step_mir: "erase_step_left n p (mir s) = map_option mir4 (erase_step_right n p s)"
  by (simp add: erase_step_left_def erase_step_right_def erase_rest_mir Let_def if_distrib[of "map_option mir4"]
      cong: if_cong Option.bind_cong)

lemma rev_plug: "inorder (plug (mirt t) (map mirf k)) = rev (inorder (plug t k))"
  by simp

lemma erase_ok_mir:
  assumes "erase_ok (map_option mir4 out) (rev xs) (map mirf k)"
  shows "erase_ok out xs k"
proof -
  consider (stop) q s' T where "map_option mir4 out = Some (False, rb_root s', q, s')" "reps s' T []" "valid T" "inorder T = rev xs"
    | (again) G k' s' where "map_option mir4 out = Some (True, rp G, kpar k', s')" "reps s' G k'" "valid (paint RB_BLACK G)"
        "kvalid (bh G + 1) RB_BLACK k'" "inorder (plug G k') = rev xs" "tcol G = RB_RED \<or> k' = map mirf k" "kroot k'"
    using assms unfolding erase_ok_def by blast
  then show ?thesis
  proof cases
    case stop
    then have "out = Some (False, rb_root (mir s'), q, mir s')" by (cases out) auto
    moreover have "reps (mir s') (mirt T) []" using stop(2) reps_mir[of s' T "[]"] by simp
    ultimately show ?thesis using stop(3,4) by (intro erase_stop[where G = "mirt T" and k = "[]"]) auto
  next
    case again
    then have out: "out = Some (True, rp (mirt G), kpar (map mirf k'), mir s')" by (cases out) auto
    have r: "reps (mir s') (mirt G) (map mirf k')" using again(2) by (simp add: reps_mir)
    have "bh (mirt G) = bh G" using bh_mirt[OF again(3)] by (cases G) auto
    then show ?thesis
      using again(3-7) by (intro erase_again[OF out r]) auto
  qed
qed

lemma erase_right_ok:
  assumes R: "reps s (Br o1 p pc t) k" and t: "valid t" "tcol t = RB_BLACK" and o: "valid o1" "bh o1 = bh t + 1"
    and pc: "pc = RB_RED \<Longrightarrow> tcol o1 = RB_BLACK" and k: "kvalid (bh t + 1 + weight pc) pc k" "kroot (FR o1 p pc # k)"
  shows "erase_ok (erase_step_right (rp t) p s) (inorder (plug (Br o1 p pc t) k)) k"
proof (rule erase_ok_mir)
  have M: "reps (mir s) (Br (mirt t) p pc (mirt o1)) (map mirf k)" using R reps_mir[of s "Br o1 p pc t" k] by simp
  have "kroot (FL p pc (mirt o1) # map mirf k)" using k(2) kroot_mir[of "FR o1 p pc # k"] by simp
  then have "erase_ok (erase_step_left (rp (mirt t)) p (mir s)) (inorder (plug (Br (mirt t) p pc (mirt o1)) (map mirf k))) (map mirf k)"
    using t o pc k(1) by (intro erase_left_ok[OF M]) (auto simp: bh_mirt)
  then show "erase_ok (map_option mir4 (erase_step_right (rp t) p s)) (rev (inorder (plug (Br o1 p pc t) k))) (map mirf k)"
    using rev_plug[of "Br o1 p pc t" k] by (simp add: erase_step_mir)
qed

section \<open>The loop\<close>

lemma root_in_path: "k \<noteq> [] \<Longrightarrow> rp (plug t k) \<in> set (kaddrs k)"
proof (induction k arbitrary: t)
  case (Cons f k)
  then show ?case by (cases "k = []"; cases f) auto
qed simp

lemma root_not_focus:
  assumes "reps s t k" "k \<noteq> []"
  shows "rp t \<noteq> rb_root s" "is_black s (rp t) = (tcol t = RB_BLACK)"
proof -
  have in_k: "rb_root s \<in> set (kaddrs k)" using root_in_path[OF assms(2)] assms(1) by (simp add: reps_def)
  then have "rb_root s \<noteq> 0" using assms(1) repk_nonzero[of "rb_mem s" "rp t" k] by (auto simp: reps_def)
  then show "rp t \<noteq> rb_root s" using in_k assms(1) by (cases t) (auto simp: reps_def)
  show "is_black s (rp t) = (tcol t = RB_BLACK)" using assms(1) by (cases t) (auto simp: reps_def is_black_def)
qed

lemma erase_loop_stop:
  assumes R: "reps s t k" and "tcol t = RB_RED \<or> k = []"
  shows "erase_loop (rp t) q s = Some (rp t, s)"
proof (cases "k = []")
  case True
  then show ?thesis using R by (subst erase_loop.simps) (simp add: reps_def)
next
  case False
  then show ?thesis using assms(2) root_not_focus[OF R False] by (subst erase_loop.simps) simp
qed

text \<open>The loop with the final recolouring.\<close>

lemma paint_reps:
  assumes "reps s t k"
  shows "\<exists>s'. blacken_opt (rp t) s = Some s' \<and> reps s' (paint RB_BLACK t) k"
proof (cases t)
  case Lf
  then show ?thesis using assms by (simp add: blacken_opt_def)
next
  case (Br l a c r)
  then show ?thesis using blacken_opt_reps[of s l a c r k] assms by simp
qed

lemma inorder_paint [simp]: "inorder (paint c t) = inorder t"
  by (cases t) auto

lemma bh_paint: "tcol t = RB_RED \<Longrightarrow> bh (paint RB_BLACK t) = Suc (bh t)"
  by (cases t) auto

lemma erase_loop_step:
  assumes R: "reps s t (f # k)" and b: "tcol t = RB_BLACK" and o: "\<And>a c. f \<noteq> FR Lf a c"
  shows "erase_loop (rp t) (kpar (f # k)) s =
    do { r \<leftarrow> (case f of FL a c o1 \<Rightarrow> erase_step_left (rp t) a s | FR o1 a c \<Rightarrow> erase_step_right (rp t) a s);
         if fst r then erase_loop (fst (snd r)) (fst (snd (snd r))) (snd (snd (snd r)))
         else Some (fst (snd r), snd (snd (snd r))) }"
proof (cases f)
  case (FL a c o1)
  then show ?thesis using root_not_focus[OF R] b R by (subst erase_loop.simps) (auto simp: reps_def node_at_def)
next
  case (FR o1 a c)
  have "rp o1 \<noteq> rp t" using R FR o by (cases o1; cases t) (auto simp: reps_def)
  then show ?thesis using root_not_focus[OF R] b R FR by (subst erase_loop.simps) (auto simp: reps_def node_at_def)
qed

lemma tcol_paint: "tcol (paint RB_BLACK t) = RB_BLACK"
  by (cases t) auto

lemma erase_color_stop:
  assumes R: "reps s t k" and st: "tcol t = RB_RED \<or> k = []" and v: "valid (paint RB_BLACK t)" "kvalid (bh t + 1) RB_BLACK k" "kroot k"
  shows "\<exists>s' T. rb_erase_color (rp t) (kpar k) s = Some s' \<and> reps s' T [] \<and> balanced T \<and> inorder T = inorder (plug t k)"
proof -
  from paint_reps[OF R] obtain s' where s': "blacken_opt (rp t) s = Some s'" "reps s' (paint RB_BLACK t) k" by blast
  have "rb_erase_color (rp t) (kpar k) s = Some s'" using erase_loop_stop[OF R st] s'(1) by (simp add: rb_erase_color_def)
  moreover have "reps s' (plug (paint RB_BLACK t) k) []" using s'(2) plug_reps by blast
  moreover have "valid (plug (paint RB_BLACK t) k)" using v st by (cases "k = []") (auto simp: plug_valid tcol_paint bh_paint)
  moreover have "tcol (plug (paint RB_BLACK t) k) = RB_BLACK"
    using v(3) plug_tcol[of k "paint RB_BLACK t" Lf] by (cases "k = []") (auto simp: kroot_def tcol_paint)
  moreover have "inorder (plug (paint RB_BLACK t) k) = inorder (plug t k)" by (rule plug_inorder) simp
  ultimately show ?thesis by (auto simp: balanced_def)
qed

lemma erase_color_round:
  assumes R: "reps s t (f # k)" and b: "tcol t = RB_BLACK" and o: "\<And>a c. f \<noteq> FR Lf a c"
    and e: "erase_ok (case f of FL a c o1 \<Rightarrow> erase_step_left (rp t) a s | FR o1 a c \<Rightarrow> erase_step_right (rp t) a s) xs k"
    and IH: "\<And>s t. reps s t k \<Longrightarrow> valid (paint RB_BLACK t) \<Longrightarrow> kvalid (bh t + 1) RB_BLACK k \<Longrightarrow> kroot k \<Longrightarrow>
      \<exists>s' T. rb_erase_color (rp t) (kpar k) s = Some s' \<and> reps s' T [] \<and> balanced T \<and> inorder T = inorder (plug t k)"
  shows "\<exists>s' T. rb_erase_color (rp t) (kpar (f # k)) s = Some s' \<and> reps s' T [] \<and> balanced T \<and> inorder T = xs"
proof -
  let ?out = "case f of FL a c o1 \<Rightarrow> erase_step_left (rp t) a s | FR o1 a c \<Rightarrow> erase_step_right (rp t) a s"
  note step = erase_loop_step[OF R b o]
  consider (stop) q s' T where "?out = Some (False, rb_root s', q, s')" "reps s' T []" "valid T" "inorder T = xs"
    | (again) G k' s' where "?out = Some (True, rp G, kpar k', s')" "reps s' G k'" "valid (paint RB_BLACK G)"
        "kvalid (bh G + 1) RB_BLACK k'" "inorder (plug G k') = xs" "tcol G = RB_RED \<or> k' = k" "kroot k'"
    using e unfolding erase_ok_def by blast
  then show ?thesis
  proof cases
    case stop
    have "rb_root s' = rp T" using stop(2) by (simp add: reps_def)
    moreover obtain s2 where "blacken_opt (rp T) s' = Some s2" "reps s2 (paint RB_BLACK T) []" using paint_reps[OF stop(2)] by blast
    ultimately show ?thesis
      using stop valid_paint tcol_paint unfolding rb_erase_color_def step stop(1)
      by (intro exI[of _ s2] exI[of _ "paint RB_BLACK T"]) (auto simp: balanced_def)
  next
    case again
    have "rb_erase_color (rp t) (kpar (f # k)) s = rb_erase_color (rp G) (kpar k') s'"
      unfolding rb_erase_color_def step again(1) by simp
    then show ?thesis using erase_color_stop[OF again(2) _ again(3,4,7)] IH[of s' G] again by auto
  qed
qed

lemma erase_color_ok:
  assumes "reps s t k" "valid (paint RB_BLACK t)" "kvalid (bh t + 1) RB_BLACK k" "kroot k"
  shows "\<exists>s' T. rb_erase_color (rp t) (kpar k) s = Some s' \<and> reps s' T [] \<and> balanced T \<and> inorder T = inorder (plug t k)"
  using assms
proof (induction k arbitrary: s t)
  case Nil
  then show ?case by (intro erase_color_stop) auto
next
  case (Cons f k)
  show ?case
  proof (cases "tcol t = RB_RED")
    case True
    then show ?thesis using Cons.prems by (intro erase_color_stop) auto
  next
    case False
    then have b: "tcol t = RB_BLACK" using tcol_cases by blast
    then have v: "valid t" using Cons.prems(2) by (cases t) auto
    have o: "f \<noteq> FR Lf a c" for a c using Cons.prems(3) bh_pos[of t] by auto
    have "erase_ok (case f of FL a c o1 \<Rightarrow> erase_step_left (rp t) a s | FR o1 a c \<Rightarrow> erase_step_right (rp t) a s) (inorder (plug t (f # k))) k"
    proof (cases f)
      case (FL a c o1)
      then show ?thesis using Cons.prems b v by (auto simp: reps_FL intro!: erase_left_ok)
    next
      case (FR o1 a c)
      then show ?thesis using Cons.prems b v by (auto simp: reps_FR intro!: erase_right_ok)
    qed
    from erase_color_round[OF Cons.prems(1) b o this Cons.IH] show ?thesis .
  qed
qed

end
