(* ===== verification/RbUnlink.thy ===== *)
theory RbUnlink
  imports RbErase
begin

text \<open>
  How \<open>rb_erase\<close> takes a node out of the memory: a node with at most one child is replaced by it, a node with two
  by its successor. Each lemma follows one group of stores.
\<close>

section \<open>Path segments\<close>

fun kparb :: "nat \<Rightarrow> frame list \<Rightarrow> nat" where
  "kparb b [] = b"
| "kparb b (FL a c r # k) = a"
| "kparb b (FR l a c # k) = a"

fun ktop :: "nat \<Rightarrow> frame list \<Rightarrow> nat" where
  "ktop p [] = p"
| "ktop p (FL a c r # k) = ktop a k"
| "ktop p (FR l a c # k) = ktop a k"

text \<open>\<open>repk\<close> for a segment that ends below the node \<open>b\<close>.\<close>

fun repb :: "(nat \<Rightarrow> rb_node) \<Rightarrow> nat \<Rightarrow> nat \<Rightarrow> frame list \<Rightarrow> bool" where
  "repb m p b [] \<longleftrightarrow> True"
| "repb m p b (FL a c r # k) \<longleftrightarrow>
     a \<noteq> 0 \<and> m a = \<lparr>rb_parent = kparb b k, rb_left = p, rb_right = rp r, rb_color = c\<rparr> \<and> rep m a r \<and> repb m a b k"
| "repb m p b (FR l a c # k) \<longleftrightarrow>
     a \<noteq> 0 \<and> m a = \<lparr>rb_parent = kparb b k, rb_left = rp l, rb_right = p, rb_color = c\<rparr> \<and> rep m a l \<and> repb m a b k"

lemma kpar_append: "kpar (k1 @ k2) = kparb (kpar k2) k1"
  by (cases k1 rule: kpar.cases) auto

lemma repk_append: "repk m p (k1 @ k2) \<longleftrightarrow> repb m p (kpar k2) k1 \<and> repk m (ktop p k1) k2"
  by (induction m p "kpar k2" k1 rule: repb.induct) (auto simp: kpar_append)

lemma kaddrs_append: "kaddrs (k1 @ k2) = kaddrs k1 @ kaddrs k2"
  by (induction k1 rule: kaddrs.induct) auto

lemma plug_append: "plug t (k1 @ k2) = plug (plug t k1) k2"
  by (induction t k1 rule: plug.induct) auto

lemma reps_append: "reps s (plug t k1) k2 = reps s t (k1 @ k2)"
  using plug_reps[of s t "k1 @ k2"] plug_reps[of s "plug t k1" k2] by (simp add: plug_append)

lemma rp_plug: "rp (plug t k) = ktop (rp t) k"
  by (induction t k rule: plug.induct) auto

lemma repb_upd [simp]: "a \<notin> set (kaddrs k) \<Longrightarrow> repb (m(a := v)) p b k = repb m p b k"
  by (induction m p b k rule: repb.induct) auto

lemma repb_nonzero: "repb m p b k \<Longrightarrow> 0 \<notin> set (kaddrs k)"
  by (induction m p b k rule: repb.induct) (auto dest: rep_nonzero)

lemma ktop_in: "k \<noteq> [] \<Longrightarrow> ktop p k \<in> set (kaddrs k)"
proof (induction k arbitrary: p)
  case (Cons f k)
  then show ?case by (cases f; cases "k = []") auto
qed simp

lemma ktop_any: "k \<noteq> [] \<Longrightarrow> ktop p k = ktop q k"
  by (cases k rule: kpar.cases) auto

text \<open>The topmost node of a segment gets a new parent.\<close>

lemma repb_set_base:
  assumes "repb m p b k" "k \<noteq> []" "distinct (kaddrs k)"
  shows "repb (m(ktop p k := (m (ktop p k))\<lparr>rb_parent := b'\<rparr>)) p b' k"
  using assms
proof (induction k arbitrary: p)
  case (Cons f k)
  show ?case
  proof (cases "k = []")
    case True
    then show ?thesis using Cons.prems by (cases f) (auto simp: rep_upd[unfolded fun_upd_def])
  next
    case False
    have top: "ktop a k \<in> set (kaddrs k)" for a using False by (rule ktop_in)
    have par: "kparb b' k = kparb b k" using False by (cases k rule: kpar.cases) auto
    show ?thesis
    proof (cases f)
      case (FL a c r)
      have "ktop a k \<noteq> a" "ktop a k \<notin> set (inorder r)" using top[of a] Cons.prems(3) FL by auto
      then show ?thesis using Cons.IH[of a] Cons.prems False FL par by (simp add: rep_upd[unfolded fun_upd_def])
    next
      case (FR l a c)
      have "ktop a k \<noteq> a" "ktop a k \<notin> set (inorder l)" using top[of a] Cons.prems(3) FR by auto
      then show ?thesis using Cons.IH[of a] Cons.prems False FR par by (simp add: rep_upd[unfolded fun_upd_def])
    qed
  qed
qed simp

lemma rep_cong: "(\<And>a. a \<in> set (inorder t) \<Longrightarrow> m a = m' a) \<Longrightarrow> rep m par t = rep m' par t"
  by (induction t arbitrary: par) auto

lemma repb_cong: "(\<And>a. a \<in> set (kaddrs k) \<Longrightarrow> m a = m' a) \<Longrightarrow> repb m p b k = repb m' p b k"
  by (induction m p b k rule: repb.induct) (auto cong: rep_cong)

lemma repk_cong: "(\<And>a. a \<in> set (kaddrs k) \<Longrightarrow> m a = m' a) \<Longrightarrow> repk m p k = repk m' p k"
  by (induction m p k rule: repk.induct) (auto cong: rep_cong)

lemma rep_set_parent:
  "rep m par t \<Longrightarrow> distinct (inorder t) \<Longrightarrow> t \<noteq> Lf \<Longrightarrow> rep (m(rp t := (m (rp t))\<lparr>rb_parent := par'\<rparr>)) par' t"
  by (cases t) auto

section \<open>The stores\<close>

lemma replace_child_ok:
  assumes "repk (rb_mem s) x k" "x \<noteq> 0" "x \<notin> set (kaddrs k)" "distinct (kaddrs k)"
  shows "\<exists>s'. replace_child (kpar k) x y s = Some s' \<and> rb_root s' = (if k = [] then y else rb_root s) \<and>
    repk (rb_mem s') y k \<and> (\<forall>a. a \<notin> set (kaddrs k) \<longrightarrow> rb_mem s' a = rb_mem s a)"
proof (cases k rule: kpar.cases)
  case 1
  then show ?thesis by (auto simp: replace_child_def)
next
  case (2 a c r k')
  then show ?thesis using assms by (auto simp: replace_child_def node_at_def set_left_def set_node_def)
next
  case (3 l a c k')
  have "rp l \<noteq> x" using assms 3 by (cases l) auto
  then show ?thesis using assms 3 by (auto simp: replace_child_def node_at_def set_right_def set_node_def)
qed

lemma set_parent_opt_ok:
  assumes "rep (rb_mem s) par t" "distinct (inorder t)"
  shows "\<exists>s'. set_parent_opt (rp t) par' s = Some s' \<and> rb_root s' = rb_root s \<and> rep (rb_mem s') par' t \<and>
    (\<forall>a. a \<notin> set (inorder t) \<longrightarrow> rb_mem s' a = rb_mem s a)"
proof (cases "t = Lf")
  case True
  then show ?thesis by (simp add: set_parent_opt_def)
next
  case False
  then have "rp t \<noteq> 0" "rp t \<in> set (inorder t)" using rp_zero[OF assms(1)] rp_in by auto
  then show ?thesis
    using rep_set_parent[OF assms False, of par'] by (auto simp: set_parent_opt_def set_parent_def set_node_def)
qed

text \<open>A node with at most one child.\<close>

lemma unlink_one:
  assumes R: "reps s (Br l x c r) k" and ch: "l = Lf \<and> ch = r \<or> r = Lf \<and> ch = l"
  shows "\<exists>s1 s2. set_parent_opt (rp ch) (kpar k) s = Some s1 \<and> replace_child (kpar k) x (rp ch) s1 = Some s2 \<and> reps s2 ch k"
proof -
  have f: "rep (rb_mem s) x ch" "distinct (inorder ch)" "repk (rb_mem s) x k" "x \<noteq> 0" "x \<notin> set (kaddrs k)" "distinct (kaddrs k)"
      "set (inorder ch) \<inter> set (kaddrs k) = {}" "rb_root s = ktop x k"
    using R ch by (auto simp: reps_def rp_plug)
  obtain s1 where 1: "set_parent_opt (rp ch) (kpar k) s = Some s1" "rb_root s1 = rb_root s" "rep (rb_mem s1) (kpar k) ch"
      "\<And>a. a \<notin> set (inorder ch) \<Longrightarrow> rb_mem s1 a = rb_mem s a" using set_parent_opt_ok[OF f(1,2)] by blast
  have "repk (rb_mem s1) x k" using f(3,7) 1(4) repk_cong[of k "rb_mem s1" "rb_mem s" x] by auto
  then obtain s2 where 2: "replace_child (kpar k) x (rp ch) s1 = Some s2" "rb_root s2 = (if k = [] then rp ch else rb_root s1)"
      "repk (rb_mem s2) (rp ch) k" "\<And>a. a \<notin> set (kaddrs k) \<Longrightarrow> rb_mem s2 a = rb_mem s1 a"
    using replace_child_ok[of s1 x k "rp ch"] f(4-6) by auto
  have "rep (rb_mem s2) (kpar k) ch" using 1(3) 2(4) f(7) rep_cong[of ch "rb_mem s2" "rb_mem s1" "kpar k"] by auto
  then have "reps s2 ch k" using f 1(2) 2(2,3) ktop_any[of k x "rp ch"] by (auto simp: reps_def rp_plug)
  then show ?thesis using 1(1) 2(1) by blast
qed

section \<open>The successor\<close>

fun is_FL :: "frame \<Rightarrow> bool" where
  "is_FL (FL a c r) = True"
| "is_FL (FR l a c) = False"

lemma leftmost_ok:
  assumes "rep (rb_mem s) par t" "t \<noteq> Lf"
  shows "\<exists>kl y cy yr. t = plug (Br Lf y cy yr) kl \<and> list_all is_FL kl \<and> leftmost s (rp t) = Some y"
  using assms
proof (induction t arbitrary: par)
  case (Br l a c r)
  have n: "node_at s a = Some \<lparr>rb_parent = par, rb_left = rp l, rb_right = rp r, rb_color = c\<rparr>" using Br.prems by (simp add: node_at_def)
  show ?case
  proof (cases "l = Lf")
    case True
    then show ?thesis using n by (intro exI[of _ "[]"]) (auto simp: leftmost.simps[of s a])
  next
    case False
    from Br.IH(1)[of a] Br.prems False obtain kl y cy yr where
      l: "l = plug (Br Lf y cy yr) kl" "list_all is_FL kl" "leftmost s (rp l) = Some y" by auto
    have "rp l \<noteq> 0" using Br.prems False rp_zero[of "rb_mem s" a l] by simp
    then have "leftmost s a = Some y" using n l(3) by (subst leftmost.simps) simp
    then show ?thesis using l by (intro exI[of _ "kl @ [FL a c r]"]) (auto simp: plug_append)
  qed
qed simp

lemma splice_up_ok:
  assumes m: "rep (rb_mem s) y yr" "repb (rb_mem s) y x kl" "x \<noteq> 0" "y \<noteq> 0" "rb_right (rb_mem s x) = ktop y kl" "rb_right (rb_mem s y) = rp yr"
    and d: "distinct (x # y # inorder yr @ kaddrs kl)" and fl: "list_all is_FL kl"
  shows "\<exists>s'. splice_up x y (rp yr) (kparb x kl) s = Some (kparb y kl, s') \<and> rb_root s' = rb_root s \<and> rep (rb_mem s') (kparb y kl) yr \<and>
    repb (rb_mem s') (rp yr) y kl \<and> rb_right (rb_mem s' y) = ktop (rp yr) kl \<and> (\<forall>a. a \<notin> set (y # inorder yr @ kaddrs kl) \<longrightarrow> rb_mem s' a = rb_mem s a)"
proof (cases kl)
  case Nil
  then show ?thesis using m by (simp add: splice_up_def)
next
  case (Cons f kl')
  then obtain q qc qr where f: "f = FL q qc qr" using fl by (cases f) auto
  have q: "q \<noteq> 0" "q \<noteq> x" "q \<noteq> y" "q \<notin> set (inorder yr)" using m(2) d Cons f by auto
  obtain s1 where 1: "set_parent_opt (rp yr) q s = Some s1" "rb_root s1 = rb_root s" "rep (rb_mem s1) q yr"
      "\<And>a. a \<notin> set (inorder yr) \<Longrightarrow> rb_mem s1 a = rb_mem s a"
    using set_parent_opt_ok[OF m(1), of q] d by auto
  have b1: "repb (rb_mem s1) y x kl" using m(2) 1(4) d repb_cong[of kl "rb_mem s1" "rb_mem s" y x] by auto
  define m2 where "m2 = (rb_mem s1)(q := (rb_mem s1 q)\<lparr>rb_left := rp yr\<rparr>)"
  have b2: "repb m2 (rp yr) x kl" using b1 d Cons f by (auto simp: m2_def)
  define top where "top = ktop (rp yr) kl"
  have top: "top \<in> set (kaddrs kl)" "top = ktop y kl" using ktop_in[of kl] ktop_any[of kl "rp yr" y] Cons by (auto simp: top_def)
  have tn: "top \<noteq> y" "top \<noteq> x" "top \<notin> set (inorder yr)" using top(1) d by auto
  define m3 where "m3 = m2(y := (m2 y)\<lparr>rb_right := top\<rparr>)"
  define m4 where "m4 = m3(top := (m3 top)\<lparr>rb_parent := y\<rparr>)"
  have tz: "top \<noteq> 0" using top(1) repb_nonzero[OF b2] by metis
  have x2: "rb_right (rb_mem s1 x) = top" using m(5) 1(4)[of x] d top(2) by auto
  have run: "splice_up x y (rp yr) (kparb x kl) s = Some (q, s1\<lparr>rb_mem := m4\<rparr>)"
    using 1(1) q m(3,4) x2 tz tn Cons f
    by (simp add: splice_up_def set_left_def set_right_def set_parent_def set_node_def node_at_def m2_def m3_def m4_def)
  have r3: "repb m3 (rp yr) x kl" "rep m2 q yr" using b2 d 1(3) q by (auto simp: m3_def m2_def)
  have "repb m4 (rp yr) y kl" unfolding m4_def top_def by (rule repb_set_base[OF r3(1)]) (use d Cons in auto)
  moreover have "rep m4 q yr" using r3(2) d tn by (simp add: m4_def m3_def)
  moreover have "rb_right (m4 y) = top" using tn by (simp add: m4_def m3_def)
  moreover have "m4 a = rb_mem s a" if "a \<notin> set (y # inorder yr @ kaddrs kl)" for a
    using that 1(4)[of a] top(1) Cons f by (auto simp: m4_def m3_def m2_def)
  ultimately show ?thesis using run 1(2) Cons f top_def by auto
qed

lemma unlink_two:
  assumes R: "reps s (Br l x c (plug (Br Lf y cy yr) kl)) k" and l: "l \<noteq> Lf" and fl: "list_all is_FL kl"
    and lm: "leftmost s (rp (plug (Br Lf y cy yr) kl)) = Some y"
  shows "\<exists>s'. erase_two x s = (if cy = RB_BLACK then rb_erase_color (rp yr) (kpar (kl @ FR l y c # k)) s' else Some s') \<and>
    reps s' yr (kl @ FR l y c # k)"
proof -
  let ?m = "rb_mem s" and ?top = "ktop y kl"
  have P: "reps s (Br Lf y cy yr) (kl @ FR l x c # k)" using R by (simp add: reps_append[symmetric] reps_FR)
  then have f: "y \<noteq> 0" "?m y = \<lparr>rb_parent = kparb x kl, rb_left = 0, rb_right = rp yr, rb_color = cy\<rparr>" "rep ?m y yr" "repb ?m y x kl"
      "x \<noteq> 0" "?m x = \<lparr>rb_parent = kpar k, rb_left = rp l, rb_right = ?top, rb_color = c\<rparr>" "rep ?m x l" "repk ?m x k"
      "rb_root s = ktop x k"
    by (auto simp: reps_def kpar_append repk_append plug_append rp_plug)
  have d: "distinct (x # y # inorder yr @ kaddrs kl @ inorder l @ kaddrs k)" using P by (auto simp: reps_def kaddrs_append)
  obtain s1 where 1: "replace_child (kpar k) x y s = Some s1" "rb_root s1 = (if k = [] then y else rb_root s)" "repk (rb_mem s1) y k"
      "\<And>a. a \<notin> set (kaddrs k) \<Longrightarrow> rb_mem s1 a = ?m a"
    using replace_child_ok[OF f(8,5), of y] d by auto
  have e1: "rep (rb_mem s1) y yr" "repb (rb_mem s1) y x kl" "rep (rb_mem s1) x l" "rb_mem s1 x = ?m x" "rb_mem s1 y = ?m y"
    using f d 1(4) rep_cong[of yr "rb_mem s1" ?m y] repb_cong[of kl "rb_mem s1" ?m y x] rep_cong[of l "rb_mem s1" ?m x] by auto
  obtain s2 where 2: "splice_up x y (rp yr) (kparb x kl) s1 = Some (kparb y kl, s2)" "rb_root s2 = rb_root s1" "rep (rb_mem s2) (kparb y kl) yr"
      "repb (rb_mem s2) (rp yr) y kl" "rb_right (rb_mem s2 y) = ktop (rp yr) kl"
      "\<And>a. a \<notin> set (y # inorder yr @ kaddrs kl) \<Longrightarrow> rb_mem s2 a = rb_mem s1 a"
    using splice_up_ok[OF e1(1,2) f(5,1)] e1(4,5) f(2,6) d fl by fastforce
  have same: "rb_mem s2 a = rb_mem s1 a" if "a = x \<or> a \<in> set (inorder l) \<or> a \<in> set (kaddrs k)" for a
    by (rule 2(6)) (use that d in auto)
  have e2: "rep (rb_mem s2) x l" "repk (rb_mem s2) y k" "rb_mem s2 x = ?m x"
    using e1 1(3) same rep_cong[of l "rb_mem s2" "rb_mem s1" x] repk_cong[of k "rb_mem s2" "rb_mem s1" y] by auto
  define m3 where "m3 = (rb_mem s2)(y := \<lparr>rb_parent = kpar k, rb_left = rp l, rb_right = ktop (rp yr) kl, rb_color = c\<rparr>)"
  define s4 where "s4 = s2\<lparr>rb_mem := m3(rp l := (m3 (rp l))\<lparr>rb_parent := y\<rparr>)\<rparr>"
  have ln: "rp l \<noteq> 0" "rp l \<in> set (inorder l)" using l rp_in rp_zero[OF f(7)] by auto
  have run: "erase_two x s = (if cy = RB_BLACK then rb_erase_color (rp yr) (kparb y kl) s4 else Some s4)"
  proof -
    have "(rb_mem s2 y)\<lparr>rb_parent := kpar k, rb_color := c, rb_left := rp l\<rparr> =
        \<lparr>rb_parent = kpar k, rb_left = rp l, rb_right = ktop (rp yr) kl, rb_color = c\<rparr>" using 2(5) by (cases "rb_mem s2 y") simp
    then show ?thesis
      using lm 1(1) 2(1) f(1,2,5,6) e1(5) e2(3) ln(1) rp_plug[of "Br Lf y cy yr" kl]
      by (simp add: erase_two_def Let_def node_at_def set_parent_def set_color_def set_left_def set_node_def s4_def m3_def)
  qed
  have e4: "rep (rb_mem s4) y l" using rep_set_parent[of m3 x l y] e2(1) l d ln by (simp add: s4_def m3_def)
  have lo: "rp l \<noteq> y" "rp l \<notin> set (inorder yr)" "rp l \<notin> set (kaddrs kl)" "rp l \<notin> set (kaddrs k)" using ln d by auto
  have root: "rb_root s4 = ktop y k" using 1(2) 2(2) f(9) ktop_any[of k x y] by (simp add: s4_def)
  have dy: "distinct (inorder yr @ kaddrs kl @ inorder l @ y # kaddrs k)" using d by auto
  have "reps s4 yr (kl @ FR l y c # k)"
    using e4 2(3,4) e2(2) d lo f(1) root dy
    by (simp add: reps_def kpar_append repk_append kaddrs_append plug_append rp_plug s4_def m3_def)
  then show ?thesis using run by (auto simp: kpar_append)
qed

section \<open>Deletion\<close>

text \<open>The nodes before and after the hole of a path, in order.\<close>

fun kbef :: "frame list \<Rightarrow> nat list" where
  "kbef [] = []"
| "kbef (FL a c r # k) = kbef k"
| "kbef (FR l a c # k) = kbef k @ inorder l @ [a]"

fun kaft :: "frame list \<Rightarrow> nat list" where
  "kaft [] = []"
| "kaft (FL a c r # k) = a # inorder r @ kaft k"
| "kaft (FR l a c # k) = kaft k"

lemma inorder_plug: "inorder (plug t k) = kbef k @ inorder t @ kaft k"
  by (induction t k rule: plug.induct) auto

lemma kbef_left: "list_all is_FL k \<Longrightarrow> kbef k = []"
proof (induction k)
  case (Cons f k)
  then show ?case by (cases f) auto
qed simp

lemma kb_append: "kbef (k1 @ k2) = kbef k2 @ kbef k1" "kaft (k1 @ k2) = kaft k1 @ kaft k2"
  by (induction k1 rule: kbef.induct) auto

lemma kvalid_append: "kvalid h c (k1 @ k2) \<Longrightarrow> \<exists>h' c'. kvalid h' c' k2 \<and> (\<forall>k3. kvalid h' c' k3 \<longrightarrow> kvalid h c (k1 @ k3))"
  by (induction h c k1 rule: kvalid.induct) auto

lemma kroot_swap: "tcol (plug (Br l x c r) k) = RB_BLACK \<Longrightarrow> kroot (kl @ FR l' y c # k)"
proof -
  assume a: "tcol (plug (Br l x c r) k) = RB_BLACK"
  have "tcol (plug (Br l' y c t) k) = RB_BLACK" for t
    using a plug_tcol[of k "Br l x c r" "Br l' y c t"] by (cases "k = []") auto
  then show ?thesis by (simp add: kroot_def plug_append)
qed

lemma erase_two_ok:
  assumes R: "reps s (Br l x c r) k" and b: "balanced (plug (Br l x c r) k)" and l: "l \<noteq> Lf" and r: "r \<noteq> Lf"
  shows "\<exists>s' T. erase_two x s = Some s' \<and> reps s' T [] \<and> balanced T \<and> inorder T = kbef k @ inorder l @ inorder r @ kaft k"
proof -
  have "rep (rb_mem s) x r" using R by (simp add: reps_def)
  from leftmost_ok[OF this r] obtain kl y cy yr where
    y: "r = plug (Br Lf y cy yr) kl" "list_all is_FL kl" "leftmost s (rp r) = Some y" by blast
  let ?k = "kl @ FR l y c # k"
  obtain s' where s': "erase_two x s = (if cy = RB_BLACK then rb_erase_color (rp yr) (kpar ?k) s' else Some s')" "reps s' yr ?k"
    using unlink_two[OF R[unfolded y(1)] l y(2)] y(1,3) by auto
  have "valid (plug (Br Lf y cy yr) (kl @ FR l x c # k))" using b y(1) by (simp add: balanced_def plug_append)
  then have v: "valid (Br Lf y cy yr)" "kvalid (bh (Br Lf y cy yr)) cy (kl @ FR l x c # k)"
    unfolding plug_valid tcol.simps by blast+
  have kv: "kvalid (bh (Br Lf y cy yr)) cy ?k" using kvalid_append[OF v(2)] by auto
  have kr: "kroot ?k" using b kroot_swap[of l x c r k kl l y] by (simp add: balanced_def)
  have xs: "inorder (plug yr ?k) = kbef k @ inorder l @ inorder r @ kaft k"
    using kbef_left[OF y(2)] y(1) by (simp add: inorder_plug kb_append)
  show ?thesis
  proof (cases cy)
    case RB_BLACK
    have "bh (Br Lf y RB_BLACK yr) = bh yr + 1" using v(1) by simp
    then have "kvalid (bh yr + 1) RB_BLACK ?k" using kvalid_black[OF kv] RB_BLACK by metis
    moreover have "valid yr" using v(1) by simp
    ultimately show ?thesis using erase_color_ok[OF s'(2) valid_paint _ kr] s'(1) RB_BLACK xs by simp
  next
    case RB_RED
    then have "valid (plug yr ?k)" "tcol yr = RB_BLACK" using v(1) kvalid_black[OF kv] by (auto simp: plug_valid)
    moreover have "tcol (plug yr ?k) = RB_BLACK" using kr plug_tcol[of ?k yr Lf] by (simp add: kroot_def)
    moreover have "reps s' (plug yr ?k) []" using s'(2) plug_reps by blast
    ultimately show ?thesis using s'(1) RB_RED xs by (auto simp: balanced_def)
  qed
qed

lemma rb_erase_focus:
  assumes R: "reps s (Br l x c r) k" and b: "balanced (plug (Br l x c r) k)"
  shows "\<exists>s' T. rb_erase x s = Some s' \<and> reps s' T [] \<and> balanced T \<and> inorder T = kbef k @ inorder l @ inorder r @ kaft k"
proof (cases "l \<noteq> Lf \<and> r \<noteq> Lf")
  case True
  then have "rp l \<noteq> 0" "rp r \<noteq> 0" using R rp_zero[of "rb_mem s" x] by (auto simp: reps_def)
  then show ?thesis using erase_two_ok[OF R b] True node_at_focus[OF R] by (simp add: rb_erase_def)
next
  case False
  define ch where "ch = (if l = Lf then r else l)"
  have ch: "l = Lf \<and> ch = r \<or> r = Lf \<and> ch = l" using False by (auto simp: ch_def)
  have rch: "(if rp l = 0 then rp r else rp l) = rp ch" "\<not> (rp l \<noteq> 0 \<and> rp r \<noteq> 0)"
    using R False rp_zero[of "rb_mem s" x] by (auto simp: ch_def reps_def)
  obtain s1 s2 where u: "set_parent_opt (rp ch) (kpar k) s = Some s1" "replace_child (kpar k) x (rp ch) s1 = Some s2" "reps s2 ch k"
    using unlink_one[OF R ch] by blast
  have run: "rb_erase x s = (if c = RB_BLACK then rb_erase_color (rp ch) (kpar k) s2 else Some s2)"
    using node_at_focus[OF R] u(1,2) rch by (cases "rp l = 0") (simp_all add: rb_erase_def Let_def)
  have v: "valid (Br l x c r)" "kvalid (bh (Br l x c r)) c k" "tcol (plug (Br l x c r) k) = RB_BLACK"
    using b by (auto simp: balanced_def plug_valid)
  have chv: "valid ch" "bh ch = bh l" "c = RB_RED \<Longrightarrow> tcol ch = RB_BLACK" using ch v(1) by auto
  have xs: "inorder (plug ch k) = kbef k @ inorder l @ inorder r @ kaft k" using ch by (auto simp: inorder_plug)
  have kr: "kroot k" using v(3) plug_tcol[of k "Br l x c r" Lf] by (auto simp: kroot_def)
  show ?thesis
  proof (cases c)
    case RB_BLACK
    then show ?thesis
      using erase_color_ok[OF u(3) valid_paint[OF chv(1)] _ kr] run kvalid_black[OF v(2)] chv xs by auto
  next
    case RB_RED
    then have "k \<noteq> []" using v(3) by auto
    then have "tcol (plug ch k) = RB_BLACK" using kr plug_tcol[of k ch Lf] by (simp add: kroot_def)
    moreover have "valid (plug ch k)" using chv kvalid_black[OF v(2)] RB_RED by (simp add: plug_valid)
    moreover have "reps s2 (plug ch k) []" using u(3) plug_reps by blast
    ultimately show ?thesis using run RB_RED xs by (auto simp: balanced_def)
  qed
qed

end
