(* ===== verification/RbProps.thy ===== *)
theory RbProps
  imports RbUnlink
begin

text \<open>
  What the users of \<open>lib/rbtree.c\<close> rely on. \<open>rb_holds s xs\<close> says that the memory of \<open>s\<close> holds a balanced tree whose
  nodes are, in order, \<open>xs\<close>: linking and recolouring a new node inserts it at its place, erasing a node takes it out,
  the traversal visits \<open>xs\<close>, and \<open>rb_validate\<close> decides the balance.
\<close>

definition rb_holds :: "rb_tree \<Rightarrow> nat list \<Rightarrow> bool" where
  "rb_holds s xs \<longleftrightarrow> (\<exists>T. reps s T [] \<and> balanced T \<and> inorder T = xs)"

lemma focus_exists:
  assumes "a \<in> set (inorder T)"
  shows "\<exists>l c r k. T = plug (Br l a c r) k"
  using assms
proof (induction T)
  case (Br l b c r)
  then consider "a \<in> set (inorder l)" | "a = b" | "a \<in> set (inorder r)" by auto
  then show ?case
  proof cases
    case 1
    then obtain l' c' r' k where "l = plug (Br l' a c' r') k" using Br.IH(1) by blast
    then have "Br l b c r = plug (Br l' a c' r') (k @ [FL b c r])" by (simp add: plug_append)
    then show ?thesis by blast
  next
    case 2
    then have "Br l b c r = plug (Br l a c r) []" by simp
    then show ?thesis by blast
  next
    case 3
    then obtain l' c' r' k where "r = plug (Br l' a c' r') k" using Br.IH(2) by blast
    then have "Br l b c r = plug (Br l' a c' r') (k @ [FR l b c])" by (simp add: plug_append)
    then show ?thesis by blast
  qed
qed simp

lemma split_unique:
  assumes "distinct (us @ a # vs)" "us @ a # vs = us' @ a # vs'"
  shows "us = us' \<and> vs = vs'"
  using assms(2,1)
proof (induction us arbitrary: us')
  case Nil
  then show ?case by (cases us') auto
next
  case (Cons u us)
  then show ?case by (cases us') auto
qed

text \<open>The node \<open>a\<close> of a tree that holds \<open>us @ a # vs\<close>.\<close>

lemma holds_focus:
  assumes "rb_holds s (us @ a # vs)"
  obtains l c r k where "reps s (Br l a c r) k" "balanced (plug (Br l a c r) k)" "us = kbef k @ inorder l" "vs = inorder r @ kaft k"
proof -
  obtain T where T: "reps s T []" "balanced T" "inorder T = us @ a # vs" using assms by (auto simp: rb_holds_def)
  then obtain l c r k where k: "T = plug (Br l a c r) k" using focus_exists[of a T] by auto
  have "distinct (us @ a # vs)" using T(1,3) by (simp add: reps_def)
  moreover have "us @ a # vs = (kbef k @ inorder l) @ a # (inorder r @ kaft k)" using T(3) k by (simp add: inorder_plug)
  ultimately have "us = kbef k @ inorder l \<and> vs = inorder r @ kaft k" by (rule split_unique)
  then show ?thesis using that T k plug_reps by blast
qed

section \<open>Insertion\<close>

lemma link_ok:
  assumes R: "reps s Lf k" and a: "a \<noteq> 0" "a \<notin> set (kaddrs k)"
    and slot: "slot = (case k of [] \<Rightarrow> Root_slot | FL p c r # _ \<Rightarrow> Left_slot p | FR l p c # _ \<Rightarrow> Right_slot p)"
  shows "\<exists>s'. rb_link_node a (kpar k) slot s = Some s' \<and> reps s' (Br Lf a RB_RED Lf) k"
proof -
  define m where "m = (rb_mem s)(a := \<lparr>rb_parent = kpar k, rb_left = 0, rb_right = 0, rb_color = RB_RED\<rparr>)"
  have run: "rb_link_node a (kpar k) slot s = store_slot slot a (s\<lparr>rb_mem := m\<rparr>)"
    using a by (cases "rb_mem s a") (simp add: rb_link_node_def set_parent_def set_color_def set_left_def set_right_def set_node_def m_def)
  show ?thesis
    using R a slot unfolding run
    by (cases k rule: kpar.cases) (auto simp: reps_def m_def set_left_def set_right_def set_node_def rp_plug)
qed

lemma insert_at_hole:
  assumes R: "reps s Lf k" and b: "balanced (plug Lf k)" and a: "a \<noteq> 0" "a \<notin> set (kaddrs k)"
    and slot: "slot = (case k of [] \<Rightarrow> Root_slot | FL p c r # _ \<Rightarrow> Left_slot p | FR l p c # _ \<Rightarrow> Right_slot p)"
  shows "\<exists>s1 s2. rb_link_node a (kpar k) slot s = Some s1 \<and> rb_insert_color a s1 = Some s2 \<and> rb_holds s2 (kbef k @ a # kaft k)"
proof -
  obtain s1 where s1: "rb_link_node a (kpar k) slot s = Some s1" "reps s1 (Br Lf a RB_RED Lf) k" using link_ok[OF R a slot] by blast
  have "kvalid (bh Lf) (tcol Lf) k" using b by (simp add: balanced_def plug_valid)
  from rb_insert_color_ok[OF s1(2)] this obtain s2 T where
    s2: "rb_insert_color a s1 = Some s2" "reps s2 T []" "balanced T" "inorder T = inorder (plug (Br Lf a RB_RED Lf) k)" by auto
  have "rb_holds s2 (kbef k @ a # kaft k)" using s2 by (auto simp: rb_holds_def inorder_plug)
  then show ?thesis using s1(1) s2(1) by blast
qed

text \<open>Where a new node \<open>a\<close> may be linked, and the order that gives.\<close>

definition link_place :: "rb_tree \<Rightarrow> nat list \<Rightarrow> nat \<Rightarrow> nat \<Rightarrow> rb_slot \<Rightarrow> nat list \<Rightarrow> bool" where
  "link_place s xs a parent slot ys \<longleftrightarrow>
     slot = Root_slot \<and> parent = 0 \<and> xs = [] \<and> ys = [a] \<or>
     (\<exists>us vs. xs = us @ parent # vs \<and>
        (slot = Left_slot parent \<and> rb_left (rb_mem s parent) = 0 \<and> ys = us @ a # parent # vs \<or>
         slot = Right_slot parent \<and> rb_right (rb_mem s parent) = 0 \<and> ys = us @ parent # a # vs))"

lemma set_kaddrs: "set (kaddrs k) = set (kbef k) \<union> set (kaft k)"
  by (induction k rule: kaddrs.induct) auto

lemma rb_insert_ok:
  assumes h: "rb_holds s xs" and a: "a \<noteq> 0" "a \<notin> set xs" and p: "link_place s xs a parent slot ys"
  shows "\<exists>s1 s2. rb_link_node a parent slot s = Some s1 \<and> rb_insert_color a s1 = Some s2 \<and> rb_holds s2 ys"
proof -
  consider (root) "slot = Root_slot" "parent = 0" "xs = []" "ys = [a]"
    | (left) us vs where "xs = us @ parent # vs" "slot = Left_slot parent" "rb_left (rb_mem s parent) = 0" "ys = us @ a # parent # vs"
    | (right) us vs where "xs = us @ parent # vs" "slot = Right_slot parent" "rb_right (rb_mem s parent) = 0" "ys = us @ parent # a # vs"
    using p unfolding link_place_def by blast
  then show ?thesis
  proof cases
    case root
    obtain T where T: "reps s T []" "balanced T" "inorder T = []" using h root by (auto simp: rb_holds_def)
    then have "T = Lf" by (cases T) auto
    then show ?thesis using insert_at_hole[of s "[]" a slot] T a root by simp
  next
    case left
    from holds_focus[OF h[unfolded left(1)]] obtain l c r k where
      f: "reps s (Br l parent c r) k" "balanced (plug (Br l parent c r) k)" "us = kbef k @ inorder l" "vs = inorder r @ kaft k" .
    have "l = Lf" using mem_focus[OF f(1)] left(3) f(1) rp_zero[of "rb_mem s" parent l] by (simp add: reps_def)
    moreover have "a \<notin> set (kaddrs (FL parent c r # k))"
      using a(2) left(1) f by (auto simp: set_kaddrs)
    ultimately show ?thesis
      using insert_at_hole[of s "FL parent c r # k" a slot] f a left by (simp add: reps_FL)
  next
    case right
    from holds_focus[OF h[unfolded right(1)]] obtain l c r k where
      f: "reps s (Br l parent c r) k" "balanced (plug (Br l parent c r) k)" "us = kbef k @ inorder l" "vs = inorder r @ kaft k" .
    have "r = Lf" using mem_focus[OF f(1)] right(3) f(1) rp_zero[of "rb_mem s" parent r] by (simp add: reps_def)
    moreover have "a \<notin> set (kaddrs (FR l parent c # k))"
      using a(2) right(1) f by (auto simp: set_kaddrs)
    ultimately show ?thesis
      using insert_at_hole[of s "FR l parent c # k" a slot] f a right by (simp add: reps_FR)
  qed
qed

section \<open>Traversal\<close>

definition hd0 :: "nat list \<Rightarrow> nat" where
  "hd0 xs = (case xs of [] \<Rightarrow> 0 | x # _ \<Rightarrow> x)"

definition last0 :: "nat list \<Rightarrow> nat" where
  "last0 xs = (if xs = [] then 0 else last xs)"

lemma leftmost_hd: "rep (rb_mem s) par t \<Longrightarrow> t \<noteq> Lf \<Longrightarrow> leftmost s (rp t) = Some (hd0 (inorder t @ ys))"
proof (induction t arbitrary: par ys)
  case (Br l a c r)
  have "node_at s a = Some \<lparr>rb_parent = par, rb_left = rp l, rb_right = rp r, rb_color = c\<rparr>" using Br.prems by (simp add: node_at_def)
  then show ?case
    using Br rp_zero[of "rb_mem s" a l] Br.IH(1)[of a "a # inorder r @ ys"]
    by (cases "l = Lf") (auto simp: leftmost.simps[of s a] hd0_def)
qed simp

lemma rightmost_last: "rep (rb_mem s) par t \<Longrightarrow> t \<noteq> Lf \<Longrightarrow> rightmost s (rp t) = Some (last0 (ys @ inorder t))"
proof (induction t arbitrary: par ys)
  case (Br l a c r)
  have "node_at s a = Some \<lparr>rb_parent = par, rb_left = rp l, rb_right = rp r, rb_color = c\<rparr>" using Br.prems by (simp add: node_at_def)
  then show ?case
    using Br rp_zero[of "rb_mem s" a r] Br.IH(2)[of a "ys @ inorder l @ [a]"]
    by (cases "r = Lf") (auto simp: rightmost.simps[of s a] last0_def)
qed simp

lemma climb_right_ok: "reps s (Br l a c r) k \<Longrightarrow> climb_right s a = Some (hd0 (kaft k))"
proof (induction k arbitrary: l a c r)
  case Nil
  then show ?case by (subst climb_right.simps) (simp add: node_at_focus hd0_def)
next
  case (Cons f k)
  show ?case
  proof (cases f)
    case (FL p pc pr)
    have P: "reps s (Br (Br l a c r) p pc pr) k" using Cons.prems FL by (simp add: reps_FL)
    have "rp pr \<noteq> a" using P by (cases pr) (auto simp: reps_def)
    then show ?thesis using node_at_focus[OF Cons.prems] node_at_focus[OF P] mem_focus[OF P] FL by (subst climb_right.simps) (simp add: hd0_def)
  next
    case (FR pl p pc)
    have P: "reps s (Br pl p pc (Br l a c r)) k" using Cons.prems FR by (simp add: reps_FR)
    then show ?thesis
      using node_at_focus[OF Cons.prems] node_at_focus[OF P] mem_focus[OF P] FR Cons.IH[OF P] by (subst climb_right.simps) simp
  qed
qed

lemma climb_left_ok: "reps s (Br l a c r) k \<Longrightarrow> climb_left s a = Some (last0 (kbef k))"
proof (induction k arbitrary: l a c r)
  case Nil
  then show ?case by (subst climb_left.simps) (simp add: node_at_focus last0_def)
next
  case (Cons f k)
  show ?case
  proof (cases f)
    case (FR pl p pc)
    have P: "reps s (Br pl p pc (Br l a c r)) k" using Cons.prems FR by (simp add: reps_FR)
    have "rp pl \<noteq> a" using P by (cases pl) (auto simp: reps_def)
    then show ?thesis using node_at_focus[OF Cons.prems] node_at_focus[OF P] mem_focus[OF P] FR by (subst climb_left.simps) (simp add: last0_def)
  next
    case (FL p pc pr)
    have P: "reps s (Br (Br l a c r) p pc pr) k" using Cons.prems FL by (simp add: reps_FL)
    then show ?thesis
      using node_at_focus[OF Cons.prems] node_at_focus[OF P] mem_focus[OF P] FL Cons.IH[OF P] by (subst climb_left.simps) simp
  qed
qed

lemma next_prev_ok:
  assumes "rb_holds s (us @ a # vs)"
  shows "rb_next s a = Some (hd0 vs)" "rb_prev s a = Some (last0 us)" "a \<noteq> 0"
proof -
  from holds_focus[OF assms] obtain l c r k where
    f: "reps s (Br l a c r) k" "balanced (plug (Br l a c r) k)" "us = kbef k @ inorder l" "vs = inorder r @ kaft k" .
  have z: "rp l = 0 \<longleftrightarrow> l = Lf" "rp r = 0 \<longleftrightarrow> r = Lf" "rep (rb_mem s) a l" "rep (rb_mem s) a r"
    using f(1) rp_zero[of "rb_mem s" a] by (auto simp: reps_def)
  show "a \<noteq> 0" using mem_focus[OF f(1)] by simp
  then show "rb_next s a = Some (hd0 vs)"
    using node_at_focus[OF f(1)] z climb_right_ok[OF f(1)] leftmost_hd[OF z(4)] f(4) by (cases "r = Lf") (auto simp: rb_next_def)
  show "rb_prev s a = Some (last0 us)"
    using \<open>a \<noteq> 0\<close> node_at_focus[OF f(1)] z climb_left_ok[OF f(1)] rightmost_last[OF z(3)] f(3) by (cases "l = Lf") (auto simp: rb_prev_def)
qed

lemma for_each_ok: "rb_holds s (us @ vs) \<Longrightarrow> rb_for_each s (hd0 vs) = Some vs"
proof (induction vs arbitrary: us)
  case Nil
  then show ?case by (subst rb_for_each.simps) (simp add: hd0_def)
next
  case (Cons v vs)
  then show ?case
    using next_prev_ok[OF Cons.prems] Cons.IH[of "us @ [v]"] by (subst rb_for_each.simps) (simp add: hd0_def)
qed

lemma first_last_ok:
  assumes "rb_holds s xs"
  shows "rb_first s = Some (hd0 xs)" "rb_last s = Some (last0 xs)"
proof -
  obtain T where T: "reps s T []" "inorder T = xs" using assms by (auto simp: rb_holds_def)
  then have r: "rep (rb_mem s) 0 T" "rb_root s = rp T" by (auto simp: reps_def)
  show "rb_first s = Some (hd0 xs)" "rb_last s = Some (last0 xs)"
    using T(2) r rp_zero[OF r(1)] leftmost_hd[OF r(1), of "[]"] rightmost_last[OF r(1), of "[]"]
    by (cases T; simp add: rb_first_def rb_last_def hd0_def last0_def)+
qed

section \<open>Validation\<close>

lemma is_red_rep: "rep (rb_mem s) par t \<Longrightarrow> is_red s (rp t) = (tcol t = RB_RED)"
  by (cases t) (auto simp: is_red_def)

lemma black_height_ok: "rep (rb_mem s) par t \<Longrightarrow> rb_black_height_of s (rp t) = Some (if valid t then int (bh t) else - 1)"
proof (induction t arbitrary: par)
  case Lf
  then show ?case by (subst rb_black_height_of.simps) simp
next
  case (Br l a c r)
  have n: "node_at s a = Some \<lparr>rb_parent = par, rb_left = rp l, rb_right = rp r, rb_color = c\<rparr>" "a \<noteq> 0" using Br.prems by (auto simp: node_at_def)
  have lr: "rep (rb_mem s) a l" "rep (rb_mem s) a r" using Br.prems by auto
  show ?case
    using n Br.IH(1)[OF lr(1)] Br.IH(2)[OF lr(2)] is_red_rep[OF lr(1)] is_red_rep[OF lr(2)] tcol_cases[of l] tcol_cases[of r]
    by (subst rb_black_height_of.simps) (cases c; auto)
qed

lemma validate_ok:
  assumes "reps s T []"
  shows "rb_validate s = Some (balanced T)"
proof (cases T)
  case Lf
  then show ?thesis using assms by (simp add: rb_validate_def reps_def balanced_def)
next
  case (Br l a c r)
  have "rep (rb_mem s) 0 T" using assms by (simp add: reps_def)
  from black_height_ok[OF this] show ?thesis
    using assms Br bh_pos[of T] rb_col.exhaust[of c] by (auto simp: rb_validate_def reps_def balanced_def node_at_def)
qed

section \<open>Properties\<close>

definition demo_rb :: rb_tree where
  "demo_rb = \<lparr>rb_mem = (\<lambda>p.
       if p = 1 then \<lparr>rb_parent = 2, rb_left = 0, rb_right = 0, rb_color = RB_RED\<rparr>
       else if p = 2 then \<lparr>rb_parent = 0, rb_left = 1, rb_right = 3, rb_color = RB_BLACK\<rparr>
       else \<lparr>rb_parent = 2, rb_left = 0, rb_right = 0, rb_color = RB_RED\<rparr>), rb_root = 2\<rparr>"

lemma demo_reps: "reps demo_rb (Br (Br Lf 1 RB_RED Lf) 2 RB_BLACK (Br Lf 3 RB_RED Lf)) []"
  by (simp add: reps_def demo_rb_def)

lemma demo_holds: "rb_holds demo_rb [1, 2, 3]"
  unfolding rb_holds_def using demo_reps by (intro exI[of _ "Br (Br Lf 1 RB_RED Lf) 2 RB_BLACK (Br Lf 3 RB_RED Lf)"]) (simp add: balanced_def)

text \<open>C8: in a balanced tree, linking a new node at an empty child slot and calling \<open>rb_insert_color\<close> ends, follows no
  null pointer and leaves a balanced tree with right parent pointers whose nodes in order are the old ones with the new
  node directly before (left slot) or after (right slot) its first parent.\<close>

theorem rb_insert_correct:
  assumes "rb_holds s xs" "a \<noteq> 0" "a \<notin> set xs" "link_place s xs a parent slot ys"
  shows "\<exists>s1 s2. rb_link_node a parent slot s = Some s1 \<and> rb_insert_color a s1 = Some s2 \<and> rb_holds s2 ys"
  by (rule rb_insert_ok[OF assms])

theorem rb_insert_correct_witness:
  "\<exists>s1 s2. rb_link_node 4 3 (Right_slot 3) demo_rb = Some s1 \<and> rb_insert_color 4 s1 = Some s2 \<and> rb_holds s2 [1, 2, 3, 4]"
proof (rule rb_insert_correct[OF demo_holds])
  show "link_place demo_rb [1, 2, 3] 4 3 (Right_slot 3) [1, 2, 3, 4]"
    unfolding link_place_def by (rule disjI2, rule exI[of _ "[1, 2]"], rule exI[of _ "[]"]) (simp add: demo_rb_def)
qed simp_all

text \<open>C9: erasing a node of a balanced tree, with no, one or two children, ends, follows no null pointer and leaves a
  balanced tree with right parent pointers of the other nodes in the same order.\<close>

theorem rb_erase_correct:
  assumes "rb_holds s (us @ a # vs)"
  shows "\<exists>s'. rb_erase a s = Some s' \<and> rb_holds s' (us @ vs)"
proof -
  from holds_focus[OF assms] obtain l c r k where
    f: "reps s (Br l a c r) k" "balanced (plug (Br l a c r) k)" "us = kbef k @ inorder l" "vs = inorder r @ kaft k" .
  from rb_erase_focus[OF f(1,2)] show ?thesis using f(3,4) by (auto simp: rb_holds_def)
qed

theorem rb_erase_correct_witness: "\<exists>s'. rb_erase 2 demo_rb = Some s' \<and> rb_holds s' [1, 3]"
  using rb_erase_correct[of demo_rb "[1]" 2 "[3]"] demo_holds by simp

text \<open>C29: the traversal of a balanced tree ends and visits its nodes in order: \<open>rb_first\<close> and \<open>rb_last\<close> are the ends,
  \<open>rb_next\<close> and \<open>rb_prev\<close> the neighbours, \<open>rb_for_each\<close> the whole list and \<open>rb_count\<close> its length.\<close>

theorem rb_walk_in_order:
  assumes "rb_holds s xs"
  shows "rb_first s = Some (hd0 xs) \<and> rb_last s = Some (last0 xs) \<and> rb_for_each s (hd0 xs) = Some xs \<and>
    rb_count s = Some (wrap64 (length xs)) \<and>
    (\<forall>us a vs. xs = us @ a # vs \<longrightarrow> rb_next s a = Some (hd0 vs) \<and> rb_prev s a = Some (last0 us))"
  using assms first_last_ok[OF assms] for_each_ok[of s "[]" xs] next_prev_ok by (auto simp: rb_count_def)

theorem rb_walk_in_order_witness: "rb_count demo_rb = Some 3 \<and> rb_for_each demo_rb 1 = Some [1, 2, 3]"
  using rb_walk_in_order[OF demo_holds] by (simp add: hd0_def)

text \<open>C31: on a tree with right parent pointers \<open>rb_validate\<close> ends and says exactly whether the root is black, no red
  node has a red child and every path from the root has the same number of black nodes.\<close>

theorem rb_validate_exact:
  assumes "reps s t []"
  shows "rb_validate s = Some (balanced t)"
  by (rule validate_ok[OF assms])

theorem rb_validate_exact_witness: "rb_validate demo_rb = Some True"
  using rb_validate_exact[OF demo_reps] by (simp add: balanced_def)

end
