(* ===== verification/Bpf.thy ===== *)
theory Bpf
  imports ByteQueue
begin

text \<open>
  \<open>kernel/bpf.c\<close>: the verifier, the table of programs and the interpreter. An instruction that names a register
  past the eleven of \<open>regs\<close> faults, which is kept apart from running out of fuel: the loop of \<open>bpf_prog_run\<close> has no
  bound of its own. The context pointer, the address of the stack and the outcome of an allocation are inputs.
\<close>

unbundle bit_operations_syntax

section \<open>Programs\<close>

record bpf_insn =
  bi_opcode :: u8
  bi_dst_reg :: nat
  bi_src_reg :: nat
  bi_offset :: int
  bi_imm :: u32

definition BPF_MAX_INSNS :: nat where "BPF_MAX_INSNS = 256"
definition BPF_MAX_MAPS :: nat where "BPF_MAX_MAPS = 16"
definition BPF_MAX_PROGS :: nat where "BPF_MAX_PROGS = 16"
definition BPF_REG_CNT :: nat where "BPF_REG_CNT = 11"

definition BPF_CLASS_ALU :: u8 where "BPF_CLASS_ALU = 0x04"
definition BPF_CLASS_JMP :: u8 where "BPF_CLASS_JMP = 0x05"
definition BPF_CLASS_ALU64 :: u8 where "BPF_CLASS_ALU64 = 0x07"

definition BPF_OP_ADD :: u8 where "BPF_OP_ADD = 0x00"
definition BPF_OP_SUB :: u8 where "BPF_OP_SUB = 0x10"
definition BPF_OP_MUL :: u8 where "BPF_OP_MUL = 0x20"
definition BPF_OP_DIV :: u8 where "BPF_OP_DIV = 0x30"
definition BPF_OP_OR :: u8 where "BPF_OP_OR = 0x40"
definition BPF_OP_AND :: u8 where "BPF_OP_AND = 0x50"
definition BPF_OP_XOR :: u8 where "BPF_OP_XOR = 0xa0"
definition BPF_OP_MOV :: u8 where "BPF_OP_MOV = 0xb0"

definition BPF_JMP_JA :: u8 where "BPF_JMP_JA = 0x00"
definition BPF_JMP_JEQ :: u8 where "BPF_JMP_JEQ = 0x10"
definition BPF_JMP_JGT :: u8 where "BPF_JMP_JGT = 0x20"
definition BPF_JMP_JGE :: u8 where "BPF_JMP_JGE = 0x30"
definition BPF_JMP_JNE :: u8 where "BPF_JMP_JNE = 0x50"
definition BPF_JMP_EXIT :: u8 where "BPF_JMP_EXIT = 0x90"

lemmas bpf_consts = BPF_CLASS_ALU_def BPF_CLASS_JMP_def BPF_CLASS_ALU64_def BPF_OP_ADD_def BPF_OP_SUB_def BPF_OP_MUL_def
  BPF_OP_DIV_def BPF_OP_OR_def BPF_OP_AND_def BPF_OP_XOR_def BPF_OP_MOV_def BPF_JMP_JA_def BPF_JMP_JEQ_def BPF_JMP_JGT_def
  BPF_JMP_JGE_def BPF_JMP_JNE_def BPF_JMP_EXIT_def

datatype bpf_prog_type =
    BPF_PROG_TYPE_UNSPEC
  | BPF_PROG_TYPE_SOCKET_FILTER
  | BPF_PROG_TYPE_KPROBE
  | BPF_PROG_TYPE_TRACEPOINT
  | BPF_PROG_TYPE_XDP
  | BPF_PROG_TYPE_SYSCALL

record bpf_prog =
  bp_id :: u32
  bp_name :: string
  bp_type :: bpf_prog_type
  bp_insns :: "bpf_insn list"
  bp_insn_count :: nat
  bp_run_count :: u64
  bp_total_runtime_ns :: u64
  bp_in_use :: bool

record bpf_map =
  bm_id :: u32
  bm_name :: string
  bm_key_size :: u32
  bm_value_size :: u32
  bm_max_entries :: u32
  bm_data :: "u8 list option"
  bm_in_use :: bool

record bpf_state =
  bpf_programs :: "bpf_prog list"
  bpf_maps :: "bpf_map list"
  next_bpf_id :: u32

section \<open>The verifier\<close>

definition verify_insn :: "nat \<Rightarrow> nat \<Rightarrow> bpf_insn \<Rightarrow> bool" where
  "verify_insn n i insn \<longleftrightarrow>
     bi_dst_reg insn < BPF_REG_CNT \<and> bi_src_reg insn < BPF_REG_CNT \<and>
     (bi_opcode insn AND 0x07 = BPF_CLASS_JMP \<and> bi_opcode insn \<noteq> BPF_CLASS_JMP OR BPF_JMP_EXIT \<longrightarrow>
        0 \<le> int i + 1 + bi_offset insn \<and> int i + 1 + bi_offset insn < int n)"

fun verify_loop :: "nat \<Rightarrow> nat \<Rightarrow> bool \<Rightarrow> bpf_insn list \<Rightarrow> bool" where
  "verify_loop n i has_exit [] = has_exit"
| "verify_loop n i has_exit (insn # insns) =
     (if \<not> verify_insn n i insn then False
      else verify_loop n (i + 1) (has_exit \<or> bi_opcode insn = BPF_CLASS_JMP OR BPF_JMP_EXIT) insns)"

definition bpf_verify_prog :: "bpf_insn list option \<Rightarrow> nat \<Rightarrow> bool" where
  "bpf_verify_prog insns n =
     (case insns of
        None \<Rightarrow> False
      | Some xs \<Rightarrow> if n = 0 \<or> n > BPF_MAX_INSNS then False else verify_loop n 0 False (take n xs))"

section \<open>Loading\<close>

definition fill_prog :: "bpf_prog_type \<Rightarrow> string \<Rightarrow> bpf_insn list \<Rightarrow> nat \<Rightarrow> u32 \<Rightarrow> bpf_prog \<Rightarrow> bpf_prog" where
  "fill_prog ty name insns n new_id p =
     p\<lparr>bp_id := new_id, bp_name := cstr_ncopy 32 name, bp_type := ty, bp_insns := memcpy_at (bp_insns p) 0 insns n,
       bp_insn_count := n, bp_run_count := 0, bp_total_runtime_ns := 0, bp_in_use := True\<rparr>"

fun free_slot :: "('a \<Rightarrow> bool) \<Rightarrow> 'a list \<Rightarrow> nat \<Rightarrow> nat option" where
  "free_slot used [] i = None"
| "free_slot used (x # xs) i = (if \<not> used x then Some i else free_slot used xs (i + 1))"

definition bpf_prog_load :: "bpf_prog_type \<Rightarrow> string option \<Rightarrow> bpf_insn list option \<Rightarrow> nat \<Rightarrow> bpf_state \<Rightarrow> int \<times> bpf_state" where
  "bpf_prog_load ty name insns n s =
     (case (name, insns) of
        (Some nm, Some xs) \<Rightarrow>
          if n = 0 \<or> \<not> bpf_verify_prog insns n then (- 1, s)
          else (case free_slot bp_in_use (bpf_programs s) 0 of
                  None \<Rightarrow> (- 1, s)
                | Some i \<Rightarrow>
                    (sint (next_bpf_id s),
                     s\<lparr>bpf_programs := (bpf_programs s)[i := fill_prog ty nm xs n (next_bpf_id s) (bpf_programs s ! i)],
                       next_bpf_id := next_bpf_id s + 1\<rparr>))
      | _ \<Rightarrow> (- 1, s))"

section \<open>Running\<close>

datatype bpf_out = Go nat "u64 list" | Exit u64 | Fault

definition alu_result :: "u8 \<Rightarrow> u64 \<Rightarrow> u64 \<Rightarrow> u64" where
  "alu_result opn d val =
     (if opn = BPF_OP_ADD then d + val
      else if opn = BPF_OP_SUB then d - val
      else if opn = BPF_OP_MUL then d * val
      else if opn = BPF_OP_DIV then (if val \<noteq> 0 then d div val else d)
      else if opn = BPF_OP_OR then d OR val
      else if opn = BPF_OP_AND then d AND val
      else if opn = BPF_OP_XOR then d XOR val
      else if opn = BPF_OP_MOV then val
      else d)"

definition jump_taken :: "u8 \<Rightarrow> u64 \<Rightarrow> u64 \<Rightarrow> bool" where
  "jump_taken opn d val \<longleftrightarrow>
     opn = BPF_JMP_JA \<or> opn = BPF_JMP_JEQ \<and> d = val \<or> opn = BPF_JMP_JNE \<and> d \<noteq> val \<or>
     opn = BPF_JMP_JGT \<and> d > val \<or> opn = BPF_JMP_JGE \<and> d \<ge> val"

definition reads_dst :: "u8 \<Rightarrow> bool" where
  "reads_dst opn \<longleftrightarrow> opn = BPF_JMP_JEQ \<or> opn = BPF_JMP_JNE \<or> opn = BPF_JMP_JGT \<or> opn = BPF_JMP_JGE"

text \<open>\<open>pc += insn.offset\<close> and \<open>pc++\<close> on 32 bits.\<close>

definition pc_add :: "nat \<Rightarrow> int \<Rightarrow> nat" where
  "pc_add pc d = nat ((int pc + d) mod 2 ^ 32)"

text \<open>One round of the loop. A register is read where the code reads it.\<close>

definition bpf_step :: "bpf_insn list \<Rightarrow> nat \<Rightarrow> u64 list \<Rightarrow> bpf_out" where
  "bpf_step insns pc regs =
     (if length insns \<le> pc then Fault
      else
        (let insn = insns ! pc;
             cls = bi_opcode insn AND 0x07;
             opn = bi_opcode insn AND 0xF0;
             dst = bi_dst_reg insn;
             src = bi_src_reg insn;
             from_reg = bi_opcode insn AND 0x08 \<noteq> 0;
             val = (if from_reg then regs ! src else ucast (bi_imm insn))
         in if from_reg \<and> length regs \<le> src then Fault
            else if cls = BPF_CLASS_ALU64 \<or> cls = BPF_CLASS_ALU then
              (if length regs \<le> dst then Fault else Go (pc_add pc 1) (regs[dst := alu_result opn (regs ! dst) val]))
            else if cls = BPF_CLASS_JMP then
              (if opn = BPF_JMP_EXIT then Exit (regs ! 0)
               else if reads_dst opn \<and> length regs \<le> dst then Fault
               else if jump_taken opn (regs ! dst) val then Go (pc_add (pc_add pc (bi_offset insn)) 1) regs
               else Go (pc_add pc 1) regs)
            else Go (pc_add pc 1) regs))"

datatype bpf_end = Returned bool u64 | Faulted | Running

text \<open>The loop: the flag says whether it ended in an EXIT.\<close>

fun bpf_loop :: "nat \<Rightarrow> bpf_insn list \<Rightarrow> nat \<Rightarrow> nat \<Rightarrow> u64 list \<Rightarrow> bpf_end" where
  "bpf_loop 0 insns n pc regs = Running"
| "bpf_loop (Suc fuel) insns n pc regs =
     (if pc < n then
        (case bpf_step insns pc regs of
           Go pc' regs' \<Rightarrow> bpf_loop fuel insns n pc' regs'
         | Exit v \<Rightarrow> Returned True v
         | Fault \<Rightarrow> Faulted)
      else Returned False (regs ! 0))"

definition start_regs :: "u64 \<Rightarrow> u64 \<Rightarrow> u64 list" where
  "start_regs ctx frame = (replicate BPF_REG_CNT 0)[1 := ctx, 10 := frame]"

fun find_prog :: "u32 \<Rightarrow> bpf_prog list \<Rightarrow> nat \<Rightarrow> nat option" where
  "find_prog i [] k = None"
| "find_prog i (p # ps) k = (if bp_in_use p \<and> bp_id p = i then Some k else find_prog i ps (k + 1))"

datatype bpf_ret = Ret int "u64 option" bpf_state | Bad_access | Out_of_fuel

definition bpf_prog_run :: "nat \<Rightarrow> u64 \<Rightarrow> u32 \<Rightarrow> u64 \<Rightarrow> bpf_state \<Rightarrow> bpf_ret" where
  "bpf_prog_run fuel frame prog_id ctx s =
     (case find_prog prog_id (bpf_programs s) 0 of
        None \<Rightarrow> Ret (- 1) None s
      | Some k \<Rightarrow>
          (let p = bpf_programs s ! k in
           case bpf_loop fuel (bp_insns p) (bp_insn_count p) 0 (start_regs ctx frame) of
             Running \<Rightarrow> Out_of_fuel
           | Faulted \<Rightarrow> Bad_access
           | Returned by_exit v \<Rightarrow>
               Ret 0 (Some v)
                 (s\<lparr>bpf_programs := (bpf_programs s)[k := p\<lparr>bp_run_count := bp_run_count p + 1,
                      bp_total_runtime_ns := bp_total_runtime_ns p + (if by_exit then 50 else 0)\<rparr>]\<rparr>)))"

definition bpf_map_create :: "(nat \<Rightarrow> u8 list option) \<Rightarrow> string option \<Rightarrow> u32 \<Rightarrow> u32 \<Rightarrow> u32 \<Rightarrow> bpf_state \<Rightarrow> int \<times> bpf_state" where
  "bpf_map_create kzalloc name key_size value_size max_entries s =
     (case name of
        None \<Rightarrow> (- 1, s)
      | Some nm \<Rightarrow>
          if key_size = 0 \<or> value_size = 0 \<or> max_entries = 0 then (- 1, s)
          else (case free_slot bm_in_use (bpf_maps s) 0 of
                  None \<Rightarrow> (- 1, s)
                | Some i \<Rightarrow>
                    (sint (next_bpf_id s),
                     s\<lparr>bpf_maps := (bpf_maps s)[i := (bpf_maps s ! i)\<lparr>bm_id := next_bpf_id s, bm_name := cstr_ncopy 32 nm,
                          bm_key_size := key_size, bm_value_size := value_size, bm_max_entries := max_entries,
                          bm_data := kzalloc (unat (max_entries * (key_size + value_size))), bm_in_use := True\<rparr>],
                       next_bpf_id := next_bpf_id s + 1\<rparr>)))"

definition bpf_get_prog_count :: "bpf_state \<Rightarrow> nat" where
  "bpf_get_prog_count s = length (filter bp_in_use (bpf_programs s))"

definition bpf_get_prog :: "nat \<Rightarrow> bpf_state \<Rightarrow> bpf_prog option" where
  "bpf_get_prog index s =
     (if BPF_MAX_PROGS \<le> index \<or> \<not> bp_in_use (bpf_programs s ! index) then None else Some (bpf_programs s ! index))"

definition empty_insn :: bpf_insn where
  "empty_insn = \<lparr>bi_opcode = 0, bi_dst_reg = 0, bi_src_reg = 0, bi_offset = 0, bi_imm = 0\<rparr>"

definition empty_prog :: bpf_prog where
  "empty_prog = \<lparr>bp_id = 0, bp_name = [], bp_type = BPF_PROG_TYPE_UNSPEC, bp_insns = replicate BPF_MAX_INSNS empty_insn,
     bp_insn_count = 0, bp_run_count = 0, bp_total_runtime_ns = 0, bp_in_use = False\<rparr>"

definition empty_map :: bpf_map where
  "empty_map = \<lparr>bm_id = 0, bm_name = [], bm_key_size = 0, bm_value_size = 0, bm_max_entries = 0, bm_data = None, bm_in_use = False\<rparr>"

definition default_insns :: "bpf_insn list" where
  "default_insns =
     [\<lparr>bi_opcode = BPF_CLASS_ALU64 OR BPF_OP_MOV, bi_dst_reg = 0, bi_src_reg = 1, bi_offset = 0, bi_imm = 0\<rparr>,
      \<lparr>bi_opcode = BPF_CLASS_ALU64 OR BPF_OP_ADD, bi_dst_reg = 0, bi_src_reg = 0, bi_offset = 0, bi_imm = 14\<rparr>,
      \<lparr>bi_opcode = BPF_CLASS_JMP OR BPF_JMP_EXIT, bi_dst_reg = 0, bi_src_reg = 0, bi_offset = 0, bi_imm = 0\<rparr>]"

definition bpf_init :: bpf_state where
  "bpf_init =
     snd (bpf_prog_load BPF_PROG_TYPE_SOCKET_FILTER (Some ''net_pkt_counter'') (Some default_insns) 3
       \<lparr>bpf_programs = replicate BPF_MAX_PROGS empty_prog, bpf_maps = replicate BPF_MAX_MAPS empty_map, next_bpf_id = 1\<rparr>)"

section \<open>Safety of verified programs\<close>

definition verified :: "bpf_insn list \<Rightarrow> nat \<Rightarrow> bool" where
  "verified insns n \<longleftrightarrow> n \<le> length insns \<and> n \<le> BPF_MAX_INSNS \<and> (\<forall>i < n. verify_insn n i (insns ! i))"

lemma verify_loop_all:
  "verify_loop n i e xs \<Longrightarrow> \<forall>j < length xs. verify_insn n (i + j) (xs ! j)"
proof (induction xs arbitrary: i e)
  case (Cons x xs)
  then have "verify_insn n i x" "\<forall>j < length xs. verify_insn n (Suc i + j) (xs ! j)"
    using Cons.IH[of "i + 1"] by (auto split: if_splits)
  then show ?case by (auto simp: nth_Cons split: nat.split)
qed simp

lemma verify_verified:
  assumes "bpf_verify_prog (Some xs) n" "n \<le> length xs"
  shows "verified xs n"
  using assms verify_loop_all[of n 0 False "take n xs"] by (auto simp: bpf_verify_prog_def verified_def split: if_splits)

definition forward :: "bpf_insn list \<Rightarrow> nat \<Rightarrow> bool" where
  "forward insns n \<longleftrightarrow> (\<forall>i < n. 0 \<le> bi_offset (insns ! i))"

lemma pc_add_one: "pc < 256 \<Longrightarrow> pc_add pc 1 = pc + 1"
  by (simp add: pc_add_def nat_add_distrib)

lemma pc_add_jump:
  assumes "0 \<le> int pc + 1 + d" "int pc + 1 + d < 2 ^ 32"
  shows "pc_add (pc_add pc d) 1 = nat (int pc + 1 + d)"
proof -
  have "pc_add (pc_add pc d) 1 = nat (((int pc + d) mod 2 ^ 32 + 1) mod 2 ^ 32)" by (simp add: pc_add_def)
  also have "\<dots> = nat ((int pc + 1 + d) mod 2 ^ 32)" unfolding mod_add_left_eq by (simp add: algebra_simps)
  finally show ?thesis using assms by simp
qed

lemma exit_opcode: "bi_opcode insn = BPF_CLASS_JMP OR BPF_JMP_EXIT \<Longrightarrow> bi_opcode insn AND 0xF0 = BPF_JMP_EXIT"
  by (simp add: bpf_consts)

lemma bpf_step_safe:
  assumes v: "verified insns n" and pc: "pc < n" and r: "length regs = BPF_REG_CNT"
  shows "case bpf_step insns pc regs of
      Go pc' regs' \<Rightarrow> pc' \<le> n \<and> length regs' = BPF_REG_CNT \<and> (forward insns n \<longrightarrow> pc < pc')
    | Exit v \<Rightarrow> True
    | Fault \<Rightarrow> False"
proof -
  let ?i = "insns ! pc"
  have vi: "verify_insn n pc ?i" and n: "n \<le> 256" "pc < length insns" using v pc by (auto simp: verified_def BPF_MAX_INSNS_def)
  have regs: "bi_dst_reg ?i < length regs" "bi_src_reg ?i < length regs" using vi r by (auto simp: verify_insn_def)
  have one: "pc_add pc 1 = pc + 1" using pc n by (simp add: pc_add_one)
  show ?thesis
  proof (cases "bi_opcode ?i AND 0x07 = BPF_CLASS_JMP \<and> bi_opcode ?i AND 0xF0 \<noteq> BPF_JMP_EXIT")
    case True
    then have t: "0 \<le> int pc + 1 + bi_offset ?i" "int pc + 1 + bi_offset ?i < int n"
      using vi exit_opcode[of ?i] by (auto simp: verify_insn_def)
    then have j: "pc_add (pc_add pc (bi_offset ?i)) 1 = nat (int pc + 1 + bi_offset ?i)" using n by (intro pc_add_jump) auto
    have "forward insns n \<Longrightarrow> 0 \<le> bi_offset ?i" using pc by (simp add: forward_def)
    then show ?thesis using True regs n one j t pc r by (auto simp: bpf_step_def Let_def bpf_consts)
  next
    case False
    then show ?thesis using regs n one pc r by (auto simp: bpf_step_def Let_def)
  qed
qed

lemma bpf_loop_safe:
  assumes "verified insns n" "pc \<le> n" "length regs = BPF_REG_CNT"
  shows "bpf_loop fuel insns n pc regs \<noteq> Faulted \<and>
    (forward insns n \<longrightarrow> n - pc < fuel \<longrightarrow> (\<exists>e v. bpf_loop fuel insns n pc regs = Returned e v))"
  using assms(2,3)
proof (induction fuel arbitrary: pc regs)
  case (Suc fuel)
  show ?case
  proof (cases "pc < n")
    case True
    note s = bpf_step_safe[OF assms(1) True Suc.prems(2)]
    show ?thesis
    proof (cases "bpf_step insns pc regs")
      case (Go pc' regs')
      then have "pc' \<le> n" "length regs' = BPF_REG_CNT" "forward insns n \<Longrightarrow> pc < pc'" using s by auto
      then show ?thesis using Suc.IH[of pc' regs'] True Go by auto
    qed (use s True in auto)
  qed (auto intro: exI[of _ False])
qed simp

text \<open>The table only holds verified programs.\<close>

definition bpf_ok :: "bpf_state \<Rightarrow> bool" where
  "bpf_ok s \<longleftrightarrow> (\<forall>p \<in> set (bpf_programs s). length (bp_insns p) = BPF_MAX_INSNS \<and> (bp_in_use p \<longrightarrow> verified (bp_insns p) (bp_insn_count p)))"

datatype bpf_op =
    Load bpf_prog_type "string option" "bpf_insn list option" nat
  | Run nat u64 u32 u64
  | Map_create "nat \<Rightarrow> u8 list option" "string option" u32 u32 u32

fun bpf_exec :: "bpf_op \<Rightarrow> bpf_state \<Rightarrow> bpf_state" where
  "bpf_exec (Load ty name insns n) s = snd (bpf_prog_load ty name insns n s)"
| "bpf_exec (Run fuel frame i ctx) s = (case bpf_prog_run fuel frame i ctx s of Ret r v s' \<Rightarrow> s' | _ \<Rightarrow> s)"
| "bpf_exec (Map_create al name ks vs me) s = snd (bpf_map_create al name ks vs me s)"

text \<open>The caller's array has the instructions its count announces.\<close>

fun bpf_op_ok :: "bpf_op \<Rightarrow> bool" where
  "bpf_op_ok (Load ty name insns n) = (case insns of Some xs \<Rightarrow> n \<le> length xs | None \<Rightarrow> True)"
| "bpf_op_ok op = True"

lemma free_slot_Some: "free_slot used xs i = Some k \<Longrightarrow> i \<le> k \<and> k < i + length xs"
  by (induction used xs i rule: free_slot.induct) (auto split: if_splits)

lemma find_prog_Some: "find_prog pid ps i = Some k \<Longrightarrow> i \<le> k \<and> k < i + length ps \<and> bp_in_use (ps ! (k - i))"
  by (induction pid ps i rule: find_prog.induct) (auto split: if_splits simp: nth_Cons' Suc_diff_Suc)

lemma verified_memcpy:
  assumes "verified xs n" "n \<le> length xs" "length old = BPF_MAX_INSNS"
  shows "verified (memcpy_at old 0 xs n) n" "length (memcpy_at old 0 xs n) = BPF_MAX_INSNS"
  using assms by (auto simp: verified_def memcpy_at_def nth_append)

lemma bpf_ok_update: "bpf_ok s \<Longrightarrow> length (bp_insns p) = BPF_MAX_INSNS \<and> (bp_in_use p \<longrightarrow> verified (bp_insns p) (bp_insn_count p)) \<Longrightarrow>
    bpf_ok (s\<lparr>bpf_programs := (bpf_programs s)[i := p]\<rparr>)"
  by (auto simp: bpf_ok_def dest!: set_update_subset_insert[THEN subsetD])

lemma bpf_ok_next [simp]: "bpf_ok (s\<lparr>next_bpf_id := i\<rparr>) = bpf_ok s"
  by (simp add: bpf_ok_def)

lemma load_ok:
  assumes ok: "bpf_ok s" and n: "\<And>xs. insns = Some xs \<Longrightarrow> n \<le> length xs"
  shows "bpf_ok (snd (bpf_prog_load ty name insns n s))"
proof (cases "\<exists>nm xs i. name = Some nm \<and> insns = Some xs \<and> n \<noteq> 0 \<and> bpf_verify_prog insns n \<and> free_slot bp_in_use (bpf_programs s) 0 = Some i")
  case True
  then obtain nm xs i where t: "name = Some nm" "insns = Some xs" "n \<noteq> 0" "bpf_verify_prog (Some xs) n" "free_slot bp_in_use (bpf_programs s) 0 = Some i"
    by auto
  have "bpf_programs s ! i \<in> set (bpf_programs s)" using free_slot_Some[OF t(5)] by simp
  then have "length (bp_insns (bpf_programs s ! i)) = BPF_MAX_INSNS" using ok by (simp add: bpf_ok_def)
  then show ?thesis
    using t verified_memcpy[OF verify_verified[OF t(4)]] n[OF t(2)]
    by (auto simp: bpf_prog_load_def fill_prog_def intro!: bpf_ok_update[OF ok])
next
  case False
  then show ?thesis using ok by (auto simp: bpf_prog_load_def split: option.splits)
qed

lemma exec_ok:
  assumes "bpf_ok s" "bpf_op_ok op"
  shows "bpf_ok (bpf_exec op s)"
proof (cases op)
  case (Load ty name insns n)
  then show ?thesis using load_ok[OF assms(1), of insns n] assms(2) by (cases insns) auto
next
  case (Run fuel frame i ctx)
  show ?thesis
  proof (cases "find_prog i (bpf_programs s) 0")
    case (Some k)
    then have "bpf_programs s ! k \<in> set (bpf_programs s)" using find_prog_Some[OF Some] by simp
    then have "length (bp_insns (bpf_programs s ! k)) = BPF_MAX_INSNS \<and> (bp_in_use (bpf_programs s ! k) \<longrightarrow>
        verified (bp_insns (bpf_programs s ! k)) (bp_insn_count (bpf_programs s ! k)))" using assms(1) by (simp add: bpf_ok_def)
    then show ?thesis
      using Run Some assms(1)
      by (auto simp: bpf_prog_run_def Let_def split: bpf_end.split intro!: bpf_ok_update[OF assms(1)])
  qed (use Run assms in \<open>simp add: bpf_prog_run_def\<close>)
next
  case (Map_create al name ks vs me)
  then show ?thesis using assms(1) by (auto simp: bpf_map_create_def bpf_ok_def split: option.split)
qed

lemma fold_ok: "bpf_ok s \<Longrightarrow> list_all bpf_op_ok ops \<Longrightarrow> bpf_ok (fold bpf_exec ops s)"
  by (induction ops arbitrary: s) (auto simp: exec_ok)

lemma init_ok: "bpf_ok bpf_init"
proof -
  have "bpf_ok \<lparr>bpf_programs = replicate BPF_MAX_PROGS empty_prog, bpf_maps = replicate BPF_MAX_MAPS empty_map, next_bpf_id = 1\<rparr>"
    by (simp add: bpf_ok_def empty_prog_def BPF_MAX_PROGS_def)
  then show ?thesis unfolding bpf_init_def by (rule load_ok) (auto simp: default_insns_def)
qed

text \<open>C17: type safety of the interpreter. Whatever programs were loaded, run and whatever maps were created since
  \<open>bpf_init\<close>, no run of a loaded program reads an instruction or a register out of bounds, however long it runs; and
  a program whose jumps all go forward returns within 257 rounds.\<close>

theorem bpf_run_type_safe:
  assumes "list_all bpf_op_ok ops"
  shows "bpf_prog_run fuel frame i ctx (fold bpf_exec ops bpf_init) \<noteq> Bad_access \<and>
    (\<forall>k. find_prog i (bpf_programs (fold bpf_exec ops bpf_init)) 0 = Some k \<longrightarrow>
       forward (bp_insns (bpf_programs (fold bpf_exec ops bpf_init) ! k)) (bp_insn_count (bpf_programs (fold bpf_exec ops bpf_init) ! k)) \<longrightarrow>
       256 < fuel \<longrightarrow> (\<exists>v s'. bpf_prog_run fuel frame i ctx (fold bpf_exec ops bpf_init) = Ret 0 (Some v) s'))"
proof -
  let ?s = "fold bpf_exec ops bpf_init"
  have ok: "bpf_ok ?s" by (rule fold_ok[OF init_ok assms])
  show ?thesis
  proof (cases "find_prog i (bpf_programs ?s) 0")
    case None
    then show ?thesis by (simp add: bpf_prog_run_def)
  next
    case (Some k)
    let ?p = "bpf_programs ?s ! k"
    have "?p \<in> set (bpf_programs ?s)" "bp_in_use ?p" using find_prog_Some[OF Some] by simp_all
    then have v: "verified (bp_insns ?p) (bp_insn_count ?p)" using ok by (simp add: bpf_ok_def)
    have "length (start_regs ctx frame) = BPF_REG_CNT" by (simp add: start_regs_def)
    note l = bpf_loop_safe[OF v _ this, of 0 fuel]
    moreover have "bp_insn_count ?p \<le> 256" using v by (simp add: verified_def BPF_MAX_INSNS_def)
    ultimately show ?thesis using Some by (auto simp: bpf_prog_run_def Let_def split: bpf_end.split)
  qed
qed

definition demo_bpf_ops :: "bpf_op list" where
  "demo_bpf_ops = [Load BPF_PROG_TYPE_XDP (Some ''second'') (Some default_insns) 3, Run 9 0 1 100]"

theorem bpf_run_type_safe_witness:
  "bpf_prog_run 300 0 2 100 (fold bpf_exec demo_bpf_ops bpf_init) \<noteq> Bad_access"
proof -
  have "list_all bpf_op_ok demo_bpf_ops" by (simp add: demo_bpf_ops_def default_insns_def)
  then show ?thesis using bpf_run_type_safe by blast
qed

text \<open>The first instruction of the default program lacks the source bit: it loads the immediate 0, not r1.\<close>

lemma default_ignores_length: "bpf_loop (Suc (Suc (Suc fuel))) default_insns 3 0 (start_regs ctx frame) = Returned True 14"
  by (simp add: default_insns_def bpf_step_def start_regs_def BPF_REG_CNT_def bpf_consts alu_result_def pc_add_def)

text \<open>The verifier accepts a jump to itself, which never ends.\<close>

lemma verifier_accepts_loop:
  defines "ja \<equiv> \<lparr>bi_opcode = BPF_CLASS_JMP OR BPF_JMP_JA, bi_dst_reg = 0, bi_src_reg = 0, bi_offset = - 1, bi_imm = 0\<rparr>"
    and "ex \<equiv> \<lparr>bi_opcode = BPF_CLASS_JMP OR BPF_JMP_EXIT, bi_dst_reg = 0, bi_src_reg = 0, bi_offset = 0, bi_imm = 0\<rparr>"
  shows "bpf_verify_prog (Some [ja, ex]) 2 \<and> bpf_loop fuel [ja, ex] 2 0 regs = Running"
proof
  show "bpf_verify_prog (Some [ja, ex]) 2"
    by (simp add: bpf_verify_prog_def BPF_MAX_INSNS_def ja_def ex_def verify_insn_def BPF_REG_CNT_def bpf_consts numeral_2_eq_2)
  show "bpf_loop fuel [ja, ex] 2 0 regs = Running"
    by (induction fuel) (simp_all add: ja_def bpf_step_def bpf_consts jump_taken_def reads_dst_def pc_add_def)
qed

end
