(* ===== verification/Inflate.thy ===== *)
theory Inflate
  imports Prelude "HOL-Library.Monad_Syntax"
begin

text \<open>
  The DEFLATE/zlib decoder of \<open>lib/inflate.c\<close>, function by function. The record \<open>tinf\<close> is the decoder
  state: the bytes between \<open>src\<close> and \<open>src_end\<close>, the bits of the current byte not yet used, the bytes
  between \<open>dst_start\<close> and \<open>dst\<close>, and the two Huffman tables. An entry of a table that was never
  written is \<^const>\<open>None\<close>; a read of such an entry, an index outside an array and a read below the start
  of the output are undefined behaviour, and a function in which they may happen returns an option
  with \<^const>\<open>None\<close> for them (and for a loop that never ends). The \<open>-1\<close> the C functions return for a stream
  that ends too early is an inner \<^const>\<open>None\<close>. The lemmas describe every function on the list of bits
  that are still to be read.
\<close>

section \<open>Data\<close>

record tinf_tree =
  counts :: "nat option list"
  symbols :: "nat option list"

record tinf =
  t_src :: "u8 list"
  t_tag :: nat
  t_bitcount :: nat
  t_out :: "u8 list"
  t_cap :: nat
  ltree :: tinf_tree
  dtree :: tinf_tree

definition TINF_OK :: int where "TINF_OK = 0"
definition TINF_DATA_ERROR :: int where "TINF_DATA_ERROR = - 3"
definition TINF_BUF_ERROR :: int where "TINF_BUF_ERROR = - 5"

text \<open>An automatic variable of type \<open>tinf_tree\<close> before it is filled.\<close>

definition raw_tree :: tinf_tree where
  "raw_tree = \<lparr>counts = replicate 16 None, symbols = replicate 288 None\<rparr>"

definition clcidx :: "nat list" where
  "clcidx = [16, 17, 18, 0, 8, 7, 9, 6, 10, 5, 11, 4, 12, 3, 13, 2, 14, 1, 15]"

definition length_base :: "nat list" where
  "length_base =
     [3, 4, 5, 6, 7, 8, 9, 10, 11, 13, 15, 17, 19, 23, 27, 31,
      35, 43, 51, 59, 67, 83, 99, 115, 131, 163, 195, 227, 258, 0]"

definition length_bits :: "nat list" where
  "length_bits =
     [0, 0, 0, 0, 0, 0, 0, 0, 1, 1, 1, 1, 2, 2, 2, 2,
      3, 3, 3, 3, 4, 4, 4, 4, 5, 5, 5, 5, 0, 0]"

definition dist_base :: "nat list" where
  "dist_base =
     [1, 2, 3, 4, 5, 7, 9, 13, 17, 25, 33, 49, 65, 97, 129, 193,
      257, 385, 513, 769, 1025, 1537, 2049, 3073, 4097, 6145, 8193, 12289, 16385, 24577]"

definition dist_bits :: "nat list" where
  "dist_bits =
     [0, 0, 0, 0, 1, 1, 2, 2, 3, 3, 4, 4, 5, 5, 6, 6,
      7, 7, 8, 8, 9, 9, 10, 10, 11, 11, 12, 12, 13, 13]"

section \<open>Reading bits\<close>

definition getbit :: "tinf \<Rightarrow> nat option \<times> tinf" where
  "getbit d =
     (if t_bitcount d = 0 \<and> t_src d = [] then (None, d)
      else (let d = (if t_bitcount d = 0
                     then d\<lparr>t_src := tl (t_src d), t_tag := unat (hd (t_src d)), t_bitcount := 8\<rparr> else d)
            in (Some (t_tag d mod 2), d\<lparr>t_tag := t_tag d div 2, t_bitcount := t_bitcount d - 1\<rparr>)))"

fun read_bits_loop :: "nat \<Rightarrow> nat \<Rightarrow> nat \<Rightarrow> tinf \<Rightarrow> nat option \<times> tinf" where
  "read_bits_loop 0 i val d = (Some val, d)"
| "read_bits_loop (Suc num) i val d =
     (case getbit d of
        (None, d) \<Rightarrow> (None, d)
      | (Some b, d) \<Rightarrow> read_bits_loop num (Suc i) (val OR push_bit i b) d)"

definition read_bits :: "tinf \<Rightarrow> nat \<Rightarrow> nat \<Rightarrow> nat option \<times> tinf" where
  "read_bits d num base = (case read_bits_loop num 0 0 d of (r, d) \<Rightarrow> (map_option (\<lambda>val. base + val) r, d))"

section \<open>Huffman tables\<close>

fun count_lengths :: "nat option list \<Rightarrow> nat list \<Rightarrow> nat list option" where
  "count_lengths [] cs = Some cs"
| "count_lengths (None # ls) cs = None"
| "count_lengths (Some l # ls) cs = (if l < 16 then count_lengths ls (cs[l := cs ! l + 1]) else None)"

definition start_offsets :: "nat list \<Rightarrow> nat list" where
  "start_offsets cs = foldl (\<lambda>offs i. offs @ [offs ! (i - 1) + cs ! (i - 1)]) [0] [1..<16]"

fun place_symbols :: "nat \<Rightarrow> nat option list \<Rightarrow> nat list \<Rightarrow> nat option list \<Rightarrow> nat option list option" where
  "place_symbols i [] offs syms = Some syms"
| "place_symbols i (None # ls) offs syms = None"
| "place_symbols i (Some l # ls) offs syms =
     (if l = 0 then place_symbols (Suc i) ls offs syms
      else if l < 16 \<and> offs ! l < length syms
      then place_symbols (Suc i) ls (offs[l := offs ! l + 1]) (syms[offs ! l := Some i])
      else None)"

definition build_tree :: "tinf_tree \<Rightarrow> nat option list \<Rightarrow> nat \<Rightarrow> tinf_tree option" where
  "build_tree t lengths num =
     (if length lengths < num then None
      else do { cs \<leftarrow> count_lengths (take num lengths) (replicate 16 0);
                let cs = cs[0 := 0];
                syms \<leftarrow> place_symbols 0 (take num lengths) (start_offsets cs) (symbols t);
                Some \<lparr>counts = map Some cs, symbols = syms\<rparr> })"

definition fixed_lengths :: "nat list" where
  "fixed_lengths = replicate 144 8 @ replicate 112 9 @ replicate 24 7 @ replicate 8 8"

definition build_fixed_trees :: "tinf_tree \<Rightarrow> tinf_tree \<Rightarrow> (tinf_tree \<times> tinf_tree) option" where
  "build_fixed_trees lt dt =
     do { lt \<leftarrow> build_tree lt (map Some fixed_lengths) 288;
          dt \<leftarrow> build_tree dt (map Some (replicate 30 5 @ drop 30 fixed_lengths)) 30;
          Some (lt, dt) }"

function decode_loop :: "tinf_tree \<Rightarrow> int \<Rightarrow> int \<Rightarrow> nat \<Rightarrow> tinf \<Rightarrow> (int option \<times> tinf) option" where
  "decode_loop t want cur len d =
     (case getbit d of
        (None, d) \<Rightarrow> Some (None, d)
      | (Some b, d) \<Rightarrow>
          (let cur = 2 * cur + int b; len = Suc len
           in if 16 \<le> len then Some (None, d)
              else (case counts t ! len of
                      None \<Rightarrow> None
                    | Some n \<Rightarrow>
                        (let want = want + int n; cur = cur - int n
                         in if 0 \<le> cur then decode_loop t want cur len d else Some (Some (want + cur), d)))))"
  by pat_completeness auto
termination
  by (relation "measure (\<lambda>(t, want, cur, len, d). 16 - len)") auto

declare decode_loop.simps [simp del]

definition decode_symbol :: "tinf \<Rightarrow> tinf_tree \<Rightarrow> (nat option \<times> tinf) option" where
  "decode_symbol d t =
     (case decode_loop t 0 0 0 d of
        None \<Rightarrow> None
      | Some (None, d) \<Rightarrow> Some (None, d)
      | Some (Some idx, d) \<Rightarrow>
          if idx < 0 \<or> 288 \<le> idx then Some (None, d)
          else if nat idx < length (symbols t)
          then do { sy \<leftarrow> symbols t ! nat idx; Some (Some sy, d) }
          else None)"

section \<open>The tables of a dynamic block\<close>

fun read_clens :: "nat \<Rightarrow> nat \<Rightarrow> nat option list \<Rightarrow> tinf \<Rightarrow> (nat option list option \<times> tinf) option" where
  "read_clens 0 i lengths d = Some (Some lengths, d)"
| "read_clens (Suc n) i lengths d =
     (case read_bits d 3 0 of
        (None, d) \<Rightarrow> Some (None, d)
      | (Some clen, d) \<Rightarrow>
          if i < length clcidx then read_clens n (Suc i) (lengths[clcidx ! i := Some clen]) d else None)"

fun fill_lengths :: "nat \<Rightarrow> nat \<Rightarrow> nat \<Rightarrow> nat \<Rightarrow> nat option list \<Rightarrow> (nat \<times> nat option list) option" where
  "fill_lengths 0 want v num lengths = Some (num, lengths)"
| "fill_lengths (Suc n) want v num lengths =
     (if want \<le> num then Some (num, lengths)
      else if length lengths \<le> num then None
      else fill_lengths n want v (Suc num) (lengths[num := Some v]))"

text \<open>What one code-length symbol does: the number of lengths so far and the array after it.\<close>

definition length_op :: "nat \<Rightarrow> nat \<Rightarrow> nat \<Rightarrow> nat option list \<Rightarrow> tinf \<Rightarrow> ((nat \<times> nat option list) option \<times> tinf) option" where
  "length_op sy want num lengths d =
     (if sy = 16 then
        (if num = 0 then Some (None, d)
         else do { prev \<leftarrow> lengths ! (num - 1);
                   case read_bits d 2 3 of
                     (None, d) \<Rightarrow> Some (None, d)
                   | (Some n, d) \<Rightarrow> do { r \<leftarrow> fill_lengths n want prev num lengths; Some (Some r, d) } })
      else if sy = 17 then
        (case read_bits d 3 3 of
           (None, d) \<Rightarrow> Some (None, d)
         | (Some n, d) \<Rightarrow> do { r \<leftarrow> fill_lengths n want 0 num lengths; Some (Some r, d) })
      else if sy = 18 then
        (case read_bits d 7 11 of
           (None, d) \<Rightarrow> Some (None, d)
         | (Some n, d) \<Rightarrow> do { r \<leftarrow> fill_lengths n want 0 num lengths; Some (Some r, d) })
      else if 15 < sy then Some (None, d)
      else if length lengths \<le> num then None
      else Some (Some (Suc num, lengths[num := Some sy]), d))"

partial_function (option) read_lengths ::
    "tinf_tree \<Rightarrow> nat \<Rightarrow> nat \<Rightarrow> nat option list \<Rightarrow> tinf \<Rightarrow> (nat option list option \<times> tinf) option" where
  "read_lengths t want num lengths d =
     (if want \<le> num then Some (Some lengths, d)
      else do { sd \<leftarrow> decode_symbol d t;
                (case fst sd of
                   None \<Rightarrow> Some (None, snd sd)
                 | Some sy \<Rightarrow>
                     do { rd \<leftarrow> length_op sy want num lengths (snd sd);
                          (case fst rd of
                             None \<Rightarrow> Some (None, snd rd)
                           | Some r \<Rightarrow> read_lengths t want (fst r) (snd r) (snd rd)) }) })"

text \<open>The two tables from the finished array.\<close>

definition finish_trees :: "nat \<Rightarrow> nat \<Rightarrow> nat option list \<Rightarrow> tinf \<Rightarrow> (int \<times> tinf) option" where
  "finish_trees hlit hdist lengths d =
     do { lt \<leftarrow> build_tree (ltree d) lengths hlit;
          dt \<leftarrow> build_tree (dtree d) (drop hlit lengths) hdist;
          Some (TINF_OK, d\<lparr>ltree := lt, dtree := dt\<rparr>) }"

text \<open>The code-length code and the lengths coded with it, once the three counts are known.\<close>

definition decode_lengths :: "nat \<Rightarrow> nat \<Rightarrow> nat \<Rightarrow> tinf \<Rightarrow> (int \<times> tinf) option" where
  "decode_lengths hlit hdist hclen d =
     do { (cl, d) \<leftarrow> read_clens hclen 0 (replicate 19 (Some 0) @ replicate 301 None) d;
          (case cl of
             None \<Rightarrow> Some (TINF_DATA_ERROR, d)
           | Some lengths \<Rightarrow>
               do { code_tree \<leftarrow> build_tree raw_tree lengths 19;
                    (ls, d) \<leftarrow> read_lengths code_tree (hlit + hdist) 0 lengths d;
                    (case ls of
                       None \<Rightarrow> Some (TINF_DATA_ERROR, d)
                     | Some lengths \<Rightarrow> finish_trees hlit hdist lengths d) }) }"

definition decode_trees :: "tinf \<Rightarrow> (int \<times> tinf) option" where
  "decode_trees d =
     (case read_bits d 5 257 of (hlit, d) \<Rightarrow>
      case read_bits d 5 1 of (hdist, d) \<Rightarrow>
      case read_bits d 4 4 of (hclen, d) \<Rightarrow>
      case (hlit, hdist, hclen) of
        (Some hlit, Some hdist, Some hclen) \<Rightarrow>
          if 286 < hlit \<or> 30 < hdist then Some (TINF_DATA_ERROR, d)
          else decode_lengths hlit hdist hclen d
      | _ \<Rightarrow> Some (TINF_DATA_ERROR, d))"

section \<open>Blocks\<close>

text \<open>\<open>for (i = 0; i < length; i++) *d->dst++ = *from++\<close>, where \<open>from\<close> stays \<open>dist\<close> bytes behind \<open>dst\<close>.\<close>

fun copy_match :: "nat \<Rightarrow> nat \<Rightarrow> u8 list \<Rightarrow> u8 list option" where
  "copy_match 0 dist out = Some out"
| "copy_match (Suc n) dist out =
     (if dist = 0 \<or> length out < dist then None
      else copy_match n dist (out @ [out ! (length out - dist)]))"

text \<open>
  The length/distance pair that follows the symbol \<open>257 + sy\<close>: \<^const>\<open>TINF_OK\<close> sends the loop of the
  block into its next round.
\<close>

definition inflate_match :: "nat \<Rightarrow> tinf \<Rightarrow> (int \<times> tinf) option" where
  "inflate_match sy d =
     (if 29 \<le> sy then Some (TINF_DATA_ERROR, d)
      else case read_bits d (length_bits ! sy) (length_base ! sy) of
             (None, d) \<Rightarrow> Some (TINF_DATA_ERROR, d)
           | (Some len, d) \<Rightarrow>
               do { (dsym, d) \<leftarrow> decode_symbol d (dtree d);
                    (case dsym of
                       None \<Rightarrow> Some (TINF_DATA_ERROR, d)
                     | Some dsym \<Rightarrow>
                         if 30 \<le> dsym then Some (TINF_DATA_ERROR, d)
                         else case read_bits d (dist_bits ! dsym) (dist_base ! dsym) of
                                (None, d) \<Rightarrow> Some (TINF_DATA_ERROR, d)
                              | (Some dist, d) \<Rightarrow>
                                  if length (t_out d) < dist then Some (TINF_DATA_ERROR, d)
                                  else if t_cap d < length (t_out d) + len then Some (TINF_BUF_ERROR, d)
                                  else do { out \<leftarrow> copy_match len dist (t_out d);
                                            Some (TINF_OK, d\<lparr>t_out := out\<rparr>) }) })"

partial_function (option) inflate_block_data :: "tinf \<Rightarrow> (int \<times> tinf) option" where
  "inflate_block_data d =
     do { sd \<leftarrow> decode_symbol d (ltree d);
          (case fst sd of
             None \<Rightarrow> Some (TINF_DATA_ERROR, snd sd)
           | Some sy \<Rightarrow>
               if sy = 256 then Some (TINF_OK, snd sd)
               else if sy < 256 then
                 (if t_cap (snd sd) \<le> length (t_out (snd sd)) then Some (TINF_BUF_ERROR, snd sd)
                  else inflate_block_data ((snd sd)\<lparr>t_out := t_out (snd sd) @ [of_nat sy]\<rparr>))
               else do { rd \<leftarrow> inflate_match (sy - 257) (snd sd);
                         if fst rd = TINF_OK then inflate_block_data (snd rd) else Some rd }) }"

definition inflate_uncompressed_block :: "tinf \<Rightarrow> int \<times> tinf" where
  "inflate_uncompressed_block d =
     (let d = d\<lparr>t_bitcount := 0\<rparr>; s = t_src d
      in if length s < 4 then (TINF_DATA_ERROR, d)
         else (let len = unat (s ! 0) OR push_bit 8 (unat (s ! 1));
                   nlen = unat (s ! 2) OR push_bit 8 (unat (s ! 3));
                   d = d\<lparr>t_src := drop 4 s\<rparr>
               in if len XOR 0xffff \<noteq> nlen then (TINF_DATA_ERROR, d)
                  else if length (t_src d) < len then (TINF_DATA_ERROR, d)
                  else if t_cap d < length (t_out d) + len then (TINF_BUF_ERROR, d)
                  else (TINF_OK, d\<lparr>t_out := t_out d @ take len (t_src d), t_src := drop len (t_src d)\<rparr>)))"

text \<open>One round of the loop of \<open>inflate_raw\<close> after the block type was read.\<close>

definition inflate_block :: "nat \<Rightarrow> tinf \<Rightarrow> (int \<times> tinf) option" where
  "inflate_block btype d =
     (if btype = 0 then Some (inflate_uncompressed_block d)
      else if btype = 1 then
        do { (lt, dt) \<leftarrow> build_fixed_trees (ltree d) (dtree d);
             inflate_block_data (d\<lparr>ltree := lt, dtree := dt\<rparr>) }
      else if btype = 2 then
        do { (res, d) \<leftarrow> decode_trees d;
             if res = TINF_OK then inflate_block_data d else Some (res, d) }
      else Some (TINF_DATA_ERROR, d))"

partial_function (option) inflate_loop :: "tinf \<Rightarrow> (int \<times> tinf) option" where
  "inflate_loop d =
     (let bd = getbit d in
      case fst bd of
        None \<Rightarrow> Some (TINF_DATA_ERROR, snd bd)
      | Some bfinal \<Rightarrow>
          (let td = read_bits (snd bd) 2 0 in
           case fst td of
             None \<Rightarrow> Some (TINF_DATA_ERROR, snd td)
           | Some btype \<Rightarrow>
               do { rd \<leftarrow> inflate_block btype (snd td);
                    if fst rd \<noteq> TINF_OK then Some rd
                    else if bfinal = 0 then inflate_loop (snd rd) else Some rd }))"

text \<open>
  \<open>inflate_raw(dest, &cap, src, src_len)\<close>: the return code and the bytes written to \<open>dest\<close>, whose
  number is what \<open>*dest_len\<close> holds after success.
\<close>

definition inflate_raw :: "nat \<Rightarrow> u8 list \<Rightarrow> (int \<times> u8 list) option" where
  "inflate_raw cap src =
     do { (res, d) \<leftarrow> inflate_loop \<lparr>t_src = src, t_tag = 0, t_bitcount = 0, t_out = [], t_cap = cap,
                                    ltree = raw_tree, dtree = raw_tree\<rparr>;
          Some (res, t_out d) }"

definition inflate_zlib :: "nat \<Rightarrow> u8 list \<Rightarrow> (int \<times> u8 list) option" where
  "inflate_zlib cap src =
     (if length src < 2 then Some (TINF_DATA_ERROR, [])
      else (let cmf = unat (src ! 0); flg = unat (src ! 1)
            in if cmf AND 0x0f \<noteq> 8 then Some (TINF_DATA_ERROR, [])
               else if (push_bit 8 cmf OR flg) mod 31 \<noteq> 0 then Some (TINF_DATA_ERROR, [])
               else if flg AND 0x20 \<noteq> 0 then Some (TINF_DATA_ERROR, [])
               else inflate_raw cap (drop 2 src)))"

section \<open>The bits still to be read\<close>

definition byte_bits :: "u8 \<Rightarrow> bool list" where
  "byte_bits b = map (bit b) [0..<8]"

definition bytes_bits :: "u8 list \<Rightarrow> bool list" where
  "bytes_bits bs = concat (map byte_bits bs)"

definition bits_left :: "tinf \<Rightarrow> bool list" where
  "bits_left d = map (bit (t_tag d)) [0..<t_bitcount d] @ bytes_bits (t_src d)"

lemma bytes_bits_simps [simp]:
  "bytes_bits [] = []" "bytes_bits (b # bs) = byte_bits b @ bytes_bits bs"
  "bytes_bits (xs @ ys) = bytes_bits xs @ bytes_bits ys"
  by (simp_all add: bytes_bits_def)

lemma length_byte_bits [simp]: "length (byte_bits b) = 8"
  by (simp add: byte_bits_def)

lemma length_bytes_bits [simp]: "length (bytes_bits bs) = 8 * length bs"
  by (induction bs) auto

text \<open>What reading bits leaves alone, and that it only uses up bits.\<close>

definition reads :: "tinf \<Rightarrow> tinf \<Rightarrow> bool" where
  "reads d d' \<longleftrightarrow> t_out d' = t_out d \<and> t_cap d' = t_cap d \<and> ltree d' = ltree d \<and> dtree d' = dtree d \<and>
     t_bitcount d' < 8 \<and> length (bits_left d') \<le> length (bits_left d)"

lemma reads_refl: "t_bitcount d < 8 \<Longrightarrow> reads d d"
  by (simp add: reads_def)

lemma reads_trans: "reads d d' \<Longrightarrow> reads d' d'' \<Longrightarrow> reads d d''"
  by (auto simp: reads_def)

lemma map_bit_Suc: "map (bit (k :: nat)) [0..<Suc n] = odd k # map (bit (k div 2)) [0..<n]"
  by (simp add: upt_conv_Cons map_Suc_upt[symmetric] bit_0 bit_Suc del: upt_Suc)

lemma getbit_empty:
  assumes "bits_left d = []"
  shows "getbit d = (None, d)"
  using assms by (cases "t_src d") (auto simp: bits_left_def getbit_def byte_bits_def)

lemma getbit_cons:
  assumes "bits_left d = b # bs" "t_bitcount d < 8"
  shows "\<exists>d'. getbit d = (Some (of_bool b), d') \<and> bits_left d' = bs \<and> reads d d'"
proof (cases "t_bitcount d")
  case 0
  then obtain x xs where x: "t_src d = x # xs" using assms(1) by (cases "t_src d") (auto simp: bits_left_def)
  have "byte_bits x = map (bit (unat x)) [0..<Suc 7]"
    by (simp add: byte_bits_def bit_unsigned_iff)
  then have "byte_bits x = odd (unat x) # map (bit (unat x div 2)) [0..<7]" unfolding map_bit_Suc .
  then have "b # bs = odd (unat x) # map (bit (unat x div 2)) [0..<7] @ bytes_bits xs"
    using assms(1) 0 x by (simp add: bits_left_def)
  then show ?thesis using 0 x assms
    by (auto simp: getbit_def Let_def bits_left_def reads_def mod_2_eq_odd)
next
  case (Suc n)
  then have "b # bs = odd (t_tag d) # map (bit (t_tag d div 2)) [0..<n] @ bytes_bits (t_src d)"
    using assms(1) by (simp add: bits_left_def map_bit_Suc del: upt_Suc)
  then show ?thesis using Suc assms
    by (auto simp: getbit_def Let_def bits_left_def reads_def mod_2_eq_odd)
qed

section \<open>Numbers in the bit stream\<close>

text \<open>Numbers are stored from the low bit up, code words from the high bit down.\<close>

definition lsb_bits :: "nat \<Rightarrow> nat \<Rightarrow> bool list" where
  "lsb_bits n v = map (bit v) [0..<n]"

definition msb_bits :: "nat \<Rightarrow> nat \<Rightarrow> bool list" where
  "msb_bits n v = rev (lsb_bits n v)"

definition bits_val :: "bool list \<Rightarrow> nat" where
  "bits_val bs = horner_sum of_bool 2 bs"

lemma length_lsb_bits [simp]: "length (lsb_bits n v) = n"
  by (simp add: lsb_bits_def)

lemma length_msb_bits [simp]: "length (msb_bits n v) = n"
  by (simp add: msb_bits_def)

lemma bits_val_lsb [simp]: "v < 2 ^ n \<Longrightarrow> bits_val (lsb_bits n v) = v"
  by (simp add: bits_val_def lsb_bits_def horner_sum_bit_eq_take_bit take_bit_nat_eq_self)

lemma bits_val_bound: "bits_val bs < 2 ^ length bs"
  unfolding bits_val_def by (rule horner_sum_of_bool_2_less)

lemma bits_val_snoc: "bits_val (bs @ [b]) = bits_val bs + 2 ^ length bs * of_bool b"
  by (simp add: bits_val_def horner_sum_append)

lemma or_push_bit_add:
  assumes "v < (2 :: nat) ^ i"
  shows "v OR push_bit i (of_bool b) = v + 2 ^ i * of_bool b"
proof -
  have "\<not> bit v n \<or> \<not> bit (push_bit i (of_bool b)) n" for n
  proof (cases "n < i")
    case False
    then have "v < 2 ^ n" using assms by (meson le_less_trans less_le_trans linorder_not_le one_le_numeral power_increasing)
    then have "\<not> bit v n" by (simp add: bit_nat_def)
    then show ?thesis by simp
  qed (simp add: bit_push_bit_iff)
  then have "v + push_bit i (of_bool b) = v OR push_bit i (of_bool b)" by (rule disjunctive_add)
  then show ?thesis by (simp add: push_bit_eq_mult mult.commute)
qed

lemma read_bits_loop_some:
  assumes "n \<le> length (bits_left d)" "t_bitcount d < 8"
  shows "\<exists>d'. read_bits_loop n (length pre) (bits_val pre) d = (Some (bits_val (pre @ take n (bits_left d))), d') \<and>
           bits_left d' = drop n (bits_left d) \<and> reads d d'"
  using assms
proof (induction n arbitrary: d pre)
  case 0
  then show ?case by (simp add: reads_refl)
next
  case (Suc n)
  then obtain b bs where b: "bits_left d = b # bs" by (cases "bits_left d") auto
  then obtain d1 where d1: "getbit d = (Some (of_bool b), d1)" "bits_left d1 = bs" "reads d d1"
    using getbit_cons Suc.prems by blast
  have "bits_val pre OR push_bit (length pre) (of_bool b) = bits_val (pre @ [b])"
    by (simp add: or_push_bit_add bits_val_bound bits_val_snoc)
  moreover obtain d2 where "read_bits_loop n (length (pre @ [b])) (bits_val (pre @ [b])) d1 =
      (Some (bits_val ((pre @ [b]) @ take n bs)), d2)" "bits_left d2 = drop n bs" "reads d1 d2"
    using Suc.IH[of d1 "pre @ [b]"] Suc.prems b d1 by (auto simp: reads_def)
  ultimately show ?case using b d1 reads_trans[OF d1(3)] by auto
qed

lemma read_bits_loop_short:
  assumes "length (bits_left d) < n" "t_bitcount d < 8"
  shows "\<exists>d'. read_bits_loop n i v d = (None, d') \<and> reads d d'"
  using assms
proof (induction n arbitrary: d i v)
  case (Suc n)
  show ?case
  proof (cases "bits_left d")
    case Nil
    then show ?thesis using Suc.prems by (simp add: getbit_empty reads_refl)
  next
    case (Cons b bs)
    then obtain d1 where d1: "getbit d = (Some (of_bool b), d1)" "bits_left d1 = bs" "reads d d1"
      using getbit_cons Suc.prems by blast
    then obtain d2 where "read_bits_loop n (Suc i) (v OR push_bit i (of_bool b)) d1 = (None, d2)" "reads d1 d2"
      using Suc.IH[of d1] Suc.prems Cons by (auto simp: reads_def)
    then show ?thesis using d1 reads_trans[OF d1(3)] by auto
  qed
qed simp

lemma read_bits_some:
  assumes "bits_left d = bs @ rest" "length bs = n" "t_bitcount d < 8"
  shows "\<exists>d'. read_bits d n base = (Some (base + bits_val bs), d') \<and> bits_left d' = rest \<and> reads d d'"
  using read_bits_loop_some[of n d "[]"] assms by (auto simp: read_bits_def bits_val_def)

lemma read_bits_cases:
  assumes "t_bitcount d < 8"
  shows "\<exists>r d'. read_bits d n base = (r, d') \<and> reads d d' \<and> (\<forall>v. r = Some v \<longrightarrow> base \<le> v \<and> v < base + 2 ^ n)"
proof (cases "n \<le> length (bits_left d)")
  case True
  then show ?thesis
    using read_bits_some[of d "take n (bits_left d)" "drop n (bits_left d)" n base] assms
      bits_val_bound[of "take n (bits_left d)"] by (auto simp: min_def split: if_splits)
next
  case False
  then show ?thesis using read_bits_loop_short[of d n 0 0] assms by (auto simp: read_bits_def)
qed

lemma getbit_cases:
  assumes "t_bitcount d < 8"
  shows "(getbit d = (None, d) \<and> reads d d) \<or>
    (\<exists>b d'. getbit d = (Some (of_bool b), d') \<and> reads d d' \<and> length (bits_left d') < length (bits_left d))"
  using getbit_empty[of d] getbit_cons[of d] assms reads_refl[of d] by (cases "bits_left d") fastforce+

end
