(* ===== verification/InflateTree.thy ===== *)
theory InflateTree
  imports Inflate
begin

text \<open>
  Canonical Huffman codes: what \<open>build_tree\<close> makes of a list of code lengths and that \<open>decode_symbol\<close>
  inverts the code assignment of RFC 1951, 3.2.2, for every such list.
\<close>

section \<open>The code of a list of lengths\<close>

definition len_count :: "nat list \<Rightarrow> nat \<Rightarrow> nat" where
  "len_count ls l = (if l = 0 then 0 else count_list ls l)"

text \<open>\<open>next_code\<close> of the RFC before any symbol got its code.\<close>

fun first_code :: "nat list \<Rightarrow> nat \<Rightarrow> nat" where
  "first_code ls 0 = 0"
| "first_code ls (Suc l) = 2 * (first_code ls l + len_count ls l)"

definition code_of :: "nat list \<Rightarrow> nat \<Rightarrow> nat" where
  "code_of ls n = first_code ls (ls ! n) + count_list (take n ls) (ls ! n)"

definition huff_code :: "nat list \<Rightarrow> nat \<Rightarrow> bool list" where
  "huff_code ls n = msb_bits (ls ! n) (code_of ls n)"

text \<open>A symbol has a code word of its length.\<close>

definition has_code :: "nat list \<Rightarrow> nat \<Rightarrow> bool" where
  "has_code ls n \<longleftrightarrow> n < length ls \<and> ls ! n \<noteq> 0 \<and> code_of ls n < 2 ^ (ls ! n)"

section \<open>The sorted symbol table\<close>

definition offset :: "nat list \<Rightarrow> nat \<Rightarrow> nat" where
  "offset ls l = (\<Sum>i < l. len_count ls i)"

definition slot :: "nat list \<Rightarrow> nat \<Rightarrow> nat" where
  "slot ls n = offset ls (ls ! n) + count_list (take n ls) (ls ! n)"

definition tree_ok :: "nat list \<Rightarrow> tinf_tree \<Rightarrow> bool" where
  "tree_ok ls t \<longleftrightarrow> length ls \<le> 288 \<and> (\<forall>l \<in> set ls. l < 16) \<and> counts t = map (\<lambda>l. Some (len_count ls l)) [0..<16] \<and>
     length (symbols t) = 288 \<and> (\<forall>n < length ls. ls ! n \<noteq> 0 \<longrightarrow> symbols t ! slot ls n = Some n)"

lemma count_list_take_less:
  assumes "m < n" "n \<le> length ls"
  shows "count_list (take m ls) (ls ! m) < count_list (take n ls) (ls ! m)"
proof -
  have "take n ls = take m ls @ ls ! m # drop (Suc m) (take n ls)"
    using assms id_take_nth_drop[of m "take n ls"] by (simp add: min_def)
  then have "count_list (take n ls) (ls ! m) =
      count_list (take m ls) (ls ! m) + (count_list (drop (Suc m) (take n ls)) (ls ! m) + 1)"
    using count_list_append[of "take m ls" "ls ! m # drop (Suc m) (take n ls)" "ls ! m"] by simp
  then show ?thesis by simp
qed

lemma offset_Suc: "offset ls (Suc l) = offset ls l + len_count ls l"
  by (simp add: offset_def)

lemma offset_mono: "l \<le> l' \<Longrightarrow> offset ls l \<le> offset ls l'"
  unfolding offset_def by (intro sum_mono2) auto

lemma slot_bucket:
  assumes "n < length ls" "ls ! n \<noteq> 0"
  shows "offset ls (ls ! n) \<le> slot ls n" "slot ls n < offset ls (Suc (ls ! n))"
  using count_list_take_less[OF assms(1) order_refl] assms
  by (simp_all add: slot_def offset_Suc len_count_def)

lemma slot_inj:
  assumes "n < length ls" "ls ! n \<noteq> 0" "m < length ls" "ls ! m \<noteq> 0" "slot ls n = slot ls m"
  shows "n = m"
proof (cases "ls ! n" "ls ! m" rule: linorder_cases)
  case less
  then have "offset ls (Suc (ls ! n)) \<le> offset ls (ls ! m)" by (intro offset_mono) simp
  then show ?thesis using slot_bucket[of n ls] slot_bucket[of m ls] assms by linarith
next
  case greater
  then have "offset ls (Suc (ls ! m)) \<le> offset ls (ls ! n)" by (intro offset_mono) simp
  then show ?thesis using slot_bucket[of n ls] slot_bucket[of m ls] assms by linarith
next
  case equal
  then have "count_list (take n ls) (ls ! n) = count_list (take m ls) (ls ! n)" using assms by (simp add: slot_def)
  then show ?thesis
    using count_list_take_less[of n m ls] count_list_take_less[of m n ls] assms equal
    by (cases n m rule: linorder_cases) auto
qed

lemma count_list_card: "count_list xs x = card {n. n < length xs \<and> xs ! n = x}"
proof -
  have "count_list xs x = length (filter ((=) x) xs)" by (induction xs) auto
  then show ?thesis by (simp add: length_filter_conv_card eq_commute)
qed

lemma offset_total:
  assumes "\<forall>l \<in> set ls. l < k"
  shows "offset ls k = card {n. n < length ls \<and> ls ! n \<noteq> 0}"
proof -
  have "card {n. n < length ls \<and> ls ! n \<noteq> 0} = card (\<Union>i \<in> {1..<k}. {n. n < length ls \<and> ls ! n = i})"
    using assms by (intro arg_cong[where f = card]) (auto simp: nth_mem Suc_le_eq)
  also have "\<dots> = (\<Sum>i \<in> {1..<k}. card {n. n < length ls \<and> ls ! n = i})"
    by (rule card_UN_disjoint) auto
  also have "\<dots> = (\<Sum>i \<in> {1..<k}. len_count ls i)"
    by (intro sum.cong) (auto simp: len_count_def count_list_card)
  also have "\<dots> = offset ls k"
    unfolding offset_def by (intro sum.mono_neutral_left) (auto simp: len_count_def)
  finally show ?thesis by simp
qed

lemma offset_le_length:
  assumes "\<forall>l \<in> set ls. l < 16" "k \<le> 16"
  shows "offset ls k \<le> length ls"
proof -
  have "offset ls k \<le> offset ls 16" using assms(2) by (rule offset_mono)
  also have "\<dots> \<le> card {..< length ls}" unfolding offset_total[OF assms(1)] by (intro card_mono) auto
  finally show ?thesis by simp
qed

lemma slot_surj:
  assumes "\<forall>l \<in> set ls. l < 16" "k < offset ls 16"
  shows "\<exists>n < length ls. ls ! n \<noteq> 0 \<and> slot ls n = k"
proof -
  let ?S = "{n. n < length ls \<and> ls ! n \<noteq> 0}"
  have "slot ls n < offset ls 16" if "n \<in> ?S" for n
  proof -
    have "offset ls (Suc (ls ! n)) \<le> offset ls 16" using assms(1) that by (intro offset_mono) (auto simp: Suc_le_eq)
    then show ?thesis using slot_bucket[of n ls] that by simp
  qed
  then have "slot ls ` ?S \<subseteq> {..< offset ls 16}" by auto
  moreover have "inj_on (slot ls) ?S" by (rule inj_onI) (use slot_inj in blast)
  then have "card (slot ls ` ?S) = card {..< offset ls 16}" by (simp add: card_image offset_total[OF assms(1)])
  ultimately have "slot ls ` ?S = {..< offset ls 16}" by (intro card_subset_eq) auto
  then have "k \<in> slot ls ` ?S" using assms(2) by simp
  then show ?thesis by blast
qed

section \<open>Building the table\<close>

lemma count_lengths_ok:
  assumes "\<forall>l \<in> set ls. l < 16" "length cs = 16"
  shows "count_lengths (map Some ls) cs = Some (map (\<lambda>l. cs ! l + count_list ls l) [0..<16])"
  using assms
proof (induction ls arbitrary: cs)
  case Nil
  then show ?case by (simp add: list_eq_iff_nth_eq)
next
  case (Cons l ls)
  then show ?case by (auto simp: nth_list_update)
qed

lemma start_offsets_eq:
  "start_offsets (map (len_count ls) [0..<16]) = map (offset ls) [0..<16]"
proof -
  let ?cs = "map (len_count ls) [0..<16]"
  have "k < 16 \<Longrightarrow> foldl (\<lambda>offs i. offs @ [offs ! (i - 1) + ?cs ! (i - 1)]) [0] [1..<Suc k] = map (offset ls) [0..<Suc k]" for k
  proof (induction k)
    case 0
    then show ?case by (simp add: offset_def)
  next
    case (Suc k)
    have "[1..<Suc (Suc k)] = [1..<Suc k] @ [Suc k]" by simp
    moreover have "map (offset ls) [0..<Suc (Suc k)] = map (offset ls) [0..<Suc k] @ [offset ls k + len_count ls k]"
      by (simp add: offset_Suc)
    ultimately show ?case using Suc by (simp del: upt_Suc)
  qed
  from this[of 15] show ?thesis unfolding start_offsets_def by (simp del: upt_Suc)
qed

definition offsets_at :: "nat list \<Rightarrow> nat \<Rightarrow> nat list \<Rightarrow> bool" where
  "offsets_at ls k offs \<longleftrightarrow> length offs = 16 \<and> (\<forall>l. 0 < l \<and> l < 16 \<longrightarrow> offs ! l = offset ls l + count_list (take k ls) l)"

definition placed :: "nat list \<Rightarrow> nat \<Rightarrow> nat option list \<Rightarrow> bool" where
  "placed ls k syms \<longleftrightarrow> length syms = 288 \<and> (\<forall>n < k. ls ! n \<noteq> 0 \<longrightarrow> syms ! slot ls n = Some n)"

lemma count_list_take_Suc:
  "k < length ls \<Longrightarrow> count_list (take (Suc k) ls) l = count_list (take k ls) l + (if ls ! k = l then 1 else 0)"
  by (simp add: take_Suc_conv_app_nth)

lemma place_symbols_ok:
  assumes "\<forall>l \<in> set ls. l < 16" "length ls \<le> 288" "k \<le> length ls" "offsets_at ls k offs" "placed ls k syms"
  shows "\<exists>syms'. place_symbols k (map Some (drop k ls)) offs syms = Some syms' \<and> placed ls (length ls) syms'"
  using assms(3-)
proof (induction "length ls - k" arbitrary: k offs syms)
  case 0
  then show ?case by simp
next
  case (Suc j)
  have k: "k < length ls" "drop k ls = ls ! k # drop (Suc k) ls" using Suc.hyps(2) by (simp_all add: Cons_nth_drop_Suc)
  let ?l = "ls ! k"
  show ?case
  proof (cases "?l = 0")
    case True
    moreover have "offsets_at ls (Suc k) offs" "placed ls (Suc k) syms"
      using Suc.prems k True by (auto simp: offsets_at_def placed_def count_list_take_Suc less_Suc_eq)
    ultimately show ?thesis using Suc.hyps(1)[of "Suc k" offs syms] Suc.hyps(2) k by simp
  next
    case False
    have l: "?l < 16" using assms(1) k by simp
    have pos: "offs ! ?l = slot ls k" using Suc.prems False l by (simp add: offsets_at_def slot_def)
    have "offset ls (Suc ?l) \<le> length ls" using offset_le_length[OF assms(1)] l by simp
    then have bound: "slot ls k < 288" using slot_bucket[OF k(1) False] assms(2) by simp
    have "offsets_at ls (Suc k) (offs[?l := offs ! ?l + 1])"
      using Suc.prems l k by (auto simp: offsets_at_def count_list_take_Suc nth_list_update)
    moreover have "slot ls k \<noteq> slot ls n" if "n < k" "ls ! n \<noteq> 0" for n
      using slot_inj[of n ls k] that k False by auto
    then have "placed ls (Suc k) (syms[slot ls k := Some k])"
      using Suc.prems bound by (auto simp: placed_def less_Suc_eq)
    ultimately show ?thesis
      using Suc.hyps(1)[of "Suc k" "offs[?l := offs ! ?l + 1]" "syms[slot ls k := Some k]"]
        Suc.hyps(2) Suc.prems k l False pos bound by (simp add: placed_def)
  qed
qed

lemma build_tree_ok:
  assumes "\<forall>l \<in> set ls. l < 16" "length ls \<le> 288" "length (symbols t) = 288"
    "take num lengths = map Some ls" "num = length ls"
  shows "\<exists>t'. build_tree t lengths num = Some t' \<and> tree_ok ls t'"
proof -
  let ?cs = "map (len_count ls) [0..<16]"
  have "(map (\<lambda>l. replicate 16 0 ! l + count_list ls l) [0..<16])[0 := 0] = ?cs"
    by (auto simp: list_eq_iff_nth_eq nth_list_update len_count_def)
  moreover have "offsets_at ls 0 (map (offset ls) [0..<16])" "placed ls 0 (symbols t)"
    using assms(3) by (simp_all add: offsets_at_def placed_def)
  then obtain syms where "place_symbols 0 (map Some ls) (map (offset ls) [0..<16]) (symbols t) = Some syms"
      "placed ls (length ls) syms"
    using place_symbols_ok[OF assms(1,2), of 0 "map (offset ls) [0..<16]" "symbols t"] by auto
  moreover have "num \<le> length lengths" using arg_cong[OF assms(4), of length] assms(5) by simp
  ultimately show ?thesis
    using assms count_lengths_ok[OF assms(1), of "replicate 16 0"]
    by (simp add: build_tree_def start_offsets_eq tree_ok_def placed_def del: upt_Suc)
qed

section \<open>Decoding\<close>

text \<open>Whatever the bits, a symbol index that is returned is an entry \<open>build_tree\<close> filled.\<close>

lemma counts_nth: "tree_ok ls t \<Longrightarrow> l < 16 \<Longrightarrow> counts t ! l = Some (len_count ls l)"
  by (simp add: tree_ok_def del: upt_Suc)

lemma decode_loop_step:
  assumes "tree_ok ls t" "getbit d = (Some (of_bool b), d1)" "Suc len < 16"
    "2 * cur + of_bool b - int (len_count ls (Suc len)) = cur'" "want + int (len_count ls (Suc len)) = want'"
  shows "decode_loop t want cur len d =
    (if 0 \<le> cur' then decode_loop t want' cur' (Suc len) d1 else Some (Some (want' + cur'), d1))"
  using assms(3-) by (subst decode_loop.simps) (auto simp: assms(2) Let_def counts_nth[OF assms(1)])

lemma decode_loop_safe:
  assumes "tree_ok ls t" "t_bitcount d < 8" "0 \<le> cur" "want = int (offset ls (Suc len))" "len < 16"
  shows "\<exists>r d'. decode_loop t want cur len d = Some (r, d') \<and> reads d d' \<and>
    (\<forall>idx. r = Some idx \<longrightarrow> 0 \<le> idx \<and> idx < int (offset ls 16) \<and> length (bits_left d') < length (bits_left d))"
  using assms(2-)
proof (induction "16 - len" arbitrary: d cur want len rule: less_induct)
  case less
  consider "getbit d = (None, d)"
    | b d1 where "getbit d = (Some (of_bool b), d1)" "reads d d1" "length (bits_left d1) < length (bits_left d)"
    using getbit_cases[OF less.prems(1)] by blast
  then show ?case
  proof cases
    case 1
    then show ?thesis using less.prems reads_refl by (subst decode_loop.simps) simp
  next
    case 2
    let ?cur = "2 * cur + of_bool b - int (len_count ls (Suc len))"
    let ?want = "want + int (len_count ls (Suc len))"
    have want: "?want = int (offset ls (Suc (Suc len)))" using less.prems(3) by (simp add: offset_Suc)
    have bc: "t_bitcount d1 < 8" using 2(2) by (simp add: reads_def)
    show ?thesis
    proof (cases "Suc len < 16")
      case False
      then show ?thesis using 2 less.prems(4) by (subst decode_loop.simps) (simp add: Let_def)
    next
      case True
      note step = decode_loop_step[OF assms(1) 2(1) True refl refl, where cur = cur and want = want]
      have le: "offset ls (Suc (Suc len)) \<le> offset ls 16" using True by (intro offset_mono) simp
      show ?thesis
      proof (cases "0 \<le> ?cur")
        case nonneg: True
        obtain r d' where r: "decode_loop t ?want ?cur (Suc len) d1 = Some (r, d')" "reads d1 d'"
          "\<forall>idx. r = Some idx \<longrightarrow> 0 \<le> idx \<and> idx < int (offset ls 16) \<and> length (bits_left d') < length (bits_left d1)"
          using less.hyps[OF _ bc nonneg want True] True by force
        then show ?thesis using nonneg reads_trans[OF 2(2) r(2)] 2(3) unfolding step by auto
      next
        case neg: False
        have "0 \<le> ?want + ?cur" using less.prems(2,3) by simp
        then show ?thesis using neg 2 le unfolding step want by auto
      qed
    qed
  qed
qed

lemma decode_symbol_safe:
  assumes "tree_ok ls t" "t_bitcount d < 8"
  shows "\<exists>r d'. decode_symbol d t = Some (r, d') \<and> reads d d' \<and>
    (\<forall>n. r = Some n \<longrightarrow> n < length ls \<and> length (bits_left d') < length (bits_left d))"
proof -
  obtain r d' where r: "decode_loop t 0 0 0 d = Some (r, d')" "reads d d'"
    "\<forall>idx. r = Some idx \<longrightarrow> 0 \<le> idx \<and> idx < int (offset ls 16) \<and> length (bits_left d') < length (bits_left d)"
    using decode_loop_safe[OF assms, of 0 0 0] by (auto simp: offset_def len_count_def)
  show ?thesis
  proof (cases r)
    case None
    then show ?thesis using r by (simp add: decode_symbol_def)
  next
    case (Some idx)
    then have idx: "0 \<le> idx" "nat idx < offset ls 16" using r(3) by (auto simp: nat_less_iff)
    moreover have ls: "\<forall>l \<in> set ls. l < 16" "length ls \<le> 288" "length (symbols t) = 288"
      using assms(1) by (auto simp: tree_ok_def)
    ultimately obtain n where n: "n < length ls" "ls ! n \<noteq> 0" "slot ls n = nat idx" using slot_surj by blast
    then have "symbols t ! nat idx = Some n" using assms(1) by (auto simp: tree_ok_def)
    moreover have "offset ls 16 \<le> 288" using offset_le_length[OF ls(1), of 16] ls(2) by simp
    ultimately show ?thesis using r Some idx n ls by (simp add: decode_symbol_def)
  qed
qed

lemma offset_1 [simp]: "offset ls (Suc 0) = 0"
  by (simp add: offset_def len_count_def)

lemma len_count_0 [simp]: "len_count ls 0 = 0"
  by (simp add: len_count_def)

text \<open>The code words of one length lie above all shorter ones.\<close>

lemma first_code_le:
  assumes "l < k"
  shows "2 ^ (k - l) * (first_code ls l + len_count ls l) \<le> first_code ls k"
  using assms
proof (induction k)
  case (Suc k)
  show ?case
  proof (cases "l = k")
    case False
    then have "2 ^ (k - l) * (first_code ls l + len_count ls l) \<le> first_code ls k" using Suc by simp
    moreover have "Suc k - l = Suc (k - l)" using Suc.prems by simp
    ultimately show ?thesis by simp
  qed simp
qed simp

lemma msb_bits_Suc: "msb_bits (Suc n) v = bit v n # msb_bits n v"
  by (simp add: msb_bits_def lsb_bits_def)

lemma div_pow_Suc: "v div 2 ^ n = 2 * (v div 2 ^ Suc n) + of_bool (bit (v :: nat) n)"
proof -
  have "v div 2 ^ Suc n = v div 2 ^ n div 2" by (simp only: power_Suc2 div_mult2_eq)
  then show ?thesis using mult_div_mod_eq[of 2 "v div 2 ^ n"] by (simp add: bit_iff_odd mod_2_eq_odd)
qed

lemma decode_loop_code:
  assumes "tree_ok ls t" "t_bitcount d < 8" "L < 16" "first_code ls L \<le> v" "v < first_code ls L + len_count ls L"
    "len < L" "bits_left d = msb_bits (L - len) v @ rest"
    "cur = int (v div 2 ^ (L - len)) - int (first_code ls len + len_count ls len)" "want = int (offset ls (Suc len))"
  shows "\<exists>d'. decode_loop t want cur len d = Some (Some (int (offset ls L + (v - first_code ls L))), d') \<and>
    bits_left d' = rest \<and> reads d d'"
  using assms(2,6-)
proof (induction "L - len" arbitrary: d cur want len rule: less_induct)
  case less
  let ?b = "bit v (L - Suc len)"
  have len: "L - len = Suc (L - Suc len)" using less.prems(2) by simp
  then obtain d1 where d1: "getbit d = (Some (of_bool ?b), d1)" "bits_left d1 = msb_bits (L - Suc len) v @ rest" "reads d d1"
    using getbit_cons[of d ?b "msb_bits (L - Suc len) v @ rest"] less.prems by (auto simp: msb_bits_Suc)
  let ?cur = "int (v div 2 ^ (L - Suc len)) - int (first_code ls (Suc len) + len_count ls (Suc len))"
  let ?want = "int (offset ls (Suc (Suc len)))"
  have cur: "2 * cur + of_bool ?b - int (len_count ls (Suc len)) = ?cur"
    using less.prems(4) div_pow_Suc[of v "L - Suc len"] len by simp
  have want: "want + int (len_count ls (Suc len)) = ?want" using less.prems(5) by (simp add: offset_Suc)
  have "Suc len < 16" using assms(3) less.prems(2) by simp
  note step = decode_loop_step[OF assms(1) d1(1) this cur want]
  show ?case
  proof (cases "Suc len = L")
    case True
    then have "?cur < 0" "?want + ?cur = int (offset ls L + (v - first_code ls L))"
      using assms(4,5) by (auto simp: offset_Suc)
    then show ?thesis using d1 True unfolding step by (auto simp: msb_bits_def lsb_bits_def)
  next
    case False
    then have "Suc len < L" using less.prems(2) by simp
    then have "2 ^ (L - Suc len) * (first_code ls (Suc len) + len_count ls (Suc len)) \<le> v"
      using first_code_le[of "Suc len" L ls] assms(4) by (meson order_trans)
    then have "first_code ls (Suc len) + len_count ls (Suc len) \<le> v div 2 ^ (L - Suc len)"
      by (simp add: less_eq_div_iff_mult_less_eq mult.commute)
    then have "0 \<le> ?cur" by linarith
    moreover have "t_bitcount d1 < 8" using d1(3) by (simp add: reads_def)
    moreover have "L - Suc len < L - len" using less.prems(2) by simp
    ultimately show ?thesis
      using less.hyps[of "Suc len" d1 ?cur ?want] \<open>Suc len < L\<close> d1 reads_trans[OF d1(3)] unfolding step by auto
  qed
qed

theorem decode_symbol_code:
  assumes "tree_ok ls t" "t_bitcount d < 8" "has_code ls n" "bits_left d = huff_code ls n @ rest"
  shows "\<exists>d'. decode_symbol d t = Some (Some n, d') \<and> bits_left d' = rest \<and> reads d d'"
proof -
  let ?L = "ls ! n" and ?v = "code_of ls n"
  have n: "n < length ls" "?L \<noteq> 0" "?v < 2 ^ ?L" using assms(3) by (auto simp: has_code_def)
  have ls: "\<forall>l \<in> set ls. l < 16" "length ls \<le> 288" "length (symbols t) = 288"
    and sym: "symbols t ! slot ls n = Some n" using assms(1) n by (auto simp: tree_ok_def)
  have L: "?L < 16" using ls n by simp
  have v: "first_code ls ?L \<le> ?v" "?v < first_code ls ?L + len_count ls ?L"
    using count_list_take_less[OF n(1) order_refl] n by (auto simp: code_of_def len_count_def)
  have s: "offset ls ?L + (?v - first_code ls ?L) = slot ls n" by (simp add: slot_def code_of_def)
  have "offset ls (Suc ?L) \<le> 288" using offset_le_length[OF ls(1), of "Suc ?L"] ls(2) L by simp
  then have "slot ls n < 288" using slot_bucket[OF n(1,2)] by simp
  moreover obtain d' where "decode_loop t 0 0 0 d = Some (Some (int (slot ls n)), d')" "bits_left d' = rest" "reads d d'"
    using decode_loop_code[OF assms(1,2) L v, of 0 rest 0 0] n assms(4)
    unfolding s huff_code_def by auto
  ultimately show ?thesis using sym ls by (auto simp: decode_symbol_def)
qed

end
