(* ===== verification/InflateSafe.thy ===== *)
theory InflateSafe
  imports InflateTree
begin

text \<open>
  The decoder on arbitrary input: every function returns, no table entry is read before it was written,
  no array is indexed out of bounds and the output never outgrows its buffer. The number of bits left
  is the termination measure of all loops.
\<close>

section \<open>The array of code lengths\<close>

definition arr :: "nat list \<Rightarrow> nat option list \<Rightarrow> bool" where
  "arr acc lengths \<longleftrightarrow> length lengths = 320 \<and> length acc \<le> 320 \<and> take (length acc) lengths = map Some acc"

lemma arr_nth: "arr acc lengths \<Longrightarrow> i < length acc \<Longrightarrow> lengths ! i = Some (acc ! i)"
  by (metis arr_def length_map nth_map nth_take)

lemma arr_snoc:
  assumes "arr acc lengths" "length acc < 320"
  shows "arr (acc @ [v]) (lengths[length acc := Some v])"
  using assms by (auto simp: arr_def take_Suc_conv_app_nth)

lemma arr_take: "arr acc lengths \<Longrightarrow> num \<le> length acc \<Longrightarrow> take num lengths = map Some (take num acc)"
  by (metis arr_def min.absorb1 take_map take_take)

lemma fill_lengths_arr:
  assumes "arr acc lengths" "length acc \<le> want" "want \<le> 320"
  shows "\<exists>lengths'. fill_lengths n want v (length acc) lengths =
      Some (length acc + min n (want - length acc), lengths') \<and>
    arr (acc @ replicate (min n (want - length acc)) v) lengths'"
  using assms
proof (induction n arbitrary: acc lengths)
  case (Suc n)
  show ?case
  proof (cases "want = length acc")
    case False
    then have "length acc < want" using Suc.prems by simp
    then have "arr (acc @ [v]) (lengths[length acc := Some v])" "length (acc @ [v]) \<le> want"
      using Suc.prems arr_snoc by auto
    from Suc.IH[OF this Suc.prems(3)] obtain lengths' where
      "fill_lengths n want v (Suc (length acc)) (lengths[length acc := Some v]) =
         Some (Suc (length acc) + min n (want - Suc (length acc)), lengths')"
      "arr (acc @ v # replicate (min n (want - Suc (length acc))) v) lengths'"
      by auto
    moreover have "min (Suc n) (want - length acc) = Suc (min n (want - Suc (length acc)))"
      using \<open>length acc < want\<close> by simp
    moreover have "length lengths = 320" using Suc.prems by (simp add: arr_def)
    ultimately show ?thesis using \<open>length acc < want\<close> Suc.prems by simp
  qed (use Suc.prems in simp)
qed simp

section \<open>Tables of a dynamic block\<close>

fun put_clens :: "nat \<Rightarrow> nat list \<Rightarrow> nat list \<Rightarrow> nat list" where
  "put_clens i [] ls = ls"
| "put_clens i (c # cs) ls = put_clens (Suc i) cs (ls[clcidx ! i := c])"

lemma length_put_clens [simp]: "length (put_clens i cs ls) = length ls"
  by (induction cs arbitrary: i ls) auto

lemma put_clens_bound:
  assumes "\<forall>l \<in> set ls. l < 8" "\<forall>c \<in> set cs. c < 8"
  shows "\<forall>l \<in> set (put_clens i cs ls). l < 8"
  using assms by (induction cs arbitrary: i ls) (auto dest!: set_update_subset_insert[THEN subsetD])

definition clen_array :: "nat list \<Rightarrow> nat option list" where
  "clen_array ls = map Some ls @ replicate 301 None"

lemma clcidx_bound: "i < length clcidx \<Longrightarrow> clcidx ! i < 19"
proof -
  have "list_all (\<lambda>c. c < 19) clcidx" by (simp add: clcidx_def)
  then show "i < length clcidx \<Longrightarrow> clcidx ! i < 19" by (simp add: list_all_length)
qed

lemma clen_array_update:
  assumes "length ls = 19" "i < length clcidx"
  shows "(clen_array ls)[clcidx ! i := Some c] = clen_array (ls[clcidx ! i := c])"
  using clcidx_bound[OF assms(2)] assms(1) by (simp add: clen_array_def list_update_append map_update)

lemma read_clens_cases:
  assumes "length ls = 19" "n + i \<le> length clcidx" "t_bitcount d < 8"
  shows "\<exists>r d'. read_clens n i (clen_array ls) d = Some (r, d') \<and> reads d d' \<and>
    (\<forall>a. r = Some a \<longrightarrow> (\<exists>cs. (\<forall>c \<in> set cs. c < 8) \<and> a = clen_array (put_clens i cs ls)))"
  using assms
proof (induction n arbitrary: i ls d)
  case 0
  then show ?case by (auto simp: reads_refl intro!: exI[of _ "[]"])
next
  case (Suc n)
  obtain r d1 where r: "read_bits d 3 0 = (r, d1)" "reads d d1" "\<forall>v. r = Some v \<longrightarrow> v < 8"
    using read_bits_cases[OF Suc.prems(3), of 3 0] by auto
  show ?case
  proof (cases r)
    case None
    then show ?thesis using r by auto
  next
    case (Some c)
    have i: "i < length clcidx" "n + Suc i \<le> length clcidx" using Suc.prems by auto
    have "t_bitcount d1 < 8" using r(2) by (simp add: reads_def)
    then obtain r' d' where "read_clens n (Suc i) (clen_array (ls[clcidx ! i := c])) d1 = Some (r', d')" "reads d1 d'"
        "\<forall>a. r' = Some a \<longrightarrow> (\<exists>cs. (\<forall>c \<in> set cs. c < 8) \<and> a = clen_array (put_clens (Suc i) cs (ls[clcidx ! i := c])))"
      using Suc.IH[of "ls[clcidx ! i := c]" "Suc i" d1] i Suc.prems by auto
    moreover have "\<exists>cs'. (\<forall>c \<in> set cs'. c < 8) \<and> a = clen_array (put_clens i cs' ls)"
      if "\<forall>c \<in> set cs. c < 8" "a = clen_array (put_clens (Suc i) cs (ls[clcidx ! i := c]))" for cs a
      using that r(3) Some by (intro exI[of _ "c # cs"]) auto
    ultimately show ?thesis
      using r Some i Suc.prems reads_trans[OF r(2)] by (auto simp: clen_array_update)
  qed
qed

lemma arr_clen_array: "length ls = 19 \<Longrightarrow> arr ls (clen_array ls)"
  by (simp add: arr_def clen_array_def)

lemma length_op_safe:
  assumes "arr acc lengths" "\<forall>l \<in> set acc. l < 16" "length acc < want" "want \<le> 320" "sy < 19" "t_bitcount d < 8"
  shows "\<exists>r d'. length_op sy want (length acc) lengths d = Some (r, d') \<and> reads d d' \<and>
    (\<forall>num lengths'. r = Some (num, lengths') \<longrightarrow>
       (\<exists>acc'. num = length acc' \<and> arr acc' lengths' \<and> (\<forall>l \<in> set acc'. l < 16) \<and> num \<le> want))"
  (is "\<exists>r d'. _ \<and> _ \<and> ?P r")
proof -
  have fill: "\<exists>r. fill_lengths n want v (length acc) lengths = Some r \<and> ?P (Some r)" if "v < 16" for n v
    using fill_lengths_arr[OF assms(1) _ assms(4), of n v] assms(2,3) that
    by (force intro!: exI[of _ "acc @ replicate (min n (want - length acc)) v"])
  have rep: "\<exists>r d'. (case read_bits d k base of
          (None, d) \<Rightarrow> Some (None, d)
        | (Some n, d) \<Rightarrow> do { r \<leftarrow> fill_lengths n want v (length acc) lengths; Some (Some r, d) }) = Some (r, d') \<and>
      reads d d' \<and> ?P r" if "v < 16" for k base v
  proof -
    obtain q d' where q: "read_bits d k base = (q, d')" "reads d d'" using read_bits_cases[OF assms(6), of k base] by auto
    show ?thesis
    proof (cases q)
      case (Some n)
      then show ?thesis using q fill[OF that, of n] by auto
    qed (use q in simp)
  qed
  consider "sy = 16" "acc = []" | "sy = 16" "acc \<noteq> []" | "sy = 17" | "sy = 18" | "sy < 16" using assms(5) by linarith
  then show ?thesis
  proof cases
    case 1
    then show ?thesis using assms by (simp add: length_op_def reads_refl)
  next
    case 2
    then have "lengths ! (length acc - 1) = Some (last acc)" "last acc < 16"
      using arr_nth[OF assms(1), of "length acc - 1"] assms(2) by (simp_all add: last_conv_nth)
    then show ?thesis using 2 rep[of "last acc" 2 3] by (simp add: length_op_def)
  next
    case 3
    then show ?thesis using rep[of 0 3 3] by (simp add: length_op_def)
  next
    case 4
    then show ?thesis using rep[of 0 7 11] by (simp add: length_op_def)
  next
    case 5
    have "length lengths = 320" using assms(1) by (simp add: arr_def)
    then show ?thesis using 5 assms arr_snoc[OF assms(1), of sy]
      by (auto simp: length_op_def reads_refl intro!: exI[of _ "acc @ [sy]"])
  qed
qed

lemma read_lengths_safe:
  assumes "tree_ok cls t" "length cls = 19" "arr acc lengths" "\<forall>l \<in> set acc. l < 16" "length acc \<le> want" "want \<le> 320"
    "t_bitcount d < 8"
  shows "\<exists>r d'. read_lengths t want (length acc) lengths d = Some (r, d') \<and> reads d d' \<and>
    (\<forall>a. r = Some a \<longrightarrow> (\<exists>acc'. want = length acc' \<and> arr acc' a \<and> (\<forall>l \<in> set acc'. l < 16)))"
  using assms(3-5,7)
proof (induction "length (bits_left d)" arbitrary: acc lengths d rule: less_induct)
  case less
  show ?case
  proof (cases "want \<le> length acc")
    case True
    then show ?thesis using less.prems by (subst read_lengths.simps) (auto simp: reads_refl)
  next
    case False
    obtain r d1 where r: "decode_symbol d t = Some (r, d1)" "reads d d1"
      "\<forall>n. r = Some n \<longrightarrow> n < 19 \<and> length (bits_left d1) < length (bits_left d)"
      using decode_symbol_safe[OF assms(1) less.prems(4)] assms(2) by auto
    show ?thesis
    proof (cases r)
      case None
      then show ?thesis using r False by (subst read_lengths.simps) auto
    next
      case (Some sy)
      have b1: "t_bitcount d1 < 8" using r(2) by (simp add: reads_def)
      obtain q d2 where q: "length_op sy want (length acc) lengths d1 = Some (q, d2)" "reads d1 d2"
        "\<forall>num lengths'. q = Some (num, lengths') \<longrightarrow>
           (\<exists>acc'. num = length acc' \<and> arr acc' lengths' \<and> (\<forall>l \<in> set acc'. l < 16) \<and> num \<le> want)"
        using length_op_safe[OF less.prems(1,2) _ assms(6) _ b1, of sy] r(3) Some False by auto
      show ?thesis
      proof (cases q)
        case None
        then show ?thesis using r q False Some reads_trans[OF r(2) q(2)] by (subst read_lengths.simps) auto
      next
        case (Some nl)
        obtain acc' where acc: "fst nl = length acc'" "arr acc' (snd nl)" "\<forall>l \<in> set acc'. l < 16" "length acc' \<le> want"
          using q(3) Some by (cases nl) auto
        have "length (bits_left d2) < length (bits_left d)" "t_bitcount d2 < 8"
          using r(3) \<open>r = Some sy\<close> q(2) by (auto simp: reads_def)
        then show ?thesis
          using less.hyps[OF _ acc(2-)] r q False Some \<open>r = Some sy\<close> acc(1) reads_trans[OF reads_trans[OF r(2) q(2)]]
          by (subst read_lengths.simps) fastforce
      qed
    qed
  qed
qed

section \<open>Whole streams\<close>

text \<open>The state between two blocks.\<close>

definition good :: "tinf \<Rightarrow> bool" where
  "good d \<longleftrightarrow> t_bitcount d < 8 \<and> length (t_out d) \<le> t_cap d \<and>
     length (symbols (ltree d)) = 288 \<and> length (symbols (dtree d)) = 288"

lemma good_reads: "good d \<Longrightarrow> reads d d' \<Longrightarrow> good d'"
  by (simp add: good_def reads_def)

text \<open>A result of a step: one of the three codes, a good state, the same buffer, no new bits.\<close>

definition step_ok :: "tinf \<Rightarrow> int \<times> tinf \<Rightarrow> bool" where
  "step_ok d rd \<longleftrightarrow> fst rd \<in> {TINF_OK, TINF_DATA_ERROR, TINF_BUF_ERROR} \<and> good (snd rd) \<and>
     t_cap (snd rd) = t_cap d \<and> length (bits_left (snd rd)) \<le> length (bits_left d)"

lemma step_okI_reads: "good d \<Longrightarrow> reads d d' \<Longrightarrow> c \<in> {TINF_OK, TINF_DATA_ERROR, TINF_BUF_ERROR} \<Longrightarrow> step_ok d (c, d')"
  by (auto simp: step_ok_def good_reads) (auto simp: reads_def)

lemma step_ok_trans: "reads d d' \<Longrightarrow> step_ok d' rd \<Longrightarrow> step_ok d rd"
  by (auto simp: step_ok_def reads_def)

lemma code_tree_ok:
  assumes "\<forall>l \<in> set ls. l < 8" "length ls = 19"
  shows "\<exists>t. build_tree raw_tree (clen_array ls) 19 = Some t \<and> tree_ok ls t"
proof -
  have "\<forall>l \<in> set ls. l < 16" using assms(1) by fastforce
  moreover have "take 19 (clen_array ls) = map Some ls" using assms(2) by (simp add: clen_array_def)
  moreover have "length (symbols raw_tree) = 288" by (simp add: raw_tree_def)
  moreover have "length ls \<le> 288" using assms(2) by linarith
  ultimately show ?thesis by (intro build_tree_ok[OF _ _ _ _ assms(2)[symmetric]])
qed

lemma finish_trees_ok:
  assumes "arr acc lengths" "\<forall>l \<in> set acc. l < 16" "length acc = hlit + hdist" "hlit \<le> 286" "hdist \<le> 30" "good d"
  shows "\<exists>lt dt. finish_trees hlit hdist lengths d = Some (TINF_OK, d\<lparr>ltree := lt, dtree := dt\<rparr>) \<and>
    tree_ok (take hlit acc) lt \<and> tree_ok (drop hlit acc) dt"
proof -
  have sy: "length (symbols (ltree d)) = 288" "length (symbols (dtree d)) = 288" using assms(6) by (auto simp: good_def)
  have "\<forall>l \<in> set (take hlit acc). l < 16" "length (take hlit acc) \<le> 288" "hlit = length (take hlit acc)"
    using assms by (auto dest: in_set_takeD)
  moreover have "take hlit lengths = map Some (take hlit acc)" using arr_take[OF assms(1)] assms(3) by simp
  ultimately obtain lt where lt: "build_tree (ltree d) lengths hlit = Some lt" "tree_ok (take hlit acc) lt"
    using build_tree_ok[OF _ _ sy(1)] by metis
  have "\<forall>l \<in> set (drop hlit acc). l < 16" "length (drop hlit acc) \<le> 288" "hdist = length (drop hlit acc)"
    using assms by (auto dest: in_set_dropD)
  moreover have "take hdist (drop hlit lengths) = map Some (drop hlit acc)"
    using assms(1,3) by (simp add: arr_def take_drop drop_map[symmetric] add.commute)
  ultimately obtain dt where "build_tree (dtree d) (drop hlit lengths) hdist = Some dt" "tree_ok (drop hlit acc) dt"
    using build_tree_ok[OF _ _ sy(2)] by metis
  then show ?thesis using lt by (intro exI[of _ lt] exI[of _ dt]) (simp add: finish_trees_def)
qed

lemma good_trees:
  "good d \<Longrightarrow> tree_ok ll lt \<Longrightarrow> tree_ok dl dt \<Longrightarrow> good (d\<lparr>ltree := lt, dtree := dt\<rparr>)"
  "bits_left (d\<lparr>ltree := lt, dtree := dt\<rparr>) = bits_left d"
  by (auto simp: good_def tree_ok_def bits_left_def)

text \<open>After success both tables were built from some lengths.\<close>

definition tables_ok :: "tinf \<Rightarrow> bool" where
  "tables_ok d \<longleftrightarrow> (\<exists>ll dl. tree_ok ll (ltree d) \<and> tree_ok dl (dtree d))"

lemma decode_lengths_safe:
  assumes "good d" "hlit \<le> 286" "hdist \<le> 30" "hclen \<le> 19"
  shows "\<exists>rd. decode_lengths hlit hdist hclen d = Some rd \<and> step_ok d rd \<and> (fst rd = TINF_OK \<longrightarrow> tables_ok (snd rd))"
proof -
  have init: "replicate 19 (Some 0) @ replicate 301 None = clen_array (replicate 19 0)" by (simp add: clen_array_def)
  note fail = step_okI_reads[OF assms(1), of _ TINF_DATA_ERROR]
  obtain cl d1 where cl: "read_clens hclen 0 (clen_array (replicate 19 0)) d = Some (cl, d1)" "reads d d1"
    "\<forall>a. cl = Some a \<longrightarrow> (\<exists>cs. (\<forall>c \<in> set cs. c < 8) \<and> a = clen_array (put_clens 0 cs (replicate 19 0)))"
    using read_clens_cases[of "replicate 19 0" hclen 0 d] assms by (auto simp: clcidx_def good_def)
  show ?thesis
  proof (cases cl)
    case None
    then show ?thesis
      using cl fail[OF cl(2)] by (simp add: decode_lengths_def init TINF_OK_def TINF_DATA_ERROR_def)
  next
    case (Some a)
    then obtain cs where cs: "\<forall>c \<in> set cs. c < 8" "a = clen_array (put_clens 0 cs (replicate 19 0))" using cl(3) by auto
    let ?cls = "put_clens 0 cs (replicate 19 0)"
    have cb: "\<forall>l \<in> set ?cls. l < 8" using put_clens_bound[of "replicate 19 0" cs 0] cs(1) by simp
    obtain t where t: "build_tree raw_tree (clen_array ?cls) 19 = Some t" "tree_ok ?cls t" using code_tree_ok[OF cb] by auto
    have "arr [] (clen_array ?cls)" "t_bitcount d1 < 8" using cl(2) by (simp_all add: arr_def clen_array_def reads_def)
    then obtain ls d2 where ls: "read_lengths t (hlit + hdist) 0 (clen_array ?cls) d1 = Some (ls, d2)" "reads d1 d2"
      "\<forall>x. ls = Some x \<longrightarrow> (\<exists>acc. hlit + hdist = length acc \<and> arr acc x \<and> (\<forall>l \<in> set acc. l < 16))"
      using read_lengths_safe[OF t(2), of "[]" "clen_array ?cls" "hlit + hdist" d1] assms by auto
    have r: "reads d d2" "good d2" using reads_trans[OF cl(2) ls(2)] good_reads[OF assms(1)] by auto
    show ?thesis
    proof (cases ls)
      case None
      then show ?thesis
        using cl Some cs t ls fail[OF r(1)] by (simp add: decode_lengths_def init TINF_OK_def TINF_DATA_ERROR_def)
    next
      case (Some x)
      then obtain acc where acc: "length acc = hlit + hdist" "arr acc x" "\<forall>l \<in> set acc. l < 16" using ls(3) by auto
      obtain lt dt where t2: "finish_trees hlit hdist x d2 = Some (TINF_OK, d2\<lparr>ltree := lt, dtree := dt\<rparr>)"
        "tree_ok (take hlit acc) lt" "tree_ok (drop hlit acc) dt"
        using finish_trees_ok[OF acc(2,3,1) assms(2,3) r(2)] by auto
      then have "step_ok d (TINF_OK, d2\<lparr>ltree := lt, dtree := dt\<rparr>)" "tables_ok (d2\<lparr>ltree := lt, dtree := dt\<rparr>)"
        using good_trees(1)[OF r(2) t2(2,3)] r(1) by (auto simp: step_ok_def tables_ok_def reads_def good_trees(2))
      then show ?thesis using cl \<open>cl = Some a\<close> cs t ls Some t2 by (simp add: decode_lengths_def init)
    qed
  qed
qed

lemma decode_trees_safe:
  assumes "good d"
  shows "\<exists>rd. decode_trees d = Some rd \<and> step_ok d rd \<and> (fst rd = TINF_OK \<longrightarrow> tables_ok (snd rd))"
proof -
  have b0: "t_bitcount d < 8" using assms by (simp add: good_def)
  obtain hlit d1 where h1: "read_bits d 5 257 = (hlit, d1)" "reads d d1" using read_bits_cases[OF b0] by metis
  then have b1: "t_bitcount d1 < 8" by (simp add: reads_def)
  obtain hdist d2 where h2: "read_bits d1 5 1 = (hdist, d2)" "reads d1 d2" using read_bits_cases[OF b1] by metis
  then have b2: "t_bitcount d2 < 8" by (simp add: reads_def)
  obtain hclen d3 where h3: "read_bits d2 4 4 = (hclen, d3)" "reads d2 d3" "\<forall>v. hclen = Some v \<longrightarrow> v < 20"
    using read_bits_cases[OF b2, of 4 4] by auto
  have r3: "reads d d3" using h1(2) h2(2) h3(2) reads_trans by blast
  note pre = decode_trees_def h1(1) h2(1) h3(1) prod.case
  show ?thesis
  proof (cases "\<exists>a b c. hlit = Some a \<and> hdist = Some b \<and> hclen = Some c \<and> a \<le> 286 \<and> b \<le> 30")
    case False
    then have "decode_trees d = Some (TINF_DATA_ERROR, d3)"
      unfolding pre by (cases hlit; cases hdist; cases hclen) (auto simp: not_le)
    then show ?thesis using step_okI_reads[OF assms r3, of TINF_DATA_ERROR] by (simp add: TINF_OK_def TINF_DATA_ERROR_def)
  next
    case True
    then obtain a b c where abc: "hlit = Some a" "hdist = Some b" "hclen = Some c" "a \<le> 286" "b \<le> 30" by blast
    then have "decode_trees d = decode_lengths a b c d3" unfolding pre by simp
    then show ?thesis
      using decode_lengths_safe[OF good_reads[OF assms r3] abc(4,5), of c] h3(3) abc step_ok_trans[OF r3] by auto
  qed
qed

lemma copy_match_eq:
  assumes "0 < dist" "dist \<le> length out"
  shows "copy_match n dist out = Some (out @ map (\<lambda>i. out ! (length out - dist + i mod dist)) [0..<n])"
proof -
  let ?m = "\<lambda>n. map (\<lambda>i. out ! (length out - dist + i mod dist)) [0..<n]"
  have idx: "(out @ ?m k) ! (length out + k - dist) = out ! (length out - dist + k mod dist)" for k
  proof (cases "k < dist")
    case True
    then have "length out + k - dist < length out" "length out + k - dist = length out - dist + k" using assms by auto
    then show ?thesis using True by (simp add: nth_append)
  next
    case False
    then have "length out + k - dist = length out + (k - dist)" "(k - dist) mod dist = k mod dist"
      using assms by (simp_all add: le_mod_geq)
    then show ?thesis using False assms by (simp add: nth_append)
  qed
  have "copy_match n dist (out @ ?m k) = Some (out @ ?m (k + n))" for k
  proof (induction n arbitrary: k)
    case (Suc n)
    have "copy_match (Suc n) dist (out @ ?m k) = copy_match n dist (out @ ?m (Suc k))"
      using assms idx[of k] by simp
    then show ?case using Suc[of "Suc k"] by (simp del: upt_Suc)
  qed simp
  from this[of 0] show ?thesis by simp
qed

lemma fixed_trees_ok:
  assumes "good d"
  shows "\<exists>lt dt. build_fixed_trees (ltree d) (dtree d) = Some (lt, dt) \<and>
    tree_ok fixed_lengths lt \<and> tree_ok (replicate 30 5) dt"
proof -
  have sy: "length (symbols (ltree d)) = 288" "length (symbols (dtree d)) = 288" using assms by (auto simp: good_def)
  have fl: "\<forall>l \<in> set fixed_lengths. l < 16" "length fixed_lengths = 288" by (auto simp: fixed_lengths_def)
  then have "take 288 (map Some fixed_lengths) = map Some fixed_lengths" "length fixed_lengths \<le> 288" by simp_all
  then obtain lt where "build_tree (ltree d) (map Some fixed_lengths) 288 = Some lt" "tree_ok fixed_lengths lt"
    using build_tree_ok[OF fl(1) _ sy(1) _ fl(2)[symmetric]] by blast
  moreover have dl: "\<forall>l \<in> set (replicate 30 5). l < (16 :: nat)" "length (replicate 30 (5 :: nat)) \<le> 288"
    "take 30 (map Some (replicate 30 5 @ drop 30 fixed_lengths)) = map Some (replicate 30 5)"
    "30 = length (replicate 30 (5 :: nat))" by simp_all
  obtain dt where "build_tree (dtree d) (map Some (replicate 30 5 @ drop 30 fixed_lengths)) 30 = Some dt"
      "tree_ok (replicate 30 5) dt"
    using build_tree_ok[OF dl(1,2) sy(2) dl(3,4)] by blast
  ultimately show ?thesis by (simp add: build_fixed_trees_def)
qed

lemma dist_base_pos: "k < 30 \<Longrightarrow> 0 < dist_base ! k"
proof -
  have "list_all (\<lambda>b. 0 < b) dist_base" "length dist_base = 30" by (simp_all add: dist_base_def)
  then show "k < 30 \<Longrightarrow> 0 < dist_base ! k" by (simp add: list_all_length)
qed

lemma inflate_match_safe:
  assumes "good d" "tables_ok d"
  shows "\<exists>rd. inflate_match sy d = Some rd \<and> step_ok d rd \<and> tables_ok (snd rd)"
proof -
  have data: "step_ok d (TINF_DATA_ERROR, d') \<and> tables_ok d'" "step_ok d (TINF_BUF_ERROR, d') \<and> tables_ok d'"
    if "reads d d'" for d'
    using step_okI_reads[OF assms(1) that] assms(2) that by (auto simp: tables_ok_def reads_def)
  have b0: "t_bitcount d < 8" using assms(1) by (simp add: good_def)
  obtain len d1 where l: "read_bits d (length_bits ! sy) (length_base ! sy) = (len, d1)" "reads d d1"
    using read_bits_cases[OF b0, of "length_bits ! sy" "length_base ! sy"] by auto
  then have b1: "t_bitcount d1 < 8" by (simp add: reads_def)
  obtain dl where "tree_ok dl (dtree d1)" using assms(2) l(2) by (auto simp: tables_ok_def reads_def)
  then obtain ds d2 where s: "decode_symbol d1 (dtree d1) = Some (ds, d2)" "reads d1 d2"
    using decode_symbol_safe[OF _ b1] by blast
  then have b2: "t_bitcount d2 < 8" by (simp add: reads_def)
  define k where "k = (case ds of Some k \<Rightarrow> k | None \<Rightarrow> 0)"
  obtain dist d3 where t: "read_bits d2 (dist_bits ! k) (dist_base ! k) = (dist, d3)" "reads d2 d3"
    "\<forall>v. dist = Some v \<longrightarrow> dist_base ! k \<le> v"
    using read_bits_cases[OF b2, of "dist_bits ! k" "dist_base ! k"] by auto
  have r2: "reads d d2" using reads_trans[OF l(2) s(2)] .
  have r3: "reads d d3" using reads_trans[OF r2 t(2)] .
  show ?thesis
  proof (cases "29 \<le> sy \<or> len = None")
    case True
    then show ?thesis using data[OF l(2)] data[OF reads_refl[OF b0]] l by (cases len) (auto simp: inflate_match_def)
  next
    case False
    then obtain n where n: "len = Some n" by auto
    show ?thesis
    proof (cases "ds = None \<or> 30 \<le> k \<or> dist = None")
      case True
      then show ?thesis using False n data[OF r2] data[OF r3] l s t k_def by (cases ds) (auto simp: inflate_match_def)
    next
      case ok: False
      then obtain m where m: "dist = Some m" "ds = Some k" by (auto simp: k_def)
      then have "0 < m" using dist_base_pos[of k] ok t(3) by auto
      show ?thesis
      proof (cases "length (t_out d3) < m \<or> t_cap d3 < length (t_out d3) + n")
        case True
        then show ?thesis using False n m ok data[OF r3] l s t by (auto simp: inflate_match_def)
      next
        case fits: False
        define out where "out = t_out d3 @ map (\<lambda>i. t_out d3 ! (length (t_out d3) - m + i mod m)) [0..<n]"
        have "inflate_match sy d = Some (TINF_OK, d3\<lparr>t_out := out\<rparr>)"
          using False n m ok fits l s t copy_match_eq[OF \<open>0 < m\<close>, of "t_out d3" n] by (simp add: inflate_match_def out_def)
        moreover have "step_ok d (TINF_OK, d3\<lparr>t_out := out\<rparr>)"
          using good_reads[OF assms(1) r3] r3 fits by (auto simp: step_ok_def good_def reads_def bits_left_def out_def)
        ultimately show ?thesis using data(1)[OF r3] by (auto simp: tables_ok_def)
      qed
    qed
  qed
qed

lemma inflate_block_data_safe:
  assumes "good d" "tables_ok d"
  shows "\<exists>rd. inflate_block_data d = Some rd \<and> step_ok d rd"
  using assms
proof (induction "length (bits_left d)" arbitrary: d rule: less_induct)
  case less
  have b0: "t_bitcount d < 8" using less.prems(1) by (simp add: good_def)
  obtain ll where "tree_ok ll (ltree d)" using less.prems(2) by (auto simp: tables_ok_def)
  then obtain r d1 where r: "decode_symbol d (ltree d) = Some (r, d1)" "reads d d1"
    "\<forall>n. r = Some n \<longrightarrow> length (bits_left d1) < length (bits_left d)"
    using decode_symbol_safe[OF _ b0] by blast
  have d1: "good d1" "tables_ok d1" "t_cap d1 = t_cap d" using good_reads[OF less.prems(1) r(2)] less.prems(2) r(2)
    by (auto simp: tables_ok_def reads_def)
  note stop = step_okI_reads[OF less.prems(1) r(2)]
  consider "r = None" | "r = Some 256" | sy where "r = Some sy" "sy < 256" | sy where "r = Some sy" "256 < sy"
    by (cases r) (auto, metis linorder_neqE_nat)
  then show ?case
  proof cases
    case 1
    then show ?thesis using r stop by (subst inflate_block_data.simps) simp
  next
    case 2
    then show ?thesis using r stop by (subst inflate_block_data.simps) simp
  next
    case 3
    let ?d = "d1\<lparr>t_out := t_out d1 @ [of_nat sy]\<rparr>"
    have bits: "bits_left ?d = bits_left d1" by (simp add: bits_left_def)
    show ?thesis
    proof (cases "t_cap d1 \<le> length (t_out d1)")
      case True
      then show ?thesis using 3 r stop by (subst inflate_block_data.simps) simp
    next
      case False
      then have "good ?d" "tables_ok ?d" using d1 by (auto simp: good_def tables_ok_def)
      then obtain rd where "inflate_block_data ?d = Some rd" "step_ok ?d rd" using less.hyps[of ?d] r(3) 3 bits by auto
      moreover have "step_ok d rd" if "step_ok ?d rd" using that r(2) bits by (auto simp: step_ok_def reads_def)
      ultimately show ?thesis using 3 r False by (subst inflate_block_data.simps) simp
    qed
  next
    case 4
    obtain rd where rd: "inflate_match (sy - 257) d1 = Some rd" "step_ok d1 rd" "tables_ok (snd rd)"
      using inflate_match_safe[OF d1(1,2)] by blast
    show ?thesis
    proof (cases "fst rd = TINF_OK")
      case False
      then show ?thesis using 4 r rd step_ok_trans[OF r(2) rd(2)] by (subst inflate_block_data.simps) simp
    next
      case True
      have "length (bits_left (snd rd)) < length (bits_left d)" "good (snd rd)" using rd(2) r(3) 4 by (auto simp: step_ok_def)
      then obtain rd' where "inflate_block_data (snd rd) = Some rd'" "step_ok (snd rd) rd'" using less.hyps rd(3) by blast
      moreover have "step_ok d rd'" if "step_ok (snd rd) rd'"
        using that rd(2) r(2) by (auto simp: step_ok_def reads_def)
      ultimately show ?thesis using 4 r rd True by (subst inflate_block_data.simps) simp
    qed
  qed
qed

lemma inflate_uncompressed_safe:
  assumes "good d"
  shows "step_ok d (inflate_uncompressed_block d)"
  using assms by (auto simp: inflate_uncompressed_block_def Let_def step_ok_def good_def bits_left_def)

lemma inflate_block_safe:
  assumes "good d"
  shows "\<exists>rd. inflate_block btype d = Some rd \<and> step_ok d rd"
proof -
  obtain lt dt where f: "build_fixed_trees (ltree d) (dtree d) = Some (lt, dt)"
      "tree_ok fixed_lengths lt" "tree_ok (replicate 30 5) dt" using fixed_trees_ok[OF assms] by blast
  let ?d = "d\<lparr>ltree := lt, dtree := dt\<rparr>"
  obtain r1 where r1: "inflate_block_data ?d = Some r1" "step_ok ?d r1"
    using inflate_block_data_safe[OF good_trees(1)[OF assms f(2,3)]] f by (auto simp: tables_ok_def)
  then have r1': "step_ok d r1" by (auto simp: step_ok_def good_trees(2))
  obtain r2 where r2: "decode_trees d = Some r2" "step_ok d r2" "fst r2 = TINF_OK \<longrightarrow> tables_ok (snd r2)"
    using decode_trees_safe[OF assms] by blast
  have r3: "\<exists>rd. inflate_block_data (snd r2) = Some rd \<and> step_ok d rd" if ok: "fst r2 = TINF_OK"
  proof -
    have "good (snd r2)" using r2(2) by (simp add: step_ok_def)
    then obtain rd where "inflate_block_data (snd r2) = Some rd" "step_ok (snd r2) rd"
      using inflate_block_data_safe r2(3) ok by blast
    then show ?thesis using r2(2) by (auto simp: step_ok_def)
  qed
  have "step_ok d (TINF_DATA_ERROR, d)"
    using assms step_okI_reads[OF assms reads_refl, of TINF_DATA_ERROR] by (simp add: good_def)
  then show ?thesis
    using inflate_uncompressed_safe[OF assms] f r1 r1' r2 r3
    by (cases "fst r2 = TINF_OK") (auto simp: inflate_block_def simp del: split_paired_Ex split: prod.splits)
qed

lemma inflate_loop_safe:
  assumes "good d"
  shows "\<exists>rd. inflate_loop d = Some rd \<and> step_ok d rd"
  using assms
proof (induction "length (bits_left d)" arbitrary: d rule: less_induct)
  case less
  have b0: "t_bitcount d < 8" using less.prems by (simp add: good_def)
  consider "getbit d = (None, d)"
    | b d1 where "getbit d = (Some (of_bool b), d1)" "reads d d1" "length (bits_left d1) < length (bits_left d)"
    using getbit_cases[OF b0] by blast
  then show ?case
  proof cases
    case 1
    then show ?thesis using step_okI_reads[OF less.prems reads_refl[OF b0], of TINF_DATA_ERROR]
      by (subst inflate_loop.simps) simp
  next
    case 2
    then have "t_bitcount d1 < 8" by (simp add: reads_def)
    then obtain bt d2 where bt: "read_bits d1 2 0 = (bt, d2)" "reads d1 d2" using read_bits_cases by metis
    have r2: "reads d d2" using reads_trans[OF 2(2) bt(2)] .
    show ?thesis
    proof (cases bt)
      case None
      then show ?thesis using 2 bt step_okI_reads[OF less.prems r2, of TINF_DATA_ERROR]
        by (subst inflate_loop.simps) (simp add: Let_def)
    next
      case (Some btype)
      obtain rd where rd: "inflate_block btype d2 = Some rd" "step_ok d2 rd"
        using inflate_block_safe[OF good_reads[OF less.prems r2]] by blast
      then have "length (bits_left (snd rd)) < length (bits_left d)" "good (snd rd)"
        using 2(3) bt(2) by (auto simp: step_ok_def reads_def)
      then obtain rd' where rd': "inflate_loop (snd rd) = Some rd'" "step_ok (snd rd) rd'" using less.hyps by blast
      then have "step_ok d rd'" "step_ok d rd" using rd(2) r2 by (auto simp: step_ok_def reads_def)
      then show ?thesis using 2 bt Some rd rd' by (subst inflate_loop.simps) (auto simp: Let_def simp del: split_paired_Ex)
    qed
  qed
qed

section \<open>The property\<close>

text \<open>C13: On every input, however malformed, \<open>inflate_raw\<close> and \<open>inflate_zlib\<close> return (the block loop and
  the symbol loops end), never read a table entry that was not written, never index an array out of
  bounds, never read below the start of the output and never write more than the caller's \<open>cap\<close>
  bytes; the return code is one of the three documented ones.
\<close>

theorem inflate_memory_safe:
  "(\<exists>res out. inflate_raw cap src = Some (res, out) \<and> length out \<le> cap \<and>
      (res = 0 \<or> res = - 3 \<or> res = - 5)) \<and>
   (\<exists>res out. inflate_zlib cap src = Some (res, out) \<and> length out \<le> cap \<and>
      (res = 0 \<or> res = - 3 \<or> res = - 5))"
proof -
  have raw: "\<exists>res out. inflate_raw cap s = Some (res, out) \<and> length out \<le> cap \<and>
      (res = 0 \<or> res = - 3 \<or> res = - 5)" for s
  proof -
    let ?d = "\<lparr>t_src = s, t_tag = 0, t_bitcount = 0, t_out = [], t_cap = cap, ltree = raw_tree, dtree = raw_tree\<rparr>"
    have "good ?d" by (simp add: good_def raw_tree_def)
    then obtain rd where "inflate_loop ?d = Some rd" "step_ok ?d rd" using inflate_loop_safe by blast
    then show ?thesis
      by (cases rd) (auto simp: inflate_raw_def step_ok_def good_def TINF_OK_def TINF_DATA_ERROR_def TINF_BUF_ERROR_def)
  qed
  show ?thesis using raw[of src] raw[of "drop 2 src"] by (auto simp: inflate_zlib_def Let_def TINF_DATA_ERROR_def)
qed

end
