(* ===== verification/Spec2Isabelle.thy ===== *)
theory Spec2Isabelle
  imports ListHead KmallocInv Kfifo Pipe Hashtable Wait Crc32 Hkdf Md5 Aead X25519Props CString PageCacheProps RbProps Bpf InflateProps
begin

text \<open>
  A model of the SUB-OS kernel: memory management, the scheduler with its wait queues, the library the rest of the
  kernel is built on, the page cache over the block layer, the cryptographic primitives of the TLS client, the
  DEFLATE decoder and the eBPF machine. Paths below are relative to \<open>src/\<close>.

  \<^bold>\<open>Conventions.\<close> A C struct is a record and an enum a datatype, with the field names of the source where they do not
  clash. A function takes the state it reads and returns the state it leaves. Bytes and fixed-width integers on
  which the code works bitwise are words (\<open>u8\<close> to \<open>u64\<close>); \<open>size_t\<close> values are naturals whose wrap-around is written
  out with \<open>wrap64\<close> and \<open>sub64\<close>; \<open>int\<close> values are integers converted with \<open>int32\<close>. Pointers are options or addresses
  with 0 for NULL. A NULL dereference, an access out of bounds, a read of an uninitialised entry, a signed
  overflow and a loop that does not end are the result \<open>None\<close> (a separate result where the code also returns a
  failure), so that a theorem that gives a \<open>Some\<close> result rules them out. Operations that hold a spin lock or run
  with interrupts masked are one step. What the environment decides is an argument: firmware memory maps, the
  outcome of an allocation where the allocator is not the subject, timer ticks, the functions of a driver.

  \<^bold>\<open>Shared layer.\<close> \<open>Prelude\<close> has the machine types, their conversions and generic lemmas. \<open>Links\<close> has doubly linked
  chains, used by \<open>ListHead\<close> (\<open>include/lib/list.h\<close>) and by the heap. Interfaces are locales, each interpreted on the
  model's own operations: \<open>node_list\<close> (list.h), \<open>bit_array\<close> (lib/bitmap.c, used by the page allocator),
  \<open>page_provider\<close> (mm/pmm.c, used by the heap), \<open>byte_queue\<close> (lib/kfifo.c and ipc/pipe.c), \<open>kv_table\<close>
  (lib/hashtable.c with string and with integer keys), \<open>stream_hash\<close> (SHA-256, MD5 and Poly1305), \<open>block_driver\<close> and
  its extension \<open>reliable_driver\<close> (drivers/block/ramdisk.c, used by the page cache).

  \<^bold>\<open>Memory.\<close> \<open>Bitmap\<close> models lib/bitmap.c and \<open>Pmm\<close> mm/pmm.c from \<open>pmm_init\<close> on: \<open>pmm_reach\<close> is the set of states any
  history of allocations and releases reaches. Ranges handed out are disjoint, marked and outside the kernel,
  the counters are exact, allocation is first fit (with the one exception of page 0, whose address is NULL), and
  a release undoes an allocation. \<open>Kmalloc\<close> models mm/kmalloc.c on a store of block headers; \<open>KmallocInv\<close> has the
  invariant of the block list (\<open>heap_reach\<close> is reachability) and what \<open>kmalloc\<close>, \<open>kfree\<close> and \<open>krealloc\<close> promise. The
  bound \<open>2 ^ 64 - 2 ^ 13\<close> on requests keeps the rounding to 16 bytes and then to pages from wrapping; that it is needed is
  shown for requests in the last 15 bytes.

  \<^bold>\<open>Scheduling.\<close> \<open>Switch\<close> models the register swap in arch/*/cpu/switch.* and \<open>task_forge_frame\<close>. \<open>Sched\<close> models
  kernel/sched.c and kernel/task.c: the lanes and the task list are lists in one store. \<open>SchedInv\<close> has the invariant
  \<open>sched_rep\<close>, \<open>SchedProps\<close> the runs from boot (\<open>sched_reach\<close>, the operations restricted by \<open>op_ok\<close>): no fault, dispatch
  order, round robin, preemption within the quantum and none while it is disabled. Pids are 32-bit and never reused,
  so \<open>op_ok\<close> stops creation where the counter would overflow. \<open>Wait\<close> models kernel/wait.c on the scheduler: queues are
  first in first out, wake-ups take the longest sleeper, and a task that sleeps in \<open>wait_event\<close> while another
  is ready is never scheduled again, because waking does not enqueue.

  \<^bold>\<open>Library.\<close> \<open>Kfifo\<close> (lib/kfifo.c) and \<open>Pipe\<close> (ipc/pipe.c) are first-in-first-out streams of bytes. \<open>Hashtable\<close>
  (lib/hashtable.c) refines a finite map, growth and failed allocations included. \<open>RbTree\<close> models lib/rbtree.c on a
  memory of nodes; \<open>RbTreeInv\<close>, \<open>RbErase\<close> and \<open>RbUnlink\<close> relate it to trees with a focus, and \<open>RbProps\<close> states insertion,
  deletion, traversal and \<open>rb_validate\<close>. \<open>CString\<close> (lib/string.c) has \<open>memmove\<close> under every overlap and the round trip of
  number printing and reading. \<open>Printf\<close> (lib/vsprintf.c) bounds what is stored. \<open>Inflate\<close> models lib/inflate.c,
  \<open>InflateTree\<close> its canonical Huffman codes, \<open>InflateSafe\<close> shows that it returns on every input without an undefined
  access, and \<open>InflateProps\<close> that it inverts an encoder for RFC 1951.

  \<^bold>\<open>Storage.\<close> \<open>Block\<close> models block/block.c and drivers/block/ramdisk.c, \<open>PageCache\<close> mm/page_cache.c over the hash table,
  the printer that makes its keys, and the driver. \<open>PageCacheInv\<close> has the coherence invariant for any
  \<open>block_driver\<close>, \<open>PageCacheProps\<close> that the cache answers as an array of bytes would and that a flush makes the
  array durable. \<open>pc_op_ok\<close> names the histories in scope: names of at most 31 characters (a longer name is cut in the page
  but not in the index), transfers that do not wrap, writes inside a writable device, allocations that succeed.

  \<^bold>\<open>Cryptography.\<close> \<open>BlockHash\<close> is what streaming hashes share. \<open>Sha256\<close>, \<open>Hkdf\<close>, \<open>Md5\<close>, \<open>ChaCha20\<close>, \<open>Poly1305\<close>, \<open>Aead\<close>,
  \<open>X25519\<close> and \<open>Crc32\<close> model the files of crypto/ with these names (the three of chacha20poly1305.c separately). The
  standards are stated apart from the code: \<open>Sha256Spec\<close> (FIPS 180-4 and RFC 2104, constants computed from the roots
  of the primes), \<open>rfc5869_expand\<close> in \<open>Hkdf\<close>, \<open>ChaChaSpec\<close> (the block function of RFC 8439), Poly1305 over the integers
  modulo \<open>2 ^ 130 - 5\<close>, X25519 over the integers modulo \<open>2 ^ 255 - 19\<close> in \<open>X25519Props\<close>, and the division by the
  generator polynomial in \<open>Crc32\<close>. Each implementation is shown to compute its standard, however the input is split.

  \<^bold>\<open>eBPF.\<close> \<open>Bpf\<close> models kernel/bpf.c. A run of an accepted program never reads a register or an instruction out of bounds.

  \<^bold>\<open>Loops and fuel.\<close> Loops that always end are structurally recursive or have a termination proof. Loops that need not
  end on a corrupted structure or an unterminated string are partial functions into \<open>option\<close>; theorems about them
  give the \<open>Some\<close> result. Only \<open>bpf_prog_run\<close> takes fuel: the verifier accepts backward jumps, so a run need not
  end, and a program of at most 256 instructions whose jumps all go forward returns with any fuel above 256.

  \<^bold>\<open>Not modelled.\<close> Device drivers other than the RAM disk, boot and architecture code other than the switch (their state
  is in the hardware); the file systems, the network stack and TLS, which need those drivers; the desktop and the
  user programs; futexes, RCU and locks, whose point is the interleaving of processors that atomic steps do not
  show; printed diagnostics throughout. The undefined behaviour of unaligned or overlapping C objects is out of
  scope except where a text says otherwise.
\<close>

end
